(* ===== verification/Prelude.thy ===== *)
theory Prelude
  imports Main "HOL-Library.Word" "HOL-Library.Multiset"
begin

text \<open>
  What the components share: Go's runtime panics as values, slices with Go's bounds checks,
  unsigned subtraction, and the generic lemmas on lists, sums and maps that the component
  proofs use.

  Conventions. A Go function that can panic has a result in \<open>'a res\<close>, with
  \<open>Inl\<close> for the panic. The source ends its field names with an underscore, which
  Isabelle does not allow: the field \<^verbatim>\<open>kv_map_\<close> is \<open>kv_map\<close> here.
  A \<^verbatim>\<open>uint64\<close> that is compared and incremented only (terms, log indices) is
  a \<open>nat\<close>: reaching \<open>2 ^ 64\<close> would need as many elections or log entries. Its
  subtraction is \<open>u64_sub\<close>, which wraps as Go does. Versions of keys are
  \<open>64 word\<close>, since a client chooses them.
\<close>

section \<open>Collections of facts\<close>

named_theorems go_simps \<open>rewriting of panicking computations\<close>

section \<open>Panics\<close>

datatype panic =
    IndexOutOfRange
  | SliceBounds
  | LogicError
  | NilMap
  | TypeAssertion
  | DivideByZero
  | Fatal

type_synonym 'a res = "panic + 'a"

text \<open>
  A byte slice that the program only passes between an encoder and a decoder (snapshots) is
  the list of the values written to the encoder; it is empty exactly when nothing was written.
\<close>

datatype (plugins del: code) kv_table = KvTable (kv_entries: "string \<Rightarrow> (string \<times> 64 word) option")

text \<open>Tables are compared in the logic only, never when a witness is evaluated.\<close>

instantiation kv_table :: equal
begin

definition equal_kv_table :: "kv_table \<Rightarrow> kv_table \<Rightarrow> bool" where
  [code del]: "equal_kv_table s t \<longleftrightarrow> s = t"

instance
  by standard (simp add: equal_kv_table_def)

end

datatype gval =
    GvInt int
  | GvString string
  | GvKvMap kv_table
  | GvList "gval option list"

type_synonym bytes = "gval list"

definition bindr :: "'a res \<Rightarrow> ('a \<Rightarrow> 'b res) \<Rightarrow> 'b res" where
  "bindr m f = (case m of Inl e \<Rightarrow> Inl e | Inr x \<Rightarrow> f x)"

lemma bindr_Inl [simp, go_simps]: "bindr (Inl e) f = Inl e"
  by (simp add: bindr_def)

lemma bindr_Inr [simp, go_simps]: "bindr (Inr x) f = f x"
  by (simp add: bindr_def)

lemma bindr_eq_Inr [go_simps]: "bindr m f = Inr y \<longleftrightarrow> (\<exists>x. m = Inr x \<and> f x = Inr y)"
  by (cases m) auto

lemma bindr_assoc: "bindr (bindr m f) g = bindr m (\<lambda>x. bindr (f x) g)"
  by (cases m) auto

text \<open>The computation does not panic and its result satisfies \<open>P\<close>: total correctness.\<close>

definition returns :: "'a res \<Rightarrow> ('a \<Rightarrow> bool) \<Rightarrow> bool" where
  "returns m P \<longleftrightarrow> (\<exists>x. m = Inr x \<and> P x)"

lemma returns_simps [simp]:
  "returns (Inr x) P = P x" "returns (Inl e) P = False"
  "returns (bindr a f) Q = returns a (\<lambda>y. returns (f y) Q)"
  "returns (if c then m else m') P = (if c then returns m P else returns m' P)"
  by (auto simp: returns_def bindr_eq_Inr)

lemma returns_mono: "returns m P \<Longrightarrow> (\<And>x. P x \<Longrightarrow> Q x) \<Longrightarrow> returns m Q"
  by (auto simp: returns_def)

lemma returnsD: "returns m P \<Longrightarrow> m = Inr x \<Longrightarrow> P x"
  by (auto simp: returns_def)

section \<open>Slices and machine arithmetic\<close>

text \<open>\<^verbatim>\<open>xs[i]\<close>, \<^verbatim>\<open>xs[i] = v\<close> and \<^verbatim>\<open>xs[a:b]\<close> of Go, with their bounds checks.\<close>

definition idx :: "'a list \<Rightarrow> nat \<Rightarrow> 'a res" where
  "idx xs i = (if i < length xs then Inr (xs ! i) else Inl IndexOutOfRange)"

definition set_idx :: "'a list \<Rightarrow> nat \<Rightarrow> 'a \<Rightarrow> 'a list res" where
  "set_idx xs i v = (if i < length xs then Inr (xs[i := v]) else Inl IndexOutOfRange)"

definition slice :: "'a list \<Rightarrow> nat \<Rightarrow> nat \<Rightarrow> 'a list res" where
  "slice xs a b = (if a \<le> b \<and> b \<le> length xs then Inr (take (b - a) (drop a xs)) else Inl SliceBounds)"

definition u64_sub :: "nat \<Rightarrow> nat \<Rightarrow> nat" where
  "u64_sub a b = (if b \<le> a then a - b else a + 2 ^ 64 - b)"

text \<open>The conversion of a Go \<^verbatim>\<open>int\<close> to \<^verbatim>\<open>uint64\<close>.\<close>

definition to_u64 :: "int \<Rightarrow> nat" where
  "to_u64 i = nat (i mod 2 ^ 64)"

lemma idx_eq_Inr [simp]: "idx xs i = Inr x \<longleftrightarrow> i < length xs \<and> x = xs ! i"
  by (auto simp: idx_def)

lemma idx_in [simp, go_simps]: "i < length xs \<Longrightarrow> idx xs i = Inr (xs ! i)"
  by (simp add: idx_def)

lemma set_idx_eq_Inr [simp]: "set_idx xs i v = Inr ys \<longleftrightarrow> i < length xs \<and> ys = xs[i := v]"
  by (auto simp: set_idx_def)

lemma set_idx_in [simp, go_simps]: "i < length xs \<Longrightarrow> set_idx xs i v = Inr (xs[i := v])"
  by (simp add: set_idx_def)

lemma slice_in [simp, go_simps]:
  "a \<le> b \<Longrightarrow> b \<le> length xs \<Longrightarrow> slice xs a b = Inr (take (b - a) (drop a xs))"
  by (simp add: slice_def)

lemma u64_sub_le [simp]: "b \<le> a \<Longrightarrow> u64_sub a b = a - b"
  by (simp add: u64_sub_def)

lemma to_u64_nonneg: "0 \<le> i \<Longrightarrow> i < 2 ^ 64 \<Longrightarrow> to_u64 i = nat i"
  by (simp add: to_u64_def)

lemma to_u64_of_nat [simp]: "n < 2 ^ 64 \<Longrightarrow> to_u64 (int n) = n"
  by (simp add: to_u64_def)

section \<open>Lists\<close>

lemma take_eq_nthI:
  assumes "length xs = n" and "n \<le> length ys" and "\<And>i. i < n \<Longrightarrow> xs ! i = ys ! i"
  shows "xs = take n ys"
  using assms by (auto intro: nth_equalityI)

lemma take_eq_mono: "take n xs = take n ys \<Longrightarrow> m \<le> n \<Longrightarrow> take m xs = take m ys"
  by (metis min.absorb1 take_take)

lemma take_eq_nth: "take n xs = take n ys \<Longrightarrow> i < n \<Longrightarrow> i < length xs \<Longrightarrow> i < length ys \<Longrightarrow> xs ! i = ys ! i"
  by (metis nth_take)

lemma mset_concat_filter_classes:
  assumes "\<And>x. x \<in> set xs \<Longrightarrow> f x < n"
  shows "mset (concat (map (\<lambda>r. filter (\<lambda>x. f x = r) xs) [0..<n])) = mset xs"
  using assms
proof (induction n arbitrary: xs)
  case 0
  then show ?case by (cases xs) auto
next
  case (Suc n)
  let ?lo = "filter (\<lambda>x. f x \<noteq> n) xs"
  have lo: "mset (concat (map (\<lambda>r. filter (\<lambda>x. f x = r) ?lo) [0..<n])) = mset ?lo"
    using Suc.prems by (intro Suc.IH) (fastforce simp: less_Suc_eq)
  have eq: "map (\<lambda>r. filter (\<lambda>x. f x = r) ?lo) [0..<n] = map (\<lambda>r. filter (\<lambda>x. f x = r) xs) [0..<n]"
    by (auto intro!: filter_cong)
  have "mset (concat (map (\<lambda>r. filter (\<lambda>x. f x = r) xs) [0..<n])) = mset ?lo"
    using lo unfolding eq .
  then show ?case
    by (simp add: mset_filter)
qed

text \<open>Two lists over a finite set whose lengths add up to more than its size share an element.\<close>

lemma majorities_meet:
  assumes "A \<subseteq> {..<n}" and "B \<subseteq> {..<n}" and "n < card A + card B"
  shows "A \<inter> B \<noteq> {}"
proof
  assume "A \<inter> B = {}"
  moreover have "finite A" "finite B" using assms(1,2) finite_subset by blast+
  ultimately have "card (A \<union> B) = card A + card B" by (simp add: card_Un_disjoint)
  moreover have "card (A \<union> B) \<le> card {..<n}" using assms(1,2) by (intro card_mono) auto
  ultimately show False using assms(3) by simp
qed

section \<open>Loops\<close>

text \<open>A \<^verbatim>\<open>for range\<close> loop whose body may panic.\<close>

fun for_each :: "('a \<Rightarrow> 's \<Rightarrow> 's res) \<Rightarrow> 'a list \<Rightarrow> 's \<Rightarrow> 's res" where
  "for_each f [] s = Inr s"
| "for_each f (x # xs) s = bindr (f x s) (for_each f xs)"

lemma for_each_append [simp]: "for_each f (xs @ ys) s = bindr (for_each f xs s) (for_each f ys)"
  by (induction xs arbitrary: s) (auto simp: bindr_def split: sum.split)

lemma for_each_cong [fundef_cong]:
  "xs = ys \<Longrightarrow> s = t \<Longrightarrow> (\<And>x u. x \<in> set ys \<Longrightarrow> f x u = g x u) \<Longrightarrow> for_each f xs s = for_each g ys t"
proof (induction xs arbitrary: ys s t)
  case (Cons x xs)
  then have "f x t = g x t" "\<And>u. for_each f xs u = for_each g xs u" by auto
  then show ?case using Cons.prems(1,2) by (auto simp: bindr_def split: sum.split)
qed simp

text \<open>
  The rule for such a loop: the invariant speaks of the elements already visited, and the loop
  does not panic.
\<close>

lemma for_each_invariant:
  assumes "I [] s"
    and "\<And>ys x zs t. xs = ys @ x # zs \<Longrightarrow> I ys t \<Longrightarrow> returns (f x t) (I (ys @ [x]))"
  shows "returns (for_each f xs s) (I xs)"
proof -
  have "returns (for_each f zs t) (I (ys @ zs))" if "xs = ys @ zs" "I ys t" for ys zs t
    using that
  proof (induction zs arbitrary: ys t)
    case (Cons x zs)
    have "returns (f x t) (I (ys @ [x]))" by (rule assms(2) [OF Cons.prems])
    then show ?case
      using Cons.IH [of "ys @ [x]"] Cons.prems(1) by (auto elim: returns_mono)
  qed simp
  from this [of "[]" xs s] show ?thesis using assms(1) by simp
qed

lemma for_each_returns:
  assumes "P s" and "\<And>x t. x \<in> set xs \<Longrightarrow> P t \<Longrightarrow> returns (f x t) P"
  shows "returns (for_each f xs s) P"
  using for_each_invariant [of "\<lambda>_. P" s xs f] assms by auto

section \<open>Numbers as text\<close>

text \<open>\<^verbatim>\<open>strconv.Itoa\<close> on a number that is not negative.\<close>

fun itoa :: "nat \<Rightarrow> string" where
  "itoa n = (if n < 10 then [char_of (48 + n)] else itoa (n div 10) @ [char_of (48 + n mod 10)])"

declare itoa.simps [simp del]

definition is_digit :: "char \<Rightarrow> bool" where
  "is_digit c \<longleftrightarrow> 48 \<le> (of_char c :: nat) \<and> of_char c \<le> (57 :: nat)"

lemma itoa_digits: "c \<in> set (itoa n) \<Longrightarrow> is_digit c"
proof (induction n rule: itoa.induct)
  case (1 n)
  have d: "is_digit (char_of (48 + m))" if "m < 10" for m :: nat
    using that by (simp add: is_digit_def)
  show ?case
    using 1 d [of n] d [of "n mod 10"] by (cases "n < 10") (auto simp: itoa.simps [of n])
qed

text \<open>Reading the digits back.\<close>

definition atoi :: "string \<Rightarrow> nat" where
  "atoi s = foldl (\<lambda>n c. 10 * n + (of_char c - 48)) 0 s"

lemma atoi_itoa [simp]: "atoi (itoa n) = n"
proof (induction n rule: itoa.induct)
  case (1 n)
  have d: "(of_char (char_of (48 + m)) :: nat) = 48 + m" if "m < 10" for m :: nat
    using that by simp
  show ?case
    using 1 d [of n] d [of "n mod 10"]
    by (cases "n < 10") (simp_all add: itoa.simps [of n] atoi_def)
qed

lemma itoa_inj [simp]: "itoa m = itoa n \<longleftrightarrow> m = n"
  by (metis atoi_itoa)

end
