(* ===== verification/Rpc.thy ===== *)
theory Rpc
  imports Prelude
begin

text \<open>
  The messages of the key/value services (kvsrv1/rpc/rpc.go) and what one remote call can do.
  \<open>Err\<close> is a Go string type, so an error is a \<open>string\<close> and the zero value of a
  reply carries the empty one. A call over the simulated network either executes the handler
  once or not at all; when it reports failure the caller cannot tell which
  (theory \<open>Labrpc\<close> derives this from the network's code).
\<close>

type_synonym Err = string

definition OK :: Err where "OK = ''OK''"
definition ErrNoKey :: Err where "ErrNoKey = ''ErrNoKey''"
definition ErrVersion :: Err where "ErrVersion = ''ErrVersion''"
definition ErrMaybe :: Err where "ErrMaybe = ''ErrMaybe''"
definition ErrWrongLeader :: Err where "ErrWrongLeader = ''ErrWrongLeader''"
definition ErrWrongGroup :: Err where "ErrWrongGroup = ''ErrWrongGroup''"

lemmas err_defs = OK_def ErrNoKey_def ErrVersion_def ErrMaybe_def ErrWrongLeader_def ErrWrongGroup_def

lemma err_distinct [simp]:
  "OK \<noteq> ErrNoKey" "OK \<noteq> ErrVersion" "OK \<noteq> ErrMaybe" "OK \<noteq> ErrWrongLeader" "OK \<noteq> ErrWrongGroup"
  "ErrNoKey \<noteq> OK" "ErrNoKey \<noteq> ErrVersion" "ErrNoKey \<noteq> ErrMaybe" "ErrNoKey \<noteq> ErrWrongLeader"
  "ErrNoKey \<noteq> ErrWrongGroup"
  "ErrVersion \<noteq> OK" "ErrVersion \<noteq> ErrNoKey" "ErrVersion \<noteq> ErrMaybe" "ErrVersion \<noteq> ErrWrongLeader"
  "ErrVersion \<noteq> ErrWrongGroup"
  "ErrMaybe \<noteq> OK" "ErrMaybe \<noteq> ErrNoKey" "ErrMaybe \<noteq> ErrVersion" "ErrMaybe \<noteq> ErrWrongLeader"
  "ErrMaybe \<noteq> ErrWrongGroup"
  "ErrWrongLeader \<noteq> OK" "ErrWrongLeader \<noteq> ErrNoKey" "ErrWrongLeader \<noteq> ErrVersion"
  "ErrWrongLeader \<noteq> ErrMaybe" "ErrWrongLeader \<noteq> ErrWrongGroup"
  "ErrWrongGroup \<noteq> OK" "ErrWrongGroup \<noteq> ErrNoKey" "ErrWrongGroup \<noteq> ErrVersion"
  "ErrWrongGroup \<noteq> ErrMaybe" "ErrWrongGroup \<noteq> ErrWrongLeader"
  by (simp_all add: err_defs)

type_synonym Tversion = "64 word"

record PutArgs =
  PutKey :: string
  PutValue :: string
  PutVersion :: Tversion

record PutReply =
  PutErr :: Err

record GetArgs =
  GetKey :: string

record GetReply =
  GetValue :: string
  GetVersion :: Tversion
  GetErr :: Err

definition zeroPutReply :: PutReply where
  "zeroPutReply = \<lparr>PutErr = ''''\<rparr>"

definition zeroGetReply :: GetReply where
  "zeroGetReply = \<lparr>GetValue = '''', GetVersion = 0, GetErr = ''''\<rparr>"

text \<open>What the network does with one call.\<close>

datatype delivery = LostRequest | LostReply | Delivered

lemma word_succ_neq [simp]: "(v :: 64 word) + 1 \<noteq> v"
  by simp

end
