(* ===== verification/VersionedStore.thy ===== *)
theory VersionedStore
  imports Rpc
begin

text \<open>
  The contract the clients of the key/value services rely on: a table of versioned values
  whose conditional put succeeds exactly when the caller names the current version. Both
  servers (kvsrv1/server.go and kvraft1/server.go) are interpretations of the locale; the
  lemmas on runs of puts are proved here once.
\<close>

text \<open>A run of puts, and how often it performs the puts that satisfy \<open>P\<close>.\<close>

definition run_puts :: "('s \<Rightarrow> PutArgs \<Rightarrow> 's \<times> Err) \<Rightarrow> 's \<Rightarrow> PutArgs list \<Rightarrow> 's" where
  "run_puts put s ops = foldl (\<lambda>s a. fst (put s a)) s ops"

fun n_performed :: "('s \<Rightarrow> PutArgs \<Rightarrow> 's \<times> Err) \<Rightarrow> (PutArgs \<Rightarrow> bool) \<Rightarrow> 's \<Rightarrow> PutArgs list \<Rightarrow> nat" where
  "n_performed put P s [] = 0"
| "n_performed put P s (a # as) =
     (if snd (put s a) = OK \<and> P a then 1 else 0) + n_performed put P (fst (put s a)) as"

text \<open>The version of a key as a client counts it: 0 for a key that is not there.\<close>

definition ver_of :: "('s \<Rightarrow> string \<Rightarrow> (string \<times> Tversion) option) \<Rightarrow> 's \<Rightarrow> string \<Rightarrow> Tversion" where
  "ver_of lookup s k = (case lookup s k of None \<Rightarrow> 0 | Some x \<Rightarrow> snd x)"

lemma run_puts_simps [simp]:
  "run_puts put s [] = s" "run_puts put s (a # as) = run_puts put (fst (put s a)) as"
  "run_puts put s (as @ bs) = run_puts put (run_puts put s as) bs"
  by (simp_all add: run_puts_def)

lemma n_performed_append [simp]:
  "n_performed put P s (as @ bs) = n_performed put P s as + n_performed put P (run_puts put s as) bs"
  by (induction as arbitrary: s) auto

lemma n_performed_le: "n_performed put P s as \<le> length as"
  by (induction as arbitrary: s) (auto simp: le_SucI)

lemma word_of_nat_neq_0: "0 < n \<Longrightarrow> n < 2 ^ 64 \<Longrightarrow> (of_nat n :: 64 word) \<noteq> 0"
  by (simp add: word_of_nat_eq_0_iff nat_dvd_not_less)

locale versioned_store =
  fixes lookup :: "'s \<Rightarrow> string \<Rightarrow> (string \<times> Tversion) option"
    and put :: "'s \<Rightarrow> PutArgs \<Rightarrow> 's \<times> Err"
  assumes put_new: "lookup s (PutKey a) = None \<Longrightarrow> PutVersion a = 0 \<Longrightarrow> snd (put s a) = OK"
    and put_missing: "lookup s (PutKey a) = None \<Longrightarrow> PutVersion a \<noteq> 0 \<Longrightarrow> put s a = (s, ErrNoKey)"
    and put_match: "lookup s (PutKey a) = Some (x, PutVersion a) \<Longrightarrow> snd (put s a) = OK"
    and put_stale: "lookup s (PutKey a) = Some (x, n) \<Longrightarrow> n \<noteq> PutVersion a \<Longrightarrow> put s a = (s, ErrVersion)"
    and put_lookup: "snd (put s a) = OK \<Longrightarrow>
           lookup (fst (put s a)) = (lookup s)(PutKey a \<mapsto> (PutValue a, PutVersion a + 1))"
begin

lemma put_OK_iff: "snd (put s a) = OK \<longleftrightarrow> PutVersion a = ver_of lookup s (PutKey a)"
proof (cases "lookup s (PutKey a)")
  case None
  then show ?thesis
    using put_new [OF None] put_missing [OF None] by (cases "PutVersion a = 0") (auto simp: ver_of_def)
next
  case (Some x)
  then show ?thesis
    using put_match [of s a "fst x"] put_stale [of s a "fst x" "snd x"]
    by (cases "PutVersion a = snd x") (auto simp: ver_of_def)
qed

lemma put_not_OK: "snd (put s a) \<noteq> OK \<Longrightarrow> fst (put s a) = s"
  by (cases "lookup s (PutKey a)")
    (metis put_new put_missing fst_conv, metis put_match put_stale fst_conv prod.collapse)

lemma put_err:
  "snd (put s a) = (if PutVersion a = ver_of lookup s (PutKey a) then OK
     else if lookup s (PutKey a) = None then ErrNoKey else ErrVersion)"
proof (cases "PutVersion a = ver_of lookup s (PutKey a)")
  case True
  then show ?thesis using put_OK_iff by simp
next
  case False
  then show ?thesis
    using put_missing [of s a] put_stale [of s a "fst (the (lookup s (PutKey a)))" "snd (the (lookup s (PutKey a)))"]
    by (cases "lookup s (PutKey a)") (auto simp: ver_of_def)
qed

lemma ver_of_put:
  "ver_of lookup (fst (put s a)) k =
     ver_of lookup s k + (if k = PutKey a \<and> PutVersion a = ver_of lookup s k then 1 else 0)"
proof (cases "snd (put s a) = OK")
  case True
  have v: "PutVersion a = ver_of lookup s (PutKey a)" using True put_OK_iff by blast
  have "ver_of lookup (fst (put s a)) k = (if k = PutKey a then PutVersion a + 1 else ver_of lookup s k)"
    unfolding put_lookup [OF True] ver_of_def by simp
  with v show ?thesis by simp
next
  case False
  then have "PutVersion a \<noteq> ver_of lookup s (PutKey a)" using put_OK_iff by blast
  with put_not_OK [OF False] show ?thesis by auto
qed

lemma lookup_put_mono: "lookup s k \<noteq> None \<Longrightarrow> lookup (fst (put s a)) k \<noteq> None"
  by (cases "snd (put s a) = OK") (auto simp: put_lookup put_not_OK)

lemma lookup_run_mono: "lookup s k \<noteq> None \<Longrightarrow> lookup (run_puts put s as) k \<noteq> None"
  by (induction as arbitrary: s) (simp_all add: lookup_put_mono del: not_None_eq)

lemma performed_present:
  "0 < n_performed put (\<lambda>a. PutKey a = k \<and> Q a) s as \<Longrightarrow> lookup (run_puts put s as) k \<noteq> None"
proof (induction as arbitrary: s)
  case Nil
  then show ?case by simp
next
  case (Cons a as)
  show ?case
  proof (cases "snd (put s a) = OK \<and> PutKey a = k")
    case True
    then have "lookup (fst (put s a)) k \<noteq> None" by (auto simp: put_lookup)
    then show ?thesis by (simp add: lookup_run_mono del: not_None_eq)
  next
    case False
    with Cons show ?thesis by (auto split: if_splits)
  qed
qed

text \<open>A run moves a version by the number of puts it performs on the key.\<close>

lemma ver_of_run:
  "ver_of lookup (run_puts put s as) k =
     ver_of lookup s k + of_nat (n_performed put (\<lambda>a. PutKey a = k) s as)"
  by (induction as arbitrary: s) (auto simp: ver_of_put put_OK_iff)

text \<open>Once a version has been left behind, fewer than \<open>2 ^ 64\<close> further puts cannot bring it back.\<close>

lemma past_version:
  assumes "ver_of lookup s k = v + of_nat n" and "0 < n" and "n + length as < 2 ^ 64"
  shows "n_performed put (\<lambda>a. PutKey a = k \<and> PutVersion a = v \<and> Q a) s as = 0"
  using assms
proof (induction as arbitrary: s n)
  case Nil
  then show ?case by simp
next
  case (Cons a as)
  have ne: "ver_of lookup s k \<noteq> v"
    using Cons.prems word_of_nat_neq_0 [of n] by simp
  define m where "m = (if k = PutKey a \<and> PutVersion a = ver_of lookup s k then Suc n else n)"
  have "ver_of lookup (fst (put s a)) k = v + of_nat m"
    using Cons.prems(1) by (simp add: ver_of_put m_def)
  then have "n_performed put (\<lambda>a. PutKey a = k \<and> PutVersion a = v \<and> Q a) (fst (put s a)) as = 0"
    using Cons.prems by (intro Cons.IH [where n = m]) (auto simp: m_def)
  then show ?case using ne by (auto simp: put_OK_iff)
qed

lemma at_most_once:
  assumes "length as < 2 ^ 64"
  shows "n_performed put (\<lambda>a. PutKey a = k \<and> PutVersion a = v \<and> Q a) s as \<le> 1"
  using assms
proof (induction as arbitrary: s)
  case Nil
  then show ?case by simp
next
  case (Cons a as)
  show ?case
  proof (cases "snd (put s a) = OK \<and> PutKey a = k \<and> PutVersion a = v")
    case True
    then have "ver_of lookup (fst (put s a)) k = v + of_nat 1"
      by (auto simp: ver_of_put put_OK_iff)
    then have "n_performed put (\<lambda>a. PutKey a = k \<and> PutVersion a = v \<and> Q a) (fst (put s a)) as = 0"
      using Cons.prems by (intro past_version [where n = 1]) auto
    then show ?thesis by simp
  next
    case False
    then show ?thesis using Cons by auto
  qed
qed

end

end
