(* ===== verification/KvSrv.thy ===== *)
theory KvSrv
  imports VersionedStore
begin

text \<open>
  The single key/value server of kvsrv1/server.go: its table and the two handlers. The
  handlers take the reply the caller allocated and return it filled in. The server is an
  instance of the versioned store.
\<close>

section \<open>The server\<close>

record ValueType =
  vvalue :: string
  vversion :: Tversion

record KVServer =
  kv_map :: "string \<rightharpoonup> ValueType"

definition MakeKVServer :: KVServer where
  "MakeKVServer = \<lparr>kv_map = Map.empty\<rparr>"

definition KVServer_Get :: "KVServer \<Rightarrow> GetArgs \<Rightarrow> GetReply \<Rightarrow> GetReply" where
  "KVServer_Get kv args reply =
     (case kv_map kv (GetKey args) of
        None \<Rightarrow> reply\<lparr>GetErr := ErrNoKey\<rparr>
      | Some value \<Rightarrow> reply\<lparr>GetValue := vvalue value, GetVersion := vversion value, GetErr := OK\<rparr>)"

definition KVServer_Put :: "KVServer \<Rightarrow> PutArgs \<Rightarrow> PutReply \<Rightarrow> KVServer \<times> PutReply" where
  "KVServer_Put kv args reply =
     (case kv_map kv (PutKey args) of
        None \<Rightarrow>
          if PutVersion args = 0
          then (kv\<lparr>kv_map := (kv_map kv)(PutKey args \<mapsto>
                    \<lparr>vvalue = PutValue args, vversion = PutVersion args + 1\<rparr>)\<rparr>,
                reply\<lparr>PutErr := OK\<rparr>)
          else (kv, reply\<lparr>PutErr := ErrNoKey\<rparr>)
      | Some value \<Rightarrow>
          if vversion value \<noteq> PutVersion args
          then (kv, reply\<lparr>PutErr := ErrVersion\<rparr>)
          else (kv\<lparr>kv_map := (kv_map kv)(PutKey args \<mapsto>
                    \<lparr>vvalue = PutValue args, vversion = PutVersion args + 1\<rparr>)\<rparr>,
                reply\<lparr>PutErr := OK\<rparr>))"

text \<open>The server seen through the store's interface: a handler call on a fresh reply.\<close>

definition srv_lookup :: "KVServer \<Rightarrow> string \<Rightarrow> (string \<times> Tversion) option" where
  "srv_lookup kv k = map_option (\<lambda>x. (vvalue x, vversion x)) (kv_map kv k)"

definition srv_put :: "KVServer \<Rightarrow> PutArgs \<Rightarrow> KVServer \<times> Err" where
  "srv_put kv a = map_prod id PutErr (KVServer_Put kv a zeroPutReply)"

interpretation ks: versioned_store srv_lookup srv_put
proof unfold_locales
  fix s :: KVServer and a x n
  show "srv_lookup s (PutKey a) = None \<Longrightarrow> PutVersion a = 0 \<Longrightarrow> snd (srv_put s a) = OK"
    and "srv_lookup s (PutKey a) = None \<Longrightarrow> PutVersion a \<noteq> 0 \<Longrightarrow> srv_put s a = (s, ErrNoKey)"
    and "srv_lookup s (PutKey a) = Some (x, PutVersion a) \<Longrightarrow> snd (srv_put s a) = OK"
    and "srv_lookup s (PutKey a) = Some (x, n) \<Longrightarrow> n \<noteq> PutVersion a \<Longrightarrow> srv_put s a = (s, ErrVersion)"
    by (auto simp: srv_lookup_def srv_put_def KVServer_Put_def)
  show "snd (srv_put s a) = OK \<Longrightarrow>
      srv_lookup (fst (srv_put s a)) = (srv_lookup s)(PutKey a \<mapsto> (PutValue a, PutVersion a + 1))"
    by (auto simp: srv_lookup_def srv_put_def KVServer_Put_def fun_eq_iff
        split: option.splits if_splits)
qed

section \<open>Properties\<close>

text \<open>
  A put is performed at most once per key and version: in a run of fewer than
  \<open>2 ^ 64\<close> puts against the server, at most one of the puts that name key \<open>k\<close>
  and version \<open>v\<close> is answered \<open>OK\<close>, whatever the clients do.
\<close>

theorem put_at_most_once_per_version:
  assumes "length ops < 2 ^ 64"
  shows "n_performed srv_put (\<lambda>a. PutKey a = k \<and> PutVersion a = v) kv ops \<le> 1"
  using ks.at_most_once [OF assms, of k v "\<lambda>_. True" kv] by simp

definition demo_ops :: "PutArgs list" where
  "demo_ops = [\<lparr>PutKey = ''k'', PutValue = ''a'', PutVersion = 0\<rparr>,
               \<lparr>PutKey = ''k'', PutValue = ''b'', PutVersion = 0\<rparr>,
               \<lparr>PutKey = ''k'', PutValue = ''c'', PutVersion = 1\<rparr>]"

theorem put_at_most_once_per_version_witness:
  "n_performed srv_put (\<lambda>a. PutKey a = ''k'' \<and> PutVersion a = 0) MakeKVServer demo_ops = 1"
proof -
  have "n_performed srv_put (\<lambda>a. PutKey a = ''k'' \<and> PutVersion a = 0) MakeKVServer demo_ops \<le> 1"
    by (rule put_at_most_once_per_version) (simp add: demo_ops_def)
  moreover have "0 < n_performed srv_put (\<lambda>a. PutKey a = ''k'' \<and> PutVersion a = 0) MakeKVServer demo_ops"
    by (simp add: demo_ops_def srv_put_def KVServer_Put_def MakeKVServer_def zeroPutReply_def)
  ultimately show ?thesis by simp
qed

end
