(* ===== verification/KvClerk.thy ===== *)
theory KvClerk
  imports KvSrv
begin

text \<open>
  The clerk of kvsrv1/client.go. Its two loops retry for as long as the network fails, so they
  take fuel: one unit per iteration, \<open>None\<close> while still retrying. The remote call is an
  argument, a function on a world; the world used for the theorems is the server, a schedule
  that says for each call what other clients do first and what the network does with the
  call, and the history of the puts the server has executed (\<open>True\<close> marks this clerk's).
\<close>

section \<open>The clerk\<close>

fun Clerk_Get ::
  "('w \<Rightarrow> GetArgs \<Rightarrow> 'w \<times> GetReply option) \<Rightarrow> nat \<Rightarrow> 'w \<Rightarrow> string \<Rightarrow>
     ((string \<times> Tversion \<times> Err) \<times> 'w) option" where
  "Clerk_Get call 0 w key = None"
| "Clerk_Get call (Suc n) w key =
     (case call w \<lparr>GetKey = key\<rparr> of
        (w', None) \<Rightarrow> Clerk_Get call n w' key
      | (w', Some reply) \<Rightarrow>
          if GetErr reply = OK then Some ((GetValue reply, GetVersion reply, GetErr reply), w')
          else if GetErr reply = ErrMaybe then Clerk_Get call n w' key
          else if GetErr reply = ErrNoKey then Some (('''', GetVersion reply, GetErr reply), w')
          else if GetErr reply = ErrVersion then Clerk_Get call n w' key
          else if GetErr reply = ErrWrongGroup then Clerk_Get call n w' key
          else if GetErr reply = ErrWrongLeader then Clerk_Get call n w' key
          else Some (('''', 0, ErrNoKey), w'))"

fun Clerk_Put_loop ::
  "('w \<Rightarrow> PutArgs \<Rightarrow> 'w \<times> PutReply option) \<Rightarrow> nat \<Rightarrow> bool \<Rightarrow> 'w \<Rightarrow> string \<Rightarrow> string \<Rightarrow> Tversion \<Rightarrow>
     (Err \<times> 'w) option" where
  "Clerk_Put_loop call 0 retried w key val version = None"
| "Clerk_Put_loop call (Suc n) retried w key val version =
     (case call w \<lparr>PutKey = key, PutValue = val, PutVersion = version\<rparr> of
        (w', None) \<Rightarrow> Clerk_Put_loop call n True w' key val version
      | (w', Some reply) \<Rightarrow>
          if PutErr reply = OK then Some (PutErr reply, w')
          else if PutErr reply = ErrNoKey then Some (PutErr reply, w')
          else if PutErr reply = ErrVersion then Some (if retried then ErrMaybe else ErrVersion, w')
          else Some (ErrNoKey, w'))"

definition Clerk_Put ::
  "('w \<Rightarrow> PutArgs \<Rightarrow> 'w \<times> PutReply option) \<Rightarrow> nat \<Rightarrow> 'w \<Rightarrow> string \<Rightarrow> string \<Rightarrow> Tversion \<Rightarrow> (Err \<times> 'w) option" where
  "Clerk_Put call n w key val version = Clerk_Put_loop call n False w key val version"

section \<open>The world the clerk runs in\<close>

record 's world =
  srv :: 's
  sched :: "(PutArgs list \<times> delivery) list"
  hist :: "(bool \<times> PutArgs) list"

definition others :: "PutArgs list \<Rightarrow> (bool \<times> PutArgs) list" where
  "others as = map (Pair False) as"

text \<open>One call: the others' puts reach the server, then the network decides.\<close>

definition net_Put :: "('s \<Rightarrow> PutArgs \<Rightarrow> 's \<times> Err) \<Rightarrow> 's world \<Rightarrow> PutArgs \<Rightarrow> 's world \<times> PutReply option" where
  "net_Put put w args =
     (case sched w of
        [] \<Rightarrow> (w, None)
      | (as, d) # rest \<Rightarrow>
          let s = run_puts put (srv w) as;
              w0 = w\<lparr>srv := s, sched := rest, hist := hist w @ others as\<rparr>;
              w1 = w\<lparr>srv := fst (put s args), sched := rest, hist := hist w @ others as @ [(True, args)]\<rparr>
          in case d of
               LostRequest \<Rightarrow> (w0, None)
             | LostReply \<Rightarrow> (w1, None)
             | Delivered \<Rightarrow> (w1, Some \<lparr>PutErr = snd (put s args)\<rparr>))"

definition net_Get :: "('s \<Rightarrow> PutArgs \<Rightarrow> 's \<times> Err) \<Rightarrow> ('s \<Rightarrow> GetArgs \<Rightarrow> GetReply) \<Rightarrow> 's world \<Rightarrow> GetArgs \<Rightarrow>
     's world \<times> GetReply option" where
  "net_Get put get w args =
     (case sched w of
        [] \<Rightarrow> (w, None)
      | (as, d) # rest \<Rightarrow>
          let s = run_puts put (srv w) as;
              w0 = w\<lparr>srv := s, sched := rest, hist := hist w @ others as\<rparr>
          in case d of
               LostRequest \<Rightarrow> (w0, None)
             | LostReply \<Rightarrow> (w0, None)
             | Delivered \<Rightarrow> (w0, Some (get s args)))"

text \<open>How many of the clerk's own puts in a history were performed.\<close>

fun own_performed :: "('s \<Rightarrow> PutArgs \<Rightarrow> 's \<times> Err) \<Rightarrow> 's \<Rightarrow> (bool \<times> PutArgs) list \<Rightarrow> nat" where
  "own_performed put s [] = 0"
| "own_performed put s ((own, a) # h) =
     (if own \<and> snd (put s a) = OK then 1 else 0) + own_performed put (fst (put s a)) h"

text \<open>
  What a returned error says about the put: the relation between whether it was performed and
  the error the clerk reports.
\<close>

definition put_outcome :: "bool \<Rightarrow> Err \<Rightarrow> bool" where
  "put_outcome performed err \<longleftrightarrow>
     (if performed then err = OK \<or> err = ErrMaybe
      else err = ErrVersion \<or> err = ErrNoKey \<or> err = ErrMaybe)"

section \<open>Lemmas\<close>

lemma run_puts_hist_others [simp]: "map snd (others as) = as"
  by (simp add: others_def comp_def)

lemma own_performed_append [simp]:
  "own_performed put s (h @ h') =
     own_performed put s h + own_performed put (run_puts put s (map snd h)) h'"
  by (induction put s h rule: own_performed.induct) auto

lemma own_performed_others [simp]: "own_performed put s (others as) = 0"
  by (induction as arbitrary: s) (auto simp: others_def)

definition own_only :: "PutArgs \<Rightarrow> (bool \<times> PutArgs) list \<Rightarrow> bool" where
  "own_only a h \<longleftrightarrow> (\<forall>x \<in> set h. fst x \<longrightarrow> snd x = a)"

lemma own_only_append [simp]: "own_only a (h @ h') \<longleftrightarrow> own_only a h \<and> own_only a h'"
  by (auto simp: own_only_def)

lemma own_only_others [simp]: "own_only a (others as)"
  by (auto simp: own_only_def others_def)

lemma own_only_base [simp]: "own_only a []" "own_only a [(True, a)]"
  by (auto simp: own_only_def)

lemma own_performed_le_n_performed:
  assumes "own_only a h"
  shows "own_performed put s h \<le> n_performed put (\<lambda>b. PutKey b = PutKey a \<and> PutVersion b = PutVersion a \<and> True) s (map snd h)"
  using assms
  by (induction put s h rule: own_performed.induct) (auto simp: own_only_def le_SucI)

text \<open>What is known of the world while the clerk retries one put.\<close>

definition put_inv :: "('s \<Rightarrow> PutArgs \<Rightarrow> 's \<times> Err) \<Rightarrow> 's \<Rightarrow> PutArgs \<Rightarrow> bool \<Rightarrow> 's world \<Rightarrow> bool" where
  "put_inv put s0 a retried w \<longleftrightarrow>
     srv w = run_puts put s0 (map snd (hist w)) \<and> own_only a (hist w) \<and>
     (retried \<or> own_performed put s0 (hist w) = 0)"

context versioned_store
begin

lemma own_at_most_once:
  assumes "own_only a h" and "length h < 2 ^ 64"
  shows "own_performed put s h \<le> 1"
  using own_performed_le_n_performed [OF assms(1), of put s]
    at_most_once [of "map snd h" "PutKey a" "PutVersion a" "\<lambda>_. True" s] assms(2)
  by simp

lemma own_performed_present:
  assumes "own_only a h" and "0 < own_performed put s h"
  shows "lookup (run_puts put s (map snd h)) (PutKey a) \<noteq> None"
  using own_performed_le_n_performed [OF assms(1), of put s] assms(2)
  by (intro performed_present [where Q = "\<lambda>b. PutVersion b = PutVersion a \<and> True"]) linarith

text \<open>One call keeps the invariant; a reply is the server's answer to the last own put.\<close>

lemma net_Put_step:
  assumes inv: "put_inv put s0 a r w" and call: "net_Put put w a = (w', rep)"
  shows "put_inv put s0 a True w'"
    and "rep = Some reply \<Longrightarrow> \<exists>as. hist w' = (hist w @ others as) @ [(True, a)] \<and>
           PutErr reply = snd (put (run_puts put s0 (map snd (hist w @ others as))) a)"
proof -
  show "put_inv put s0 a True w'"
    using assms by (auto simp: net_Put_def put_inv_def Let_def split: list.splits delivery.splits)
next
  assume "rep = Some reply"
  then obtain as rest where "sched w = (as, Delivered) # rest"
    using call by (auto simp: net_Put_def Let_def split: list.splits delivery.splits)
  then show "\<exists>as. hist w' = (hist w @ others as) @ [(True, a)] \<and>
      PutErr reply = snd (put (run_puts put s0 (map snd (hist w @ others as))) a)"
    using assms \<open>rep = Some reply\<close>
    by (intro exI [of _ as]) (auto simp: net_Put_def put_inv_def Let_def)
qed

lemma reply_outcome:
  assumes own: "own_only a h" and len: "length h < 2 ^ 64 - 1"
    and err: "e = snd (put (run_puts put s (map snd h)) a)"
  shows "e = OK \<Longrightarrow> own_performed put s (h @ [(True, a)]) = 1"
    and "e \<noteq> OK \<Longrightarrow> own_performed put s (h @ [(True, a)]) = own_performed put s h"
    and "e = ErrNoKey \<Longrightarrow> own_performed put s h = 0"
    and "e = OK \<or> e = ErrNoKey \<or> e = ErrVersion"
proof -
  have le: "own_performed put s (h @ [(True, a)]) \<le> 1"
    using own len by (intro own_at_most_once [where a = a]) auto
  show "e = OK \<Longrightarrow> own_performed put s (h @ [(True, a)]) = 1" using le err by simp
  show "e \<noteq> OK \<Longrightarrow> own_performed put s (h @ [(True, a)]) = own_performed put s h" using err by simp
  show "e = ErrNoKey \<Longrightarrow> own_performed put s h = 0"
    using own_performed_present [OF own, of s] err put_err [of "run_puts put s (map snd h)" a]
    by (auto split: if_splits)
  show "e = OK \<or> e = ErrNoKey \<or> e = ErrVersion" using err put_err by auto
qed

text \<open>The clerk's answer is right, whatever happens in between.\<close>

lemma Put_loop_outcome:
  assumes "Clerk_Put_loop (net_Put put) n r w k x v = Some (e, w')"
    and "put_inv put s0 \<lparr>PutKey = k, PutValue = x, PutVersion = v\<rparr> r w" and "length (hist w') < 2 ^ 64"
  shows "own_performed put s0 (hist w') \<le> 1 \<and> put_outcome (own_performed put s0 (hist w') = 1) e \<and>
         srv w' = run_puts put s0 (map snd (hist w'))"
  using assms
proof (induction n arbitrary: r w)
  case 0
  then show ?case by simp
next
  case (Suc n)
  let ?a = "\<lparr>PutKey = k, PutValue = x, PutVersion = v\<rparr>"
  obtain w1 rep where call: "net_Put put w ?a = (w1, rep)" by fastforce
  note inv1 = net_Put_step(1) [OF Suc.prems(2) call]
  show ?case
  proof (cases rep)
    case None
    then show ?thesis using Suc call inv1 by auto
  next
    case (Some reply)
    then obtain as where "hist w1 = (hist w @ others as) @ [(True, ?a)]"
      "PutErr reply = snd (put (run_puts put s0 (map snd (hist w @ others as))) ?a)"
      using net_Put_step(2) [OF Suc.prems(2) call] by blast
    then obtain h where h: "hist w1 = h @ [(True, ?a)]" "h = hist w @ others as"
      "PutErr reply = snd (put (run_puts put s0 (map snd h)) ?a)" by blast
    have hw: "own_performed put s0 h = own_performed put s0 (hist w)" using h(2) by simp
    have own: "own_only ?a h" using inv1 h(1) by (simp add: put_inv_def)
    have ret: "w' = w1" "e = (if PutErr reply = OK then OK else if PutErr reply = ErrNoKey then ErrNoKey
        else if PutErr reply = ErrVersion then (if r then ErrMaybe else ErrVersion) else ErrNoKey)"
      using Suc.prems(1) call Some by (auto split: if_splits)
    have len: "length h < 2 ^ 64 - 1" using Suc.prems(3) ret(1) h(1) by simp
    note out = reply_outcome [OF own len h(3)]
    have le: "own_performed put s0 (hist w1) \<le> 1"
      using inv1 Suc.prems(3) ret(1) by (intro own_at_most_once [where a = ?a]) (auto simp: put_inv_def)
    have not_retried: "\<not> r \<Longrightarrow> own_performed put s0 h = 0"
      using Suc.prems(2) hw by (simp add: put_inv_def)
    have "put_outcome (own_performed put s0 (hist w1) = 1) e"
      using out le not_retried ret(2) h(1) by (auto simp: put_outcome_def)
    then show ?thesis using le inv1 ret(1) by (simp add: put_inv_def)
  qed
qed

lemma Put_loop_returns:
  assumes "\<exists>i < n. i < length (sched w) \<and> snd (sched w ! i) = Delivered"
  shows "\<exists>r. Clerk_Put_loop (net_Put put) n rt w k x v = Some r"
  using assms
proof (induction n arbitrary: w rt)
  case 0
  then show ?case by simp
next
  case (Suc n)
  then obtain i where i: "i < Suc n" "i < length (sched w)" "snd (sched w ! i) = Delivered" by blast
  obtain as d rest where s: "sched w = (as, d) # rest" using i(2) by (cases "sched w") auto
  show ?case
  proof (cases d)
    case Delivered
    then show ?thesis using s by (auto simp: net_Put_def Let_def)
  next
    case LostRequest
    then have "\<exists>j < n. j < length rest \<and> snd (rest ! j) = Delivered"
      using i s by (cases i) auto
    then show ?thesis using LostRequest s Suc.IH by (simp add: net_Put_def Let_def)
  next
    case LostReply
    then have "\<exists>j < n. j < length rest \<and> snd (rest ! j) = Delivered"
      using i s by (cases i) auto
    then show ?thesis using LostReply s Suc.IH by (simp add: net_Put_def Let_def)
  qed
qed

end

section \<open>Properties\<close>

text \<open>The world of a clerk of the single server, before its first call.\<close>

definition fresh_world :: "KVServer \<Rightarrow> (PutArgs list \<times> delivery) list \<Rightarrow> KVServer world" where
  "fresh_world kv sc = \<lparr>srv = kv, sched = sc, hist = []\<rparr>"

text \<open>
  C11. What \<open>Clerk.Put\<close> reports is right. Over any network behaviour and any puts of other
  clients (fewer than \<open>2 ^ 64\<close> in all), if the clerk returns, its put was performed at
  most once, although the request may have reached the server many times; \<open>OK\<close> means
  it was performed, \<open>ErrVersion\<close> and \<open>ErrNoKey\<close> mean it was not, and
  \<open>ErrMaybe\<close> is the only answer that leaves it open.
\<close>

theorem clerk_put_outcome:
  assumes "Clerk_Put (net_Put srv_put) n (fresh_world kv sc) k x v = Some (e, w')"
    and "length (hist w') < 2 ^ 64"
  shows "own_performed srv_put kv (hist w') \<le> 1 \<and>
         put_outcome (own_performed srv_put kv (hist w') = 1) e \<and>
         srv w' = run_puts srv_put kv (map snd (hist w'))"
proof -
  have "put_inv srv_put kv \<lparr>PutKey = k, PutValue = x, PutVersion = v\<rparr> False (fresh_world kv sc)"
    by (simp add: put_inv_def fresh_world_def)
  then show ?thesis
    using assms unfolding Clerk_Put_def by (intro ks.Put_loop_outcome) auto
qed

lemmas kv_eval = Clerk_Put_def net_Put_def fresh_world_def srv_put_def KVServer_Put_def MakeKVServer_def
  zeroPutReply_def others_def err_defs run_puts_def

text \<open>The reply to the first put is lost, the retry finds the version moved on.\<close>

theorem clerk_put_outcome_witness:
  "\<exists>w'. Clerk_Put (net_Put srv_put) 2 (fresh_world MakeKVServer [([], LostReply), ([], Delivered)]) ''k'' ''x'' 0
           = Some (ErrMaybe, w') \<and> own_performed srv_put MakeKVServer (hist w') \<le> 1 \<and> length (hist w') = 2"
proof -
  let ?w = "fresh_world MakeKVServer [([], LostReply), ([], Delivered)]"
  obtain w' where w': "Clerk_Put (net_Put srv_put) 2 ?w ''k'' ''x'' 0 = Some (ErrMaybe, w')" "length (hist w') = 2"
    by (simp add: kv_eval numeral_2_eq_2)
  then have "own_performed srv_put MakeKVServer (hist w') \<le> 1"
    using clerk_put_outcome [OF w'(1)] by simp
  with w' show ?thesis by blast
qed

text \<open>
  \<open>Clerk.Put\<close> does not retry forever: as soon as one of the calls it makes within its
  fuel is delivered with its reply, it returns.
\<close>

theorem clerk_put_returns:
  assumes "\<exists>i < n. i < length sc \<and> snd (sc ! i) = Delivered"
  shows "\<exists>e w'. Clerk_Put (net_Put srv_put) n (fresh_world kv sc) k x v = Some (e, w')"
  using ks.Put_loop_returns [of n "fresh_world kv sc" False k x v] assms
  by (auto simp: Clerk_Put_def fresh_world_def)

theorem clerk_put_returns_witness:
  "\<exists>e w'. Clerk_Put (net_Put srv_put) 3
      (fresh_world MakeKVServer [([], LostRequest), ([], LostReply), ([], Delivered)]) ''k'' ''x'' 0 = Some (e, w')"
  by (rule clerk_put_returns) (auto intro!: exI [of _ 2])

text \<open>
  \<open>Clerk.Get\<close> returns what the server holds: the answer is the server's entry for the
  key at the moment of the last call, \<open>ErrNoKey\<close> with the empty string exactly when there
  is none, and reading changes nothing at the server.
\<close>

theorem clerk_get_reads:
  assumes "Clerk_Get (net_Get srv_put (\<lambda>s a. KVServer_Get s a zeroGetReply)) n w k = Some ((x, v, e), w')"
  shows "(case srv_lookup (srv w') k of
            None \<Rightarrow> x = '''' \<and> v = 0 \<and> e = ErrNoKey
          | Some (x', v') \<Rightarrow> x = x' \<and> v = v' \<and> e = OK) \<and>
         (\<exists>as. hist w' = hist w @ others as \<and> srv w' = run_puts srv_put (srv w) as)"
  using assms
proof (induction n arbitrary: w)
  case 0
  then show ?case by simp
next
  case (Suc n)
  let ?call = "net_Get srv_put (\<lambda>s a. KVServer_Get s a zeroGetReply)"
  show ?case
  proof (cases "sched w")
    case Nil
    then show ?thesis using Suc by (simp add: net_Get_def)
  next
    case (Cons a rest)
    obtain as d where a: "a = (as, d)" by (cases a)
    define w1 where "w1 = w\<lparr>srv := run_puts srv_put (srv w) as, sched := rest, hist := hist w @ others as\<rparr>"
    show ?thesis
    proof (cases "d = Delivered")
      case True
      then have "?call w \<lparr>GetKey = k\<rparr> = (w1, Some (KVServer_Get (srv w1) \<lparr>GetKey = k\<rparr> zeroGetReply))"
        using Cons a by (simp add: net_Get_def w1_def Let_def)
      then have w': "w' = w1" and "case srv_lookup (srv w1) k of None \<Rightarrow> x = [] \<and> v = 0 \<and> e = ErrNoKey
          | Some (x', v') \<Rightarrow> x = x' \<and> v = v' \<and> e = OK"
        using Suc.prems
        by (auto simp: KVServer_Get_def zeroGetReply_def srv_lookup_def split: option.splits)
      then show ?thesis by (auto simp: w1_def)
    next
      case False
      then have "?call w \<lparr>GetKey = k\<rparr> = (w1, None)"
        using Cons a by (cases d) (auto simp: net_Get_def w1_def Let_def)
      then have "Clerk_Get ?call n w1 k = Some ((x, v, e), w')" using Suc.prems by simp
      from Suc.IH [OF this] obtain bs where
        "hist w' = hist w1 @ others bs" "srv w' = run_puts srv_put (srv w1) bs"
        and c: "(case srv_lookup (srv w') k of None \<Rightarrow> x = '''' \<and> v = 0 \<and> e = ErrNoKey
            | Some (x', v') \<Rightarrow> x = x' \<and> v = v' \<and> e = OK)" by blast
      then have "hist w' = hist w @ others (as @ bs)" "srv w' = run_puts srv_put (srv w) (as @ bs)"
        by (simp_all add: w1_def others_def)
      with c show ?thesis by blast
    qed
  qed
qed

theorem clerk_get_reads_witness:
  "\<exists>w'. Clerk_Get (net_Get srv_put (\<lambda>s a. KVServer_Get s a zeroGetReply)) 2
      (fresh_world MakeKVServer [([], LostReply), ([\<lparr>PutKey = ''k'', PutValue = ''x'', PutVersion = 0\<rparr>], Delivered)]) ''k''
      = Some ((''x'', 1, OK), w') \<and> srv_lookup (srv w') ''k'' = Some (''x'', 1)"
proof -
  let ?w = "fresh_world MakeKVServer [([], LostReply), ([\<lparr>PutKey = ''k'', PutValue = ''x'', PutVersion = 0\<rparr>], Delivered)]"
  obtain w' where w': "Clerk_Get (net_Get srv_put (\<lambda>s a. KVServer_Get s a zeroGetReply)) 2 ?w ''k'' = Some ((''x'', 1, OK), w')"
    by (simp add: kv_eval numeral_2_eq_2 net_Get_def KVServer_Get_def zeroGetReply_def)
  from clerk_get_reads [OF this] have "srv_lookup (srv w') ''k'' = Some (''x'', 1)"
    by (auto split: option.splits)
  with w' show ?thesis by blast
qed

end
