(* ===== verification/Lock.thy ===== *)
theory Lock
  imports KvClerk
begin

text \<open>
  The lock of kvsrv1/lock/lock.go, built on a clerk. \<open>Acquire\<close> and \<open>Release\<close> are
  loops whose atomic actions are the clerk's calls; each is written as the code between two
  calls (what it does with the answer), and the clients run as a step relation over one
  server, in any interleaving. A put is one step at the server and a later step for its
  return; what may be returned is the relation \<open>put_outcome\<close> that theorem
  \<open>clerk_put_outcome\<close> proves of the clerk.
\<close>

section \<open>The code between two calls\<close>

definition UNLOCK_NAME :: string where "UNLOCK_NAME = ''None''"

text \<open>\<open>RandValue\<close> of kvtest1/kvtest.go, on the numbers drawn from the random source.\<close>

definition letterBytes :: string where
  "letterBytes = ''abcdefghijklmnopqrstuvwxyzABCDEFGHIJKLMNOPQRSTUVWXYZ''"

definition RandValue :: "nat list \<Rightarrow> string" where
  "RandValue rs = map (\<lambda>r. letterBytes ! (r mod length letterBytes)) rs"

text \<open>
  Where a client is. The flag of a returning put says whether it was performed, which the client
  does not know; the string of \<open>Held\<close>, \<open>RelGet\<close> is the value the client's
  successful put wrote, which the code does not keep. Both are there for the proof only.
\<close>

datatype pc =
    Idle
  | AcqGet
  | AcqPut string Tversion
  | AcqPutRet string bool
  | AcqVerify string bool
  | Held string
  | RelGet string
  | RelPut string Tversion
  | RelPutRet string bool
  | RelVerify string bool

definition Acquire_after_Get :: "string \<Rightarrow> Tversion \<Rightarrow> nat list \<Rightarrow> pc" where
  "Acquire_after_Get val version rs =
     (if val \<noteq> UNLOCK_NAME then AcqGet else AcqPut (RandValue rs) version)"

definition Acquire_after_Put :: "string \<Rightarrow> bool \<Rightarrow> Err \<Rightarrow> pc" where
  "Acquire_after_Put ident performed put_error =
     (if put_error = OK then Held ident
      else if put_error = ErrNoKey then AcqGet
      else if put_error = ErrVersion then AcqGet
      else if put_error = ErrMaybe then AcqVerify ident performed
      else AcqGet)"

definition Acquire_after_verify :: "string \<Rightarrow> string \<Rightarrow> pc" where
  "Acquire_after_verify ident val = (if val = ident then Held ident else AcqGet)"

definition Release_after_Get :: "string \<Rightarrow> Tversion \<Rightarrow> pc" where
  "Release_after_Get my_id version = RelPut my_id version"

definition Release_after_Put :: "string \<Rightarrow> bool \<Rightarrow> Err \<Rightarrow> pc" where
  "Release_after_Put my_id performed put_error =
     (if put_error = OK then Idle
      else if put_error = ErrNoKey then RelGet my_id
      else if put_error = ErrVersion then RelGet my_id
      else if put_error = ErrMaybe then RelVerify my_id performed
      else RelGet my_id)"

definition Release_after_verify :: "string \<Rightarrow> string \<Rightarrow> pc" where
  "Release_after_verify my_id val = (if val \<noteq> my_id then Idle else RelGet my_id)"

text \<open>
  \<open>MakeLock\<close>: one round of its loop on the answer to its get; \<open>None\<close> is another
  round, and the put's error is not looked at.
\<close>

definition MakeLock_round :: "KVServer \<Rightarrow> string \<Rightarrow> Err \<Rightarrow> KVServer option" where
  "MakeLock_round kv lockname get_error =
     (if get_error = OK then Some kv
      else if get_error = ErrNoKey
        then Some (fst (srv_put kv \<lparr>PutKey = lockname, PutValue = UNLOCK_NAME, PutVersion = 0\<rparr>))
      else None)"

section \<open>Clients of one lock\<close>

record lock_sys =
  store :: KVServer
  pcs :: "nat \<Rightarrow> pc"
  drawn :: "string list"  \<comment> \<open>the values drawn so far, the last first\<close>
  nputs :: nat            \<comment> \<open>the puts performed on the lock's key\<close>

text \<open>What the clerk's get returns for the lock's key: the empty string and 0 if it is missing.\<close>

definition get_value :: "KVServer \<Rightarrow> string \<Rightarrow> string" where
  "get_value kv k = (case srv_lookup kv k of None \<Rightarrow> '''' | Some (x, v) \<Rightarrow> x)"

definition get_version :: "KVServer \<Rightarrow> string \<Rightarrow> Tversion" where
  "get_version kv k = (case srv_lookup kv k of None \<Rightarrow> 0 | Some (x, v) \<Rightarrow> v)"

definition lock_put :: "string \<Rightarrow> string \<Rightarrow> Tversion \<Rightarrow> lock_sys \<Rightarrow> nat \<Rightarrow> pc \<Rightarrow> lock_sys" where
  "lock_put k x v s i p =
     s\<lparr>store := fst (srv_put (store s) \<lparr>PutKey = k, PutValue = x, PutVersion = v\<rparr>),
       pcs := (pcs s)(i := p), nputs := Suc (nputs s)\<rparr>"

text \<open>
  The steps. A client that puts either has its put performed, which needs the current version,
  or not. \<open>Acquire\<close> draws eight letters from the random source each time it sees the
  lock free; nothing stops it from drawing a value that was drawn before, and \<open>drawn\<close>
  records the draws in order, repetitions included.
\<close>

inductive lock_step :: "string \<Rightarrow> lock_sys \<Rightarrow> lock_sys \<Rightarrow> bool" for k where
  call_acquire: "pcs s i = Idle \<Longrightarrow> lock_step k s (s\<lparr>pcs := (pcs s)(i := AcqGet)\<rparr>)"
| acquire_get: "pcs s i = AcqGet \<Longrightarrow> length rs = 8 \<Longrightarrow>
     lock_step k s (s\<lparr>pcs := (pcs s)(i := Acquire_after_Get (get_value (store s) k) (get_version (store s) k) rs),
                      drawn := (if get_value (store s) k = UNLOCK_NAME then RandValue rs # drawn s else drawn s)\<rparr>)"
| acquire_put: "pcs s i = AcqPut ident v \<Longrightarrow> v = get_version (store s) k \<Longrightarrow>
     lock_step k s (lock_put k ident v s i (AcqPutRet ident True))"
| acquire_no_put: "pcs s i = AcqPut ident v \<Longrightarrow> lock_step k s (s\<lparr>pcs := (pcs s)(i := AcqPutRet ident False)\<rparr>)"
| acquire_ret: "pcs s i = AcqPutRet ident b \<Longrightarrow> put_outcome b e \<Longrightarrow>
     lock_step k s (s\<lparr>pcs := (pcs s)(i := Acquire_after_Put ident b e)\<rparr>)"
| acquire_verify: "pcs s i = AcqVerify ident b \<Longrightarrow>
     lock_step k s (s\<lparr>pcs := (pcs s)(i := Acquire_after_verify ident (get_value (store s) k))\<rparr>)"
| call_release: "pcs s i = Held ident \<Longrightarrow> lock_step k s (s\<lparr>pcs := (pcs s)(i := RelGet ident)\<rparr>)"
| release_get: "pcs s i = RelGet ident \<Longrightarrow>
     lock_step k s (s\<lparr>pcs := (pcs s)(i := Release_after_Get (get_value (store s) k) (get_version (store s) k))\<rparr>)"
| release_put: "pcs s i = RelPut ident v \<Longrightarrow> v = get_version (store s) k \<Longrightarrow>
     lock_step k s (lock_put k UNLOCK_NAME v s i (RelPutRet ident True))"
| release_no_put: "pcs s i = RelPut ident v \<Longrightarrow> lock_step k s (s\<lparr>pcs := (pcs s)(i := RelPutRet ident False)\<rparr>)"
| release_ret: "pcs s i = RelPutRet ident b \<Longrightarrow> put_outcome b e \<Longrightarrow>
     lock_step k s (s\<lparr>pcs := (pcs s)(i := Release_after_Put ident b e)\<rparr>)"
| release_verify: "pcs s i = RelVerify ident b \<Longrightarrow>
     lock_step k s (s\<lparr>pcs := (pcs s)(i := Release_after_verify ident (get_value (store s) k))\<rparr>)"

text \<open>The start: \<open>MakeLock\<close> has stored the free value, everyone is idle.\<close>

definition lock_init :: "string \<Rightarrow> lock_sys" where
  "lock_init k = \<lparr>store = the (MakeLock_round MakeKVServer k ErrNoKey), pcs = (\<lambda>_. Idle), drawn = [], nputs = 1\<rparr>"

inductive lock_reach :: "string \<Rightarrow> lock_sys \<Rightarrow> bool" for k where
  start: "lock_reach k (lock_init k)"
| step: "lock_reach k s \<Longrightarrow> lock_step k s t \<Longrightarrow> lock_reach k t"

section \<open>Invariant\<close>

text \<open>The value a client's performed put wrote and that is still there; a value that is not there.\<close>

fun owns :: "pc \<Rightarrow> string option" where
  "owns (AcqPutRet x True) = Some x"
| "owns (AcqVerify x True) = Some x"
| "owns (Held x) = Some x"
| "owns (RelGet x) = Some x"
| "owns (RelPut x v) = Some x"
| "owns (RelPutRet x False) = Some x"
| "owns (RelVerify x False) = Some x"
| "owns _ = None"

fun absent :: "pc \<Rightarrow> string option" where
  "absent (AcqPut x v) = Some x"
| "absent (AcqPutRet x False) = Some x"
| "absent (AcqVerify x False) = Some x"
| "absent (RelPutRet x True) = Some x"
| "absent (RelVerify x True) = Some x"
| "absent _ = None"

definition token :: "pc \<Rightarrow> string option" where
  "token p = (case owns p of Some x \<Rightarrow> Some x | None \<Rightarrow> absent p)"

definition client_ok :: "string \<Rightarrow> lock_sys \<Rightarrow> pc \<Rightarrow> bool" where
  "client_ok k s p \<longleftrightarrow>
     (\<forall>x. owns p = Some x \<longrightarrow> get_value (store s) k = x) \<and>
     (\<forall>x. absent p = Some x \<longrightarrow> get_value (store s) k \<noteq> x) \<and>
     (\<forall>x v. p = AcqPut x v \<longrightarrow>
        (\<exists>m \<le> nputs s. v = of_nat m \<and> (m = nputs s \<longrightarrow> get_value (store s) k = UNLOCK_NAME))) \<and>
     (\<forall>x. token p = Some x \<longrightarrow> x \<in> set (drawn s))"

definition lock_inv :: "string \<Rightarrow> lock_sys \<Rightarrow> bool" where
  "lock_inv k s \<longleftrightarrow>
     srv_lookup (store s) k \<noteq> None \<and> get_version (store s) k = of_nat (nputs s) \<and>
     get_value (store s) k \<in> insert UNLOCK_NAME (set (drawn s)) \<and> UNLOCK_NAME \<notin> set (drawn s) \<and>
     (\<forall>i. client_ok k s (pcs s i)) \<and>
     (\<forall>i j x. token (pcs s i) = Some x \<longrightarrow> token (pcs s j) = Some x \<longrightarrow> i = j)"

lemma RandValue_neq_UNLOCK: "length rs = 8 \<Longrightarrow> RandValue rs \<noteq> UNLOCK_NAME"
proof
  assume "length rs = 8" and "RandValue rs = UNLOCK_NAME"
  then have "length (RandValue rs) = length UNLOCK_NAME" by simp
  then show False using \<open>length rs = 8\<close> by (simp add: RandValue_def UNLOCK_NAME_def)
qed

lemma absent_token [simp]: "absent p = Some x \<Longrightarrow> token p = Some x"
  by (cases p rule: absent.cases) (auto simp: token_def)

lemma owns_token [simp]: "owns p = Some x \<Longrightarrow> token p = Some x"
  by (simp add: token_def)

lemma lock_invI:
  assumes "srv_lookup (store s) k \<noteq> None" and "get_version (store s) k = of_nat (nputs s)"
    and "get_value (store s) k \<in> insert UNLOCK_NAME (set (drawn s))" and "UNLOCK_NAME \<notin> set (drawn s)"
    and "\<And>i. client_ok k s (pcs s i)"
    and "\<And>i j x. token (pcs s i) = Some x \<Longrightarrow> token (pcs s j) = Some x \<Longrightarrow> i = j"
  shows "lock_inv k s"
  unfolding lock_inv_def using assms by blast

lemma lock_inv_store:
  assumes "lock_inv k s"
  shows "srv_lookup (store s) k \<noteq> None" "get_version (store s) k = of_nat (nputs s)"
    "get_value (store s) k \<in> insert UNLOCK_NAME (set (drawn s))" "UNLOCK_NAME \<notin> set (drawn s)"
  using assms by (simp_all add: lock_inv_def)

lemma lock_inv_uniq: "lock_inv k s \<Longrightarrow> token (pcs s a) = Some x \<Longrightarrow> token (pcs s b) = Some x \<Longrightarrow> a = b"
  by (auto simp: lock_inv_def)

lemma lock_inv_drawn: "lock_inv k s \<Longrightarrow> token (pcs s a) = Some x \<Longrightarrow> x \<in> set (drawn s) \<and> x \<noteq> UNLOCK_NAME"
  by (auto simp: lock_inv_def client_ok_def)

text \<open>A step that only moves client \<open>i\<close> keeps the invariant if the new place is fine.\<close>

lemma lock_inv_move:
  assumes inv: "lock_inv k s" and t: "t = s\<lparr>pcs := (pcs s)(i := p), drawn := D\<rparr>"
    and D: "D = drawn s \<or> (\<exists>x. D = x # drawn s \<and> x \<noteq> UNLOCK_NAME)"
    and ok: "client_ok k t p"
    and tok: "token p = None \<or> token p = token (pcs s i) \<or> (\<exists>x. token p = Some x \<and> x \<notin> set (drawn s))"
  shows "lock_inv k t"
proof -
  have sub: "set (drawn s) \<subseteq> set D" "UNLOCK_NAME \<notin> set D" using D inv by (auto simp: lock_inv_def)
  have c: "client_ok k t (pcs t j)" for j
    using inv ok sub t by (cases "j = i") (auto simp: lock_inv_def client_ok_def)
  have u: "token (pcs t a) = Some x \<Longrightarrow> token (pcs t b) = Some x \<Longrightarrow> a = b" for a b x
  proof -
    have tk: "token (pcs t j) = (if j = i then token p else token (pcs s j))" for j by (simp add: t)
    have p: "token p = Some x \<Longrightarrow> token (pcs s j) = Some x \<Longrightarrow> j = i" for j
      using tok lock_inv_uniq [OF inv, of j x i] lock_inv_drawn [OF inv, of j x]
      by (metis option.distinct(1) option.inject)
    assume "token (pcs t a) = Some x" and "token (pcs t b) = Some x"
    then show "a = b"
      using p [of a] p [of b] lock_inv_uniq [OF inv, of a x b] unfolding tk by metis
  qed
  note st = lock_inv_store [OF inv]
  show ?thesis
  proof (rule lock_invI [OF _ _ _ _ c u])
    show "srv_lookup (store t) k \<noteq> None" "get_version (store t) k = of_nat (nputs t)"
      "UNLOCK_NAME \<notin> set (drawn t)" using st(1,2) sub(2) t by simp_all
    show "get_value (store t) k \<in> insert UNLOCK_NAME (set (drawn t))" using st(3) sub(1) t by auto
  qed
qed

lemma client_ok_pcs [simp]: "client_ok k (s\<lparr>pcs := f\<rparr>) p = client_ok k s p"
  by (simp add: client_ok_def)

corollary lock_inv_move_pcs:
  assumes "lock_inv k s" and "client_ok k s p" and "token p = None \<or> token p = token (pcs s i)"
  shows "lock_inv k (s\<lparr>pcs := (pcs s)(i := p)\<rparr>)"
proof -
  have "s\<lparr>pcs := (pcs s)(i := p)\<rparr> = s\<lparr>pcs := (pcs s)(i := p), drawn := drawn s\<rparr>" by (cases s) simp
  from lock_inv_move [OF assms(1) this] show ?thesis using assms(2,3) by auto
qed

lemma srv_put_current:
  assumes "v = get_version kv k" and "srv_lookup kv k \<noteq> None"
  shows "srv_lookup (fst (srv_put kv \<lparr>PutKey = k, PutValue = x, PutVersion = v\<rparr>)) k = Some (x, v + 1)"
proof -
  obtain y where "srv_lookup kv k = Some (y, v)"
    using assms by (auto simp: get_version_def split: option.splits)
  then have "snd (srv_put kv \<lparr>PutKey = k, PutValue = x, PutVersion = v\<rparr>) = OK"
    by (intro ks.put_match [where x = y]) simp
  then show ?thesis by (simp add: ks.put_lookup)
qed

text \<open>A performed put: everyone else holds nothing, and no pending put names the new version.\<close>

lemma lock_inv_put:
  assumes inv: "lock_inv k s" and v: "v = get_version (store s) k"
    and x: "x = UNLOCK_NAME \<or> absent (pcs s i) = Some x"
    and free: "\<And>j. j \<noteq> i \<Longrightarrow> owns (pcs s j) = None"
    and p: "token p = token (pcs s i)" "\<And>y. owns p = Some y \<Longrightarrow> y = x" "\<And>y. absent p = Some y \<Longrightarrow> y \<noteq> x"
      "\<And>y w. p \<noteq> AcqPut y w"
  shows "lock_inv k (lock_put k x v s i p)"
proof -
  let ?t = "lock_put k x v s i p"
  have look: "srv_lookup (store ?t) k = Some (x, v + 1)"
    using inv v by (auto simp: lock_put_def lock_inv_def intro!: srv_put_current)
  then have val: "get_value (store ?t) k = x" and ver: "get_version (store ?t) k = v + 1"
    by (simp_all add: get_value_def get_version_def)
  have tok: "token (pcs ?t j) = token (pcs s j)" for j
    using p(1) by (simp add: lock_put_def)
  have absx: "absent (pcs s j) = Some x \<Longrightarrow> j = i" for j
    using x lock_inv_uniq [OF inv, of j x i] lock_inv_drawn [OF inv, of j x] by auto
  have "client_ok k ?t (pcs ?t j)" for j
  proof (cases "j = i")
    case True
    then have "pcs ?t j = p" by (simp add: lock_put_def)
    moreover have "\<And>y. token p = Some y \<Longrightarrow> y \<in> set (drawn ?t)"
      using inv p(1) by (auto simp: lock_inv_def client_ok_def lock_put_def)
    ultimately show ?thesis using p(2-4) val by (auto simp: client_ok_def)
  next
    case False
    then have pj: "pcs ?t j = pcs s j" "nputs ?t = Suc (nputs s)" "drawn ?t = drawn s"
      by (simp_all add: lock_put_def)
    have ok: "client_ok k s (pcs s j)" using inv by (simp add: lock_inv_def)
    have "\<exists>m \<le> Suc (nputs s). w = of_nat m \<and> (m = Suc (nputs s) \<longrightarrow> x = UNLOCK_NAME)"
      if "pcs s j = AcqPut y w" for y w
    proof -
      from ok that obtain m where "m \<le> nputs s" "w = of_nat m" unfolding client_ok_def by blast
      then show ?thesis by (intro exI [of _ m]) auto
    qed
    then show ?thesis
      using free [OF False] absx [of j] False ok unfolding client_ok_def pj val by auto
  qed
  moreover have "x \<in> insert UNLOCK_NAME (set (drawn s))"
    using x lock_inv_drawn [OF inv, of i x] by auto
  moreover have "v = of_nat (nputs s)" using inv v by (simp add: lock_inv_def)
  ultimately show ?thesis
    using inv look val ver tok by (auto simp: lock_inv_def lock_put_def add.commute)
qed

lemma lock_step_nputs: "lock_step k s t \<Longrightarrow> nputs s \<le> nputs t"
  by (induction rule: lock_step.induct) (auto simp: lock_put_def)

lemma lock_step_distinct: "lock_step k s t \<Longrightarrow> distinct (drawn t) \<Longrightarrow> distinct (drawn s)"
  by (induction rule: lock_step.induct) (auto simp: lock_put_def split: if_splits)

lemma lock_inv_ok: "lock_inv k s \<Longrightarrow> client_ok k s (pcs s i)"
  by (simp add: lock_inv_def)

lemma client_ok_owns: "client_ok k s p \<Longrightarrow> owns p = Some x \<Longrightarrow> get_value (store s) k = x"
  by (simp add: client_ok_def)

lemma client_ok_absent: "client_ok k s p \<Longrightarrow> absent p = Some x \<Longrightarrow> get_value (store s) k \<noteq> x"
  by (simp add: client_ok_def)

text \<open>A client that waits to put at the current version finds the lock free.\<close>

lemma pending_put_free:
  assumes inv: "lock_inv k s" and small: "nputs s < 2 ^ 64"
    and p: "pcs s i = AcqPut x v" and v: "v = get_version (store s) k"
  shows "get_value (store s) k = UNLOCK_NAME"
proof -
  obtain m where m: "m \<le> nputs s" "v = of_nat m" "m = nputs s \<longrightarrow> get_value (store s) k = UNLOCK_NAME"
    using lock_inv_ok [OF inv, of i] p unfolding client_ok_def by blast
  have "(of_nat m :: 64 word) = of_nat (nputs s)" using m(2) v inv by (simp add: lock_inv_def)
  then have "m = nputs s" using m(1) small by (auto simp: word_of_nat_eq_iff take_bit_nat_eq_self)
  with m(3) show ?thesis by simp
qed

text \<open>Every step of every client keeps the invariant, if it draws no value a second time.\<close>

lemma lock_step_inv:
  assumes "lock_step k s t" and "lock_inv k s" and "nputs s < 2 ^ 64" and "distinct (drawn t)"
  shows "lock_inv k t"
  using assms
proof (induction rule: lock_step.induct)
  case (call_acquire s i)
  then show ?case
    by (intro lock_inv_move_pcs) (auto simp: client_ok_def token_def)
next
  case (acquire_get s i rs)
  let ?p = "Acquire_after_Get (get_value (store s) k) (get_version (store s) k) rs"
  note inv = acquire_get.prems(1)
  show ?case
  proof (cases "get_value (store s) k = UNLOCK_NAME")
    case True
    let ?t = "s\<lparr>pcs := (pcs s)(i := ?p), drawn := RandValue rs # drawn s\<rparr>"
    note new = RandValue_neq_UNLOCK [OF acquire_get.hyps(2)]
    have fresh: "RandValue rs \<notin> set (drawn s)" using acquire_get.prems(3) True by simp
    have "client_ok k ?t ?p"
      using lock_inv_store(2) [OF inv] True new by (auto simp: client_ok_def token_def Acquire_after_Get_def)
    moreover have "\<exists>x. token ?p = Some x \<and> x \<notin> set (drawn s)"
      using fresh True by (simp add: token_def Acquire_after_Get_def)
    ultimately have "lock_inv k ?t"
      using new by (intro lock_inv_move [OF inv refl]) blast+
    then show ?thesis using True by simp
  next
    case False
    then have "lock_inv k (s\<lparr>pcs := (pcs s)(i := ?p)\<rparr>)"
      by (intro lock_inv_move_pcs [OF inv]) (auto simp: client_ok_def token_def Acquire_after_Get_def)
    moreover have "s\<lparr>pcs := (pcs s)(i := ?p), drawn := drawn s\<rparr> = s\<lparr>pcs := (pcs s)(i := ?p)\<rparr>" by (cases s) simp
    ultimately show ?thesis using False by simp
  qed
next
  case (acquire_put s i x v)
  have free: "owns (pcs s j) = None" for j
    using pending_put_free [OF acquire_put.prems(1,2) acquire_put.hyps]
      client_ok_owns [OF lock_inv_ok [OF acquire_put.prems(1), of j]]
      lock_inv_drawn [OF acquire_put.prems(1), of j]
    by (cases "owns (pcs s j)") auto
  then show ?case
    using acquire_put by (intro lock_inv_put) (auto simp: token_def)
next
  case (acquire_no_put s i x v)
  then show ?case
    using lock_inv_ok [OF acquire_no_put.prems(1), of i]
    by (intro lock_inv_move_pcs)
      (auto simp: client_ok_def token_def)
next
  case (acquire_ret s i x b e)
  then show ?case
    using lock_inv_ok [OF acquire_ret.prems(1), of i]
    by (intro lock_inv_move_pcs)
      (auto simp: client_ok_def token_def Acquire_after_Put_def put_outcome_def split: if_splits)
next
  case (acquire_verify s i x b)
  then show ?case
    using lock_inv_ok [OF acquire_verify.prems(1), of i]
    by (intro lock_inv_move_pcs;
        cases b) (auto simp: client_ok_def token_def Acquire_after_verify_def)
next
  case (call_release s i x)
  then show ?case
    using lock_inv_ok [OF call_release.prems(1), of i]
    by (intro lock_inv_move_pcs) (auto simp: client_ok_def token_def)
next
  case (release_get s i x)
  then show ?case
    using lock_inv_ok [OF release_get.prems(1), of i]
    by (intro lock_inv_move_pcs)
      (auto simp: client_ok_def token_def Release_after_Get_def)
next
  case (release_put s i x v)
  have x: "get_value (store s) k = x" "x \<noteq> UNLOCK_NAME"
    using lock_inv_ok [OF release_put.prems(1), of i] release_put.hyps(1) lock_inv_drawn [OF release_put.prems(1), of i x]
    by (auto simp: client_ok_def token_def)
  have free: "j \<noteq> i \<Longrightarrow> owns (pcs s j) = None" for j
    using client_ok_owns [OF lock_inv_ok [OF release_put.prems(1), of j]] x release_put.hyps(1)
      lock_inv_uniq [OF release_put.prems(1), of i x j]
    by (cases "owns (pcs s j)") (auto simp: token_def)
  then show ?case
    using release_put x by (intro lock_inv_put) (auto simp: token_def)
next
  case (release_no_put s i x v)
  then show ?case
    using lock_inv_ok [OF release_no_put.prems(1), of i]
    by (intro lock_inv_move_pcs)
      (auto simp: client_ok_def token_def)
next
  case (release_ret s i x b e)
  then show ?case
    using lock_inv_ok [OF release_ret.prems(1), of i]
    by (intro lock_inv_move_pcs)
      (auto simp: client_ok_def token_def Release_after_Put_def put_outcome_def split: if_splits)
next
  case (release_verify s i x b)
  then show ?case
    using lock_inv_ok [OF release_verify.prems(1), of i]
    by (intro lock_inv_move_pcs;
        cases b) (auto simp: client_ok_def token_def Release_after_verify_def)
qed

lemma lock_init_inv: "lock_inv k (lock_init k)"
  by (auto simp: lock_inv_def lock_init_def MakeLock_round_def client_ok_def token_def get_value_def
      get_version_def srv_lookup_def srv_put_def KVServer_Put_def MakeKVServer_def)

lemma lock_reach_inv: "lock_reach k s \<Longrightarrow> nputs s < 2 ^ 64 \<Longrightarrow> distinct (drawn s) \<Longrightarrow> lock_inv k s"
proof (induction rule: lock_reach.induct)
  case start
  show ?case by (rule lock_init_inv)
next
  case (step s t)
  have "nputs s \<le> nputs t" by (rule lock_step_nputs) (rule step.hyps(2))
  then show ?case using step lock_step_inv [of k s t] lock_step_distinct [of k s t] by simp
qed

section \<open>Properties\<close>

text \<open>
  C13. Mutual exclusion: whatever the interleaving of any number of clients and the answers the
  clerk may give, if the values \<open>Acquire\<close> has drawn so far are pairwise different and
  fewer than \<open>2 ^ 64\<close> puts have been performed on the lock's key, then no two clients
  are between the return of \<open>Acquire\<close> and the call of \<open>Release\<close> at the same
  time. The condition on the draws is one on the random source: the code does not check it.
\<close>

theorem lock_mutual_exclusion:
  assumes "lock_reach k s" and "nputs s < 2 ^ 64" and "distinct (drawn s)"
    and "pcs s i = Held x" and "pcs s j = Held y"
  shows "i = j"
proof -
  note inv = lock_reach_inv [OF assms(1-3)]
  have "x = y"
    using client_ok_owns [OF lock_inv_ok [OF inv, of i], of x] client_ok_owns [OF lock_inv_ok [OF inv, of j], of y]
      assms(4,5) by simp
  then show ?thesis using lock_inv_uniq [OF inv, of i x j] assms(4,5) by (simp add: token_def)
qed

text \<open>A run in which client 0 acquires the lock through an unsure put.\<close>

definition demo_ident :: string where "demo_ident = RandValue (replicate 8 0)"

lemma lock_demo_run:
  "\<exists>s. lock_reach ''l'' s \<and> nputs s = 2 \<and> drawn s = [demo_ident] \<and> pcs s 0 = Held demo_ident"
proof -
  let ?s0 = "lock_init ''l''"
  let ?s1 = "?s0\<lparr>pcs := (pcs ?s0)(0 := AcqGet)\<rparr>"
  let ?s2 = "?s1\<lparr>pcs := (pcs ?s1)(0 := AcqPut demo_ident 1), drawn := demo_ident # drawn ?s1\<rparr>"
  let ?s3 = "lock_put ''l'' demo_ident 1 ?s2 0 (AcqPutRet demo_ident True)"
  let ?s4 = "?s3\<lparr>pcs := (pcs ?s3)(0 := AcqVerify demo_ident True)\<rparr>"
  let ?s5 = "?s4\<lparr>pcs := (pcs ?s4)(0 := Held demo_ident)\<rparr>"
  have v0: "get_value (store ?s0) ''l'' = UNLOCK_NAME" "get_version (store ?s0) ''l'' = 1"
    by (simp_all add: lock_init_def MakeLock_round_def get_value_def get_version_def srv_lookup_def srv_put_def
        KVServer_Put_def MakeKVServer_def)
  have st1: "lock_step ''l'' ?s0 ?s1" by (rule call_acquire) (simp add: lock_init_def)
  have st2: "lock_step ''l'' ?s1 ?s2"
    using acquire_get [of ?s1 0 "replicate 8 0" "''l''"] v0
    by (simp add: lock_init_def demo_ident_def Acquire_after_Get_def)
  have st3: "lock_step ''l'' ?s2 ?s3" by (rule acquire_put) (use v0 in simp_all)
  have st4: "lock_step ''l'' ?s3 ?s4"
    using acquire_ret [of ?s3 0 demo_ident True ErrMaybe "''l''"]
    by (simp add: lock_put_def put_outcome_def Acquire_after_Put_def)
  have "get_value (store ?s4) ''l'' = demo_ident"
    using srv_put_current [of 1 "store ?s0" "''l''" demo_ident] v0
    by (simp add: lock_put_def get_value_def get_version_def split: option.splits)
  then have st5: "lock_step ''l'' ?s4 ?s5"
    using acquire_verify [of ?s4 0 demo_ident True "''l''"] by (simp add: Acquire_after_verify_def)
  have "lock_reach ''l'' ?s5"
    by (rule lock_reach.step [OF lock_reach.step [OF lock_reach.step [OF lock_reach.step [OF
          lock_reach.step [OF lock_reach.start st1] st2] st3] st4] st5])
  then show ?thesis by (rule exI [of _ ?s5, OF conjI]) (simp add: lock_put_def lock_init_def)
qed

theorem lock_mutual_exclusion_witness:
  "\<exists>s. lock_reach ''l'' s \<and> pcs s 0 = Held demo_ident \<and> (\<forall>y. pcs s 1 \<noteq> Held y)"
proof -
  obtain s where s: "lock_reach ''l'' s" "nputs s = 2" "drawn s = [demo_ident]" "pcs s 0 = Held demo_ident"
    using lock_demo_run by blast
  have "pcs s 1 \<noteq> Held y" for y
    using lock_mutual_exclusion [OF s(1) _ _ s(4), of 1 y] s(2,3) by auto
  with s show ?thesis by blast
qed

text \<open>
  \<open>MakeLock\<close> leaves the lock's key in the server: whichever way its loop ends on the
  answer of a get at that server, the key exists afterwards, and a key that existed keeps its
  entry, so a lock that is held stays held.
\<close>

theorem makelock_ensures_key:
  assumes "MakeLock_round kv k (GetErr (KVServer_Get kv \<lparr>GetKey = k\<rparr> zeroGetReply)) = Some kv'"
  shows "srv_lookup kv' k \<noteq> None \<and> (srv_lookup kv k \<noteq> None \<longrightarrow> srv_lookup kv' k = srv_lookup kv k)"
  using assms
  by (auto simp: MakeLock_round_def KVServer_Get_def srv_lookup_def srv_put_def KVServer_Put_def zeroGetReply_def
      split: option.splits if_splits)

theorem makelock_ensures_key_witness:
  "\<exists>kv'. MakeLock_round MakeKVServer ''l'' (GetErr (KVServer_Get MakeKVServer \<lparr>GetKey = ''l''\<rparr> zeroGetReply)) = Some kv' \<and>
     srv_lookup kv' ''l'' \<noteq> None"
proof -
  obtain kv' where "MakeLock_round MakeKVServer ''l'' (GetErr (KVServer_Get MakeKVServer \<lparr>GetKey = ''l''\<rparr> zeroGetReply)) = Some kv'"
    by (simp add: MakeLock_round_def KVServer_Get_def MakeKVServer_def zeroGetReply_def)
  then show ?thesis using makelock_ensures_key by blast
qed

end
