(* ===== verification/KvModel.thy ===== *)
theory KvModel
  imports KvSrv "HOL-Library.Char_ord" "HOL-Library.List_Lexorder"
begin

text \<open>
  The sequential model against which the tests check histories (models1/kv.go): partition of a
  history by key, the initial state and the step relation of one key. The search over
  linearizations is the porcupine package's and is not modelled.
\<close>

record KvInput =
  InOp :: "8 word"
  InKey :: string
  InValue :: string
  InVersion :: "64 word"

record KvOutput =
  OutValue :: string
  OutVersion :: "64 word"
  OutErr :: string

record KvState =
  StValue :: string
  StVersion :: "64 word"

text \<open>An entry of a recorded history: an operation with the readings of the clock around it.\<close>

record Operation =
  OpInput :: KvInput
  OpOutput :: KvOutput
  OpCall :: int
  OpReturn :: int
  OpClientId :: int

definition KvModel_Init :: KvState where
  "KvModel_Init = \<lparr>StValue = '''', StVersion = 0\<rparr>"

text \<open>The state \<^verbatim>\<open>"<invalid>"\<close> that the last case returns is \<open>None\<close>.\<close>

definition KvModel_Step :: "KvState \<Rightarrow> KvInput \<Rightarrow> KvOutput \<Rightarrow> bool \<times> KvState option" where
  "KvModel_Step st inp out =
     (if InOp inp = 0 then (OutValue out = StValue st, Some st)
      else if InOp inp = 1 then
        (if StVersion st = InVersion inp
         then (OutErr out = ''OK'' \<or> OutErr out = ''ErrMaybe'',
               Some \<lparr>StValue = InValue inp, StVersion = StVersion st + 1\<rparr>)
         else (OutErr out = ''ErrVersion'' \<or> OutErr out = ''ErrMaybe'', Some st))
      else (False, None))"

text \<open>The loop that groups the history, then the sorted keys. A Go map read at a missing key is nil.\<close>

fun group_by_key :: "(string \<rightharpoonup> Operation list) \<Rightarrow> Operation list \<Rightarrow> (string \<rightharpoonup> Operation list)" where
  "group_by_key m [] = m"
| "group_by_key m (v # vs) =
     group_by_key (m(InKey (OpInput v) \<mapsto> (case m (InKey (OpInput v)) of None \<Rightarrow> [] | Some l \<Rightarrow> l) @ [v])) vs"

definition KvModel_Partition :: "Operation list \<Rightarrow> Operation list list" where
  "KvModel_Partition history =
     (let m = group_by_key Map.empty history;
          keys = sort (remdups (map (InKey \<circ> OpInput) history))
      in map (\<lambda>k. case m k of None \<Rightarrow> [] | Some l \<Rightarrow> l) keys)"

text \<open>What kvtest1/porcupine.go records of a get and of a put.\<close>

definition get_operation :: "string \<Rightarrow> string \<Rightarrow> Tversion \<Rightarrow> Err \<Rightarrow> int \<Rightarrow> int \<Rightarrow> int \<Rightarrow> Operation" where
  "get_operation k x v e start finish cli =
     \<lparr>OpInput = \<lparr>InOp = 0, InKey = k, InValue = '''', InVersion = 0\<rparr>,
      OpOutput = \<lparr>OutValue = x, OutVersion = v, OutErr = e\<rparr>,
      OpCall = start, OpReturn = finish, OpClientId = cli\<rparr>"

definition put_operation :: "PutArgs \<Rightarrow> Err \<Rightarrow> int \<Rightarrow> int \<Rightarrow> int \<Rightarrow> Operation" where
  "put_operation a e start finish cli =
     \<lparr>OpInput = \<lparr>InOp = 1, InKey = PutKey a, InValue = PutValue a, InVersion = PutVersion a\<rparr>,
      OpOutput = \<lparr>OutValue = '''', OutVersion = 0, OutErr = e\<rparr>,
      OpCall = start, OpReturn = finish, OpClientId = cli\<rparr>"

text \<open>The abstraction: one key of the server as the model's state.\<close>

definition kv_abs :: "KVServer \<Rightarrow> string \<Rightarrow> KvState" where
  "kv_abs kv k = (case kv_map kv k of None \<Rightarrow> KvModel_Init
     | Some x \<Rightarrow> \<lparr>StValue = vvalue x, StVersion = vversion x\<rparr>)"

section \<open>The server and the model\<close>

text \<open>
  The server refines the model: a get is always accepted and keeps the state; after a put
  the server's key is the state the model computes, other keys keep theirs, and the model
  accepts the server's answer unless the key was missing and the version not 0.
\<close>

theorem server_refines_model:
  "(case KVServer_Get kv \<lparr>GetKey = k\<rparr> zeroGetReply of r \<Rightarrow>
      let op = get_operation k (GetValue r) (GetVersion r) (GetErr r) start finish cli
      in KvModel_Step (kv_abs kv k) (OpInput op) (OpOutput op) = (True, Some (kv_abs kv k))) \<and>
   (case KVServer_Put kv a zeroPutReply of (kv', r) \<Rightarrow>
      let op = put_operation a (PutErr r) start finish cli
      in KvModel_Step (kv_abs kv (PutKey a)) (OpInput op) (OpOutput op)
           = (\<not> (kv_map kv (PutKey a) = None \<and> PutVersion a \<noteq> 0), Some (kv_abs kv' (PutKey a))) \<and>
         (\<forall>j. j = PutKey a \<or> kv_abs kv' j = kv_abs kv j))"
  by (auto simp: KvModel_Step_def KvModel_Init_def get_operation_def put_operation_def kv_abs_def Let_def
      KVServer_Get_def KVServer_Put_def zeroGetReply_def zeroPutReply_def err_defs split: option.splits)

section \<open>Partition\<close>

lemma group_by_key_eq:
  "group_by_key m vs k =
     (if filter (\<lambda>v. InKey (OpInput v) = k) vs = [] then m k
      else Some ((case m k of None \<Rightarrow> [] | Some l \<Rightarrow> l) @ filter (\<lambda>v. InKey (OpInput v) = k) vs))"
  by (induction vs arbitrary: m) (auto split: option.splits)

lemma Partition_eq:
  "KvModel_Partition h =
     map (\<lambda>k. filter (\<lambda>v. InKey (OpInput v) = k) h) (sort (remdups (map (InKey \<circ> OpInput) h)))"
  by (auto simp: KvModel_Partition_def group_by_key_eq)

lemma filter_classes_mset:
  assumes "distinct ks" and "\<And>x. x \<in> set xs \<Longrightarrow> f x \<in> set ks"
  shows "mset (concat (map (\<lambda>k. filter (\<lambda>x. f x = k) xs) ks)) = mset xs"
  using assms
proof (induction ks arbitrary: xs)
  case Nil
  then show ?case by (cases xs) auto
next
  case (Cons k ks)
  let ?ys = "filter (\<lambda>x. f x \<noteq> k) xs"
  have "map (\<lambda>j. filter (\<lambda>x. f x = j) ?ys) ks = map (\<lambda>j. filter (\<lambda>x. f x = j) xs) ks"
    using Cons.prems(1) by (auto intro!: filter_cong)
  moreover have "mset (concat (map (\<lambda>j. filter (\<lambda>x. f x = j) ?ys) ks)) = mset ?ys"
    using Cons.prems by (intro Cons.IH) auto
  ultimately have "mset (concat (map (\<lambda>j. filter (\<lambda>x. f x = j) xs) ks)) = mset ?ys" by metis
  then show ?case by (simp add: mset_filter)
qed

text \<open>
  Checking key by key loses nothing: the parts together hold each recorded operation
  exactly once, every part is the whole subsequence of one key in the recorded order, and the
  keys of the parts increase strictly.
\<close>

theorem partition_is_complete:
  "mset (concat (KvModel_Partition h)) = mset h \<and>
   (\<exists>ks. sorted ks \<and> distinct ks \<and> set ks = set (map (InKey \<circ> OpInput) h) \<and>
      KvModel_Partition h = map (\<lambda>k. filter (\<lambda>v. InKey (OpInput v) = k) h) ks)"
proof
  show "mset (concat (KvModel_Partition h)) = mset h"
    unfolding Partition_eq by (rule filter_classes_mset) auto
  show "\<exists>ks. sorted ks \<and> distinct ks \<and> set ks = set (map (InKey \<circ> OpInput) h) \<and>
      KvModel_Partition h = map (\<lambda>k. filter (\<lambda>v. InKey (OpInput v) = k) h) ks"
    by (intro exI [of _ "sort (remdups (map (InKey \<circ> OpInput) h))"]) (auto simp: Partition_eq)
qed

end
