(* ===== verification/Linear.thy ===== *)
theory Linear
  imports KvModel KvClerk
begin

text \<open>
  Linearizability of the key/value services (kvtest1/porcupine.go with models1/kv.go). The tests wrap every call of a
  clerk: they read the clock, call, read the clock again and append what was asked and answered to a log, which is
  then checked against the sequential model. Here any number of clients do this at the same time, each with
  its clerk, over a network that loses requests and replies. The locale \<open>recorded_store\<close> says what is used of
  the service and of the clerk; it is interpreted here on the single server of kvsrv1 with its clerk, and in theory \<open>LinearRaft\<close> on
  the replicated service, where a request that was given up may still be executed later.

  The theory shows that the log is linearizable, whatever the clients, the network and the clock do. Each operation
  takes effect at one moment between its two clock readings: a put when the service performs it,
  or when it is refused for the last time; a get when its answer is computed.
\<close>

section \<open>Clients that record their calls\<close>

text \<open>What a clerk does with the answer to one request; the loops of the clerk repeat this.\<close>

definition Put_reply :: "bool \<Rightarrow> Err \<Rightarrow> Err" where
  "Put_reply retried e =
     (if e = OK then e else if e = ErrNoKey then e
      else if e = ErrVersion then (if retried then ErrMaybe else ErrVersion) else ErrNoKey)"

definition Get_reply :: "GetReply \<Rightarrow> (string \<times> Tversion \<times> Err) option" where
  "Get_reply reply =
     (if GetErr reply = OK then Some (GetValue reply, GetVersion reply, GetErr reply)
      else if GetErr reply = ErrNoKey then Some ('''', GetVersion reply, GetErr reply)
      else if GetErr reply \<in> {ErrMaybe, ErrVersion, ErrWrongGroup, ErrWrongLeader} then None
      else Some ('''', 0, ErrNoKey))"

lemma Clerk_Put_iteration:
  "Clerk_Put_loop call (Suc n) retried w k x v =
     (case call w \<lparr>PutKey = k, PutValue = x, PutVersion = v\<rparr> of
        (w', None) \<Rightarrow> Clerk_Put_loop call n True w' k x v
      | (w', Some reply) \<Rightarrow> Some (Put_reply retried (PutErr reply), w'))"
  by (simp add: Put_reply_def split: prod.split option.split)

lemma Clerk_Get_iteration:
  "Clerk_Get call (Suc n) w k =
     (case call w \<lparr>GetKey = k\<rparr> of
        (w', None) \<Rightarrow> Clerk_Get call n w' k
      | (w', Some reply) \<Rightarrow> (case Get_reply reply of None \<Rightarrow> Clerk_Get call n w' k | Some r \<Rightarrow> Some (r, w')))"
  by (auto simp: Get_reply_def err_defs split: prod.split option.split)

text \<open>
  A service: its table with the two operations, what the clerk returns for an answer (\<open>None\<close>: it goes on), and whether
  a request without an answer may be executed later. \<open>sv_known\<close> says that the clients take the version of a put from what
  was read, or 0: it is not one that the key has yet to reach.
\<close>

record 's service =
  sv_init :: 's
  sv_put :: "'s \<Rightarrow> PutArgs \<Rightarrow> 's \<times> Err"
  sv_get :: "'s \<Rightarrow> string \<Rightarrow> GetReply"
  sv_put_reply :: "bool \<Rightarrow> Err \<Rightarrow> Err option"
  sv_get_reply :: "GetReply \<Rightarrow> (string \<times> Tversion \<times> Err) option"
  sv_late :: bool
  sv_known :: bool

definition n_versions :: "'s service \<Rightarrow> PutArgs list \<Rightarrow> string \<Rightarrow> nat" where
  "n_versions S h k = n_performed (sv_put S) (\<lambda>b. PutKey b = k) (sv_init S) h"

definition known_version :: "'s service \<Rightarrow> PutArgs list \<Rightarrow> PutArgs \<Rightarrow> bool" where
  "known_version S h a \<longleftrightarrow> (\<exists>m \<le> n_versions S h (PutKey a). PutVersion a = of_nat m)"

text \<open>
  Where a client is: in the clerk's loop, with the first clock reading; returned from it; with the record to append.
\<close>

datatype lcall =
    GetCall string int
  | PutCall PutArgs bool int
  | GetDone string int string Tversion Err
  | PutDone PutArgs int Err
  | Recording Operation

record 's lin_sys =
  l_srv :: 's
  l_cl :: "nat \<Rightarrow> lcall option"
  l_clock :: int
  l_log :: "Operation list"
  l_hist :: "PutArgs list"
  l_left :: "PutArgs list"

text \<open>\<open>l_hist\<close> lists the puts the service has executed, \<open>l_left\<close> the requests that may be executed later.\<close>

definition lin_init :: "'s service \<Rightarrow> 's lin_sys" where
  "lin_init S = \<lparr>l_srv = sv_init S, l_cl = (\<lambda>_. None), l_clock = 0, l_log = [], l_hist = [], l_left = []\<rparr>"

abbreviation at_call :: "nat \<Rightarrow> lcall \<Rightarrow> 's lin_sys \<Rightarrow> 's lin_sys" where
  "at_call c p s \<equiv> s\<lparr>l_cl := (l_cl s)(c := Some p)\<rparr>"

definition execute :: "'s service \<Rightarrow> PutArgs \<Rightarrow> 's lin_sys \<Rightarrow> 's lin_sys" where
  "execute S a s = s\<lparr>l_srv := fst (sv_put S (l_srv s) a), l_hist := l_hist s @ [a]\<rparr>"

definition Get_call :: "'s service \<Rightarrow> nat \<Rightarrow> string \<Rightarrow> int \<Rightarrow> delivery \<Rightarrow> 's lin_sys \<Rightarrow> 's lin_sys" where
  "Get_call S c k t d s =
     (case d of
        Delivered \<Rightarrow> (case sv_get_reply S (sv_get S (l_srv s) k) of
                        None \<Rightarrow> s | Some (x, v, e) \<Rightarrow> at_call c (GetDone k t x v e) s)
      | _ \<Rightarrow> s)"

definition Put_call :: "'s service \<Rightarrow> nat \<Rightarrow> PutArgs \<Rightarrow> bool \<Rightarrow> int \<Rightarrow> delivery \<Rightarrow> 's lin_sys \<Rightarrow> 's lin_sys" where
  "Put_call S c a retried t d s =
     (case d of
        LostRequest \<Rightarrow> at_call c (PutCall a True t) (s\<lparr>l_left := if sv_late S then a # l_left s else l_left s\<rparr>)
      | LostReply \<Rightarrow> at_call c (PutCall a True t) (execute S a s)
      | Delivered \<Rightarrow>
          (case sv_put_reply S retried (snd (sv_put S (l_srv s) a)) of
             None \<Rightarrow> execute S a s
           | Some e \<Rightarrow> at_call c (PutDone a t e) (execute S a s)))"

inductive lin_step :: "'s service \<Rightarrow> 's lin_sys \<Rightarrow> 's lin_sys \<Rightarrow> bool" for S where
  tick: "l_clock s \<le> t \<Longrightarrow> lin_step S s (s\<lparr>l_clock := t\<rparr>)"
| get: "l_cl s c = None \<Longrightarrow> lin_step S s (at_call c (GetCall k (l_clock s)) s)"
| put: "l_cl s c = None \<Longrightarrow> sv_known S \<longrightarrow> known_version S (l_hist s) a \<Longrightarrow>
     lin_step S s (at_call c (PutCall a False (l_clock s)) s)"
| get_call: "l_cl s c = Some (GetCall k t) \<Longrightarrow> lin_step S s (Get_call S c k t d s)"
| put_call: "l_cl s c = Some (PutCall a retried t) \<Longrightarrow> lin_step S s (Put_call S c a retried t d s)"
| late: "a \<in> set (l_left s) \<Longrightarrow> lin_step S s (execute S a (s\<lparr>l_left := remove1 a (l_left s)\<rparr>))"
| get_end: "l_cl s c = Some (GetDone k t x v e) \<Longrightarrow>
     lin_step S s (at_call c (Recording (get_operation k x v e t (l_clock s) (int c))) s)"
| put_end: "l_cl s c = Some (PutDone a t e) \<Longrightarrow>
     lin_step S s (at_call c (Recording (put_operation a e t (l_clock s) (int c))) s)"
| append: "l_cl s c = Some (Recording op) \<Longrightarrow>
     lin_step S s (s\<lparr>l_cl := (l_cl s)(c := None), l_log := l_log s @ [op]\<rparr>)"

section \<open>Linearizable histories\<close>

text \<open>
  A history of one key is linearizable if its operations can be put into an order that the model accepts from its
  initial state and in which none comes before one that had returned when it was called.
\<close>

fun run_model :: "KvState \<Rightarrow> Operation list \<Rightarrow> KvState option" where
  "run_model st [] = Some st"
| "run_model st (op # ops) =
     (case KvModel_Step st (OpInput op) (OpOutput op) of (True, Some st') \<Rightarrow> run_model st' ops | _ \<Rightarrow> None)"

definition linearizable :: "Operation list \<Rightarrow> bool" where
  "linearizable h \<longleftrightarrow> (\<exists>L. mset L = mset h \<and> sorted_wrt (\<lambda>a b. OpCall a \<le> OpReturn b) L \<and> run_model KvModel_Init L \<noteq> None)"

text \<open>
  The check: porcupine partitions the history by key and searches for an order of each part. The search is an argument that
  gives one of three results; \<open>False\<close> stops the test.
\<close>

datatype check_result = Ok | Unknown | Illegal

definition checkPorcupine :: "(Operation list list \<Rightarrow> check_result) \<Rightarrow> Operation list \<Rightarrow> bool" where
  "checkPorcupine search opLog \<longleftrightarrow> search (KvModel_Partition opLog) \<noteq> Illegal"

definition sound_search :: "(Operation list list \<Rightarrow> check_result) \<Rightarrow> bool" where
  "sound_search search \<longleftrightarrow> (\<forall>parts. search parts = Illegal \<longrightarrow> \<not> (\<forall>h \<in> set parts. linearizable h))"

lemma run_model_append: "run_model st (xs @ ys) = Option.bind (run_model st xs) (\<lambda>st'. run_model st' ys)"
  by (induction xs arbitrary: st) (auto split: prod.split option.split bool.split)

text \<open>An operation that the model treats as another one.\<close>

definition weaker :: "Operation \<Rightarrow> Operation \<Rightarrow> bool" where
  "weaker op op' \<longleftrightarrow> OpInput op' = OpInput op \<and>
     (\<forall>st st'. KvModel_Step st (OpInput op) (OpOutput op) = (True, Some st') \<longrightarrow>
               KvModel_Step st (OpInput op) (OpOutput op') = (True, Some st'))"

lemma run_model_weaker:
  "list_all2 weaker xs ys \<Longrightarrow> run_model st (filter (\<lambda>op. InKey (OpInput op) = k) xs) = Some st' \<Longrightarrow>
     run_model st (filter (\<lambda>op. InKey (OpInput op) = k) ys) = Some st'"
proof (induction xs ys arbitrary: st rule: list_all2_induct)
  case (Cons x xs y ys)
  then show ?case by (auto simp: weaker_def split: prod.splits option.splits bool.splits)
qed simp

text \<open>One key of the table as the state of the model.\<close>

definition store_abs :: "('s \<Rightarrow> string \<Rightarrow> (string \<times> Tversion) option) \<Rightarrow> 's \<Rightarrow> string \<Rightarrow> KvState" where
  "store_abs lookup s k = (case lookup s k of None \<Rightarrow> KvModel_Init | Some (x, v) \<Rightarrow> \<lparr>StValue = x, StVersion = v\<rparr>)"

section \<open>The order in which operations take effect\<close>

text \<open>
  The order is kept as a list of logged operations and of clients whose operation has taken effect but is
  not in the log yet; what such a client will log is read off where it is.
\<close>

definition pend_op :: "nat \<Rightarrow> lcall option \<Rightarrow> Operation" where
  "pend_op c p =
     (case p of
        Some (PutCall a retried t) \<Rightarrow> put_operation a OK t 0 (int c)
      | Some (GetDone k t x v e) \<Rightarrow> get_operation k x v e t 0 (int c)
      | Some (PutDone a t e) \<Rightarrow> put_operation a e t 0 (int c)
      | Some (Recording op) \<Rightarrow> op
      | _ \<Rightarrow> undefined)"

definition resolve :: "(nat \<Rightarrow> lcall option) \<Rightarrow> nat + Operation \<Rightarrow> Operation" where
  "resolve cl x = (case x of Inl c \<Rightarrow> pend_op c (cl c) | Inr op \<Rightarrow> op)"

definition returned :: "(nat \<Rightarrow> lcall option) \<Rightarrow> nat + Operation \<Rightarrow> bool" where
  "returned cl x = (case x of Inl c \<Rightarrow> (\<exists>op. cl c = Some (Recording op)) | Inr op \<Rightarrow> True)"

lemma resolve_simps [simp]:
  "resolve cl (Inr op) = op" "resolve cl (Inl c) = pend_op c (cl c)"
  "returned cl (Inr op)" "returned cl (Inl c) \<longleftrightarrow> (\<exists>op. cl c = Some (Recording op))"
  by (simp_all add: resolve_def returned_def)

fun call_time :: "lcall \<Rightarrow> int" where
  "call_time (GetCall k t) = t"
| "call_time (PutCall a r t) = t"
| "call_time (GetDone k t x v e) = t"
| "call_time (PutDone a t e) = t"
| "call_time (Recording op) = OpCall op"

text \<open>The answer the model does not know.\<close>

definition no_key_put :: "Operation \<Rightarrow> bool" where
  "no_key_put op \<longleftrightarrow> InOp (OpInput op) = 1 \<and> OutErr (OpOutput op) = ErrNoKey"

definition unknown_answer :: "'s lin_sys \<Rightarrow> bool" where
  "unknown_answer s \<longleftrightarrow> (\<exists>op \<in> set (l_log s). no_key_put op) \<or>
     (\<exists>c a t op. l_cl s c = Some (PutDone a t ErrNoKey) \<or> l_cl s c = Some (Recording op) \<and> no_key_put op)"

lemma op_simps [simp]:
  "OpInput (put_operation a e t r i) = \<lparr>InOp = 1, InKey = PutKey a, InValue = PutValue a, InVersion = PutVersion a\<rparr>"
  "OpOutput (put_operation a e t r i) = \<lparr>OutValue = '''', OutVersion = 0, OutErr = e\<rparr>"
  "OpCall (put_operation a e t r i) = t" "OpReturn (put_operation a e t r i) = r"
  "OpInput (get_operation k x v e t r i) = \<lparr>InOp = 0, InKey = k, InValue = '''', InVersion = 0\<rparr>"
  "OpOutput (get_operation k x v e t r i) = \<lparr>OutValue = x, OutVersion = v, OutErr = e\<rparr>"
  "OpCall (get_operation k x v e t r i) = t" "OpReturn (get_operation k x v e t r i) = r"
  by (simp_all add: put_operation_def get_operation_def)

lemma weaker_refl [simp]: "weaker op op"
  by (simp add: weaker_def)

lemma weaker_maybe: "weaker (put_operation a OK t r i) (put_operation a ErrMaybe t' r' i')"
  by (auto simp: weaker_def KvModel_Step_def err_defs)

lemma weaker_same:
  "weaker (put_operation a e t r i) (put_operation a e t' r' i')"
  "weaker (get_operation k x v e t r i) (get_operation k x v e t' r' i')"
  by (auto simp: weaker_def)

lemmas call_defs = Get_call_def Put_call_def execute_def
lemmas call_splits = delivery.splits option.splits prod.splits if_splits

lemma unknown_answer_step:
  assumes "lin_step S s s'" and "unknown_answer s"
  shows "unknown_answer s'"
proof -
  consider op where "op \<in> set (l_log s)" "no_key_put op" | c a t where "l_cl s c = Some (PutDone a t ErrNoKey)"
    | c op where "l_cl s c = Some (Recording op)" "no_key_put op"
    using assms(2) unfolding unknown_answer_def by blast
  then show ?thesis
  proof cases
    case 1
    have "op \<in> set (l_log s')" using assms(1) by cases (use 1 in \<open>auto simp: call_defs split: call_splits\<close>)
    then show ?thesis using 1 by (auto simp: unknown_answer_def)
  next
    case (2 c a t)
    have "l_cl s' c = l_cl s c \<or> l_cl s' c = Some (Recording (put_operation a ErrNoKey t (l_clock s) (int c)))"
      using assms(1) by cases (use 2 in \<open>auto simp: call_defs split: call_splits\<close>)
    moreover have "no_key_put (put_operation a ErrNoKey t (l_clock s) (int c))" by (simp add: no_key_put_def)
    ultimately show ?thesis using 2 unfolding unknown_answer_def by metis
  next
    case (3 c op)
    have "l_cl s' c = l_cl s c \<or> op \<in> set (l_log s')"
      using assms(1) by cases (use 3 in \<open>auto simp: call_defs split: call_splits\<close>)
    then show ?thesis using 3 by (auto simp: unknown_answer_def)
  qed
qed

lemma lin_step_hist: "lin_step S s s' \<Longrightarrow> length (l_hist s) \<le> length (l_hist s')"
  by (induction rule: lin_step.induct) (auto simp: call_defs split: call_splits)

text \<open>A clerk that never reports \<open>ErrNoKey\<close> for a put leaves the model no unknown answer.\<close>

lemma known_answer_step:
  assumes "lin_step S s s'" and "\<not> unknown_answer s" and "\<forall>r e. sv_put_reply S r e \<noteq> Some ErrNoKey"
  shows "\<not> unknown_answer s'"
  using assms(1)
proof cases
  case (put_call c a retried t d)
  then show ?thesis using assms(2,3) by (auto simp: unknown_answer_def call_defs split: call_splits)
next
  case (get_end c k t x v e)
  then show ?thesis using assms(2) by (auto simp: unknown_answer_def no_key_put_def split: if_splits)
next
  case (put_end c a t e)
  then have "e \<noteq> ErrNoKey" using assms(2) by (auto simp: unknown_answer_def)
  then show ?thesis using put_end assms(2) by (auto simp: unknown_answer_def no_key_put_def split: if_splits)
next
  case (append c op)
  then have "\<not> no_key_put op" using assms(2) by (auto simp: unknown_answer_def)
  then show ?thesis using append assms(2) by (auto simp: unknown_answer_def split: if_splits)
qed (use assms(2) in \<open>auto simp: unknown_answer_def call_defs split: call_splits\<close>)

section \<open>What is used of the service and its clerk\<close>

locale recorded_store = versioned_store lookup "sv_put S"
  for lookup :: "'s \<Rightarrow> string \<Rightarrow> (string \<times> Tversion) option" and S :: "'s service" +
  assumes init: "lookup (sv_init S) = (\<lambda>_. None)"
    and get_value: "sv_get_reply S (sv_get S s k) = Some (x, v, e) \<Longrightarrow> x = StValue (store_abs lookup s k)"
    and reply_ok: "sv_put_reply S r OK = Some OK"
    and reply_version: "sv_put_reply S r ErrVersion = Some (if r then ErrMaybe else ErrVersion)"
    and reply_no_key: "sv_put_reply S r ErrNoKey = Some ErrNoKey \<or> sv_put_reply S r ErrNoKey = None"
    and late_known: "sv_late S \<Longrightarrow> sv_known S"
begin

text \<open>When a put of a client has taken effect before its clerk returned, it was performed and a later answer will not be believed.\<close>

definition was_performed :: "PutArgs list \<Rightarrow> PutArgs \<Rightarrow> bool" where
  "was_performed h a \<longleftrightarrow>
     0 < n_performed (sv_put S) (\<lambda>b. PutKey b = PutKey a \<and> PutVersion b = PutVersion a \<and> True) (sv_init S) h"

text \<open>Which clients are in the order.\<close>

definition placed :: "PutArgs list \<Rightarrow> lcall option \<Rightarrow> bool \<Rightarrow> bool" where
  "placed h p b \<longleftrightarrow>
     (case p of
        None \<Rightarrow> \<not> b
      | Some (GetCall k t) \<Rightarrow> \<not> b
      | Some (PutCall a retried t) \<Rightarrow> b \<longrightarrow> retried \<and> was_performed h a
      | Some _ \<Rightarrow> b)"

definition order_ok :: "'s lin_sys \<Rightarrow> (nat + Operation) list \<Rightarrow> bool" where
  "order_ok s L \<longleftrightarrow>
     l_srv s = run_puts (sv_put S) (sv_init S) (l_hist s) \<and>
     mset (map projr (filter (\<lambda>x. \<not> isl x) L)) = mset (l_log s) \<and> distinct (filter isl L) \<and>
     (\<forall>c. placed (l_hist s) (l_cl s c) (Inl c \<in> set L)) \<and>
     (\<forall>c p. l_cl s c = Some p \<longrightarrow> call_time p \<le> l_clock s) \<and>
     (\<forall>x \<in> set L. OpCall (resolve (l_cl s) x) \<le> l_clock s) \<and>
     sorted_wrt (\<lambda>x y. returned (l_cl s) y \<longrightarrow> OpCall (resolve (l_cl s) x) \<le> OpReturn (resolve (l_cl s) y)) L \<and>
     (\<forall>k. run_model KvModel_Init (filter (\<lambda>op. InKey (OpInput op) = k) (map (resolve (l_cl s)) L)) = Some (store_abs lookup (l_srv s) k))"

lemma order_okD:
  assumes "order_ok s L"
  shows "l_srv s = run_puts (sv_put S) (sv_init S) (l_hist s)"
    and "mset (map projr (filter (\<lambda>x. \<not> isl x) L)) = mset (l_log s)" and "distinct (filter isl L)"
    and "placed (l_hist s) (l_cl s c) (Inl c \<in> set L)" and "l_cl s c = Some p \<Longrightarrow> call_time p \<le> l_clock s"
    and "x \<in> set L \<Longrightarrow> OpCall (resolve (l_cl s) x) \<le> l_clock s"
    and "sorted_wrt (\<lambda>x y. returned (l_cl s) y \<longrightarrow> OpCall (resolve (l_cl s) x) \<le> OpReturn (resolve (l_cl s) y)) L"
    and "run_model KvModel_Init (filter (\<lambda>op. InKey (OpInput op) = k) (map (resolve (l_cl s)) L)) = Some (store_abs lookup (l_srv s) k)"
  using assms unfolding order_ok_def by blast+

lemma order_okI:
  assumes "l_srv s = run_puts (sv_put S) (sv_init S) (l_hist s)"
    and "mset (map projr (filter (\<lambda>x. \<not> isl x) L)) = mset (l_log s)" and "distinct (filter isl L)"
    and "\<And>c. placed (l_hist s) (l_cl s c) (Inl c \<in> set L)" and "\<And>c p. l_cl s c = Some p \<Longrightarrow> call_time p \<le> l_clock s"
    and "\<And>x. x \<in> set L \<Longrightarrow> OpCall (resolve (l_cl s) x) \<le> l_clock s"
    and "sorted_wrt (\<lambda>x y. returned (l_cl s) y \<longrightarrow> OpCall (resolve (l_cl s) x) \<le> OpReturn (resolve (l_cl s) y)) L"
    and "\<And>k. run_model KvModel_Init (filter (\<lambda>op. InKey (OpInput op) = k) (map (resolve (l_cl s)) L)) = Some (store_abs lookup (l_srv s) k)"
  shows "order_ok s L"
  using assms unfolding order_ok_def by blast

lemma placed_mono: "\<forall>a. was_performed h a \<longrightarrow> was_performed h' a \<Longrightarrow> placed h p b \<Longrightarrow> placed h' p b"
  by (auto simp: placed_def split: option.splits lcall.splits)

text \<open>A client moves on and its place in the order, if it has one, stays.\<close>

lemma order_move:
  assumes ok: "order_ok s L" and h: "l_srv s = run_puts (sv_put S) (sv_init S) h" "\<forall>a. was_performed (l_hist s) a \<longrightarrow> was_performed h a"
    and p: "placed h (Some p) (Inl c \<in> set L)" "call_time p \<le> l_clock s"
    and w: "Inl c \<in> set L \<Longrightarrow> weaker (pend_op c (l_cl s c)) (pend_op c (Some p)) \<and>
           OpCall (pend_op c (Some p)) = OpCall (pend_op c (l_cl s c)) \<and>
           (\<forall>op. p = Recording op \<longrightarrow> l_clock s \<le> OpReturn op)"
  shows "order_ok (at_call c p (s\<lparr>l_hist := h\<rparr>)) L"
proof -
  let ?cl = "(l_cl s)(c := Some p)"
  have call: "OpCall (resolve ?cl x) = OpCall (resolve (l_cl s) x)" if "x \<in> set L" for x
    using w that by (cases x) auto
  have "sorted_wrt (\<lambda>x y. returned ?cl y \<longrightarrow> OpCall (resolve ?cl x) \<le> OpReturn (resolve ?cl y)) L"
  proof (rule sorted_wrt_mono_rel [OF _ order_okD(7) [OF ok]])
    fix x y assume xy: "x \<in> set L" "y \<in> set L"
      "returned (l_cl s) y \<longrightarrow> OpCall (resolve (l_cl s) x) \<le> OpReturn (resolve (l_cl s) y)"
    show "returned ?cl y \<longrightarrow> OpCall (resolve ?cl x) \<le> OpReturn (resolve ?cl y)"
    proof (cases "y = Inl c")
      case True
      then show ?thesis using w xy(1,2) call [OF xy(1)] order_okD(6) [OF ok xy(1)] by (auto simp: pend_op_def)
    next
      case False
      then show ?thesis using xy call by (cases y) auto
    qed
  qed
  moreover have "run_model KvModel_Init (filter (\<lambda>op. InKey (OpInput op) = k) (map (resolve ?cl) L)) = Some (store_abs lookup (l_srv s) k)" for k
  proof (rule run_model_weaker [OF _ order_okD(8) [OF ok]])
    show "list_all2 weaker (map (resolve (l_cl s)) L) (map (resolve ?cl) L)"
      unfolding list_all2_map1 list_all2_map2
    proof (rule list.rel_refl_strong)
      fix x assume "x \<in> set L"
      then show "weaker (resolve (l_cl s) x) (resolve ?cl x)" using w by (cases "x = Inl c"; cases "isl x") (auto simp: resolve_def split: sum.splits)
    qed
  qed
  moreover have "placed h (?cl d) (Inl d \<in> set L)" for d
    using p(1) placed_mono [OF h(2) order_okD(4) [OF ok]] by simp
  ultimately show ?thesis
    using order_okD(2,3,5,6) [OF ok] h(1) p(2) call unfolding order_ok_def by auto
qed

text \<open>The operation of a client takes effect.\<close>

lemma order_place:
  assumes ok: "order_ok s L" and h: "kv = run_puts (sv_put S) (sv_init S) h" "\<forall>a. was_performed (l_hist s) a \<longrightarrow> was_performed h a"
    and p: "Inl c \<notin> set L" "placed h (Some p) True" "call_time p \<le> l_clock s" "OpCall (pend_op c (Some p)) = call_time p"
      "\<nexists>op. p = Recording op"
    and m: "KvModel_Step (store_abs lookup (l_srv s) key) (OpInput (pend_op c (Some p))) (OpOutput (pend_op c (Some p))) = (True, Some (store_abs lookup kv key))"
      "InKey (OpInput (pend_op c (Some p))) = key" "\<And>k. k \<noteq> key \<Longrightarrow> store_abs lookup kv k = store_abs lookup (l_srv s) k"
  shows "order_ok (at_call c p (s\<lparr>l_srv := kv, l_hist := h\<rparr>)) (L @ [Inl c])"
proof -
  let ?cl = "(l_cl s)(c := Some p)"
  have same: "resolve ?cl x = resolve (l_cl s) x" "returned ?cl x = returned (l_cl s) x" if "x \<in> set L" for x
    using p(1) that by (cases x; auto)+
  have eq: "map (resolve ?cl) L = map (resolve (l_cl s)) L" using same(1) by simp
  have "run_model KvModel_Init (filter (\<lambda>op. InKey (OpInput op) = k) (map (resolve ?cl) (L @ [Inl c]))) = Some (store_abs lookup kv k)" for k
    unfolding map_append filter_append run_model_append eq order_okD(8) [OF ok] using m by (cases "k = key") auto
  moreover have "sorted_wrt (\<lambda>x y. returned ?cl y \<longrightarrow> OpCall (resolve ?cl x) \<le> OpReturn (resolve ?cl y)) (L @ [Inl c])"
  proof -
    have "sorted_wrt (\<lambda>x y. returned ?cl y \<longrightarrow> OpCall (resolve ?cl x) \<le> OpReturn (resolve ?cl y)) L"
      by (rule sorted_wrt_mono_rel [OF _ order_okD(7) [OF ok]]) (simp add: same)
    then show ?thesis using p(5) by (simp add: sorted_wrt_append)
  qed
  moreover have "placed h (?cl d) (Inl d \<in> set (L @ [Inl c]))" for d
    using p(2) placed_mono [OF h(2) order_okD(4) [OF ok]] by auto
  ultimately show ?thesis
    using order_okD(2,3,5,6) [OF ok] h(1) p(1,3,4) same(1) unfolding order_ok_def by auto
qed

text \<open>A client appends its record to the log.\<close>

lemma order_log:
  assumes ok: "order_ok s L" and c: "l_cl s c = Some (Recording op)"
  shows "\<exists>L'. order_ok (s\<lparr>l_cl := (l_cl s)(c := None), l_log := l_log s @ [op]\<rparr>) L'"
proof -
  let ?cl = "(l_cl s)(c := None)"
  have "Inl c \<in> set L" using order_okD(4) [OF ok, of c] c by (simp add: placed_def)
  then obtain A B where L: "L = A @ Inl c # B" by (meson split_list)
  then have notin: "Inl c \<notin> set A" "Inl c \<notin> set B" using order_okD(3) [OF ok] by auto
  let ?L = "A @ Inr op # B"
  have same: "resolve ?cl x = resolve (l_cl s) x" "returned ?cl x = returned (l_cl s) x" if "x \<noteq> Inl c" for x
    using that by (cases x; auto)+
  have ops: "resolve (l_cl s) (Inl c) = op" using c by (simp add: pend_op_def)
  have view: "map (\<lambda>x. (resolve ?cl x, returned ?cl x)) xs = map (\<lambda>x. (resolve (l_cl s) x, returned (l_cl s) x)) xs"
    if "Inl c \<notin> set xs" for xs
  proof (rule map_cong [OF refl])
    fix x assume "x \<in> set xs"
    then have "x \<noteq> Inl c" using that by blast
    then show "(resolve ?cl x, returned ?cl x) = (resolve (l_cl s) x, returned (l_cl s) x)" using same by simp
  qed
  have views: "map (\<lambda>x. (resolve ?cl x, returned ?cl x)) ?L = map (\<lambda>x. (resolve (l_cl s) x, returned (l_cl s) x)) L"
    unfolding L using view [OF notin(1)] view [OF notin(2)] ops c by (simp only: map_append list.map) simp
  have maps: "map (resolve ?cl) ?L = map (resolve (l_cl s)) L"
    using arg_cong [OF views, of "map fst"] by (simp only: map_map comp_def fst_conv)
  have "sorted_wrt (\<lambda>x y. returned ?cl y \<longrightarrow> OpCall (resolve ?cl x) \<le> OpReturn (resolve ?cl y)) ?L"
    using order_okD(7) [OF ok] arg_cong [OF views, of "sorted_wrt (\<lambda>x y. snd y \<longrightarrow> OpCall (fst x) \<le> OpReturn (fst y))"]
    by (simp only: sorted_wrt_map fst_conv snd_conv)
  moreover have "placed (l_hist s) (?cl d) (Inl d \<in> set ?L)" for d
  proof (cases "d = c")
    case False
    then show ?thesis using order_okD(4) [OF ok, of d] L by simp
  qed (use notin in \<open>simp add: placed_def\<close>)
  moreover have "OpCall (resolve ?cl x) \<le> l_clock s" if "x \<in> set ?L" for x
  proof -
    have "resolve ?cl x \<in> set (map (resolve (l_cl s)) L)" unfolding maps [symmetric] using that by (simp only: set_map imageI)
    then show ?thesis using order_okD(6) [OF ok] by auto
  qed
  moreover have "run_model KvModel_Init (filter (\<lambda>op. InKey (OpInput op) = k) (map (resolve ?cl) ?L)) = Some (store_abs lookup (l_srv s) k)" for k
    unfolding maps by (rule order_okD(8) [OF ok])
  moreover have "mset (map projr (filter (\<lambda>x. \<not> isl x) ?L)) = mset (l_log s @ [op])" "distinct (filter isl ?L)"
    using order_okD(2,3) [OF ok] L by auto
  ultimately have "order_ok (s\<lparr>l_cl := ?cl, l_log := l_log s @ [op]\<rparr>) ?L"
    using order_okD(1,5) [OF ok] by (intro order_okI) (simp_all split: if_splits)
  then show ?thesis by blast
qed

text \<open>What the service has executed may grow without an effect; requests left behind do not matter here.\<close>

lemma order_hist:
  assumes "order_ok s L" and "l_srv s = run_puts (sv_put S) (sv_init S) h" "\<forall>a. was_performed (l_hist s) a \<longrightarrow> was_performed h a"
  shows "order_ok (s\<lparr>l_hist := h\<rparr>) L"
proof (rule order_okI)
  fix c
  show "placed (l_hist (s\<lparr>l_hist := h\<rparr>)) (l_cl (s\<lparr>l_hist := h\<rparr>) c) (Inl c \<in> set L)"
    using placed_mono [OF assms(3) order_okD(4) [OF assms(1)]] by simp
qed (use assms(2) order_okD [OF assms(1)] in simp_all)

lemma order_left: "order_ok (s\<lparr>l_left := x\<rparr>) L = order_ok s L"
  by (simp add: order_ok_def)

lemma order_tick:
  assumes "order_ok s L" and "l_clock s \<le> t"
  shows "order_ok (s\<lparr>l_clock := t\<rparr>) L"
proof (rule order_okI)
  fix x assume "x \<in> set L"
  then show "OpCall (resolve (l_cl (s\<lparr>l_clock := t\<rparr>)) x) \<le> l_clock (s\<lparr>l_clock := t\<rparr>)"
    using order_okD(6) [OF assms(1)] assms(2) by fastforce
next
  fix c p assume "l_cl (s\<lparr>l_clock := t\<rparr>) c = Some p"
  then show "call_time p \<le> l_clock (s\<lparr>l_clock := t\<rparr>)" using order_okD(5) [OF assms(1), of c p] assms(2) by simp
qed (use order_okD [OF assms(1)] in simp_all)

text \<open>The model accepts a put that was performed as \<open>OK\<close>, and one that was refused.\<close>

lemma abs_version: "StVersion (store_abs lookup s k) = ver_of lookup s k"
  by (simp add: store_abs_def ver_of_def KvModel_Init_def split: option.split)

lemma model_put:
  "snd (sv_put S s a) = OK \<Longrightarrow>
     KvModel_Step (store_abs lookup s (PutKey a)) (OpInput (put_operation a OK t r i)) (OpOutput (put_operation a OK t r i))
       = (True, Some (store_abs lookup (fst (sv_put S s a)) (PutKey a)))"
  "snd (sv_put S s a) = ErrVersion \<Longrightarrow> e = ErrVersion \<or> e = ErrMaybe \<Longrightarrow>
     KvModel_Step (store_abs lookup s (PutKey a)) (OpInput (put_operation a e t r i)) (OpOutput (put_operation a e t r i))
       = (True, Some (store_abs lookup s (PutKey a)))"
  "k \<noteq> PutKey a \<Longrightarrow> store_abs lookup (fst (sv_put S s a)) k = store_abs lookup s k"
proof -
  show "KvModel_Step (store_abs lookup s (PutKey a)) (OpInput (put_operation a OK t r i)) (OpOutput (put_operation a OK t r i))
       = (True, Some (store_abs lookup (fst (sv_put S s a)) (PutKey a)))" if "snd (sv_put S s a) = OK"
    using that put_OK_iff [of s a] put_lookup [OF that] abs_version [of s "PutKey a"]
    by (simp add: KvModel_Step_def store_abs_def OK_def)
  show "KvModel_Step (store_abs lookup s (PutKey a)) (OpInput (put_operation a e t r i)) (OpOutput (put_operation a e t r i))
       = (True, Some (store_abs lookup s (PutKey a)))" if "snd (sv_put S s a) = ErrVersion" "e = ErrVersion \<or> e = ErrMaybe"
    using that put_OK_iff [of s a] abs_version [of s "PutKey a"] by (auto simp: KvModel_Step_def err_defs)
  show "store_abs lookup (fst (sv_put S s a)) k = store_abs lookup s k" if "k \<noteq> PutKey a"
    using that put_lookup [of s a] put_not_OK [of s a] by (cases "snd (sv_put S s a) = OK") (simp_all add: store_abs_def)
qed

lemma model_get:
  "sv_get_reply S (sv_get S s k) = Some (x, v, e) \<Longrightarrow>
     KvModel_Step (store_abs lookup s k) (OpInput (get_operation k x v e t r i)) (OpOutput (get_operation k x v e t r i))
       = (True, Some (store_abs lookup s k))"
  using get_value by (simp add: KvModel_Step_def)

lemma was_performed_append: "was_performed h a \<Longrightarrow> was_performed (h @ [b]) a"
  by (simp add: was_performed_def)

lemma performed_now: "snd (sv_put S (run_puts (sv_put S) (sv_init S) h) a) = OK \<Longrightarrow> was_performed (h @ [a]) a"
  by (simp add: was_performed_def)

text \<open>A put that was performed is refused when it comes again.\<close>

lemma performed_refused:
  assumes "was_performed h a" and "length h + 1 < 2 ^ 64"
  shows "snd (sv_put S (run_puts (sv_put S) (sv_init S) h) a) = ErrVersion"
proof -
  let ?kv = "run_puts (sv_put S) (sv_init S) h" and ?P = "\<lambda>b. PutKey b = PutKey a \<and> PutVersion b = PutVersion a \<and> True"
  have "n_performed (sv_put S) ?P (sv_init S) (h @ [a]) \<le> 1" using assms(2) by (intro at_most_once) simp
  then have "snd (sv_put S ?kv a) \<noteq> OK" using assms(1) by (auto simp: was_performed_def)
  moreover have "lookup ?kv (PutKey a) \<noteq> None"
    using performed_present [of "PutKey a" "\<lambda>b. PutVersion b = PutVersion a \<and> True"] assms(1) by (simp add: was_performed_def)
  ultimately show ?thesis using put_err [of ?kv a] by (auto split: if_splits)
qed

lemma put_cases:
  obtains "snd (sv_put S s a) = OK" | "sv_put S s a = (s, ErrVersion)" | "sv_put S s a = (s, ErrNoKey)"
  using put_err [of s a] put_not_OK [of s a] by (cases "sv_put S s a") (auto split: if_splits)

text \<open>
  Executing a put that a client is waiting for, which stays in its loop with the flag set or leaves it with the answer.
\<close>

lemma order_execute:
  assumes ok: "order_ok s L" and c: "l_cl s c = Some (PutCall a retried t)" and len: "length (l_hist s) + 1 < 2 ^ 64"
    and p: "p = PutCall a True t \<or> (\<exists>e. p = PutDone a t e \<and> sv_put_reply S retried (snd (sv_put S (l_srv s) a)) = Some e)"
    and known: "snd (sv_put S (l_srv s) a) = ErrNoKey \<Longrightarrow> p = PutCall a True t"
  shows "\<exists>L'. order_ok (at_call c p (execute S a s)) L'"
proof -
  let ?kv = "l_srv s" and ?h = "l_hist s @ [a]"
  have kv: "?kv = run_puts (sv_put S) (sv_init S) (l_hist s)" by (rule order_okD(1) [OF ok])
  then have kv': "fst (sv_put S ?kv a) = run_puts (sv_put S) (sv_init S) ?h" by simp
  have t: "t \<le> l_clock s" using order_okD(5) [OF ok c] by simp
  have inL: "Inl c \<in> set L \<Longrightarrow> retried \<and> was_performed (l_hist s) a" using order_okD(4) [OF ok, of c] c by (simp add: placed_def)
  have mono: "\<forall>b. was_performed (l_hist s) b \<longrightarrow> was_performed ?h b" using was_performed_append by blast
  have stay: "order_ok (at_call c p (s\<lparr>l_hist := ?h\<rparr>)) L"
    if "?kv = run_puts (sv_put S) (sv_init S) ?h" "p = PutCall a True t \<or> Inl c \<in> set L \<and> p = PutDone a t ErrMaybe"
    using that inL t weaker_maybe mono
    by (intro order_move [OF ok]) (auto simp: placed_def pend_op_def c weaker_same)
  show ?thesis
  proof (cases rule: put_cases [of ?kv a])
    case 1
    then have "Inl c \<notin> set L" using inL performed_refused [OF _ len] kv by (auto simp: err_defs)
    moreover have "was_performed ?h a" using performed_now 1 kv by simp
    ultimately have "order_ok (at_call c p (s\<lparr>l_srv := fst (sv_put S ?kv a), l_hist := ?h\<rparr>)) (L @ [Inl c])"
      using 1 t p model_put(1) [OF 1] model_put(3) [where s = ?kv and a = a]
      by (intro order_place [OF ok kv' mono, where key = "PutKey a"]) (auto simp: placed_def pend_op_def reply_ok)
    then show ?thesis unfolding execute_def by blast
  next
    case 2
    then have same: "?kv = run_puts (sv_put S) (sv_init S) ?h" using kv' by simp
    have upd: "execute S a s = s\<lparr>l_hist := ?h\<rparr>" using 2 by (simp add: execute_def)
    show ?thesis
    proof (cases "p = PutCall a True t \<or> Inl c \<in> set L")
      case True
      then have "p = PutCall a True t \<or> Inl c \<in> set L \<and> p = PutDone a t ErrMaybe"
        using 2 inL p by (auto simp: reply_version)
      then show ?thesis using stay [OF same] unfolding upd by blast
    next
      case False
      then obtain e where e: "p = PutDone a t e" "e = ErrVersion \<or> e = ErrMaybe"
        using 2 p by (auto simp: reply_version split: if_splits)
      have "order_ok (at_call c p (s\<lparr>l_srv := fst (sv_put S ?kv a), l_hist := ?h\<rparr>)) (L @ [Inl c])"
      proof (rule order_place [OF ok kv' mono, where key = "PutKey a"])
        show "KvModel_Step (store_abs lookup ?kv (PutKey a)) (OpInput (pend_op c (Some p))) (OpOutput (pend_op c (Some p))) =
            (True, Some (store_abs lookup (fst (sv_put S ?kv a)) (PutKey a)))"
          using model_put(2) [OF _ e(2)] 2 e(1) by (simp add: pend_op_def)
      qed (use False t e(1) 2 in \<open>simp_all add: placed_def pend_op_def\<close>)
      then show ?thesis unfolding execute_def by blast
    qed
  next
    case 3
    then have same: "?kv = run_puts (sv_put S) (sv_init S) ?h" using kv' by simp
    have upd: "execute S a s = s\<lparr>l_hist := ?h\<rparr>" using 3 by (simp add: execute_def)
    show ?thesis using stay [OF same] known 3 unfolding upd by auto
  qed
qed

section \<open>Requests left behind\<close>

text \<open>
  The versions of a key count the puts performed on it. A request for a version that has been passed has no effect any more;
  every request left behind is of this kind, or the client that sent it is still trying and knows that it has sent it before.
\<close>

lemma version_count: "ver_of lookup (run_puts (sv_put S) (sv_init S) h) k = of_nat (n_versions S h k)"
  unfolding n_versions_def ver_of_run by (simp add: ver_of_def init)

definition passed :: "PutArgs list \<Rightarrow> PutArgs \<Rightarrow> bool" where
  "passed h a \<longleftrightarrow> (\<exists>m < n_versions S h (PutKey a). PutVersion a = of_nat m)"

lemma n_versions_append: "n_versions S h k \<le> n_versions S (h @ [b]) k"
  by (simp add: n_versions_def)

lemma versions_mono:
  "passed h a \<Longrightarrow> passed (h @ [b]) a" "known_version S h a \<Longrightarrow> known_version S (h @ [b]) a"
  using n_versions_append [of h "PutKey a" b] by (auto simp: passed_def known_version_def intro: order.strict_trans2 order_trans)

lemma of_nat_neq: "m < n \<Longrightarrow> n < 2 ^ 64 \<Longrightarrow> (of_nat m :: 64 word) \<noteq> of_nat n"
  by (simp add: word_of_nat_eq_iff take_bit_eq_mod)

lemma n_versions_bound: "length h < 2 ^ 64 \<Longrightarrow> n_versions S h k < 2 ^ 64"
  using n_performed_le [of "sv_put S" "\<lambda>b. PutKey b = k" "sv_init S" h] by (simp add: n_versions_def)

lemma passed_refused:
  assumes "passed h a" and "length h < 2 ^ 64"
  shows "snd (sv_put S (run_puts (sv_put S) (sv_init S) h) a) \<noteq> OK"
proof -
  obtain m where m: "m < n_versions S h (PutKey a)" "PutVersion a = of_nat m" using assms(1) by (auto simp: passed_def)
  show ?thesis unfolding put_OK_iff version_count using of_nat_neq [OF m(1) n_versions_bound [OF assms(2)]] m(2) by simp
qed

lemma answered_passed:
  assumes "known_version S h a" and "length h + 1 < 2 ^ 64"
  shows "passed (h @ [a]) a"
proof -
  let ?kv = "run_puts (sv_put S) (sv_init S) h"
  obtain m where m: "m \<le> n_versions S h (PutKey a)" "PutVersion a = of_nat m" using assms(1) by (auto simp: known_version_def)
  have "m < n_versions S (h @ [a]) (PutKey a)"
  proof (cases "snd (sv_put S ?kv a) = OK")
    case True
    then show ?thesis using m(1) by (simp add: n_versions_def)
  next
    case False
    then have "m \<noteq> n_versions S h (PutKey a)" using m(2) unfolding put_OK_iff version_count by auto
    then show ?thesis using m(1) n_versions_append [of h "PutKey a" a] by simp
  qed
  then show ?thesis using m(2) by (auto simp: passed_def)
qed

definition copies_ok :: "'s lin_sys \<Rightarrow> bool" where
  "copies_ok s \<longleftrightarrow>
     (sv_late S \<longrightarrow> (\<forall>c a r t. l_cl s c = Some (PutCall a r t) \<longrightarrow> known_version S (l_hist s) a)) \<and>
     (\<not> sv_late S \<longrightarrow> l_left s = []) \<and>
     (\<forall>a \<in> set (l_left s). passed (l_hist s) a \<or> (\<exists>c t. l_cl s c = Some (PutCall a True t)))"

lemma copies_keep:
  assumes "copies_ok s" and "l_hist s' = l_hist s \<or> (\<exists>b. l_hist s' = l_hist s @ [b])" and "set (l_left s') \<subseteq> set (l_left s)"
    and "\<And>c a t. a \<in> set (l_left s') \<Longrightarrow> l_cl s c = Some (PutCall a True t) \<Longrightarrow>
           l_cl s' c = Some (PutCall a True t) \<or> passed (l_hist s') a"
    and "\<And>c a r t. sv_late S \<Longrightarrow> l_cl s' c = Some (PutCall a r t) \<Longrightarrow>
           known_version S (l_hist s) a \<or> (\<exists>r t. l_cl s c = Some (PutCall a r t))"
  shows "copies_ok s'"
proof -
  have mono: "passed (l_hist s) a \<Longrightarrow> passed (l_hist s') a" "known_version S (l_hist s) a \<Longrightarrow> known_version S (l_hist s') a" for a
    using assms(2) versions_mono by auto
  have "passed (l_hist s') a \<or> (\<exists>c t. l_cl s' c = Some (PutCall a True t))" if a: "a \<in> set (l_left s')" for a
  proof -
    have "passed (l_hist s) a \<or> (\<exists>c t. l_cl s c = Some (PutCall a True t))"
      using assms(1,3) a unfolding copies_ok_def by blast
    then show ?thesis using assms(4) [OF a] mono(1) by blast
  qed
  moreover have "known_version S (l_hist s') a" if "sv_late S" "l_cl s' c = Some (PutCall a r t)" for c a r t
    using assms(1) assms(5) [OF that] that(1) mono(2) unfolding copies_ok_def by blast
  moreover have "\<not> sv_late S \<Longrightarrow> l_left s' = []" using assms(1,3) by (auto simp: copies_ok_def)
  ultimately show ?thesis unfolding copies_ok_def by blast
qed

lemma copies_put_call:
  assumes "copies_ok s" and c: "l_cl s c = Some (PutCall a retried t)" and "d \<noteq> LostRequest \<Longrightarrow> length (l_hist s) + 1 < 2 ^ 64"
  shows "copies_ok (Put_call S c a retried t d s)"
proof (cases "d = LostRequest")
  case True
  have "copies_ok (at_call c (PutCall a True t) s)" using c by (intro copies_keep [OF assms(1)]) (auto split: if_splits)
  then show ?thesis unfolding Put_call_def copies_ok_def using True by auto
next
  case False
  have passed: "passed (l_hist s @ [a]) a" if "b \<in> set (l_left s)" for b
  proof (rule answered_passed)
    show "known_version S (l_hist s) a" using assms(1) c that unfolding copies_ok_def by fastforce
  qed (use assms(3) False in simp)
  show ?thesis
    using False c passed by (intro copies_keep [OF assms(1)])
      (auto simp: Put_call_def execute_def split: delivery.splits option.splits if_splits)
qed

lemma copies_step:
  assumes "lin_step S s s'" and "copies_ok s" and "length (l_hist s') < 2 ^ 64"
  shows "copies_ok s'"
  using assms(1)
proof cases
  case (put_call c a retried t d)
  have "d \<noteq> LostRequest \<Longrightarrow> length (l_hist s) + 1 < 2 ^ 64"
    using assms(3) put_call(1) by (cases d) (auto simp: Put_call_def execute_def split: option.splits)
  then show ?thesis using copies_put_call [OF assms(2) put_call(2)] put_call(1) by blast
next
  case (late a)
  have "set (remove1 a (l_left s)) \<subseteq> set (l_left s)" by (rule set_remove1_subset)
  then show ?thesis using late by (intro copies_keep [OF assms(2)]) (auto simp: execute_def)
next
  case (get_call c k t d)
  then show ?thesis
    by (intro copies_keep [OF assms(2)]) (auto simp: Get_call_def split: delivery.splits option.splits if_splits)
qed (use assms(2) in \<open>(intro copies_keep [OF assms(2)]; force dest: late_known split: if_splits)+\<close>)

text \<open>Every step keeps an order, unless a put is answered \<open>ErrNoKey\<close>.\<close>

lemma order_same:
  assumes "order_ok s L" and "placed (l_hist s) (Some p) (Inl c \<in> set L)" and "call_time p \<le> l_clock s"
    and "Inl c \<in> set L \<Longrightarrow> weaker (pend_op c (l_cl s c)) (pend_op c (Some p)) \<and>
           OpCall (pend_op c (Some p)) = OpCall (pend_op c (l_cl s c)) \<and> (\<forall>op. p = Recording op \<longrightarrow> l_clock s \<le> OpReturn op)"
  shows "order_ok (at_call c p s) L"
  using order_move [OF assms(1) order_okD(1) [OF assms(1)] _ assms(2-4)] by simp

lemma order_refused:
  assumes "order_ok s L" and "fst (sv_put S (l_srv s) a) = l_srv s"
  shows "order_ok (execute S a s) L"
proof -
  have "l_srv s = run_puts (sv_put S) (sv_init S) (l_hist s @ [a])" using order_okD(1) [OF assms(1)] assms(2) by simp
  from order_hist [OF assms(1) this] show ?thesis using assms(2) was_performed_append by (simp add: execute_def)
qed

lemma order_put_call:
  assumes ok: "order_ok s L" and c: "l_cl s c = Some (PutCall a retried t)"
    and len: "d \<noteq> LostRequest \<Longrightarrow> length (l_hist s) + 1 < 2 ^ 64"
  shows "(\<exists>L'. order_ok (Put_call S c a retried t d s) L') \<or> unknown_answer (Put_call S c a retried t d s)"
proof (cases d)
  case LostRequest
  have "order_ok (at_call c (PutCall a True t) s) L"
    using order_okD(5) [OF ok c] order_okD(4) [OF ok, of c] c
    by (intro order_same [OF ok]) (auto simp: placed_def pend_op_def weaker_same)
  moreover have eq: "at_call c p (s\<lparr>l_left := x\<rparr>) = (at_call c p s)\<lparr>l_left := x\<rparr>" for p x by simp
  ultimately have "order_ok (at_call c (PutCall a True t) (s\<lparr>l_left := x\<rparr>)) L" for x unfolding eq order_left by simp
  then show ?thesis unfolding Put_call_def LostRequest delivery.case by blast
next
  case LostReply
  then show ?thesis using order_execute [OF ok c len, of "PutCall a True t"] by (simp add: Put_call_def)
next
  case Delivered
  let ?r = "sv_put_reply S retried (snd (sv_put S (l_srv s) a))"
  show ?thesis
  proof (cases "snd (sv_put S (l_srv s) a) = ErrNoKey")
    case True
    then have same: "fst (sv_put S (l_srv s) a) = l_srv s" by (cases rule: put_cases [of "l_srv s" a]) (auto simp: err_defs)
    show ?thesis using reply_no_key [of retried] order_refused [OF ok same] True Delivered
      by (auto simp: Put_call_def unknown_answer_def)
  next
    case False
    then obtain e where "?r = Some e" using reply_ok reply_version by (cases rule: put_cases [of "l_srv s" a]) auto
    then show ?thesis using order_execute [OF ok c len, of "PutDone a t e"] False Delivered by (simp add: Put_call_def)
  qed
qed

lemma order_late:
  assumes ok: "order_ok s L" "copies_ok s" and a: "a \<in> set (l_left s)" and len: "length (l_hist s) + 1 < 2 ^ 64"
  shows "\<exists>L'. order_ok (execute S a (s\<lparr>l_left := remove1 a (l_left s)\<rparr>)) L'"
proof -
  have "\<exists>L'. order_ok (execute S a s) L'"
  proof (cases "snd (sv_put S (l_srv s) a) = OK")
    case True
    then have "\<not> passed (l_hist s) a" using passed_refused [of "l_hist s" a] len order_okD(1) [OF ok(1)] by auto
    then obtain c t where c: "l_cl s c = Some (PutCall a True t)" using ok(2) a unfolding copies_ok_def by blast
    have "at_call c (PutCall a True t) (execute S a s) = execute S a s"
      using c by (simp add: execute_def fun_upd_idem)
    then show ?thesis using order_execute [OF ok(1) c len, of "PutCall a True t"] by simp
  next
    case False
    then show ?thesis using order_refused [OF ok(1)] put_not_OK [of "l_srv s" a] by auto
  qed
  moreover have "execute S a (s\<lparr>l_left := x\<rparr>) = (execute S a s)\<lparr>l_left := x\<rparr>" for x by (simp add: execute_def)
  ultimately show ?thesis using order_left by simp
qed

lemma order_get_call:
  assumes ok: "order_ok s L" and c: "l_cl s c = Some (GetCall k t)"
  shows "\<exists>L'. order_ok (Get_call S c k t d s) L'"
proof (cases "Get_call S c k t d s = s")
  case False
  then obtain x v e where r: "sv_get_reply S (sv_get S (l_srv s) k) = Some (x, v, e)"
      "Get_call S c k t d s = at_call c (GetDone k t x v e) s"
    by (auto simp: Get_call_def split: delivery.splits option.splits)
  have "Inl c \<notin> set L" using order_okD(4) [OF ok, of c] c by (simp add: placed_def)
  then have "order_ok (at_call c (GetDone k t x v e) (s\<lparr>l_srv := l_srv s, l_hist := l_hist s\<rparr>)) (L @ [Inl c])"
    using order_okD(1) [OF ok] order_okD(5) [OF ok c] c model_get [OF r(1)]
    by (intro order_place [OF ok, where key = k]) (auto simp: placed_def pend_op_def)
  then show ?thesis using r(2) by auto
qed (use ok in auto)

lemma lin_step_order:
  assumes step: "lin_step S s s'" and ok: "order_ok s L" "copies_ok s" and len: "length (l_hist s') < 2 ^ 64"
  shows "(\<exists>L'. order_ok s' L') \<or> unknown_answer s'"
  using step
proof cases
  case (tick t)
  then show ?thesis using order_tick [OF ok(1)] by blast
next
  case (get c k)
  then have "order_ok (at_call c (GetCall k (l_clock s)) s) L"
    using order_okD(4) [OF ok(1), of c] by (intro order_same [OF ok(1)]) (auto simp: placed_def)
  then show ?thesis using get(1) by blast
next
  case (put c a)
  then have "order_ok (at_call c (PutCall a False (l_clock s)) s) L"
    using order_okD(4) [OF ok(1), of c] by (intro order_same [OF ok(1)]) (auto simp: placed_def)
  then show ?thesis using put(1) by blast
next
  case (get_call c k t d)
  then show ?thesis using order_get_call [OF ok(1)] by blast
next
  case (put_call c a retried t d)
  then have "d \<noteq> LostRequest \<Longrightarrow> length (l_hist s) + 1 < 2 ^ 64"
    using len by (cases d) (auto simp: Put_call_def execute_def split: option.splits)
  then show ?thesis using order_put_call [OF ok(1) put_call(2)] put_call(1) by blast
next
  case (late a)
  then show ?thesis using order_late [OF ok late(2)] len by (simp add: execute_def)
next
  case (get_end c k t x v e)
  have "order_ok (at_call c (Recording (get_operation k x v e t (l_clock s) (int c))) s) L"
    using order_okD(5) [OF ok(1) get_end(2)] order_okD(4) [OF ok(1), of c] get_end(2)
    by (intro order_same [OF ok(1)]) (auto simp: placed_def pend_op_def weaker_same)
  then show ?thesis using get_end(1) by blast
next
  case (put_end c a t e)
  have "order_ok (at_call c (Recording (put_operation a e t (l_clock s) (int c))) s) L"
    using order_okD(5) [OF ok(1) put_end(2)] order_okD(4) [OF ok(1), of c] put_end(2)
    by (intro order_same [OF ok(1)]) (auto simp: placed_def pend_op_def weaker_same)
  then show ?thesis using put_end(1) by blast
next
  case (append c op)
  then show ?thesis using order_log [OF ok(1)] by blast
qed

lemma lin_run_order:
  assumes "(lin_step S)\<^sup>*\<^sup>* (lin_init S) s" and "length (l_hist s) < 2 ^ 64"
  shows "((\<exists>L. order_ok s L) \<or> unknown_answer s) \<and> copies_ok s"
  using assms
proof (induction rule: rtranclp_induct)
  case base
  have "order_ok (lin_init S) []"
    by (rule order_okI) (simp_all add: lin_init_def placed_def store_abs_def init)
  moreover have "copies_ok (lin_init S)" by (simp add: copies_ok_def lin_init_def)
  ultimately show ?case by blast
next
  case (step s s')
  have len: "length (l_hist s) < 2 ^ 64" using lin_step_hist [OF step(2)] step.prems by simp
  then have "copies_ok s'" using copies_step [OF step(2) _ step.prems] step.IH by blast
  then show ?case
    using step.IH [OF len] lin_step_order [OF step(2) _ _ step.prems] unknown_answer_step [OF step(2)] by blast
qed

text \<open>When all clients have finished, the order is one of the log.\<close>

lemma order_linearizable:
  assumes ok: "order_ok s L" and fin: "\<forall>c. l_cl s c = None"
  shows "linearizable (filter (\<lambda>op. InKey (OpInput op) = k) (l_log s))"
proof -
  have logged: "\<not> isl x" if "x \<in> set L" for x
    using order_okD(4) [OF ok, of "projl x"] fin that by (cases x) (auto simp: placed_def)
  have all_returned: "returned (l_cl s) x" if "x \<in> set L" for x using logged [OF that] by (cases x) auto
  define ops where "ops = map (resolve (l_cl s)) L"
  have "mset ops = mset (l_log s)"
  proof -
    have "resolve (l_cl s) x = projr x" if "x \<in> set L" for x using logged [OF that] by (cases x) auto
    then have "ops = map projr L" unfolding ops_def by simp
    moreover have "filter (\<lambda>x. \<not> isl x) L = L" using logged by (simp add: filter_id_conv)
    ultimately have "ops = map projr (filter (\<lambda>x. \<not> isl x) L)" by simp
    then show ?thesis using order_okD(2) [OF ok] by simp
  qed
  moreover have "sorted_wrt (\<lambda>a b. OpCall a \<le> OpReturn b) ops"
    unfolding ops_def sorted_wrt_map
    by (rule sorted_wrt_mono_rel [OF _ order_okD(7) [OF ok]]) (use all_returned in auto)
  ultimately show ?thesis
    unfolding linearizable_def using order_okD(8) [OF ok, of k]
    by (intro exI [of _ "filter (\<lambda>op. InKey (OpInput op) = k) ops"]) (auto simp: ops_def sorted_wrt_filter mset_filter)
qed

lemma log_linearizable:
  assumes "(lin_step S)\<^sup>*\<^sup>* (lin_init S) s" and "\<forall>c. l_cl s c = None" and "length (l_hist s) < 2 ^ 64"
    and "\<forall>op \<in> set (l_log s). \<not> no_key_put op" and "sound_search search"
  shows "(\<forall>h \<in> set (KvModel_Partition (l_log s)). linearizable h) \<and> checkPorcupine search (l_log s)"
proof -
  have "\<not> unknown_answer s" using assms(2,4) by (simp add: unknown_answer_def)
  then obtain L where "order_ok s L" using lin_run_order [OF assms(1,3)] by blast
  then have "\<forall>h \<in> set (KvModel_Partition (l_log s)). linearizable h"
    using order_linearizable [OF _ assms(2)] by (auto simp: Partition_eq)
  then show ?thesis using assms(5) by (auto simp: checkPorcupine_def sound_search_def)
qed

end

section \<open>The single server\<close>

definition single_service :: "KVServer service" where
  "single_service =
     \<lparr>sv_init = MakeKVServer, sv_put = srv_put, sv_get = (\<lambda>kv k. KVServer_Get kv \<lparr>GetKey = k\<rparr> zeroGetReply),
      sv_put_reply = (\<lambda>retried e. Some (Put_reply retried e)), sv_get_reply = Get_reply, sv_late = False, sv_known = False\<rparr>"

interpretation single: recorded_store srv_lookup single_service
proof -
  have eqs: "sv_put single_service = srv_put" "sv_init single_service = MakeKVServer"
    "sv_put_reply single_service r e = Some (Put_reply r e)" "\<not> sv_late single_service" for r e by (simp_all add: single_service_def)
  show "recorded_store srv_lookup single_service"
  proof (rule recorded_store.intro, unfold eqs)
    show "versioned_store srv_lookup srv_put" by unfold_locales
    show "recorded_store_axioms srv_lookup single_service"
    proof
      fix s k x v e assume "sv_get_reply single_service (sv_get single_service s k) = Some (x, v, e)"
      then show "x = StValue (store_abs srv_lookup s k)"
        by (auto simp: single_service_def KVServer_Get_def zeroGetReply_def Get_reply_def store_abs_def srv_lookup_def
            KvModel_Init_def err_defs split: option.splits if_splits)
    qed (simp_all add: eqs srv_lookup_def MakeKVServer_def Put_reply_def err_defs fun_eq_iff)
  qed
qed

section \<open>Properties\<close>

text \<open>
  C9. The server is linearizable, in runs in which no put was answered \<open>ErrNoKey\<close> and fewer than \<open>2 ^ 64\<close> puts reach it. Any number of clients get and put any keys through their clerks, at the same time,
  over a network that loses requests and replies, and record every operation with two readings of a clock that
  does not run backwards. When all have finished and no put was answered \<open>ErrNoKey\<close> (an answer that the model of
  models1 does not know and rejects), every part of the partitioned log is linearizable, so that the check of the tests passes
  with any search that reports an illegal history only when there is no order.
\<close>

theorem history_linearizable:
  assumes "(lin_step single_service)\<^sup>*\<^sup>* (lin_init single_service) s" and "\<forall>c. l_cl s c = None"
    and "length (l_hist s) < 2 ^ 64" and "\<forall>op \<in> set (l_log s). \<not> no_key_put op" and "sound_search search"
  shows "(\<forall>h \<in> set (KvModel_Partition (l_log s)). linearizable h) \<and> checkPorcupine search (l_log s)"
  by (rule single.log_linearizable [OF assms])

text \<open>
  Two clients: a put whose first reply is lost and whose repetition is refused, so that it reports \<open>ErrMaybe\<close>, and a get that
  starts later and sees its value.
\<close>

definition lin_put :: PutArgs where
  "lin_put = \<lparr>PutKey = ''k'', PutValue = ''x'', PutVersion = 0\<rparr>"

definition lin_demo_log :: "Operation list" where
  "lin_demo_log = [put_operation lin_put ErrMaybe 0 5 0, get_operation ''k'' ''x'' 1 OK 5 5 1]"

definition lin_search :: "Operation list list \<Rightarrow> check_result" where
  "lin_search parts = (if \<forall>h \<in> set parts. linearizable h then Ok else Illegal)"

lemma lin_search_sound: "sound_search lin_search"
  by (simp add: sound_search_def lin_search_def)

lemma lin_demo_partition: "KvModel_Partition lin_demo_log = [lin_demo_log]"
  by (simp add: Partition_eq lin_demo_log_def lin_put_def)

lemma lin_demo_answers: "\<forall>op \<in> set lin_demo_log. \<not> no_key_put op"
  by (simp add: lin_demo_log_def no_key_put_def err_defs)

lemma lin_demo_run:
  "\<exists>s. (lin_step single_service)\<^sup>*\<^sup>* (lin_init single_service) s \<and> l_cl s = (\<lambda>_. None) \<and> l_hist s = [lin_put, lin_put] \<and>
     l_log s = lin_demo_log"
proof -
  let ?S = single_service
  define s1 where "s1 = at_call 0 (PutCall lin_put False 0) (lin_init ?S)"
  define s2 where "s2 = Put_call ?S 0 lin_put False 0 LostReply s1"
  define s3 where "s3 = s2\<lparr>l_clock := 5\<rparr>"
  define s4 where "s4 = at_call 1 (GetCall ''k'' 5) s3"
  define s5 where "s5 = Put_call ?S 0 lin_put True 0 Delivered s4"
  define s6 where "s6 = Get_call ?S 1 ''k'' 5 Delivered s5"
  define s7 where "s7 = at_call 0 (Recording (put_operation lin_put ErrMaybe 0 5 0)) s6"
  define s8 where "s8 = s7\<lparr>l_cl := (l_cl s7)(0 := None), l_log := l_log s7 @ [put_operation lin_put ErrMaybe 0 5 0]\<rparr>"
  define s9 where "s9 = at_call 1 (Recording (get_operation ''k'' ''x'' 1 OK 5 5 1)) s8"
  define s10 where "s10 = s9\<lparr>l_cl := (l_cl s9)(1 := None), l_log := l_log s9 @ [get_operation ''k'' ''x'' 1 OK 5 5 1]\<rparr>"
  note defs = s1_def s2_def s3_def s4_def s5_def s6_def s7_def s8_def s9_def s10_def lin_init_def lin_put_def call_defs single_service_def
    srv_put_def KVServer_Put_def KVServer_Get_def MakeKVServer_def zeroPutReply_def zeroGetReply_def Put_reply_def Get_reply_def Let_def
  have "lin_step ?S (lin_init ?S) s1"
    unfolding s1_def using lin_step.put [of "lin_init ?S" 0 ?S lin_put] by (simp add: lin_init_def single_service_def)
  moreover have "lin_step ?S s1 s2" unfolding s2_def by (rule lin_step.put_call) (simp add: s1_def)
  moreover have "lin_step ?S s2 s3" unfolding s3_def by (rule lin_step.tick) (simp add: defs)
  moreover have "lin_step ?S s3 s4" unfolding s4_def using lin_step.get [of s3 1 ?S "''k''"] by (simp add: defs)
  moreover have "lin_step ?S s4 s5" unfolding s5_def by (rule lin_step.put_call) (simp add: defs)
  moreover have "lin_step ?S s5 s6" unfolding s6_def by (rule lin_step.get_call) (simp add: defs)
  moreover have "lin_step ?S s6 s7" unfolding s7_def using lin_step.put_end [of s6 0 lin_put 0 ErrMaybe] by (simp add: defs)
  moreover have "lin_step ?S s7 s8" unfolding s8_def by (rule lin_step.append) (simp add: s7_def)
  moreover have "lin_step ?S s8 s9" unfolding s9_def using lin_step.get_end [of s8 1 "''k''" 5 "''x''" 1 OK] by (simp add: defs)
  moreover have "lin_step ?S s9 s10" unfolding s10_def by (rule lin_step.append) (simp add: s9_def)
  ultimately have "(lin_step ?S)\<^sup>*\<^sup>* (lin_init ?S) s10" by (meson converse_rtranclp_into_rtranclp rtranclp.rtrancl_refl)
  moreover have "l_cl s10 = (\<lambda>_. None)" "l_hist s10 = [lin_put, lin_put]" "l_log s10 = lin_demo_log"
    by (auto simp: defs lin_demo_log_def fun_eq_iff)
  ultimately show ?thesis by blast
qed

theorem history_linearizable_witness: "linearizable lin_demo_log \<and> checkPorcupine lin_search lin_demo_log"
proof -
  obtain s where s: "(lin_step single_service)\<^sup>*\<^sup>* (lin_init single_service) s" "l_cl s = (\<lambda>_. None)"
      "l_hist s = [lin_put, lin_put]" "l_log s = lin_demo_log"
    using lin_demo_run by blast
  have "(\<forall>h \<in> set (KvModel_Partition (l_log s)). linearizable h) \<and> checkPorcupine lin_search (l_log s)"
    by (rule history_linearizable [OF s(1)]) (use s lin_demo_answers lin_search_sound in simp_all)
  then show ?thesis using s(4) lin_demo_partition by simp
qed

end
