(* ===== verification/Persister.thy ===== *)
theory Persister
  imports Prelude
begin

text \<open>
  Stable storage (tester1/persister.go): the Raft state and the service's snapshot, saved
  together. The Raft state is a stream of encoded values; what an encoder writes and a decoder
  reads is the list of the values (encoding/gob), and its size in bytes is a parameter where
  the code asks for it. Reading clones the stored slice, so nothing is shared with the caller.
\<close>

record 'r Persister =
  p_raftstate :: "'r list"
  p_snapshot :: bytes

definition MakePersister :: "'r Persister" where
  "MakePersister = \<lparr>p_raftstate = [], p_snapshot = []\<rparr>"

definition Persister_Checkpoint :: "'r Persister \<Rightarrow> 'r Persister" where
  "Persister_Checkpoint ps = MakePersister\<lparr>p_raftstate := p_raftstate ps, p_snapshot := p_snapshot ps\<rparr>"

definition ReadRaftState :: "'r Persister \<Rightarrow> 'r list" where
  "ReadRaftState ps = p_raftstate ps"

definition RaftStateSize :: "('r list \<Rightarrow> nat) \<Rightarrow> 'r Persister \<Rightarrow> nat" where
  "RaftStateSize sz ps = sz (p_raftstate ps)"

definition Persister_Save :: "'r Persister \<Rightarrow> 'r list \<Rightarrow> bytes \<Rightarrow> 'r Persister" where
  "Persister_Save ps st sn = ps\<lparr>p_raftstate := st, p_snapshot := sn\<rparr>"

definition ReadSnapshot :: "'r Persister \<Rightarrow> bytes" where
  "ReadSnapshot ps = p_snapshot ps"

definition SnapshotSize :: "(bytes \<Rightarrow> nat) \<Rightarrow> 'r Persister \<Rightarrow> nat" where
  "SnapshotSize sz ps = sz (p_snapshot ps)"

lemma persister_read_save [simp]:
  "ReadRaftState (Persister_Save ps st sn) = st" "ReadSnapshot (Persister_Save ps st sn) = sn"
  "ReadRaftState MakePersister = []" "ReadSnapshot MakePersister = []"
  by (simp_all add: ReadRaftState_def Persister_Save_def ReadSnapshot_def MakePersister_def)

lemma persister_checkpoint [simp]: "Persister_Checkpoint ps = ps"
  by (cases ps) (simp add: Persister_Checkpoint_def MakePersister_def)

text \<open>Stable storage as its clients see it: what is read back is what was saved last.\<close>

locale stable_storage =
  fixes save :: "'p \<Rightarrow> 'r list \<Rightarrow> bytes \<Rightarrow> 'p"
    and read_state :: "'p \<Rightarrow> 'r list"
    and read_snap :: "'p \<Rightarrow> bytes"
    and checkpoint :: "'p \<Rightarrow> 'p"
  assumes read_save: "read_state (save p st sn) = st" "read_snap (save p st sn) = sn"
    and read_checkpoint: "read_state (checkpoint p) = read_state p" "read_snap (checkpoint p) = read_snap p"
begin

text \<open>Only the last of many saves matters, also through a shutdown that keeps a checkpoint.\<close>

lemma last_save_survives:
  "read_state (checkpoint (save (foldl (\<lambda>q x. save q (fst x) (snd x)) p xs) st sn)) = st"
  "read_snap (checkpoint (save (foldl (\<lambda>q x. save q (fst x) (snd x)) p xs) st sn)) = sn"
  by (simp_all add: read_save read_checkpoint)

end

interpretation persister: stable_storage Persister_Save ReadRaftState ReadSnapshot Persister_Checkpoint
  by unfold_locales simp_all

end
