(* ===== verification/RaftNode.thy ===== *)
theory RaftNode
  imports Persister
begin

text \<open>
  One Raft peer (raft1/raft.go): its state, the log helpers, persistence, the three RPC
  handlers, what the peer does with the replies, the commit rule, the ticker, the applier and
  \<open>Make\<close>. Every section of code between taking and releasing the mutex is one function
  from the peer's state to its new state. Goroutines it starts and condition variables it
  signals are returned as a list of \<open>spawn\<close>s. Calls on the network, sleeping and debug
  output are not here; theory \<open>RaftCluster\<close> runs the peers over a network.

  Indices and terms, \<^verbatim>\<open>uint64\<close> in the code, are natural numbers here and sums of them are
  not reduced. A run of the model is a run of the code as long as no sum reaches \<open>2 ^ 64\<close>, which
  takes \<open>2 ^ 64\<close> entries or terms, or a message with an index of that size. Theory
  \<open>RaftLocal\<close> states the bound (\<open>raft_fits\<close>, \<open>machine_length\<close>).
\<close>

section \<open>State\<close>

datatype RoleType = Follower | Candidate | Leader

type_synonym LogicalIndex = nat

text \<open>The command is \<open>None\<close> in the placeholder at the snapshot's index (a nil interface).\<close>

record 'c LogEntry =
  Command :: "'c option"
  Term :: nat

text \<open>What \<open>persist\<close> writes to the encoder, value by value.\<close>

datatype 'c gob = GUint nat | GInt int | GLogs "'c LogEntry list"

record 'c Raft =
  npeers :: nat
  persister :: "'c gob Persister"
  me :: nat
  role :: RoleType
  current_term :: nat
  voted_for :: int
  logs :: "'c LogEntry list"
  last_included_index :: LogicalIndex
  last_included_term :: nat
  snapshot :: bytes
  commit_index :: LogicalIndex
  last_applied :: LogicalIndex
  next_index :: "LogicalIndex list"
  match_index :: "LogicalIndex list"
  last_heartbeat_time :: int

definition nilEntry :: "'c LogEntry" where
  "nilEntry = \<lparr>Command = None, Term = 0\<rparr>"

definition HEARTBEAT_INTERVAL :: int where "HEARTBEAT_INTERVAL = 100"
definition ELECTION_TIMEOUT :: int where "ELECTION_TIMEOUT = 400"

section \<open>Messages\<close>

record RequestVoteArgs =
  rv_Term :: nat
  rv_Candidate_ID :: int
  rv_LastLogIndex :: LogicalIndex
  rv_LastLogTerm :: nat

record RequestVoteReply =
  rvr_Term :: nat
  rvr_VoteGranted :: bool

record 'c AppendEntriesArgs =
  ae_Term :: nat
  ae_LeaderID :: int
  ae_PreviousLogIndex :: LogicalIndex
  ae_PreviousLogTerm :: nat
  ae_Entries :: "'c LogEntry list"
  ae_LeaderCommit :: LogicalIndex

record AppendEntriesReplys =
  aer_Term :: nat
  aer_Success :: bool
  aer_ConflictEntryTerm :: nat
  aer_FirstIndexOfConflictEntryTerm :: LogicalIndex
  aer_LogLenth :: LogicalIndex

record InstallSnapshotArgs =
  is_Term :: nat
  is_LeaderID :: int
  is_LastIncludedIndex :: LogicalIndex
  is_LastIncludedTerm :: nat
  is_Data :: bytes

record InstallSnapshotReplys =
  isr_Term :: nat

definition zeroRV :: RequestVoteReply where
  "zeroRV = \<lparr>rvr_Term = 0, rvr_VoteGranted = False\<rparr>"

definition zeroAE :: AppendEntriesReplys where
  "zeroAE = \<lparr>aer_Term = 0, aer_Success = False, aer_ConflictEntryTerm = 0,
     aer_FirstIndexOfConflictEntryTerm = 0, aer_LogLenth = 0\<rparr>"

text \<open>raftapi/raftapi.go.\<close>

record 'c ApplyMsg =
  CommandValid :: bool
  MsgCommand :: "'c option"
  CommandIndex :: nat
  SnapshotValid :: bool
  MsgSnapshot :: bytes
  SnapshotTerm :: nat
  SnapshotIndex :: nat

datatype 'c spawn =
    GoCommit
  | GoSendInstallSnapshot nat
  | GoSendAppendEntries nat "'c AppendEntriesArgs"
  | GoBroadcastHeartbeats
  | SignalApply
  | SignalSend
  | ElectionDone

section \<open>The log\<close>

definition logicalIndexToPhysicalIndex :: "'c Raft \<Rightarrow> LogicalIndex \<Rightarrow> nat res" where
  "logicalIndexToPhysicalIndex rf index =
     (if index < last_included_index rf then Inl LogicError
      else Inr (index - last_included_index rf))"

definition getLogEntry :: "'c Raft \<Rightarrow> LogicalIndex \<Rightarrow> 'c LogEntry res" where
  "getLogEntry rf index = bindr (logicalIndexToPhysicalIndex rf index) (idx (logs rf))"

definition getLogLength :: "'c Raft \<Rightarrow> LogicalIndex" where
  "getLogLength rf = last_included_index rf + length (logs rf)"

definition getLogSlice :: "'c Raft \<Rightarrow> LogicalIndex \<Rightarrow> LogicalIndex \<Rightarrow> 'c LogEntry list res" where
  "getLogSlice rf begin' end' =
     (if begin' < last_included_index rf \<or> getLogLength rf < end' then Inl LogicError
      else bindr (logicalIndexToPhysicalIndex rf begin') (\<lambda>p.
             bindr (logicalIndexToPhysicalIndex rf end') (\<lambda>q. slice (logs rf) p q)))"

text \<open>The copy has the same entries; no two live slices share a log entry that is written.\<close>

definition getLogSliceCopy :: "'c Raft \<Rightarrow> LogicalIndex \<Rightarrow> LogicalIndex \<Rightarrow> 'c LogEntry list res" where
  "getLogSliceCopy rf begin' end' = getLogSlice rf begin' end'"

definition setLogEntry :: "'c Raft \<Rightarrow> LogicalIndex \<Rightarrow> 'c LogEntry \<Rightarrow> 'c Raft res" where
  "setLogEntry rf index e =
     bindr (logicalIndexToPhysicalIndex rf index) (\<lambda>p.
       bindr (set_idx (logs rf) p e) (\<lambda>l. Inr (rf\<lparr>logs := l\<rparr>)))"

section \<open>Persistence\<close>

definition encode_state :: "'c Raft \<Rightarrow> 'c gob list" where
  "encode_state rf = [GUint (current_term rf), GInt (voted_for rf), GLogs (logs rf),
     GUint (last_included_index rf), GUint (last_included_term rf)]"

definition persist :: "'c Raft \<Rightarrow> 'c Raft" where
  "persist rf = rf\<lparr>persister := Persister_Save (persister rf) (encode_state rf) (snapshot rf)\<rparr>"

fun decode_state :: "'c gob list \<Rightarrow> (nat \<times> int \<times> 'c LogEntry list \<times> nat \<times> nat) option" where
  "decode_state (GUint t # GInt v # GLogs l # GUint i # GUint u # rest) = Some (t, v, l, i, u)"
| "decode_state _ = None"

definition readPersist :: "'c Raft \<Rightarrow> 'c gob list \<Rightarrow> 'c Raft" where
  "readPersist rf data =
     (if length data < 1 then rf
      else case decode_state data of
             None \<Rightarrow> rf
           | Some (t, v, l, i, u) \<Rightarrow>
               rf\<lparr>current_term := t, voted_for := v, logs := l, last_included_index := i,
                  last_included_term := u, snapshot := ReadSnapshot (persister rf)\<rparr>)"

definition PersistBytes :: "('c gob list \<Rightarrow> nat) \<Rightarrow> 'c Raft \<Rightarrow> nat" where
  "PersistBytes sz rf = RaftStateSize sz (persister rf)"

definition Make :: "nat \<Rightarrow> nat \<Rightarrow> 'c gob Persister \<Rightarrow> 'c Raft" where
  "Make n i ps =
     (let rf = \<lparr>npeers = n, persister = ps, me = i, role = Follower, current_term = 0, voted_for = -1,
                logs = [nilEntry], last_included_index = 0, last_included_term = 0, snapshot = [],
                commit_index = 0, last_applied = 0, next_index = replicate n 1, match_index = replicate n 0,
                last_heartbeat_time = 0\<rparr>
      in readPersist rf (ReadRaftState ps))"

definition GetState :: "'c Raft \<Rightarrow> nat \<times> bool" where
  "GetState rf = (current_term rf, role rf = Leader)"

definition roleName :: "'c Raft \<Rightarrow> string" where
  "roleName rf = (case role rf of Follower \<Rightarrow> ''Follower'' | Candidate \<Rightarrow> ''Candidate'' | Leader \<Rightarrow> ''Leader'')"

section \<open>RequestVote\<close>

definition RequestVote :: "'c Raft \<Rightarrow> RequestVoteArgs \<Rightarrow> int \<Rightarrow> ('c Raft \<times> RequestVoteReply) res" where
  "RequestVote rf0 args now =
     (if rv_Term args < current_term rf0
      then Inr (rf0, zeroRV\<lparr>rvr_Term := current_term rf0, rvr_VoteGranted := False\<rparr>)
      else
        let rf = (if rv_Term args > current_term rf0
                  then persist (rf0\<lparr>current_term := rv_Term args, role := Follower, voted_for := -1\<rparr>)
                  else rf0)
        in if voted_for rf = rv_Candidate_ID args
           then Inr (rf\<lparr>last_heartbeat_time := now\<rparr>, zeroRV\<lparr>rvr_VoteGranted := True\<rparr>)
           else if voted_for rf \<noteq> -1
           then Inr (rf, zeroRV\<lparr>rvr_Term := current_term rf, rvr_VoteGranted := False\<rparr>)
           else bindr (getLogEntry rf (u64_sub (getLogLength rf) 1)) (\<lambda>lastEntry.
             if rv_LastLogTerm args > Term lastEntry
             then Inr (persist (rf\<lparr>voted_for := rv_Candidate_ID args, last_heartbeat_time := now\<rparr>),
                       zeroRV\<lparr>rvr_Term := current_term rf, rvr_VoteGranted := True\<rparr>)
             else if rv_LastLogTerm args < Term lastEntry
             then Inr (rf, zeroRV\<lparr>rvr_Term := current_term rf, rvr_VoteGranted := False\<rparr>)
             else if rv_LastLogIndex args \<ge> u64_sub (getLogLength rf) 1
             then Inr (persist (rf\<lparr>voted_for := rv_Candidate_ID args, current_term := rv_Term args,
                                   last_heartbeat_time := now\<rparr>),
                       zeroRV\<lparr>rvr_Term := rv_Term args, rvr_VoteGranted := True\<rparr>)
             else Inr (rf, zeroRV\<lparr>rvr_Term := current_term rf, rvr_VoteGranted := False\<rparr>)))"

section \<open>AppendEntries\<close>

text \<open>The loop that looks for the first entry of the conflicting term.\<close>

fun first_conflict_index :: "'c Raft \<Rightarrow> nat \<Rightarrow> LogicalIndex \<Rightarrow> LogicalIndex res" where
  "first_conflict_index rf conflict_term 0 = Inr 0"
| "first_conflict_index rf conflict_term (Suc i) =
     (if Suc i > last_included_index rf + 1
      then bindr (getLogEntry rf i) (\<lambda>e.
             if Term e = conflict_term then first_conflict_index rf conflict_term i else Inr (Suc i))
      else Inr (Suc i))"

text \<open>The loop over the leader's entries; the flag is \<^verbatim>\<open>is_logs_modified\<close>.\<close>

fun append_loop :: "'c Raft \<Rightarrow> LogicalIndex \<Rightarrow> 'c LogEntry list \<Rightarrow> bool \<Rightarrow> ('c Raft \<times> bool) res" where
  "append_loop rf index [] modified = Inr (rf, modified)"
| "append_loop rf index (leader_log_entry # rest) modified =
     (if index = getLogLength rf
      then append_loop (rf\<lparr>logs := logs rf @ [leader_log_entry]\<rparr>) (index + 1) rest True
      else bindr (getLogEntry rf index) (\<lambda>curr_log_entry.
             if Term curr_log_entry \<noteq> Term leader_log_entry
             then bindr (setLogEntry rf index leader_log_entry) (\<lambda>rf1.
                    bindr (getLogSlice rf1 (last_included_index rf1) (index + 1)) (\<lambda>l.
                      append_loop (rf1\<lparr>logs := l\<rparr>) (index + 1) rest True))
             else append_loop rf (index + 1) rest modified))"

text \<open>The handler in three parts: hearing from a leader, the end of a successful append, the log check.\<close>

definition ae_begin :: "'c Raft \<Rightarrow> 'c AppendEntriesArgs \<Rightarrow> int \<Rightarrow> 'c Raft" where
  "ae_begin rf args now =
     (let rf1 = (if ae_Term args > current_term rf
                 then persist (rf\<lparr>current_term := ae_Term args, voted_for := -1\<rparr>)
                 else rf)
      in rf1\<lparr>last_heartbeat_time := now, role := Follower\<rparr>)"

definition ae_finish ::
  "'c Raft \<Rightarrow> bool \<Rightarrow> 'c AppendEntriesArgs \<Rightarrow> 'c Raft \<times> AppendEntriesReplys \<times> 'c spawn list" where
  "ae_finish rf0 modified args =
     (let rf = (if modified then persist rf0 else rf0);
          new_commit_index = min (min (ae_LeaderCommit args) (u64_sub (getLogLength rf) 1))
                                 (ae_PreviousLogIndex args + length (ae_Entries args))
      in if new_commit_index \<le> commit_index rf
         then (rf, zeroAE\<lparr>aer_Success := True\<rparr>, [])
         else (persist (rf\<lparr>commit_index := new_commit_index\<rparr>), zeroAE\<lparr>aer_Success := True\<rparr>, [SignalApply]))"

definition ae_check ::
  "'c Raft \<Rightarrow> 'c AppendEntriesArgs \<Rightarrow> ('c Raft \<times> AppendEntriesReplys \<times> 'c spawn list) res" where
  "ae_check rf args =
     (let prev = ae_PreviousLogIndex args in
      if getLogLength rf \<le> prev
      then Inr (rf, zeroAE\<lparr>aer_Success := False, aer_LogLenth := getLogLength rf\<rparr>, [])
      else if prev < last_included_index rf
      then Inr (rf, zeroAE\<lparr>aer_Success := True, aer_LogLenth := getLogLength rf\<rparr>, [])
      else bindr (getLogEntry rf prev) (\<lambda>prevEntry.
        if Term prevEntry \<noteq> ae_PreviousLogTerm args
        then bindr (first_conflict_index rf (Term prevEntry) prev) (\<lambda>first.
               Inr (rf, zeroAE\<lparr>aer_Success := False, aer_LogLenth := getLogLength rf,
                               aer_ConflictEntryTerm := Term prevEntry,
                               aer_FirstIndexOfConflictEntryTerm := first\<rparr>, []))
        else bindr (append_loop rf (prev + 1) (ae_Entries args) False) (\<lambda>(rf1, modified).
               Inr (ae_finish rf1 modified args))))"

definition AppendEntries ::
  "'c Raft \<Rightarrow> 'c AppendEntriesArgs \<Rightarrow> int \<Rightarrow> ('c Raft \<times> AppendEntriesReplys \<times> 'c spawn list) res" where
  "AppendEntries rf args now =
     (if ae_Term args < current_term rf
      then Inr (rf, zeroAE\<lparr>aer_Term := current_term rf, aer_Success := False\<rparr>, [])
      else ae_check (ae_begin rf args now) args)"

section \<open>Snapshots\<close>

definition InstallSnapshot ::
  "'c Raft \<Rightarrow> InstallSnapshotArgs \<Rightarrow> ('c Raft \<times> InstallSnapshotReplys \<times> 'c spawn list) res" where
  "InstallSnapshot rf args =
     (let reply = \<lparr>isr_Term = current_term rf\<rparr> in
      if is_Term args < current_term rf then Inr (rf, reply, [])
      else if is_LastIncludedIndex args \<le> last_included_index rf then Inr (rf, reply, [])
      else
        bindr (if getLogLength rf > is_LastIncludedIndex args
               then bindr (getLogEntry rf (is_LastIncludedIndex args)) (\<lambda>e.
                      if Term e = is_LastIncludedTerm args
                      then getLogSliceCopy rf (is_LastIncludedIndex args) (getLogLength rf)
                      else Inr [nilEntry])
               else Inr [nilEntry]) (\<lambda>l.
        let rf1 = rf\<lparr>logs := l, snapshot := is_Data args,
                     last_included_index := is_LastIncludedIndex args,
                     last_included_term := is_LastIncludedTerm args\<rparr>
        in bindr (getLogEntry rf1 (last_included_index rf1)) (\<lambda>e.
           bindr (setLogEntry rf1 (last_included_index rf1) (e\<lparr>Term := last_included_term rf1\<rparr>)) (\<lambda>rf2.
             Inr (persist (rf2\<lparr>commit_index := max (commit_index rf2) (is_LastIncludedIndex args)\<rparr>),
                  reply, [SignalApply])))))"

definition Snapshot :: "'c Raft \<Rightarrow> int \<Rightarrow> bytes \<Rightarrow> 'c Raft res" where
  "Snapshot rf index snap =
     (let logical_index = to_u64 index in
      if logical_index > last_applied rf \<or> logical_index \<le> last_included_index rf then Inr rf
      else bindr (getLogSliceCopy rf logical_index (getLogLength rf)) (\<lambda>l.
        let rf1 = rf\<lparr>snapshot := snap, logs := l, last_included_index := logical_index\<rparr>
        in bindr (getLogEntry rf1 logical_index) (\<lambda>e.
             Inr (persist (rf1\<lparr>last_included_term := Term e\<rparr>)))))"

section \<open>The leader\<close>

definition Start :: "'c Raft \<Rightarrow> 'c \<Rightarrow> 'c Raft \<times> (nat \<times> nat \<times> bool) \<times> 'c spawn list" where
  "Start rf command =
     (if role rf \<noteq> Leader then (rf, (commit_index rf, current_term rf, False), [])
      else let rf1 = rf\<lparr>logs := logs rf @ [\<lparr>Command = Some command, Term = current_term rf\<rparr>]\<rparr>
           in (persist rf1, (getLogLength rf1 - 1, current_term rf1, True), [SignalSend]))"

text \<open>
  \<open>slices.SortFunc\<close> with the descending comparison: indices are numbers, so the sorted
  list is unique.
\<close>

definition sort_descending :: "nat list \<Rightarrow> nat list" where
  "sort_descending xs = rev (sort xs)"

definition commit :: "'c Raft \<Rightarrow> ('c Raft \<times> 'c spawn list) res" where
  "commit rf =
     (if role rf \<noteq> Leader then Inr (rf, [])
      else bindr (set_idx (match_index rf) (me rf) (u64_sub (getLogLength rf) 1)) (\<lambda>matched.
           bindr (idx (sort_descending matched) (npeers rf div 2)) (\<lambda>majority_index.
           if majority_index > commit_index rf
           then bindr (getLogEntry rf majority_index) (\<lambda>e.
                  if Term e = current_term rf
                  then Inr (rf\<lparr>commit_index := majority_index\<rparr>, [SignalApply])
                  else Inr (rf, []))
           else Inr (rf, []))))"

definition sendAppendEntriesHelper :: "'c Raft \<Rightarrow> nat \<Rightarrow> 'c spawn list res" where
  "sendAppendEntriesHelper rf server =
     bindr (idx (next_index rf) server) (\<lambda>next.
       if next \<le> last_included_index rf then Inr [GoSendInstallSnapshot server]
       else
         let prev = u64_sub next 1 in
         bindr (getLogEntry rf prev) (\<lambda>e.
         bindr (idx (match_index rf) server) (\<lambda>mtch.
         bindr (if next = mtch + 1 then getLogSliceCopy rf (prev + 1) (getLogLength rf) else Inr []) (\<lambda>entries.
           Inr [GoSendAppendEntries server
                  \<lparr>ae_Term = current_term rf, ae_LeaderID = int (me rf), ae_PreviousLogIndex = prev,
                   ae_PreviousLogTerm = Term e, ae_Entries = entries, ae_LeaderCommit = commit_index rf\<rparr>]))))"

text \<open>The loop that looks for the follower's term in the leader's log.\<close>

fun scan_back :: "'c Raft \<Rightarrow> nat \<Rightarrow> LogicalIndex \<Rightarrow> LogicalIndex res" where
  "scan_back rf conflict_term 0 = Inr 0"
| "scan_back rf conflict_term (Suc i) =
     (if Suc i > last_included_index rf
      then bindr (getLogEntry rf (Suc i)) (\<lambda>e.
             if Term e \<noteq> conflict_term then scan_back rf conflict_term i else Inr (Suc i))
      else Inr (Suc i))"

definition back_up :: "'c Raft \<Rightarrow> 'c AppendEntriesArgs \<Rightarrow> AppendEntriesReplys \<Rightarrow> LogicalIndex res" where
  "back_up rf args reply =
     (if aer_LogLenth reply \<le> ae_PreviousLogIndex args then Inr (aer_LogLenth reply)
      else if aer_ConflictEntryTerm reply > ae_PreviousLogTerm args
      then Inr (aer_FirstIndexOfConflictEntryTerm reply)
      else bindr (scan_back rf (aer_ConflictEntryTerm reply) (ae_PreviousLogIndex args)) (\<lambda>start_index.
             if start_index = last_included_index rf then Inr (aer_FirstIndexOfConflictEntryTerm reply)
             else Inr (start_index + 1)))"

text \<open>\<open>sendAppendEntries\<close> after the call returned with a reply.\<close>

definition sendAppendEntries_reply ::
  "'c Raft \<Rightarrow> nat \<Rightarrow> 'c AppendEntriesArgs \<Rightarrow> AppendEntriesReplys \<Rightarrow> ('c Raft \<times> 'c spawn list) res" where
  "sendAppendEntries_reply rf server args reply =
     (if aer_Term reply > current_term rf
      then Inr (persist (rf\<lparr>role := Follower, current_term := aer_Term reply, voted_for := -1\<rparr>), [])
      else if role rf \<noteq> Leader \<or> current_term rf \<noteq> ae_Term args then Inr (rf, [])
      else bindr (idx (match_index rf) server) (\<lambda>mtch.
        if \<not> aer_Success reply then
          (if mtch \<ge> ae_PreviousLogIndex args then Inr (rf, [])
           else bindr (back_up rf args reply) (\<lambda>new_next_index.
             if mtch \<ge> new_next_index then Inr (rf, [])
             else if new_next_index \<le> last_included_index rf then Inr (rf, [GoSendInstallSnapshot server])
             else bindr (set_idx (next_index rf) server new_next_index) (\<lambda>n.
                    let rf1 = rf\<lparr>next_index := n\<rparr>
                    in bindr (sendAppendEntriesHelper rf1 server) (\<lambda>sp. Inr (rf1, sp)))))
        else
          let new_match = ae_PreviousLogIndex args + length (ae_Entries args)
          in if new_match > mtch
             then bindr (set_idx (match_index rf) server new_match) (\<lambda>ms.
                  bindr (set_idx (next_index rf) server (new_match + 1)) (\<lambda>ns.
                    Inr (rf\<lparr>match_index := ms, next_index := ns\<rparr>, [GoCommit])))
             else Inr (rf, [GoCommit])))"

text \<open>\<open>sendInstallSnapshot\<close>: what it sends, and what it does with the reply.\<close>

definition sendInstallSnapshot_args :: "'c Raft \<Rightarrow> InstallSnapshotArgs" where
  "sendInstallSnapshot_args rf =
     \<lparr>is_Term = current_term rf, is_LeaderID = int (me rf),
      is_LastIncludedIndex = last_included_index rf, is_LastIncludedTerm = last_included_term rf,
      is_Data = snapshot rf\<rparr>"

definition sendInstallSnapshot_reply ::
  "'c Raft \<Rightarrow> nat \<Rightarrow> InstallSnapshotArgs \<Rightarrow> InstallSnapshotReplys \<Rightarrow> ('c Raft \<times> 'c spawn list) res" where
  "sendInstallSnapshot_reply rf server args reply =
     (if isr_Term reply > current_term rf
      then Inr (persist (rf\<lparr>current_term := isr_Term reply, role := Follower, voted_for := -1\<rparr>), [])
      else bindr (set_idx (match_index rf) server (is_LastIncludedIndex args)) (\<lambda>ms.
           bindr (set_idx (next_index rf) server (is_LastIncludedIndex args + 1)) (\<lambda>ns.
             Inr (rf\<lparr>match_index := ms, next_index := ns\<rparr>, [GoCommit]))))"

text \<open>One round of \<open>entriesSender\<close> after it was woken up.\<close>

fun send_to_all :: "'c Raft \<Rightarrow> nat list \<Rightarrow> 'c spawn list res" where
  "send_to_all rf [] = Inr []"
| "send_to_all rf (peer_index # rest) =
     (if peer_index = me rf then send_to_all rf rest
      else bindr (sendAppendEntriesHelper rf peer_index) (\<lambda>sp.
           bindr (send_to_all rf rest) (\<lambda>sps. Inr (sp @ sps))))"

definition entriesSender_round :: "'c Raft \<Rightarrow> 'c spawn list res" where
  "entriesSender_round rf =
     (if role rf \<noteq> Leader then Inr [] else send_to_all rf [0..<npeers rf])"

section \<open>Elections\<close>

definition startElection :: "'c Raft \<Rightarrow> int \<Rightarrow> ('c Raft \<times> RequestVoteArgs) res" where
  "startElection rf now =
     (let rf1 = persist (rf\<lparr>current_term := current_term rf + 1, voted_for := int (me rf),
                            last_heartbeat_time := now\<rparr>);
          lastIndex = u64_sub (getLogLength rf1) 1
      in bindr (getLogEntry rf1 lastIndex) (\<lambda>e.
           Inr (rf1, \<lparr>rv_Term = current_term rf1, rv_Candidate_ID = int (me rf1),
                      rv_LastLogIndex = lastIndex, rv_LastLogTerm = Term e\<rparr>)))"

text \<open>The work function on a reply; the counter is the variable all of an election's calls share.\<close>

definition vote_reply ::
  "'c Raft \<Rightarrow> nat \<Rightarrow> RequestVoteArgs \<Rightarrow> RequestVoteReply \<Rightarrow> ('c Raft \<times> nat \<times> 'c spawn list) res" where
  "vote_reply rf vote_count args reply =
     (if rvr_Term reply > current_term rf
      then Inr (persist (rf\<lparr>current_term := rvr_Term reply, role := Follower, voted_for := -1\<rparr>),
                vote_count, [ElectionDone])
      else if role rf \<noteq> Candidate \<or> current_term rf \<noteq> rv_Term args then Inr (rf, vote_count, [])
      else if rvr_VoteGranted reply then
        (if vote_count + 1 > npeers rf div 2
         then if length (next_index rf) \<le> length (match_index rf)
              then Inr (rf\<lparr>role := Leader,
                           next_index := replicate (length (next_index rf)) (getLogLength rf),
                           match_index := replicate (length (next_index rf)) 0
                                          @ drop (length (next_index rf)) (match_index rf)\<rparr>,
                        vote_count + 1, [GoBroadcastHeartbeats, ElectionDone])
              else Inl IndexOutOfRange
         else Inr (rf, vote_count + 1, []))
      else Inr (rf, vote_count, []))"

text \<open>The ticker: the follower's check after its sleep, and the check before an election.\<close>

definition ticker_follower :: "'c Raft \<Rightarrow> int \<Rightarrow> 'c Raft" where
  "ticker_follower rf now =
     (if role rf = Follower \<and> now - last_heartbeat_time rf \<ge> ELECTION_TIMEOUT
      then rf\<lparr>role := Candidate\<rparr> else rf)"

definition ticker_candidate :: "'c Raft \<Rightarrow> bool" where
  "ticker_candidate rf \<longleftrightarrow> role rf = Candidate"

section \<open>The applier\<close>

text \<open>
  The applier's round has two sections under the mutex. In the first it leaves a pending
  snapshot to deliver; in the second it takes the committed entries it has not delivered.
  \<open>None\<close> is the wait for a signal. The channel operations happen outside the mutex.
\<close>

definition applier_first :: "'c Raft \<Rightarrow> ('c Raft \<times> 'c ApplyMsg list) option" where
  "applier_first rf =
     (if last_applied rf = commit_index rf then None
      else if last_applied rf < last_included_index rf
      then Some (rf\<lparr>last_applied := last_included_index rf\<rparr>,
                 [\<lparr>CommandValid = False, MsgCommand = None, CommandIndex = 0, SnapshotValid = True,
                   MsgSnapshot = snapshot rf, SnapshotTerm = last_included_term rf,
                   SnapshotIndex = last_included_index rf\<rparr>])
      else Some (rf, []))"

definition command_msgs :: "LogicalIndex \<Rightarrow> 'c LogEntry list \<Rightarrow> 'c ApplyMsg list" where
  "command_msgs start entries =
     map (\<lambda>(offset, e). \<lparr>CommandValid = True, MsgCommand = Command e, CommandIndex = start + offset,
            SnapshotValid = False, MsgSnapshot = [], SnapshotTerm = 0, SnapshotIndex = 0\<rparr>)
         (zip [0..<length entries] entries)"

definition applier_second :: "'c Raft \<Rightarrow> ('c Raft \<times> 'c ApplyMsg list) res" where
  "applier_second rf =
     (if last_applied rf = commit_index rf then Inr (rf, [])
      else bindr (getLogSliceCopy rf (last_applied rf + 1) (commit_index rf + 1)) (\<lambda>entries.
             Inr (rf\<lparr>last_applied := commit_index rf\<rparr>, command_msgs (last_applied rf + 1) entries)))"

end
