(* ===== verification/RaftLocal.thy ===== *)
theory RaftLocal
  imports RaftNode
begin

text \<open>
  Correctness of one Raft peer: the handlers do not panic and keep the shape of the state, terms
  and votes move the way an election needs, stable storage always holds what a restart must
  find, \<open>AppendEntries\<close> computes the reference merge of two logs, the leader commits what
  a majority has acknowledged, and the applier delivers the log in order.
\<close>

section \<open>Access to the log\<close>

definition raft_wf :: "'c Raft \<Rightarrow> bool" where
  "raft_wf rf \<longleftrightarrow> logs rf \<noteq> [] \<and> length (next_index rf) = npeers rf \<and>
     length (match_index rf) = npeers rf \<and> me rf < npeers rf \<and>
     Term (hd (logs rf)) = last_included_term rf"

lemma raft_wf_logs [simp]: "raft_wf rf \<Longrightarrow> logs rf \<noteq> []"
  by (simp add: raft_wf_def)

lemma getLogEntry_in:
  "last_included_index rf \<le> i \<Longrightarrow> i < getLogLength rf \<Longrightarrow>
     getLogEntry rf i = Inr (logs rf ! (i - last_included_index rf))"
  by (simp add: getLogEntry_def logicalIndexToPhysicalIndex_def getLogLength_def)

lemma getLogLength_pos: "logs rf \<noteq> [] \<Longrightarrow> last_included_index rf < getLogLength rf"
  by (simp add: getLogLength_def)

lemma last_index [simp]: "logs rf \<noteq> [] \<Longrightarrow> u64_sub (getLogLength rf) (Suc 0) = getLogLength rf - Suc 0"
  using getLogLength_pos [of rf] by simp

lemma getLogEntry_last: "logs rf \<noteq> [] \<Longrightarrow> getLogEntry rf (getLogLength rf - Suc 0) = Inr (last (logs rf))"
  using getLogLength_pos [of rf]
  by (simp add: getLogEntry_in) (simp add: getLogLength_def last_conv_nth diff_right_commute)

lemma getLogSlice_in:
  "last_included_index rf \<le> a \<Longrightarrow> a \<le> b \<Longrightarrow> b \<le> getLogLength rf \<Longrightarrow>
     getLogSlice rf a b = Inr (take (b - a) (drop (a - last_included_index rf) (logs rf)))"
  by (simp add: getLogSlice_def logicalIndexToPhysicalIndex_def getLogLength_def)

lemma setLogEntry_in:
  "last_included_index rf \<le> i \<Longrightarrow> i < getLogLength rf \<Longrightarrow>
     setLogEntry rf i e = Inr (rf\<lparr>logs := (logs rf)[i - last_included_index rf := e]\<rparr>)"
  by (simp add: setLogEntry_def logicalIndexToPhysicalIndex_def getLogLength_def set_idx_def)

lemma persist_fields [simp]:
  "npeers (persist rf) = npeers rf" "me (persist rf) = me rf" "role (persist rf) = role rf"
  "current_term (persist rf) = current_term rf" "voted_for (persist rf) = voted_for rf"
  "logs (persist rf) = logs rf" "last_included_index (persist rf) = last_included_index rf"
  "last_included_term (persist rf) = last_included_term rf" "snapshot (persist rf) = snapshot rf"
  "commit_index (persist rf) = commit_index rf" "last_applied (persist rf) = last_applied rf"
  "next_index (persist rf) = next_index rf" "match_index (persist rf) = match_index rf"
  "getLogLength (persist rf) = getLogLength rf"
  by (simp_all add: persist_def getLogLength_def)

lemma getLogLength_upd [simp]:
  "getLogLength (rf\<lparr>current_term := t\<rparr>) = getLogLength rf" "getLogLength (rf\<lparr>voted_for := v\<rparr>) = getLogLength rf"
  "getLogLength (rf\<lparr>role := r\<rparr>) = getLogLength rf" "getLogLength (rf\<lparr>last_heartbeat_time := h\<rparr>) = getLogLength rf"
  "getLogLength (rf\<lparr>commit_index := c\<rparr>) = getLogLength rf" "getLogLength (rf\<lparr>next_index := n\<rparr>) = getLogLength rf"
  "getLogLength (rf\<lparr>match_index := n\<rparr>) = getLogLength rf"
  by (simp_all add: getLogLength_def)

section \<open>The reference merge of a follower's log with a leader's entries\<close>

text \<open>
  The rule of the Raft paper: keep entries that agree; at the first conflict delete the entry
  and all that follow, and append what is new. \<open>p\<close> is the position of the first entry.
\<close>

fun merge_log :: "'c LogEntry list \<Rightarrow> nat \<Rightarrow> 'c LogEntry list \<Rightarrow> 'c LogEntry list" where
  "merge_log L p [] = L"
| "merge_log L p (e # es) =
     (if length L \<le> p then L @ e # es
      else if Term (L ! p) \<noteq> Term e then take p L @ e # es
      else merge_log L (Suc p) es)"

text \<open>The imperative loop computes the merge, and its flag says whether the log changed.\<close>

lemma append_loop_at_end:
  "index = getLogLength rf \<Longrightarrow>
     append_loop rf index es md = Inr (rf\<lparr>logs := logs rf @ es\<rparr>, md \<or> es \<noteq> [])"
proof (induction es arbitrary: rf index md)
  case (Cons e es)
  have "append_loop (rf\<lparr>logs := logs rf @ [e]\<rparr>) (index + 1) es True =
      Inr (rf\<lparr>logs := logs rf @ [e]\<rparr>\<lparr>logs := logs (rf\<lparr>logs := logs rf @ [e]\<rparr>) @ es\<rparr>, True \<or> es \<noteq> [])"
    using Cons.prems by (intro Cons.IH) (simp add: getLogLength_def)
  then show ?case using Cons.prems by simp
qed simp

lemma append_loop_eq_merge:
  assumes "last_included_index rf < index" and "index \<le> getLogLength rf"
  shows "append_loop rf index es md =
     Inr (rf\<lparr>logs := merge_log (logs rf) (index - last_included_index rf) es\<rparr>,
          md \<or> merge_log (logs rf) (index - last_included_index rf) es \<noteq> logs rf)"
  using assms
proof (induction es arbitrary: index md)
  case Nil
  then show ?case by simp
next
  case (Cons e es)
  let ?p = "index - last_included_index rf"
  show ?case
  proof (cases "index = getLogLength rf")
    case True
    then have "length (logs rf) = ?p" by (simp add: getLogLength_def)
    moreover have "append_loop (rf\<lparr>logs := logs rf @ [e]\<rparr>) (index + 1) es True =
        Inr (rf\<lparr>logs := logs rf @ e # es\<rparr>, True)"
      using True by (subst append_loop_at_end) (auto simp: getLogLength_def)
    ultimately show ?thesis using True by simp
  next
    case False
    then have p: "?p < length (logs rf)" "index < getLogLength rf"
      using Cons.prems by (auto simp: getLogLength_def)
    show ?thesis
    proof (cases "Term (logs rf ! ?p) = Term e")
      case True
      then show ?thesis
        using Cons.IH [of "index + 1" md] Cons.prems p False by (simp add: getLogEntry_in Suc_diff_le)
    next
      case neq: False
      let ?rf1 = "rf\<lparr>logs := (logs rf)[?p := e]\<rparr>"
      have cut: "getLogSlice ?rf1 (last_included_index ?rf1) (index + 1) = Inr (take ?p (logs rf) @ [e])"
        using p Cons.prems
        by (subst getLogSlice_in) (auto simp: getLogLength_def Suc_diff_le take_Suc_conv_app_nth)
      have "append_loop (?rf1\<lparr>logs := take ?p (logs rf) @ [e]\<rparr>) (index + 1) es True =
          Inr (rf\<lparr>logs := take ?p (logs rf) @ e # es\<rparr>, True)"
        using p Cons.prems by (subst append_loop_at_end) (auto simp: getLogLength_def)
      moreover have "take ?p (logs rf) @ e # es \<noteq> logs rf"
        using neq p by (metis append_take_drop_id id_take_nth_drop list.inject same_append_eq)
      ultimately show ?thesis
        using neq p Cons.prems False cut
        by (simp add: getLogEntry_in setLogEntry_in not_le)
    qed
  qed
qed

lemma merge_log_prefix: "p \<le> length L \<Longrightarrow> take p (merge_log L p es) = take p L"
proof (induction L p es rule: merge_log.induct)
  case (2 L p e es)
  show ?case
  proof (cases "p < length L \<and> Term (L ! p) = Term e")
    case True
    then have "take (Suc p) (merge_log L (Suc p) es) = take (Suc p) L" using 2 by simp
    from take_eq_mono [OF this, of p] show ?thesis using True by simp
  next
    case False
    then show ?thesis using 2 by auto
  qed
qed simp

lemma merge_log_length: "p \<le> length L \<Longrightarrow> p + length es \<le> length (merge_log L p es)"
  by (induction L p es rule: merge_log.induct) auto

lemma merge_log_bound: "p \<le> length L \<Longrightarrow> length (merge_log L p es) \<le> max (length L) (p + length es)"
  by (induction L p es rule: merge_log.induct) (auto simp: le_max_iff_disj)

lemma merge_log_nonempty: "0 < p \<Longrightarrow> p \<le> length L \<Longrightarrow> merge_log L p es \<noteq> [] \<and> hd (merge_log L p es) = hd L"
proof -
  assume "0 < p" and "p \<le> length L"
  then have "take 1 (merge_log L p es) = take 1 L"
    using merge_log_prefix [of p L es] take_eq_mono [of p _ _ 1] by simp
  moreover have "L \<noteq> []" using \<open>0 < p\<close> \<open>p \<le> length L\<close> by auto
  ultimately show ?thesis by (cases "merge_log L p es"; cases L) auto
qed

text \<open>After the merge the follower agrees with the leader on the terms of all the entries sent.\<close>

lemma merge_log_terms:
  "p \<le> length L \<Longrightarrow> map Term (take (length es) (drop p (merge_log L p es))) = map Term es"
proof (induction L p es rule: merge_log.induct)
  case (2 L p e es)
  show ?case
  proof (cases "p < length L \<and> Term (L ! p) = Term e")
    case True
    let ?M = "merge_log L (Suc p) es"
    have len: "p < length ?M" using merge_log_length [of "Suc p" L es] True by simp
    have "?M ! p = L ! p"
      using merge_log_prefix [of "Suc p" L es] True len by (intro take_eq_nth [of "Suc p"]) auto
    then have "take (length (e # es)) (drop p ?M) = L ! p # take (length es) (drop (Suc p) ?M)"
      using len by (simp add: Cons_nth_drop_Suc [symmetric])
    then show ?thesis using 2 True by simp
  next
    case False
    then show ?thesis using 2 by auto
  qed
qed simp

text \<open>Nothing is deleted when nothing conflicts.\<close>

lemma merge_log_no_conflict:
  "(\<And>i. i < length es \<Longrightarrow> p + i < length L \<Longrightarrow> Term (L ! (p + i)) = Term (es ! i)) \<Longrightarrow>
     p \<le> length L \<Longrightarrow> take (length L) (merge_log L p es) = L"
proof (induction L p es rule: merge_log.induct)
  case (2 L p e es)
  show ?case
  proof (cases "length L \<le> p")
    case False
    then have "Term (L ! p) = Term e" using "2.prems"(1) [of 0] by simp
    moreover have "Term (L ! (Suc p + i)) = Term (es ! i)" if "i < length es" "Suc p + i < length L" for i
      using "2.prems"(1) [of "Suc i"] that by simp
    ultimately show ?thesis using 2 False by simp
  qed simp
qed simp

section \<open>What every critical section does to terms, votes and stable storage\<close>

text \<open>Terms only grow, and a vote cast is not changed within its term.\<close>

definition vote_mono :: "'c Raft \<Rightarrow> 'c Raft \<Rightarrow> bool" where
  "vote_mono rf rf' \<longleftrightarrow> current_term rf \<le> current_term rf' \<and>
     (current_term rf' = current_term rf \<longrightarrow> voted_for rf \<noteq> -1 \<longrightarrow> voted_for rf' = voted_for rf)"

lemma vote_mono_refl [simp, intro]: "vote_mono rf rf"
  by (simp add: vote_mono_def)

lemma vote_mono_trans: "vote_mono a b \<Longrightarrow> vote_mono b c \<Longrightarrow> vote_mono a c"
  by (auto simp: vote_mono_def)

lemma vote_mono_cong:
  "current_term rf' = current_term rf \<Longrightarrow> voted_for rf' = voted_for rf \<Longrightarrow> vote_mono rf rf'"
  by (simp add: vote_mono_def)

lemma vote_mono_up: "current_term rf < current_term rf' \<Longrightarrow> vote_mono rf rf'"
  by (simp add: vote_mono_def)

text \<open>The fields that must survive a crash, and that stable storage holds them.\<close>

definition persistent :: "'c Raft \<Rightarrow> nat \<times> int \<times> 'c LogEntry list \<times> nat \<times> nat \<times> bytes" where
  "persistent rf = (current_term rf, voted_for rf, logs rf, last_included_index rf,
     last_included_term rf, snapshot rf)"

definition restart :: "'c Raft \<Rightarrow> 'c Raft" where
  "restart rf = Make (npeers rf) (me rf) (Persister_Checkpoint (persister rf))"

definition durable :: "'c Raft \<Rightarrow> bool" where
  "durable rf \<longleftrightarrow> persistent (restart rf) = persistent rf"

lemma restart_persist [simp]:
  "current_term (restart (persist rf)) = current_term rf" "voted_for (restart (persist rf)) = voted_for rf"
  "logs (restart (persist rf)) = logs rf" "snapshot (restart (persist rf)) = snapshot rf"
  "last_included_index (restart (persist rf)) = last_included_index rf"
  "last_included_term (restart (persist rf)) = last_included_term rf"
  by (simp_all add: restart_def Make_def readPersist_def persist_def encode_state_def)

lemma restart_fields [simp]:
  "npeers (restart rf) = npeers rf" "me (restart rf) = me rf" "role (restart rf) = Follower"
  "next_index (restart rf) = replicate (npeers rf) 1" "match_index (restart rf) = replicate (npeers rf) 0"
  "commit_index (restart rf) = 0" "last_applied (restart rf) = 0" "persister (restart rf) = persister rf"
  by (auto simp: restart_def Make_def readPersist_def Let_def split: option.split)

lemma durable_persist [simp]: "durable (persist rf)"
  by (simp add: durable_def persistent_def)

lemma durable_cong:
  "persistent rf' = persistent rf \<Longrightarrow> persister rf' = persister rf \<Longrightarrow> npeers rf' = npeers rf \<Longrightarrow>
     me rf' = me rf \<Longrightarrow> durable rf' = durable rf"
  by (simp add: durable_def restart_def)

lemma durable_upd [simp]:
  "durable (rf\<lparr>role := r\<rparr>) = durable rf" "durable (rf\<lparr>last_heartbeat_time := h\<rparr>) = durable rf"
  "durable (rf\<lparr>commit_index := c\<rparr>) = durable rf" "durable (rf\<lparr>next_index := n\<rparr>) = durable rf"
  "durable (rf\<lparr>match_index := ms\<rparr>) = durable rf" "durable (rf\<lparr>last_applied := la\<rparr>) = durable rf"
  by (rule durable_cong; simp add: persistent_def)+

lemma durable_restart [simp]: "durable rf \<Longrightarrow> durable (restart rf)"
proof -
  have "restart (restart rf) = restart rf" unfolding restart_def [of "restart rf"] by (simp, simp add: restart_def)
  then show "durable rf \<Longrightarrow> durable (restart rf)" by (simp add: durable_def)
qed

lemma raft_wf_persist [simp]: "raft_wf (persist rf) = raft_wf rf"
  by (simp add: raft_wf_def)

lemma raft_wf_upd [simp]:
  "raft_wf (rf\<lparr>role := r\<rparr>) = raft_wf rf" "raft_wf (rf\<lparr>last_heartbeat_time := h\<rparr>) = raft_wf rf"
  "raft_wf (rf\<lparr>commit_index := c\<rparr>) = raft_wf rf" "raft_wf (rf\<lparr>current_term := t\<rparr>) = raft_wf rf"
  "raft_wf (rf\<lparr>voted_for := v\<rparr>) = raft_wf rf" "raft_wf (rf\<lparr>last_applied := la\<rparr>) = raft_wf rf"
  by (simp_all add: raft_wf_def)

lemma raft_wf_restart: "raft_wf rf \<Longrightarrow> durable rf \<Longrightarrow> raft_wf (restart rf)"
  by (simp add: raft_wf_def durable_def persistent_def)

section \<open>RequestVote\<close>

text \<open>The candidate's log is at least as up to date as the voter's.\<close>

definition up_to_date :: "RequestVoteArgs \<Rightarrow> 'c Raft \<Rightarrow> bool" where
  "up_to_date args rf \<longleftrightarrow> Term (last (logs rf)) < rv_LastLogTerm args \<or>
     Term (last (logs rf)) = rv_LastLogTerm args \<and> getLogLength rf - 1 \<le> rv_LastLogIndex args"

text \<open>The state a request meets once the voter has adopted the request's term.\<close>

definition RequestVote_spec ::
  "'c Raft \<Rightarrow> RequestVoteArgs \<Rightarrow> 'c Raft \<Rightarrow> RequestVoteReply \<Rightarrow> bool" where
  "RequestVote_spec rf args rf' reply \<longleftrightarrow>
     raft_wf rf' \<and> vote_mono rf rf' \<and> (durable rf \<longrightarrow> durable rf') \<and>
     current_term rf' = max (current_term rf) (rv_Term args) \<and>
     role rf' = (if current_term rf < rv_Term args then Follower else role rf) \<and>
     (logs rf', last_included_index rf', last_included_term rf', snapshot rf') =
       (logs rf, last_included_index rf, last_included_term rf, snapshot rf) \<and>
     (commit_index rf', last_applied rf', next_index rf', match_index rf', me rf', npeers rf') =
       (commit_index rf, last_applied rf, next_index rf, match_index rf, me rf, npeers rf) \<and>
     rvr_Term reply \<le> current_term rf' \<and>
     (rvr_VoteGranted reply \<longleftrightarrow> current_term rf \<le> rv_Term args \<and>
        (let v = (if current_term rf < rv_Term args then -1 else voted_for rf)
         in v = rv_Candidate_ID args \<or> v = -1 \<and> up_to_date args rf)) \<and>
     (rvr_VoteGranted reply \<longrightarrow> voted_for rf' = rv_Candidate_ID args)"

lemma RequestVote_ok:
  assumes "raft_wf rf"
  shows "returns (RequestVote rf args now) (\<lambda>(rf', reply). RequestVote_spec rf args rf' reply)"
proof -
  note defs = RequestVote_def RequestVote_spec_def up_to_date_def vote_mono_def zeroRV_def Let_def
  have [simp]: "logs rf \<noteq> []" using assms by simp
  consider "rv_Term args < current_term rf" | "rv_Term args = current_term rf" | "current_term rf < rv_Term args"
    by linarith
  then show ?thesis
  proof cases
    case 1
    then show ?thesis using assms by (simp add: defs)
  next
    case 2
    then show ?thesis
      using assms getLogEntry_last [of rf] by (auto simp: defs)
  next
    case 3
    let ?rf = "persist (rf\<lparr>current_term := rv_Term args, role := Follower, voted_for := -1\<rparr>)"
    have "getLogEntry ?rf (getLogLength rf - Suc 0) = Inr (last (logs rf))"
      using getLogEntry_last [of ?rf] by simp
    then show ?thesis using 3 assms by (auto simp: defs)
  qed
qed

section \<open>AppendEntries\<close>

lemma first_conflict_index_ok:
  "i < getLogLength rf \<Longrightarrow> returns (first_conflict_index rf t i) (\<lambda>j. j \<le> i)"
proof (induction i)
  case (Suc i)
  show ?case
  proof (cases "last_included_index rf + 1 < Suc i")
    case True
    then show ?thesis
      using Suc returns_mono [OF Suc.IH, of "\<lambda>j. j \<le> Suc i"] by (auto simp: getLogEntry_in)
  qed simp
qed simp

definition accepts :: "'c Raft \<Rightarrow> 'c AppendEntriesArgs \<Rightarrow> bool" where
  "accepts rf args \<longleftrightarrow> current_term rf \<le> ae_Term args \<and>
     last_included_index rf \<le> ae_PreviousLogIndex args \<and> ae_PreviousLogIndex args < getLogLength rf \<and>
     Term (logs rf ! (ae_PreviousLogIndex args - last_included_index rf)) = ae_PreviousLogTerm args"

definition merged_logs :: "'c Raft \<Rightarrow> 'c AppendEntriesArgs \<Rightarrow> 'c LogEntry list" where
  "merged_logs rf args =
     merge_log (logs rf) (ae_PreviousLogIndex args + 1 - last_included_index rf) (ae_Entries args)"

definition AppendEntries_spec ::
  "'c Raft \<Rightarrow> 'c AppendEntriesArgs \<Rightarrow> 'c Raft \<Rightarrow> AppendEntriesReplys \<Rightarrow> 'c spawn list \<Rightarrow> bool" where
  "AppendEntries_spec rf args rf' reply sp \<longleftrightarrow>
     raft_wf rf' \<and> vote_mono rf rf' \<and> (durable rf \<longrightarrow> durable rf') \<and>
     current_term rf' = max (current_term rf) (ae_Term args) \<and>
     role rf' = (if current_term rf \<le> ae_Term args then Follower else role rf) \<and>
     (last_included_index rf', last_included_term rf', snapshot rf') =
       (last_included_index rf, last_included_term rf, snapshot rf) \<and>
     (last_applied rf', next_index rf', match_index rf', me rf', npeers rf') =
       (last_applied rf, next_index rf, match_index rf, me rf, npeers rf) \<and>
     logs rf' = (if accepts rf args then merged_logs rf args else logs rf) \<and>
     commit_index rf' =
       (if accepts rf args
        then max (commit_index rf) (min (min (ae_LeaderCommit args) (getLogLength rf' - 1))
               (ae_PreviousLogIndex args + length (ae_Entries args)))
        else commit_index rf) \<and>
     aer_Term reply \<le> current_term rf' \<and>
     (aer_Success reply \<longleftrightarrow> accepts rf args \<or>
        current_term rf \<le> ae_Term args \<and> ae_PreviousLogIndex args < last_included_index rf) \<and>
     sp = (if commit_index rf' = commit_index rf then [] else [SignalApply])"

lemma merged_logs_wf:
  assumes "raft_wf rf" and "accepts rf args"
  shows "merged_logs rf args \<noteq> []" and "Term (hd (merged_logs rf args)) = last_included_term rf"
proof -
  have "0 < ae_PreviousLogIndex args + 1 - last_included_index rf"
    "ae_PreviousLogIndex args + 1 - last_included_index rf \<le> length (logs rf)"
    using assms(2) by (auto simp: accepts_def getLogLength_def)
  from merge_log_nonempty [OF this, of "ae_Entries args"] assms(1)
  show "merged_logs rf args \<noteq> []" "Term (hd (merged_logs rf args)) = last_included_term rf"
    by (auto simp: merged_logs_def raft_wf_def)
qed

lemma ae_begin_fields [simp]:
  "logs (ae_begin rf args now) = logs rf" "last_included_index (ae_begin rf args now) = last_included_index rf"
  "last_included_term (ae_begin rf args now) = last_included_term rf" "snapshot (ae_begin rf args now) = snapshot rf"
  "commit_index (ae_begin rf args now) = commit_index rf" "last_applied (ae_begin rf args now) = last_applied rf"
  "next_index (ae_begin rf args now) = next_index rf" "match_index (ae_begin rf args now) = match_index rf"
  "me (ae_begin rf args now) = me rf" "npeers (ae_begin rf args now) = npeers rf"
  "role (ae_begin rf args now) = Follower" "getLogLength (ae_begin rf args now) = getLogLength rf"
  "current_term (ae_begin rf args now) = max (current_term rf) (ae_Term args)"
  "raft_wf (ae_begin rf args now) = raft_wf rf"
  "voted_for (ae_begin rf args now) = (if current_term rf < ae_Term args then -1 else voted_for rf)"
  by (auto simp: ae_begin_def getLogLength_def Let_def)

lemma ae_begin_durable: "durable rf \<Longrightarrow> durable (ae_begin rf args now)"
  by (auto simp: ae_begin_def)

lemma raft_wf_logs_upd:
  "raft_wf rf \<Longrightarrow> L \<noteq> [] \<Longrightarrow> Term (hd L) = last_included_term rf \<Longrightarrow> raft_wf (rf\<lparr>logs := L\<rparr>)"
  by (simp add: raft_wf_def)

lemma ae_finish_ok:
  fixes args :: "'c AppendEntriesArgs"
  assumes "raft_wf rf"
    and "rf' = fst (ae_finish rf modified args)" and "r = snd (ae_finish rf modified args)"
  shows "raft_wf rf'" "modified \<or> durable rf \<longrightarrow> durable rf'" "persistent rf' = persistent rf" "role rf' = role rf"
    "last_applied rf' = last_applied rf" "next_index rf' = next_index rf" "match_index rf' = match_index rf"
    "me rf' = me rf" "npeers rf' = npeers rf"
    "commit_index rf' = max (commit_index rf) (min (min (ae_LeaderCommit args) (getLogLength rf - 1))
      (ae_PreviousLogIndex args + length (ae_Entries args)))"
    "fst r = zeroAE\<lparr>aer_Success := True\<rparr>"
    "snd r = (if commit_index rf' = commit_index rf then [] else [SignalApply])"
proof -
  define nc where "nc = min (min (ae_LeaderCommit args) (getLogLength rf - 1))
      (ae_PreviousLogIndex args + length (ae_Entries args))"
  have eq: "ae_finish rf modified args =
      (let rf1 = (if modified then persist rf else rf) in
       if nc \<le> commit_index rf then (rf1, zeroAE\<lparr>aer_Success := True\<rparr>, [])
       else (persist (rf1\<lparr>commit_index := nc\<rparr>), zeroAE\<lparr>aer_Success := True\<rparr>, [SignalApply]))"
  proof -
    have "u64_sub (getLogLength rf) 1 = getLogLength rf - 1" using assms(1) by simp
    then show ?thesis unfolding ae_finish_def nc_def by (cases modified) (simp_all only: Let_def if_True if_False persist_fields)
  qed
  show "raft_wf rf'" "modified \<or> durable rf \<longrightarrow> durable rf'" "persistent rf' = persistent rf" "role rf' = role rf"
    "last_applied rf' = last_applied rf" "next_index rf' = next_index rf" "match_index rf' = match_index rf"
    "me rf' = me rf" "npeers rf' = npeers rf" "commit_index rf' = max (commit_index rf) nc"
    "fst r = zeroAE\<lparr>aer_Success := True\<rparr>"
    "snd r = (if commit_index rf' = commit_index rf then [] else [SignalApply])"
    using assms(1) unfolding assms(2,3) eq by (cases modified; simp add: Let_def persistent_def)+
qed

lemma AppendEntries_accepted:
  assumes "raft_wf rf" and "accepts rf args"
  shows "returns (AppendEntries rf args now) (\<lambda>(rf', reply, sp). AppendEntries_spec rf args rf' reply sp)"
proof -
  let ?rf = "ae_begin rf args now" and ?M = "merged_logs rf args"
  let ?rf1 = "?rf\<lparr>logs := ?M\<rparr>" and ?md = "?M \<noteq> logs rf"
  have acc: "current_term rf \<le> ae_Term args" "last_included_index rf \<le> ae_PreviousLogIndex args"
    "ae_PreviousLogIndex args < getLogLength rf"
    "Term (logs rf ! (ae_PreviousLogIndex args - last_included_index rf)) = ae_PreviousLogTerm args"
    using assms(2) by (auto simp: accepts_def)
  have loop: "append_loop ?rf (Suc (ae_PreviousLogIndex args)) (ae_Entries args) False = Inr (?rf1, ?md)"
    using acc by (subst append_loop_eq_merge) (auto simp: merged_logs_def)
  have entry: "getLogEntry ?rf (ae_PreviousLogIndex args) =
      Inr (logs rf ! (ae_PreviousLogIndex args - last_included_index rf))"
    using acc by (simp add: getLogEntry_in)
  have run: "AppendEntries rf args now = Inr (ae_finish ?rf1 ?md args)"
    using acc loop entry by (simp add: AppendEntries_def ae_check_def Let_def)
  have wf: "raft_wf ?rf1"
    using merged_logs_wf [OF assms] assms(1) by (simp add: raft_wf_logs_upd)
  have same: "?rf1 = ?rf" if "?M = logs rf"
    using that ae_begin_fields(1) [of rf args now] by (cases ?rf) simp
  have dur: "?md \<or> durable ?rf1" if "durable rf"
    using that same ae_begin_durable [of rf args now] by metis
  obtain rf' reply sp where res: "ae_finish ?rf1 ?md args = (rf', reply, sp)" by (metis prod_cases3)
  have parts: "rf' = fst (ae_finish ?rf1 ?md args)" "(reply, sp) = snd (ae_finish ?rf1 ?md args)"
    by (simp_all only: res fst_conv snd_conv)
  note f = ae_finish_ok [OF wf parts]
  note fin = f(1-3) f(4-9) [simplified] f(10)
    f(11) [simplified] f(12) [simplified]
  have "vote_mono rf rf'" "logs rf' = ?M" "getLogLength rf' = getLogLength ?rf1"
      "current_term rf' = max (current_term rf) (ae_Term args)"
      "last_included_index rf' = last_included_index rf" "last_included_term rf' = last_included_term rf"
      "snapshot rf' = snapshot rf"
    using fin(3) acc(1) by (simp_all add: persistent_def vote_mono_def getLogLength_def)
  then show ?thesis
    unfolding run res AppendEntries_spec_def returns_simps prod.case
    using fin dur acc(1) assms(2) by (simp add: zeroAE_def del: min_less_iff_conj max_less_iff_conj)
qed

lemma AppendEntries_rejected:
  assumes "raft_wf rf" and "\<not> accepts rf args"
  shows "returns (AppendEntries rf args now) (\<lambda>(rf', reply, sp). AppendEntries_spec rf args rf' reply sp)"
proof -
  let ?rf = "ae_begin rf args now"
  have first: "returns (first_conflict_index ?rf t (ae_PreviousLogIndex args)) (\<lambda>_. True)"
    if "ae_PreviousLogIndex args < getLogLength rf" for t
    using first_conflict_index_ok [of "ae_PreviousLogIndex args" ?rf t] that by (auto simp: returns_def)
  show ?thesis
  proof (cases "ae_Term args < current_term rf")
    case True
    then show ?thesis using assms by (simp add: AppendEntries_def AppendEntries_spec_def zeroAE_def)
  next
    case False
    have "returns (ae_check ?rf args) (\<lambda>(rf', reply, sp). rf' = ?rf \<and> aer_Term reply = 0 \<and> sp = [] \<and>
        (aer_Success reply \<longleftrightarrow> ae_PreviousLogIndex args < last_included_index rf))"
      using False assms(2) first
      by (auto simp: ae_check_def accepts_def getLogEntry_in zeroAE_def Let_def getLogLength_def)
    then have "returns (AppendEntries rf args now) (\<lambda>(rf', reply, sp). rf' = ?rf \<and> aer_Term reply = 0 \<and> sp = [] \<and>
        (aer_Success reply \<longleftrightarrow> ae_PreviousLogIndex args < last_included_index rf))"
      using False by (simp add: AppendEntries_def)
    then show ?thesis
      by (rule returns_mono)
        (use assms False ae_begin_durable [of rf args now] in \<open>auto simp: AppendEntries_spec_def vote_mono_def\<close>)
  qed
qed

lemma AppendEntries_ok:
  assumes "raft_wf rf"
  shows "returns (AppendEntries rf args now) (\<lambda>(rf', reply, sp). AppendEntries_spec rf args rf' reply sp)"
  using AppendEntries_accepted [OF assms] AppendEntries_rejected [OF assms] by blast

section \<open>The other critical sections\<close>

text \<open>What all of them keep.\<close>

definition keeps :: "'c Raft \<Rightarrow> 'c Raft \<Rightarrow> bool" where
  "keeps rf rf' \<longleftrightarrow> raft_wf rf' \<and> vote_mono rf rf' \<and> (durable rf \<longrightarrow> durable rf') \<and>
     me rf' = me rf \<and> npeers rf' = npeers rf"

lemma keeps_refl [simp]: "keeps rf rf = raft_wf rf"
  by (auto simp: keeps_def)

lemma keeps_step_down:
  "raft_wf rf \<Longrightarrow> current_term rf < t \<Longrightarrow> keeps rf (persist (rf\<lparr>current_term := t, role := r, voted_for := v\<rparr>))"
  by (simp add: keeps_def vote_mono_up)

lemma keeps_local:
  assumes "raft_wf rf" and "persistent rf' = persistent rf" and "persister rf' = persister rf"
    and "npeers rf' = npeers rf" and "me rf' = me rf"
    and "length (next_index rf') = npeers rf" and "length (match_index rf') = npeers rf"
  shows "keeps rf rf'"
  using assms durable_cong [OF assms(2-5)] by (simp add: keeps_def raft_wf_def vote_mono_def persistent_def)

lemma RequestVote_keeps: "raft_wf rf \<Longrightarrow> returns (RequestVote rf args now) (\<lambda>(rf', _). keeps rf rf')"
  by (rule returns_mono [OF RequestVote_ok]) (auto simp: RequestVote_spec_def keeps_def)

lemma AppendEntries_keeps: "raft_wf rf \<Longrightarrow> returns (AppendEntries rf args now) (\<lambda>(rf', _). keeps rf rf')"
  by (rule returns_mono [OF AppendEntries_ok]) (auto simp: AppendEntries_spec_def keeps_def)

text \<open>The log after an accepted snapshot.\<close>

definition installed_logs :: "'c Raft \<Rightarrow> InstallSnapshotArgs \<Rightarrow> 'c LogEntry list" where
  "installed_logs rf args =
     (if is_LastIncludedIndex args < getLogLength rf \<and>
         Term (logs rf ! (is_LastIncludedIndex args - last_included_index rf)) = is_LastIncludedTerm args
      then drop (is_LastIncludedIndex args - last_included_index rf) (logs rf)
      else [nilEntry\<lparr>Term := is_LastIncludedTerm args\<rparr>])"

definition installs :: "'c Raft \<Rightarrow> InstallSnapshotArgs \<Rightarrow> bool" where
  "installs rf args \<longleftrightarrow> current_term rf \<le> is_Term args \<and> last_included_index rf < is_LastIncludedIndex args"

lemma installed_logs_wf:
  "installs rf args \<Longrightarrow> installed_logs rf args \<noteq> []"
  "installs rf args \<Longrightarrow> Term (hd (installed_logs rf args)) = is_LastIncludedTerm args"
  by (auto simp: installed_logs_def installs_def getLogLength_def hd_drop_conv_nth)

lemma InstallSnapshot_eq:
  "InstallSnapshot rf args =
     Inr (if installs rf args
          then (persist (rf\<lparr>snapshot := is_Data args, last_included_index := is_LastIncludedIndex args,
                  last_included_term := is_LastIncludedTerm args, logs := installed_logs rf args,
                  commit_index := max (commit_index rf) (is_LastIncludedIndex args)\<rparr>),
                \<lparr>isr_Term = current_term rf\<rparr>, [SignalApply])
          else (rf, \<lparr>isr_Term = current_term rf\<rparr>, []))"
proof (cases "installs rf args")
  case True
  then have lt: "current_term rf \<le> is_Term args" "last_included_index rf < is_LastIncludedIndex args"
    by (auto simp: installs_def)
  let ?i = "is_LastIncludedIndex args" and ?keep = "drop (is_LastIncludedIndex args - last_included_index rf) (logs rf)"
  have set0: "xs \<noteq> [] \<Longrightarrow> Term (hd xs) = t \<Longrightarrow> xs[0 := (xs ! 0)\<lparr>Term := t\<rparr>] = xs" for xs :: "'a LogEntry list" and t
    by (cases xs) auto
  show ?thesis
  proof (cases "?i < getLogLength rf \<and> Term (logs rf ! (?i - last_included_index rf)) = is_LastIncludedTerm args")
    case keep: True
    then have "?keep \<noteq> []" "Term (hd ?keep) = is_LastIncludedTerm args"
      using lt by (auto simp: getLogLength_def hd_drop_conv_nth)
    then show ?thesis
      using keep lt True set0 [of ?keep "is_LastIncludedTerm args"]
      by (simp add: InstallSnapshot_def getLogEntry_def setLogEntry_def logicalIndexToPhysicalIndex_def
          getLogSliceCopy_def getLogSlice_def Let_def installed_logs_def getLogLength_def)
  next
    case False
    then have "installed_logs rf args = [nilEntry\<lparr>Term := is_LastIncludedTerm args\<rparr>]"
      by (auto simp: installed_logs_def)
    then show ?thesis
      using False lt True
      by (auto simp: InstallSnapshot_def getLogEntry_def setLogEntry_def logicalIndexToPhysicalIndex_def
          getLogLength_def Let_def)
  qed
next
  case False
  then show ?thesis by (auto simp: InstallSnapshot_def installs_def Let_def not_le)
qed

lemma InstallSnapshot_keeps: "raft_wf rf \<Longrightarrow> returns (InstallSnapshot rf args) (\<lambda>(rf', _). keeps rf rf')"
  by (simp add: InstallSnapshot_eq keeps_def vote_mono_def raft_wf_def installed_logs_wf)

text \<open>The service's snapshot replaces the prefix of the log it covers.\<close>

lemma Snapshot_eq:
  assumes "last_applied rf < getLogLength rf"
  shows "Snapshot rf index snap =
     Inr (if last_included_index rf < to_u64 index \<and> to_u64 index \<le> last_applied rf
          then persist (rf\<lparr>snapshot := snap, logs := drop (to_u64 index - last_included_index rf) (logs rf),
                 last_included_index := to_u64 index,
                 last_included_term := Term (logs rf ! (to_u64 index - last_included_index rf))\<rparr>)
          else rf)"
  using assms
  by (auto simp: Snapshot_def getLogSliceCopy_def getLogSlice_def logicalIndexToPhysicalIndex_def
      getLogEntry_def getLogLength_def Let_def not_le)

lemma Snapshot_keeps:
  assumes "raft_wf rf" and "last_applied rf < getLogLength rf"
  shows "returns (Snapshot rf index snap) (keeps rf)"
  using assms by (auto simp: Snapshot_eq keeps_def raft_wf_def vote_mono_def hd_drop_conv_nth getLogLength_def)

lemma Start_keeps: "raft_wf rf \<Longrightarrow> keeps rf (fst (Start rf command))"
  by (auto simp: Start_def keeps_def raft_wf_def vote_mono_def Let_def)

lemma startElection_eq:
  assumes "raft_wf rf"
  shows "startElection rf now =
     Inr (persist (rf\<lparr>current_term := current_term rf + 1, voted_for := int (me rf), last_heartbeat_time := now\<rparr>),
          \<lparr>rv_Term = current_term rf + 1, rv_Candidate_ID = int (me rf),
           rv_LastLogIndex = getLogLength rf - 1, rv_LastLogTerm = Term (last (logs rf))\<rparr>)"
  using assms getLogEntry_last [of "persist (rf\<lparr>current_term := current_term rf + 1, voted_for := int (me rf),
      last_heartbeat_time := now\<rparr>)"]
  by (simp add: startElection_def Let_def)

lemma startElection_keeps: "raft_wf rf \<Longrightarrow> returns (startElection rf now) (\<lambda>(rf', _). keeps rf rf')"
  by (simp add: startElection_eq keeps_def vote_mono_def)

lemma raft_wf_lengths: "raft_wf rf \<Longrightarrow> length (next_index rf) = npeers rf \<and> length (match_index rf) = npeers rf"
  by (simp add: raft_wf_def)

lemma keeps_step_down':
  "raft_wf rf \<Longrightarrow> current_term rf < t \<Longrightarrow> keeps rf (persist (rf\<lparr>role := r, current_term := t, voted_for := v\<rparr>))"
  by (simp add: keeps_def vote_mono_up)

lemma keeps_indices:
  "raft_wf rf \<Longrightarrow> length ns = npeers rf \<Longrightarrow> length ms = npeers rf \<Longrightarrow>
     keeps rf (rf\<lparr>role := r, next_index := ns, match_index := ms\<rparr>)"
  "raft_wf rf \<Longrightarrow> length ns = npeers rf \<Longrightarrow> length ms = npeers rf \<Longrightarrow>
     keeps rf (rf\<lparr>match_index := ms, next_index := ns\<rparr>)"
  "raft_wf rf \<Longrightarrow> length ns = npeers rf \<Longrightarrow> keeps rf (rf\<lparr>next_index := ns\<rparr>)"
  "raft_wf rf \<Longrightarrow> keeps rf (rf\<lparr>commit_index := c\<rparr>)"
  by (auto intro!: keeps_local simp: persistent_def raft_wf_lengths)

lemmas keeps_intros = keeps_step_down keeps_step_down' keeps_indices

lemma vote_reply_keeps:
  "raft_wf rf \<Longrightarrow> returns (vote_reply rf n args reply) (\<lambda>(rf', _). keeps rf rf')"
  using raft_wf_lengths [of rf] by (simp add: vote_reply_def keeps_intros)

lemma sendAppendEntries_reply_keeps:
  "raft_wf rf \<Longrightarrow> sendAppendEntries_reply rf server args reply = Inr (rf', sp) \<Longrightarrow> keeps rf rf'"
  using raft_wf_lengths [of rf]
  by (auto simp: sendAppendEntries_reply_def bindr_eq_Inr Let_def keeps_intros split: if_splits)

lemma sendInstallSnapshot_reply_keeps:
  "raft_wf rf \<Longrightarrow> sendInstallSnapshot_reply rf server args reply = Inr (rf', sp) \<Longrightarrow> keeps rf rf'"
  using raft_wf_lengths [of rf]
  by (auto simp: sendInstallSnapshot_reply_def bindr_eq_Inr keeps_intros split: if_splits)

lemma commit_keeps: "raft_wf rf \<Longrightarrow> commit rf = Inr (rf', sp) \<Longrightarrow> keeps rf rf'"
  by (auto simp: commit_def bindr_eq_Inr keeps_intros split: if_splits)

lemma ticker_follower_keeps: "raft_wf rf \<Longrightarrow> keeps rf (ticker_follower rf now)"
  by (auto simp: ticker_follower_def keeps_def vote_mono_def)

lemma applier_keeps:
  "raft_wf rf \<Longrightarrow> applier_first rf = Some (rf', ms) \<Longrightarrow> keeps rf rf'"
  "raft_wf rf \<Longrightarrow> applier_second rf = Inr (rf', ms) \<Longrightarrow> keeps rf rf'"
  by (auto simp: applier_first_def applier_second_def bindr_eq_Inr keeps_def vote_mono_def split: if_splits)

lemma restart_keeps: "raft_wf rf \<Longrightarrow> durable rf \<Longrightarrow> keeps rf (restart rf)"
  by (simp add: keeps_def raft_wf_restart vote_mono_def) (simp add: durable_def persistent_def)

section \<open>Runs of one peer\<close>

text \<open>
  A step is any critical section that does not panic, on any message, or a crash followed by
  a restart from stable storage.
\<close>

inductive peer_step :: "'c Raft \<Rightarrow> 'c Raft \<Rightarrow> bool" where
  "RequestVote rf args now = Inr (rf', reply) \<Longrightarrow> peer_step rf rf'"
| "AppendEntries rf aargs now = Inr (rf', areply, sp) \<Longrightarrow> peer_step rf rf'"
| "InstallSnapshot rf sargs = Inr (rf', sreply, sp) \<Longrightarrow> peer_step rf rf'"
| "last_applied rf < getLogLength rf \<Longrightarrow> Snapshot rf index snap = Inr rf' \<Longrightarrow> peer_step rf rf'"
| "rf' = fst (Start rf command) \<Longrightarrow> peer_step rf rf'"
| "commit rf = Inr (rf', sp) \<Longrightarrow> peer_step rf rf'"
| "sendAppendEntries_reply rf server aargs areply = Inr (rf', sp) \<Longrightarrow> peer_step rf rf'"
| "sendInstallSnapshot_reply rf server sargs sreply = Inr (rf', sp) \<Longrightarrow> peer_step rf rf'"
| "startElection rf now = Inr (rf', args) \<Longrightarrow> peer_step rf rf'"
| "vote_reply rf n args reply = Inr (rf', n', sp) \<Longrightarrow> peer_step rf rf'"
| "rf' = ticker_follower rf now \<Longrightarrow> peer_step rf rf'"
| "applier_first rf = Some (rf', ms) \<Longrightarrow> peer_step rf rf'"
| "applier_second rf = Inr (rf', ms) \<Longrightarrow> peer_step rf rf'"
| "rf' = restart rf \<Longrightarrow> peer_step rf rf'"

definition peer_run :: "'c Raft \<Rightarrow> 'c Raft \<Rightarrow> bool" where
  "peer_run = peer_step\<^sup>*\<^sup>*"

definition booted :: "nat \<Rightarrow> nat \<Rightarrow> 'c Raft" where
  "booted n i = Make n i MakePersister"

lemma peer_step_keeps:
  assumes "peer_step rf rf'" and "raft_wf rf" and "durable rf"
  shows "keeps rf rf'"
  using assms
proof cases
  case (1 args now reply)
  then show ?thesis using returnsD [OF RequestVote_keeps] assms(2) by fastforce
next
  case (2 aargs now areply sp)
  then show ?thesis using returnsD [OF AppendEntries_keeps] assms(2) by fastforce
next
  case (3 sargs sreply sp)
  then show ?thesis using returnsD [OF InstallSnapshot_keeps] assms(2) by fastforce
next
  case (4 index snap)
  then show ?thesis using returnsD [OF Snapshot_keeps] assms(2) by blast
next
  case (9 now args)
  then show ?thesis using returnsD [OF startElection_keeps] assms(2) by fastforce
next
  case (10 n args reply n' sp)
  then show ?thesis using returnsD [OF vote_reply_keeps] assms(2) by fastforce
qed (use assms(2,3) in \<open>auto intro: Start_keeps commit_keeps sendAppendEntries_reply_keeps
  sendInstallSnapshot_reply_keeps ticker_follower_keeps applier_keeps restart_keeps\<close>)

lemma keeps_trans: "keeps a b \<Longrightarrow> keeps b c \<Longrightarrow> keeps a c"
  by (auto simp: keeps_def intro: vote_mono_trans)

lemma peer_run_keeps:
  assumes "peer_run rf rf'" and "raft_wf rf" and "durable rf"
  shows "keeps rf rf'"
  using assms(1) unfolding peer_run_def
proof (induction rule: rtranclp_induct)
  case base
  then show ?case using assms(2) by simp
next
  case (step y z)
  then have "keeps y z" using assms(3) by (intro peer_step_keeps) (auto simp: keeps_def)
  with step.IH show ?case by (rule keeps_trans)
qed

lemma booted_ok: "i < n \<Longrightarrow> raft_wf (booted n i)" "durable (booted n i)"
  by (simp_all add: booted_def Make_def readPersist_def raft_wf_def nilEntry_def durable_def restart_def Let_def)

section \<open>The commit rule\<close>

lemma sort_descending_filter: "length (filter P (sort_descending xs)) = length (filter P xs)"
proof -
  have "mset (filter P (sort_descending xs)) = mset (filter P xs)" by (simp add: sort_descending_def)
  then show ?thesis by (rule mset_eq_length)
qed

lemma sort_descending_nth:
  assumes "i \<le> j" and "j < length xs"
  shows "sort_descending xs ! j \<le> sort_descending xs ! i"
  using assms unfolding sort_descending_def
  by (simp add: rev_nth) (rule sorted_nth_mono; simp)

text \<open>The element at position \<open>k\<close> is the greatest that more than \<open>k\<close> elements reach.\<close>

lemma sort_descending_reached:
  assumes "k < length xs"
  shows "k < length (filter (\<lambda>x. sort_descending xs ! k \<le> x) xs)"
proof -
  let ?ys = "sort_descending xs"
  have len: "length ?ys = length xs" by (simp add: sort_descending_def)
  have "filter (\<lambda>x. ?ys ! k \<le> x) (take (Suc k) ?ys) = take (Suc k) ?ys"
    using assms sort_descending_nth [of _ k xs] len by (intro filter_True) (auto simp: in_set_conv_nth)
  then have "Suc k \<le> length (filter (\<lambda>x. ?ys ! k \<le> x) (take (Suc k) ?ys @ drop (Suc k) ?ys))"
    using assms len by (simp del: append_take_drop_id)
  then show ?thesis using sort_descending_filter [of "\<lambda>x. ?ys ! k \<le> x" xs] by simp
qed

lemma sort_descending_greatest:
  assumes "k < length (filter (\<lambda>x. m \<le> x) xs)"
  shows "m \<le> sort_descending xs ! k"
proof (rule ccontr)
  let ?ys = "sort_descending xs"
  assume less: "\<not> m \<le> ?ys ! k"
  have len: "length ?ys = length xs" by (simp add: sort_descending_def)
  have "filter (\<lambda>x. m \<le> x) (drop k ?ys) = []"
  proof (rule filter_False, rule ballI)
    fix x assume "x \<in> set (drop k ?ys)"
    then obtain j where "x = ?ys ! (k + j)" "k + j < length xs"
      using len by (auto simp: in_set_conv_nth)
    then show "\<not> m \<le> x" using less sort_descending_nth [of k "k + j" xs] by simp
  qed
  moreover have "length (filter (\<lambda>x. m \<le> x) (take k ?ys @ drop k ?ys)) = length (filter (\<lambda>x. m \<le> x) xs)"
    using sort_descending_filter by simp
  ultimately have "length (filter (\<lambda>x. m \<le> x) xs) = length (filter (\<lambda>x. m \<le> x) (take k ?ys))"
    by (simp del: append_take_drop_id)
  also have "\<dots> \<le> k" using length_filter_le [of "\<lambda>x. m \<le> x" "take k ?ys"] by simp
  finally show False using assms by simp
qed

text \<open>The peers that count as having acknowledged the log up to \<open>m\<close>, itself included.\<close>

definition holders :: "'c Raft \<Rightarrow> nat \<Rightarrow> nat set" where
  "holders rf m = {s. s < npeers rf \<and>
     (if s = me rf then m < getLogLength rf else m \<le> match_index rf ! s)}"

lemma holders_card:
  assumes "raft_wf rf"
  shows "card (holders rf m) = length (filter (\<lambda>x. m \<le> x) ((match_index rf)[me rf := getLogLength rf - 1]))"
proof -
  have "0 < getLogLength rf" using assms getLogLength_pos [of rf] by simp
  then have "holders rf m = {s. s < length ((match_index rf)[me rf := getLogLength rf - 1]) \<and>
      m \<le> (match_index rf)[me rf := getLogLength rf - 1] ! s}"
    using assms by (auto simp: holders_def raft_wf_def nth_list_update)
  then show ?thesis unfolding length_filter_conv_card by simp
qed

lemma commit_majority:
  assumes "raft_wf rf" and "commit rf = Inr (rf', sp)"
  shows "(commit_index rf' \<noteq> commit_index rf \<longrightarrow>
            role rf = Leader \<and> commit_index rf < commit_index rf' \<and>
            npeers rf div 2 < card (holders rf (commit_index rf')) \<and>
            (\<exists>e. getLogEntry rf (commit_index rf') = Inr e \<and> Term e = current_term rf) \<and>
            (\<forall>m. npeers rf div 2 < card (holders rf m) \<longrightarrow> m \<le> commit_index rf'))"
proof -
  let ?ms = "(match_index rf)[me rf := getLogLength rf - 1]"
  have k: "npeers rf div 2 < length ?ms" using assms(1) by (auto simp: raft_wf_def)
  have "npeers rf div 2 < card (holders rf (sort_descending ?ms ! (npeers rf div 2)))"
    unfolding holders_card [OF assms(1)] by (rule sort_descending_reached [OF k])
  moreover have "m \<le> sort_descending ?ms ! (npeers rf div 2)" if "npeers rf div 2 < card (holders rf m)" for m
    using that unfolding holders_card [OF assms(1)] by (rule sort_descending_greatest)
  ultimately show ?thesis
    using assms by (auto simp: commit_def bindr_eq_Inr split: if_splits)
qed

section \<open>The applier\<close>

text \<open>
  The service receives the log in order: each command has the index after the previous one,
  and a snapshot moves forward. The result is the index the service has reached.
\<close>

fun in_order :: "nat \<Rightarrow> 'c ApplyMsg list \<Rightarrow> nat option" where
  "in_order la [] = Some la"
| "in_order la (m # ms) =
     (if CommandValid m then (if CommandIndex m = la + 1 then in_order (la + 1) ms else None)
      else if SnapshotValid m \<and> la < SnapshotIndex m then in_order (SnapshotIndex m) ms else None)"

lemma in_order_append: "in_order la (xs @ ys) = Option.bind (in_order la xs) (\<lambda>l. in_order l ys)"
  by (induction xs arbitrary: la) auto

lemma command_msgs_snoc:
  "command_msgs start (es @ [e]) = command_msgs start es @
     [\<lparr>CommandValid = True, MsgCommand = Command e, CommandIndex = start + length es,
       SnapshotValid = False, MsgSnapshot = [], SnapshotTerm = 0, SnapshotIndex = 0\<rparr>]"
  by (simp add: command_msgs_def)

lemma command_msgs_in_order: "in_order la (command_msgs (la + 1) es) = Some (la + length es)"
proof (induction es rule: rev_induct)
  case Nil
  then show ?case by (simp add: command_msgs_def)
next
  case (snoc e es)
  then show ?case by (simp only: command_msgs_snoc in_order_append) simp
qed

lemma applier_first_in_order:
  "applier_first rf = Some (rf', ms) \<Longrightarrow> in_order (last_applied rf) ms = Some (last_applied rf')"
  by (auto simp: applier_first_def split: if_splits)

lemma getLogSlice_Inr:
  assumes "getLogSlice rf a b = Inr es"
  shows "last_included_index rf \<le> a" "a \<le> b" "b \<le> getLogLength rf" "length es = b - a"
    "\<And>k. k < b - a \<Longrightarrow> getLogEntry rf (a + k) = Inr (es ! k)"
proof -
  have le: "last_included_index rf \<le> a" "b \<le> getLogLength rf" "last_included_index rf \<le> b"
      "a - last_included_index rf \<le> b - last_included_index rf"
      "es = take (b - last_included_index rf - (a - last_included_index rf)) (drop (a - last_included_index rf) (logs rf))"
    using assms
    by (auto simp: getLogSlice_def bindr_eq_Inr logicalIndexToPhysicalIndex_def slice_def split: if_splits)
  show "last_included_index rf \<le> a" "a \<le> b" "b \<le> getLogLength rf" "length es = b - a"
    using le by (auto simp: getLogLength_def)
  show "getLogEntry rf (a + k) = Inr (es ! k)" if "k < b - a" for k
    using le that by (simp add: getLogEntry_in) (simp add: getLogLength_def)
qed

lemma command_msgs_nth: "m \<in> set (command_msgs start es) \<Longrightarrow>
    \<exists>k < length es. CommandIndex m = start + k \<and> MsgCommand m = Command (es ! k)"
  by (auto simp: command_msgs_def set_zip)

lemma applier_second_spec:
  assumes "applier_second rf = Inr (rf', ms)"
  shows "in_order (last_applied rf) ms = Some (last_applied rf')"
    and "last_applied rf' = commit_index rf"
    and "m \<in> set ms \<Longrightarrow> \<exists>e. getLogEntry rf (CommandIndex m) = Inr e \<and> MsgCommand m = Command e"
proof -
  have "in_order (last_applied rf) ms = Some (last_applied rf') \<and> last_applied rf' = commit_index rf \<and>
      (m \<in> set ms \<longrightarrow> (\<exists>e. getLogEntry rf (CommandIndex m) = Inr e \<and> MsgCommand m = Command e))"
  proof (cases "last_applied rf = commit_index rf")
    case True
    then show ?thesis using assms by (auto simp: applier_second_def)
  next
    case False
    then obtain es where es: "getLogSlice rf (last_applied rf + 1) (commit_index rf + 1) = Inr es"
        "rf' = rf\<lparr>last_applied := commit_index rf\<rparr>" "ms = command_msgs (last_applied rf + 1) es"
      using assms by (auto simp: applier_second_def getLogSliceCopy_def bindr_eq_Inr)
    note sl = getLogSlice_Inr [OF es(1)]
    have "in_order (last_applied rf) ms = Some (commit_index rf)"
      unfolding es(3) command_msgs_in_order using sl(2,4) by simp
    moreover have "\<exists>e. getLogEntry rf (CommandIndex m) = Inr e \<and> MsgCommand m = Command e" if "m \<in> set ms"
    proof -
      from that obtain k where "k < length es" "CommandIndex m = last_applied rf + 1 + k" "MsgCommand m = Command (es ! k)"
        using command_msgs_nth [of m "last_applied rf + 1" es] es(3) by auto
      then show ?thesis using sl(4) sl(5) [of k] by simp
    qed
    ultimately show ?thesis using es(2) by simp
  qed
  then show "in_order (last_applied rf) ms = Some (last_applied rf')" "last_applied rf' = commit_index rf"
    "m \<in> set ms \<Longrightarrow> \<exists>e. getLogEntry rf (CommandIndex m) = Inr e \<and> MsgCommand m = Command e" by auto
qed

section \<open>Properties of a peer\<close>

lemma run_ok:
  assumes "i < n" and "peer_run (booted n i) rf"
  shows "raft_wf rf" "durable rf" "npeers rf = n" "me rf = i"
  using peer_run_keeps [OF assms(2) booted_ok(1) [OF assms(1)] booted_ok(2)] booted_ok(2) [of n i]
  by (auto simp: keeps_def booted_def Make_def readPersist_def Let_def)

section \<open>Machine integers\<close>

text \<open>
  The length of the log as raft.go computes it, in \<^verbatim>\<open>uint64\<close>, and the states and messages in which no
  index or term leaves that type.
\<close>

definition machine_length :: "'c Raft \<Rightarrow> 64 word" where
  "machine_length rf = of_nat (last_included_index rf) + of_nat (length (logs rf))"

definition raft_fits :: "'c Raft \<Rightarrow> bool" where
  "raft_fits rf \<longleftrightarrow> getLogLength rf < 2 ^ 64 \<and> current_term rf < 2 ^ 64 \<and>
     commit_index rf < 2 ^ 64 \<and> last_applied rf < 2 ^ 64 \<and>
     (\<forall>x \<in> set (next_index rf) \<union> set (match_index rf). x < 2 ^ 64)"

definition append_fits :: "'c AppendEntriesArgs \<Rightarrow> bool" where
  "append_fits args \<longleftrightarrow> ae_Term args < 2 ^ 64 \<and> ae_LeaderCommit args < 2 ^ 64 \<and>
     ae_PreviousLogIndex args + 1 + length (ae_Entries args) < 2 ^ 64"

definition snapshot_fits :: "InstallSnapshotArgs \<Rightarrow> bool" where
  "snapshot_fits args \<longleftrightarrow> is_Term args < 2 ^ 64 \<and> is_LastIncludedIndex args + 1 < 2 ^ 64"

text \<open>A run in which every state fits.\<close>

definition fitting_run :: "'c Raft \<Rightarrow> 'c Raft \<Rightarrow> bool" where
  "fitting_run = (\<lambda>a b. peer_step a b \<and> raft_fits b)\<^sup>*\<^sup>*"

lemma fitting_run_run: "fitting_run a b \<Longrightarrow> peer_run a b"
  unfolding fitting_run_def peer_run_def by (erule rtranclp_mono [THEN predicate2D, rotated]) blast

lemma booted_fits: "raft_fits (booted n i)"
  by (auto simp: booted_def Make_def readPersist_def Let_def MakePersister_def ReadRaftState_def raft_fits_def getLogLength_def)

lemma fitting_run_fits: "fitting_run (booted n i) rf \<Longrightarrow> raft_fits rf"
  unfolding fitting_run_def by (induction rule: rtranclp_induct) (simp_all add: booted_fits)

lemma machine_length_fits: "raft_fits rf \<Longrightarrow> unat (machine_length rf) = getLogLength rf"
  unfolding machine_length_def of_nat_add [symmetric]
  by (simp only: raft_fits_def getLogLength_def unsigned_of_nat) (simp add: take_bit_nat_eq_self)

lemma raft_fits_cong:
  assumes "raft_fits rf" and "last_included_index rf' = last_included_index rf" and "length (logs rf') = length (logs rf)"
    and "current_term rf' < 2 ^ 64" and "commit_index rf' = commit_index rf" and "last_applied rf' = last_applied rf"
    and "set (next_index rf') \<subseteq> insert (getLogLength rf) (set (next_index rf))"
    and "set (match_index rf') \<subseteq> insert 0 (set (match_index rf))"
  shows "raft_fits rf'"
  using assms by (auto simp: raft_fits_def getLogLength_def)

lemma RequestVote_fits:
  assumes "raft_wf rf" and "raft_fits rf" and "rv_Term args < 2 ^ 64"
  shows "returns (RequestVote rf args now) (\<lambda>(rf', _). raft_wf rf' \<and> raft_fits rf')"
proof (rule returns_mono [OF RequestVote_ok [OF assms(1)]], clarify)
  fix rf' reply
  assume *: "RequestVote_spec rf args rf' reply"
  have "current_term rf < 2 ^ 64" using assms(2) by (simp add: raft_fits_def)
  with * assms show "raft_wf rf' \<and> raft_fits rf'"
    by (auto simp: RequestVote_spec_def intro!: raft_fits_cong [OF assms(2)])
qed

lemma merged_length:
  assumes "accepts rf args"
  shows "last_included_index rf + length (merged_logs rf args) \<le>
    max (getLogLength rf) (ae_PreviousLogIndex args + 1 + length (ae_Entries args))"
proof -
  let ?p = "ae_PreviousLogIndex args + 1 - last_included_index rf"
  have p: "?p \<le> length (logs rf)" "last_included_index rf + ?p = ae_PreviousLogIndex args + 1"
    using assms by (auto simp: accepts_def getLogLength_def)
  show ?thesis
    using merge_log_bound [OF p(1), of "ae_Entries args"] p(2) by (auto simp: merged_logs_def getLogLength_def max_def split: if_splits)
qed

lemma AppendEntries_fits:
  assumes "raft_wf rf" and "raft_fits rf" and "append_fits args"
  shows "returns (AppendEntries rf args now) (\<lambda>(rf', _). raft_wf rf' \<and> raft_fits rf')"
proof (rule returns_mono [OF AppendEntries_ok [OF assms(1)]], clarify)
  fix rf' reply sp
  assume *: "AppendEntries_spec rf args rf' reply sp"
  have len: "getLogLength rf' < 2 ^ 64"
    using * assms(2,3) merged_length [of rf args]
    by (cases "accepts rf args") (auto simp: AppendEntries_spec_def getLogLength_def raft_fits_def append_fits_def)
  have "commit_index rf' \<le> max (commit_index rf) (ae_LeaderCommit args)"
    using * unfolding AppendEntries_spec_def by (auto simp: min_le_iff_disj le_max_iff_disj split: if_splits)
  moreover have "max (commit_index rf) (ae_LeaderCommit args) < 2 ^ 64"
    using assms(2,3) by (simp add: raft_fits_def append_fits_def)
  ultimately have "commit_index rf' < 2 ^ 64" by (rule le_less_trans)
  then show "raft_wf rf' \<and> raft_fits rf'"
    using * len assms(2,3) by (simp add: AppendEntries_spec_def raft_fits_def append_fits_def)
qed

lemma InstallSnapshot_fits:
  assumes "raft_wf rf" and "raft_fits rf" and "snapshot_fits args"
  shows "returns (InstallSnapshot rf args) (\<lambda>(rf', _). raft_wf rf' \<and> raft_fits rf')"
proof -
  have "is_LastIncludedIndex args + length (installed_logs rf args) < 2 ^ 64" if "installs rf args"
    using that assms(2,3) by (auto simp: installed_logs_def installs_def raft_fits_def snapshot_fits_def getLogLength_def)
  moreover have "returns (InstallSnapshot rf args) (\<lambda>(rf', _). raft_wf rf')"
    by (rule returns_mono [OF InstallSnapshot_keeps [OF assms(1)]]) (auto simp: keeps_def)
  ultimately show ?thesis
    using assms(2,3) by (auto simp: InstallSnapshot_eq raft_fits_def snapshot_fits_def getLogLength_def)
qed

lemma startElection_fits:
  assumes "raft_wf rf" and "raft_fits rf" and "current_term rf + 1 < 2 ^ 64"
  shows "returns (startElection rf now) (\<lambda>(rf', _). raft_wf rf' \<and> raft_fits rf')"
  using assms by (simp add: startElection_eq raft_fits_def)

lemma raft_fits_step_down:
  "raft_fits rf \<Longrightarrow> t < 2 ^ 64 \<Longrightarrow> raft_fits (persist (rf\<lparr>current_term := t, role := r, voted_for := v\<rparr>))"
  by (simp add: raft_fits_def)

lemma raft_fits_lead:
  assumes "raft_fits rf"
  shows "raft_fits (rf\<lparr>role := r, next_index := replicate m (getLogLength rf), match_index := replicate m 0\<rparr>)"
proof -
  have "set (replicate m x) \<subseteq> insert x A" for x :: nat and A by auto
  moreover have "current_term rf < 2 ^ 64" using assms by (simp add: raft_fits_def)
  ultimately show ?thesis by (intro raft_fits_cong [OF assms]) simp_all
qed

lemma vote_reply_fits:
  assumes "raft_wf rf" and "raft_fits rf" and "rvr_Term reply < 2 ^ 64"
  shows "returns (vote_reply rf k args reply) (\<lambda>(rf', _). raft_wf rf' \<and> raft_fits rf')"
proof -
  have "returns (vote_reply rf k args reply) (\<lambda>(rf', _). raft_fits rf')"
    using assms raft_wf_lengths [OF assms(1)] by (simp add: vote_reply_def raft_fits_step_down raft_fits_lead)
  with vote_reply_keeps [OF assms(1), of k args reply] show ?thesis by (auto simp: returns_def keeps_def split: sum.splits)
qed

text \<open>
  C17. Whatever a peer has gone through since it was first started, crashes included, no message
  makes a handler panic, as long as indices and terms stay below \<open>2 ^ 64\<close> in the states of the
  run and in the message: \<open>RequestVote\<close>, \<open>AppendEntries\<close>, \<open>InstallSnapshot\<close>, the start
  of an election and the handling of a vote return, the state they leave is well formed and
  within the bound again, and the log's length in \<^verbatim>\<open>uint64\<close> is the number that the model
  computes with. Beyond the bound nothing is claimed: the code's length wraps there.
\<close>

theorem handlers_never_panic:
  assumes "i < n" and "fitting_run (booted n i) rf"
    and "rv_Term args < 2 ^ 64" and "append_fits aargs" and "snapshot_fits sargs"
    and "current_term rf + 1 < 2 ^ 64" and "rvr_Term reply < 2 ^ 64"
  shows "unat (machine_length rf) = getLogLength rf \<and>
    returns (RequestVote rf args now) (\<lambda>(rf', _). raft_wf rf' \<and> raft_fits rf' \<and> unat (machine_length rf') = getLogLength rf') \<and>
    returns (AppendEntries rf aargs now) (\<lambda>(rf', _). raft_wf rf' \<and> raft_fits rf' \<and> unat (machine_length rf') = getLogLength rf') \<and>
    returns (InstallSnapshot rf sargs) (\<lambda>(rf', _). raft_wf rf' \<and> raft_fits rf' \<and> unat (machine_length rf') = getLogLength rf') \<and>
    returns (startElection rf now) (\<lambda>(rf', _). raft_wf rf' \<and> raft_fits rf' \<and> unat (machine_length rf') = getLogLength rf') \<and>
    returns (vote_reply rf k args reply) (\<lambda>(rf', _). raft_wf rf' \<and> raft_fits rf' \<and> unat (machine_length rf') = getLogLength rf')"
proof -
  note wf = run_ok(1) [OF assms(1) fitting_run_run [OF assms(2)]] and fits = fitting_run_fits [OF assms(2)]
  show ?thesis
    by (intro conjI machine_length_fits [OF fits] returns_mono [OF RequestVote_fits [OF wf fits assms(3)]]
        returns_mono [OF AppendEntries_fits [OF wf fits assms(4)]] returns_mono [OF InstallSnapshot_fits [OF wf fits assms(5)]]
        returns_mono [OF startElection_fits [OF wf fits assms(6)]] returns_mono [OF vote_reply_fits [OF wf fits assms(7)]])
      (auto simp: machine_length_fits)
qed

definition booted0 :: "nat Raft" where "booted0 = booted 3 0"

lemma booted0_run: "peer_run (booted 3 0) booted0"
  by (simp add: booted0_def peer_run_def)

theorem handlers_never_panic_witness:
  "returns (AppendEntries booted0 \<lparr>ae_Term = 7, ae_LeaderID = 2, ae_PreviousLogIndex = 5, ae_PreviousLogTerm = 3,
       ae_Entries = [nilEntry], ae_LeaderCommit = 9\<rparr> 5)
     (\<lambda>(rf', _). raft_wf rf' \<and> raft_fits rf' \<and> unat (machine_length rf') = getLogLength rf')"
proof -
  have "fitting_run (booted 3 0) booted0" by (simp add: fitting_run_def booted0_def)
  moreover have "current_term booted0 + 1 < 2 ^ 64"
    by (simp add: booted0_def booted_def Make_def readPersist_def Let_def MakePersister_def ReadRaftState_def)
  ultimately show ?thesis
    using handlers_never_panic [of 0 3 booted0 "\<lparr>rv_Term = 7, rv_Candidate_ID = 2, rv_LastLogIndex = 0, rv_LastLogTerm = 0\<rparr>"
        "\<lparr>ae_Term = 7, ae_LeaderID = 2, ae_PreviousLogIndex = 5, ae_PreviousLogTerm = 3, ae_Entries = [nilEntry], ae_LeaderCommit = 9\<rparr>"
        "\<lparr>is_Term = 1, is_LeaderID = 1, is_LastIncludedIndex = 4, is_LastIncludedTerm = 1, is_Data = []\<rparr>" zeroRV 5 0]
    by (simp add: append_fits_def snapshot_fits_def zeroRV_def)
qed

text \<open>
  Terms never go back and a peer casts at most one vote per term: once it has voted, every later
  state of the same term has the same vote, whatever messages arrive and however often the peer
  crashes and restarts in between.
\<close>

theorem one_vote_per_term:
  assumes "i < n" and "peer_run (booted n i) rf" and "peer_run rf rf'"
  shows "current_term rf \<le> current_term rf' \<and>
    (current_term rf' = current_term rf \<and> voted_for rf \<noteq> -1 \<longrightarrow> voted_for rf' = voted_for rf)"
  using peer_run_keeps [OF assms(3) run_ok(1,2) [OF assms(1,2)]] by (auto simp: keeps_def vote_mono_def)

theorem one_vote_per_term_witness:
  "let rf = fst (projr (startElection booted0 0)) in
   voted_for rf = 0 \<and> voted_for (restart rf) = 0 \<and> current_term (restart rf) = 1"
proof -
  let ?rf = "fst (projr (startElection booted0 0))"
  have "startElection booted0 0 = Inr (?rf, snd (projr (startElection booted0 0)))"
    by (simp add: booted0_def startElection_eq booted_ok)
  then have run: "peer_run (booted 3 0) ?rf" "peer_run ?rf (restart ?rf)"
    unfolding peer_run_def booted0_def [symmetric] by (blast intro: peer_step.intros)+
  have v: "voted_for ?rf = 0" "current_term ?rf = 1" "current_term (restart ?rf) = 1"
    by (simp_all add: startElection_eq booted_ok booted0_def) (simp_all add: booted_def Make_def readPersist_def Let_def)
  then show ?thesis
    using one_vote_per_term [OF _ run] by (simp add: Let_def)
qed

text \<open>
  C18. Stable storage is never behind: a crash between any two critical sections loses nothing of the
  term, the vote, the log or the snapshot, because \<open>Make\<close> reads back from the persister exactly
  what the peer had.
\<close>

theorem crash_recovers:
  assumes "i < n" and "peer_run (booted n i) rf"
  shows "persistent (Make n i (Persister_Checkpoint (persister rf))) = persistent rf"
  using run_ok [OF assms] by (simp add: durable_def restart_def)

theorem crash_recovers_witness:
  "persistent (Make 3 0 (Persister_Checkpoint (persister (ticker_follower booted0 500)))) =
     persistent (ticker_follower booted0 500)"
  using booted0_run
  by (intro crash_recovers) (auto simp: peer_run_def booted0_def intro!: r_into_rtranclp peer_step.intros(11))

text \<open>
  A vote is granted exactly when the request is not of an old term, the voter has not voted for
  another candidate in that term, and (unless it repeats a vote already given) the candidate's
  log is at least as up to date as the voter's, by last term and then by last index. A granted
  vote is recorded, and nothing of the log changes.
\<close>

theorem vote_granted_iff:
  assumes "i < n" and "peer_run (booted n i) rf"
  shows "returns (RequestVote rf args now) (\<lambda>(rf', reply).
     (rvr_VoteGranted reply \<longleftrightarrow> current_term rf \<le> rv_Term args \<and>
        (if current_term rf < rv_Term args \<or> voted_for rf = -1
         then rv_Candidate_ID args = -1 \<or> up_to_date args rf
         else voted_for rf = rv_Candidate_ID args)) \<and>
     (rvr_VoteGranted reply \<longrightarrow> voted_for rf' = rv_Candidate_ID args \<and> current_term rf' = rv_Term args) \<and>
     logs rf' = logs rf \<and> commit_index rf' = commit_index rf)"
  by (rule returns_mono [OF RequestVote_ok [OF run_ok(1) [OF assms]]])
    (auto simp: RequestVote_spec_def Let_def split: if_splits)

theorem vote_granted_iff_witness:
  "returns (RequestVote booted0 \<lparr>rv_Term = 1, rv_Candidate_ID = 2, rv_LastLogIndex = 0, rv_LastLogTerm = 0\<rparr> 9)
     (\<lambda>(rf', reply). rvr_VoteGranted reply \<and> voted_for rf' = 2)"
  by (rule returns_mono [OF vote_granted_iff [OF _ booted0_run]])
    (auto simp: booted0_def booted_def Make_def readPersist_def Let_def up_to_date_def getLogLength_def nilEntry_def)

text \<open>
  C19. \<open>AppendEntries\<close> is the merge of the Raft paper: it accepts exactly when the request is not
  of an old term and the log has an entry of the previous term at the previous index. Then the
  imperative loop leaves the reference merge of the two logs, in which everything up to the
  previous index is untouched and the entries sent follow with their terms; the commit index
  becomes the leader's, but no more than the last entry and the last entry sent, and never less
  than it was; and the answer is success. Otherwise the log and the commit index stay, and
  the answer is success exactly for a request that is not of an old term and starts below the
  snapshot. In both cases the peer adopts a newer term and becomes a follower unless the
  request is of an old term, and the snapshot and what was applied stay.
\<close>

theorem append_entries_merges:
  assumes "i < n" and "peer_run (booted n i) rf"
  shows "returns (AppendEntries rf args now) (\<lambda>(rf', reply, sp).
     (if accepts rf args
      then logs rf' = merge_log (logs rf) (ae_PreviousLogIndex args + 1 - last_included_index rf) (ae_Entries args) \<and>
           take (ae_PreviousLogIndex args + 1 - last_included_index rf) (logs rf') =
             take (ae_PreviousLogIndex args + 1 - last_included_index rf) (logs rf) \<and>
           map Term (take (length (ae_Entries args)) (drop (ae_PreviousLogIndex args + 1 - last_included_index rf) (logs rf'))) =
             map Term (ae_Entries args) \<and>
           commit_index rf' = max (commit_index rf) (min (min (ae_LeaderCommit args) (getLogLength rf' - 1))
             (ae_PreviousLogIndex args + length (ae_Entries args))) \<and>
           aer_Success reply
      else logs rf' = logs rf \<and> commit_index rf' = commit_index rf \<and>
           (aer_Success reply \<longleftrightarrow>
              current_term rf \<le> ae_Term args \<and> ae_PreviousLogIndex args < last_included_index rf)) \<and>
     current_term rf' = max (current_term rf) (ae_Term args) \<and>
     role rf' = (if current_term rf \<le> ae_Term args then Follower else role rf) \<and>
     last_included_index rf' = last_included_index rf \<and> last_included_term rf' = last_included_term rf \<and>
     snapshot rf' = snapshot rf \<and> last_applied rf' = last_applied rf)"
proof -
  have "ae_PreviousLogIndex args + 1 - last_included_index rf \<le> length (logs rf)" if "accepts rf args"
    using that by (auto simp: accepts_def getLogLength_def)
  note facts = merge_log_prefix [OF this] merge_log_terms [OF this]
  show ?thesis
    by (rule returns_mono [OF AppendEntries_ok [OF run_ok(1) [OF assms]]])
      (use facts in \<open>auto simp: AppendEntries_spec_def merged_logs_def simp del: min_less_iff_conj max_less_iff_conj\<close>)
qed

theorem append_entries_merges_witness:
  "returns (AppendEntries booted0 \<lparr>ae_Term = 1, ae_LeaderID = 1, ae_PreviousLogIndex = 0, ae_PreviousLogTerm = 0,
       ae_Entries = [\<lparr>Command = Some 5, Term = 1\<rparr>], ae_LeaderCommit = 0\<rparr> 9)
     (\<lambda>(rf', reply, sp). logs rf' = [nilEntry, \<lparr>Command = Some 5, Term = 1\<rparr>] \<and> aer_Success reply)"
  by (rule returns_mono [OF append_entries_merges [OF _ booted0_run]])
    (auto simp: booted0_def booted_def Make_def readPersist_def Let_def accepts_def getLogLength_def nilEntry_def)

text \<open>
  C20. The commit rule: when the leader's commit index moves, it moves forward to an entry of the
  leader's own term that more than half of the peers have acknowledged, where a peer other than
  the leader counts by its entry in \<open>match_index\<close> and the leader by its own log; and it is
  the greatest index that more than half have acknowledged.
\<close>

theorem commit_needs_majority:
  assumes "i < n" and "peer_run (booted n i) rf" and "commit rf = Inr (rf', sp)"
    and "commit_index rf' \<noteq> commit_index rf"
  shows "role rf = Leader \<and> commit_index rf < commit_index rf' \<and>
    n div 2 < card (holders rf (commit_index rf')) \<and>
    (\<exists>e. getLogEntry rf (commit_index rf') = Inr e \<and> Term e = current_term rf) \<and>
    (\<forall>m. n div 2 < card (holders rf m) \<longrightarrow> m \<le> commit_index rf')"
  using commit_majority [OF run_ok(1) [OF assms(1,2)] assms(3)] assms(4) run_ok(3) [OF assms(1,2)] by simp

text \<open>A peer that wins the first election, starts a command and hears that one follower has it.\<close>

definition demo_args :: RequestVoteArgs where
  "demo_args = \<lparr>rv_Term = 1, rv_Candidate_ID = 0, rv_LastLogIndex = 0, rv_LastLogTerm = 0\<rparr>"

definition demo_entries :: "nat AppendEntriesArgs" where
  "demo_entries = \<lparr>ae_Term = 1, ae_LeaderID = 0, ae_PreviousLogIndex = 0, ae_PreviousLogTerm = 0,
     ae_Entries = [\<lparr>Command = Some 7, Term = 1\<rparr>], ae_LeaderCommit = 0\<rparr>"

definition demo_candidate :: "nat Raft" where
  "demo_candidate = fst (projr (startElection (ticker_follower booted0 500) 500))"

definition demo_elected :: "nat Raft" where
  "demo_elected = fst (projr (vote_reply demo_candidate 1 demo_args \<lparr>rvr_Term = 1, rvr_VoteGranted = True\<rparr>))"

definition demo_leader :: "nat Raft" where
  "demo_leader = fst (projr (sendAppendEntries_reply (fst (Start demo_elected 7)) 1 demo_entries
     (zeroAE\<lparr>aer_Success := True\<rparr>)))"

definition demo_commit :: "nat Raft" where
  "demo_commit = fst (projr (commit demo_leader))"

lemma demo_runs:
  "peer_run (booted 3 0) demo_candidate" "peer_run (booted 3 0) demo_leader" "peer_run (booted 3 0) demo_commit"
  "commit demo_leader = Inr (demo_commit, [SignalApply])"
proof -
  have s1: "peer_step booted0 (ticker_follower booted0 500)" by (rule peer_step.intros(11)) simp
  have "startElection (ticker_follower booted0 500) 500 = Inr (demo_candidate, demo_args)" by code_simp
  then have s2: "peer_step (ticker_follower booted0 500) demo_candidate" by (rule peer_step.intros)
  have "vote_reply demo_candidate 1 demo_args \<lparr>rvr_Term = 1, rvr_VoteGranted = True\<rparr> =
      Inr (demo_elected, 2, [GoBroadcastHeartbeats, ElectionDone])" by code_simp
  then have s3: "peer_step demo_candidate demo_elected" by (rule peer_step.intros)
  have s4: "peer_step demo_elected (fst (Start demo_elected 7))" by (rule peer_step.intros(5)) simp
  have "sendAppendEntries_reply (fst (Start demo_elected 7)) 1 demo_entries (zeroAE\<lparr>aer_Success := True\<rparr>) =
      Inr (demo_leader, [GoCommit])" by code_simp
  then have s5: "peer_step (fst (Start demo_elected 7)) demo_leader" by (rule peer_step.intros)
  show c: "commit demo_leader = Inr (demo_commit, [SignalApply])" by code_simp
  then have s6: "peer_step demo_leader demo_commit" by (rule peer_step.intros)
  show "peer_run (booted 3 0) demo_candidate" "peer_run (booted 3 0) demo_leader" "peer_run (booted 3 0) demo_commit"
    using s1 s2 s3 s4 s5 s6 unfolding peer_run_def booted0_def [symmetric]
    by (meson converse_rtranclp_into_rtranclp rtranclp.rtrancl_refl)+
qed

theorem commit_needs_majority_witness:
  "commit_index demo_leader = 0 \<and> commit_index demo_commit = 1 \<and> 1 < card (holders demo_leader 1)"
proof -
  have c: "commit_index demo_leader = 0" "commit_index demo_commit = 1" by code_simp+
  then show ?thesis using commit_needs_majority [OF _ demo_runs(2,4)] by simp
qed

text \<open>
  The applier hands the log to the service in order. One round is its two critical sections with
  arbitrary steps of the other goroutines between them, none of which moves \<open>last_applied\<close>: the
  messages of the round continue exactly where the service was, a snapshot only ever jumps
  forward, every command carries the command of the log entry of its index, and at the end
  everything committed has been delivered.
\<close>

theorem applier_in_order:
  assumes "applier_first rf = Some (rf1, ms1)" and "last_applied rf2 = last_applied rf1"
    and "applier_second rf2 = Inr (rf3, ms2)"
  shows "in_order (last_applied rf) (ms1 @ ms2) = Some (commit_index rf2) \<and>
    last_applied rf3 = commit_index rf2 \<and>
    (\<forall>m \<in> set ms2. \<exists>e. getLogEntry rf2 (CommandIndex m) = Inr e \<and> MsgCommand m = Command e)"
  using applier_first_in_order [OF assms(1)] applier_second_spec [OF assms(3)] assms(2)
  by (auto simp: in_order_append)

theorem applier_in_order_witness:
  "in_order 0 (snd (the (applier_first demo_commit)) @ snd (projr (applier_second demo_commit))) = Some 1"
proof -
  have *: "applier_first demo_commit = Some (demo_commit, snd (the (applier_first demo_commit)))"
    "applier_second demo_commit =
       Inr (fst (projr (applier_second demo_commit)), snd (projr (applier_second demo_commit)))"
    "last_applied demo_commit = 0" "commit_index demo_commit = 1" by code_simp+
  show ?thesis using applier_in_order [OF *(1) refl *(2)] *(3,4) by simp
qed

section \<open>Two defects\<close>

text \<open>
  C21. A request that starts below the receiver's snapshot is answered with success although none of
  its entries is stored (the comment in the code says such a request is rejected); the leader
  takes the answer for an acknowledgement and records that the follower holds all of them, so
  that it can commit an entry the follower does not have.
\<close>

theorem stale_append_acknowledged:
  assumes "i < n" and "peer_run (booted n i) rf"
    and "current_term rf \<le> ae_Term args" and "ae_PreviousLogIndex args < last_included_index rf"
    and "raft_wf ld" and "role ld = Leader" and "current_term ld = ae_Term args" and "i < npeers ld"
    and "match_index ld ! i < ae_PreviousLogIndex args + length (ae_Entries args)"
  shows "returns (AppendEntries rf args now) (\<lambda>(rf', reply, sp).
     logs rf' = logs rf \<and> aer_Success reply \<and>
     returns (sendAppendEntries_reply ld i args reply) (\<lambda>(ld', sp').
       match_index ld' ! i = ae_PreviousLogIndex args + length (ae_Entries args) \<and> sp' = [GoCommit]))"
proof -
  have *: "AppendEntries rf args now =
      Inr (ae_begin rf args now, zeroAE\<lparr>aer_Success := True, aer_LogLenth := getLogLength rf\<rparr>, [])"
    using assms(3,4) by (simp add: AppendEntries_def ae_check_def Let_def getLogLength_def)
  show ?thesis
    using assms(5-9) unfolding *
    by (simp add: sendAppendEntries_reply_def zeroAE_def raft_wf_lengths Let_def)
qed

text \<open>A follower that has stored, applied and snapshotted two commands of term 1.\<close>

definition demo_snap :: "nat Raft" where
  "demo_snap =
     (let rf1 = fst (projr (AppendEntries booted0 \<lparr>ae_Term = 1, ae_LeaderID = 1, ae_PreviousLogIndex = 0,
            ae_PreviousLogTerm = 0, ae_Entries = [\<lparr>Command = Some 7, Term = 1\<rparr>, \<lparr>Command = Some 8, Term = 1\<rparr>],
            ae_LeaderCommit = 2\<rparr> 0));
          rf2 = fst (projr (applier_second rf1))
      in projr (Snapshot rf2 2 []))"

lemma demo_snap_run: "peer_run (booted 3 0) demo_snap"
proof -
  define args :: "nat AppendEntriesArgs" where "args = \<lparr>ae_Term = 1, ae_LeaderID = 1, ae_PreviousLogIndex = 0,
            ae_PreviousLogTerm = 0, ae_Entries = [\<lparr>Command = Some 7, Term = 1\<rparr>, \<lparr>Command = Some 8, Term = 1\<rparr>],
            ae_LeaderCommit = 2\<rparr>"
  let ?r1 = "projr (AppendEntries booted0 args 0)"
  let ?r2 = "projr (applier_second (fst ?r1))"
  have "AppendEntries booted0 args 0 = Inr (fst ?r1, fst (snd ?r1), snd (snd ?r1))"
    unfolding args_def by code_simp
  then have s1: "peer_step booted0 (fst ?r1)" by (rule peer_step.intros)
  have "applier_second (fst ?r1) = Inr (fst ?r2, snd ?r2)" unfolding args_def by code_simp
  then have s2: "peer_step (fst ?r1) (fst ?r2)" by (rule peer_step.intros)
  have "last_applied (fst ?r2) < getLogLength (fst ?r2)" "Snapshot (fst ?r2) 2 [] = Inr demo_snap"
    unfolding args_def by code_simp+
  then have "peer_step (fst ?r2) demo_snap" by (rule peer_step.intros)
  with s1 s2 show ?thesis unfolding peer_run_def booted0_def [symmetric]
    by (meson converse_rtranclp_into_rtranclp rtranclp.rtrancl_refl)
qed

definition demo_stale :: "nat AppendEntriesArgs" where
  "demo_stale = \<lparr>ae_Term = 1, ae_LeaderID = 1, ae_PreviousLogIndex = 0, ae_PreviousLogTerm = 0,
     ae_Entries = [\<lparr>Command = Some 7, Term = 1\<rparr>, \<lparr>Command = Some 8, Term = 1\<rparr>, \<lparr>Command = Some 9, Term = 1\<rparr>],
     ae_LeaderCommit = 2\<rparr>"

definition demo_ld :: "nat Raft" where
  "demo_ld = (booted 3 1)\<lparr>role := Leader, current_term := 1\<rparr>"

theorem stale_append_acknowledged_witness:
  "returns (AppendEntries demo_snap demo_stale 0) (\<lambda>(rf', reply, sp).
     getLogLength rf' = 3 \<and> returns (sendAppendEntries_reply demo_ld 0 demo_stale reply) (\<lambda>(ld', sp'). match_index ld' ! 0 = 3))"
proof -
  have "raft_wf demo_ld" by (simp add: demo_ld_def booted_ok)
  moreover have "current_term demo_snap \<le> ae_Term demo_stale" "ae_PreviousLogIndex demo_stale < last_included_index demo_snap"
    "role demo_ld = Leader" "current_term demo_ld = ae_Term demo_stale" "0 < npeers demo_ld"
    "match_index demo_ld ! 0 < ae_PreviousLogIndex demo_stale + length (ae_Entries demo_stale)"
    "getLogLength (fst (projr (AppendEntries demo_snap demo_stale 0))) = 3"
    "ae_PreviousLogIndex demo_stale + length (ae_Entries demo_stale) = 3"
    by code_simp+
  ultimately show ?thesis
    using stale_append_acknowledged [OF _ demo_snap_run, of demo_stale demo_ld 0]
    by (auto simp: returns_def)
qed

text \<open>
  C22. A restart can lead to a panic. Take any state a peer can be in and restart it: the commit index is
  0 again although the snapshot is still there. If a leader's request that the peer accepts then
  carries a commit index that is positive and below the snapshot's index, the peer answers
  success and takes over that commit index; the applier, woken up, delivers the snapshot,
  and its next critical section asks for a slice of the log that ends before it begins and panics.
\<close>

theorem restarted_applier_panics:
  assumes "i < n" and "peer_run (booted n i) rf0" and "accepts rf0 args"
    and "0 < ae_LeaderCommit args" and "ae_LeaderCommit args < last_included_index rf0"
  shows "returns (AppendEntries (Make n i (Persister_Checkpoint (persister rf0))) args now) (\<lambda>(rf, reply, sp).
     aer_Success reply \<and> commit_index rf = ae_LeaderCommit args \<and> sp = [SignalApply] \<and>
     (\<exists>rf1 m e. applier_first rf = Some (rf1, [m]) \<and> SnapshotValid m \<and> MsgSnapshot m = snapshot rf0 \<and>
        SnapshotIndex m = last_included_index rf0 \<and> applier_second rf1 = Inl e))"
proof -
  let ?rf = "Make n i (Persister_Checkpoint (persister rf0))"
  have rs: "?rf = restart rf0" using run_ok(3,4) [OF assms(1,2)] by (simp add: restart_def)
  have wf: "raft_wf ?rf" unfolding rs by (rule raft_wf_restart) (use run_ok [OF assms(1,2)] in simp_all)
  have same: "logs ?rf = logs rf0" "last_included_index ?rf = last_included_index rf0" "current_term ?rf = current_term rf0"
    "snapshot ?rf = snapshot rf0"
    using run_ok(2) [OF assms(1,2)] unfolding rs by (simp_all add: durable_def persistent_def)
  have zero: "commit_index ?rf = 0" "last_applied ?rf = 0" unfolding rs by simp_all
  have acc: "accepts ?rf args" using assms(3) same by (simp add: accepts_def getLogLength_def)
  show ?thesis
  proof (rule returns_mono [OF AppendEntries_accepted [OF wf acc]], clarify)
    fix rf reply sp
    assume spec: "AppendEntries_spec ?rf args rf reply sp"
    have lii: "last_included_index rf0 \<le> ae_PreviousLogIndex args" using assms(3) by (simp add: accepts_def)
    have rf: "last_included_index rf = last_included_index rf0" "snapshot rf = snapshot rf0" "last_applied rf = 0"
      "last_included_index rf < getLogLength rf"
      using spec same zero(2) getLogLength_pos [of rf] raft_wf_logs [of rf]
      by (simp_all add: AppendEntries_spec_def del: raft_wf_logs)
    have c: "commit_index rf = ae_LeaderCommit args"
      using spec acc zero(1) rf(1,4) lii assms(5) by (simp add: AppendEntries_spec_def)
    show "aer_Success reply \<and> commit_index rf = ae_LeaderCommit args \<and> sp = [SignalApply] \<and>
     (\<exists>rf1 m e. applier_first rf = Some (rf1, [m]) \<and> SnapshotValid m \<and> MsgSnapshot m = snapshot rf0 \<and>
        SnapshotIndex m = last_included_index rf0 \<and> applier_second rf1 = Inl e)"
      using spec acc c zero(1) rf assms(4,5)
      by (auto simp: AppendEntries_spec_def applier_first_def applier_second_def getLogSliceCopy_def getLogSlice_def
          logicalIndexToPhysicalIndex_def getLogLength_def slice_def)
  qed
qed

theorem restarted_applier_panics_witness:
  "returns (AppendEntries (Make 3 0 (Persister_Checkpoint (persister demo_snap)))
       \<lparr>ae_Term = 2, ae_LeaderID = 2, ae_PreviousLogIndex = 2, ae_PreviousLogTerm = 1, ae_Entries = [], ae_LeaderCommit = 1\<rparr> 0)
     (\<lambda>(rf, reply, sp). \<exists>rf1 m e. applier_first rf = Some (rf1, [m]) \<and> SnapshotIndex m = 2 \<and> applier_second rf1 = Inl e)"
proof -
  let ?args = "\<lparr>ae_Term = 2, ae_LeaderID = 2, ae_PreviousLogIndex = 2, ae_PreviousLogTerm = 1, ae_Entries = [], ae_LeaderCommit = 1\<rparr> :: nat AppendEntriesArgs"
  have "accepts demo_snap ?args" "last_included_index demo_snap = 2" by code_simp+
  then show ?thesis
    by (intro returns_mono [OF restarted_applier_panics [OF _ demo_snap_run, of ?args 0]]) auto
qed

end
