(* ===== verification/Rsm.thy ===== *)
theory Rsm
  imports RaftLocal Rpc
begin

text \<open>
  The replicated state machine (kvraft1/rsm/rsm.go): \<open>Submit\<close> passes an operation to
  Raft and waits on a channel, \<open>applyReader\<close> executes what Raft delivers and answers
  through the channel of the log index. The service behind it is the locale
  \<open>state_machine\<close>, the contract of the interface \<^verbatim>\<open>StateMachine\<close>; the counter
  service of rsm/server.go is its first instance, the key/value service (theory
  \<open>KvRaft\<close>) the second.
\<close>

section \<open>State\<close>

record 'q Op =
  op_Command :: 'q
  op_Id :: "64 word"

record ('q, 'r) OperationResult =
  or_operation :: "'q Op"
  or_result :: 'r

text \<open>
  Channels are references with a buffer of one element; \<open>chan_buf\<close> holds the buffers and
  \<open>chan_next\<close> is the next unused reference.
\<close>

record ('q, 'r, 's) RSM =
  rsm_me :: nat
  rsm_rf :: "'q Op Raft"
  maxraftstate :: int
  rsm_sm :: 's
  operation_channels :: "nat \<rightharpoonup> nat"
  chan_buf :: "nat \<Rightarrow> ('q, 'r) OperationResult list"
  chan_next :: nat

section \<open>Operations\<close>

text \<open>
  The service a replica runs: the arguments \<open>DoOp\<close>, \<open>snap\<close> and \<open>rest\<close> are its
  three methods. \<open>sz\<close> is the size in bytes of an encoded Raft state.
\<close>

definition MakeRSM ::
  "('s \<Rightarrow> bytes \<Rightarrow> 's res) \<Rightarrow> nat \<Rightarrow> nat \<Rightarrow> 'q Op gob Persister \<Rightarrow> int \<Rightarrow> 's \<Rightarrow> ('q, 'r, 's) RSM res" where
  "MakeRSM rest n i ps mx sm =
     (let rsm = \<lparr>rsm_me = i, rsm_rf = Make n i ps, maxraftstate = mx, rsm_sm = sm,
                 operation_channels = Map.empty, chan_buf = (\<lambda>_. []), chan_next = 0\<rparr>
      in if ReadSnapshot ps \<noteq> []
         then bindr (rest sm (ReadSnapshot ps)) (\<lambda>sm'. Inr (rsm\<lparr>rsm_sm := sm'\<rparr>))
         else Inr rsm)"

text \<open>
  \<open>applyReader\<close> on one message, up to the send on the channel: the new state and the
  send it is about to do.
\<close>

definition applyReader_msg ::
  "('s \<Rightarrow> 'q \<Rightarrow> ('s \<times> 'r) res) \<Rightarrow> ('s \<Rightarrow> bytes) \<Rightarrow> ('s \<Rightarrow> bytes \<Rightarrow> 's res) \<Rightarrow> ('q Op gob list \<Rightarrow> nat) \<Rightarrow>
     ('q, 'r, 's) RSM \<Rightarrow> 'q Op ApplyMsg \<Rightarrow> (('q, 'r, 's) RSM \<times> (nat \<times> ('q, 'r) OperationResult) option) res" where
  "applyReader_msg DoOp snap rest sz rsm apply_message =
     (if \<not> CommandValid apply_message \<and> \<not> SnapshotValid apply_message then Inr (rsm, None)
      else if CommandValid apply_message then
        (case MsgCommand apply_message of
           None \<Rightarrow> Inl TypeAssertion
         | Some operation \<Rightarrow>
             bindr (DoOp (rsm_sm rsm) (op_Command operation)) (\<lambda>(sm, result).
             bindr (if maxraftstate rsm \<noteq> -1 \<and> int (PersistBytes sz (rsm_rf rsm)) > maxraftstate rsm
                    then Snapshot (rsm_rf rsm) (int (CommandIndex apply_message)) (snap sm)
                    else Inr (rsm_rf rsm)) (\<lambda>rf.
               Inr (rsm\<lparr>rsm_sm := sm, rsm_rf := rf\<rparr>,
                    map_option (\<lambda>channel. (channel, \<lparr>or_operation = operation, or_result = result\<rparr>))
                      (operation_channels rsm (CommandIndex apply_message))))))
      else bindr (rest (rsm_sm rsm) (MsgSnapshot apply_message)) (\<lambda>sm. Inr (rsm\<lparr>rsm_sm := sm\<rparr>, None)))"

text \<open>The send blocks (\<open>None\<close>) while the buffer is full.\<close>

definition chan_send ::
  "('q, 'r, 's) RSM \<Rightarrow> nat \<Rightarrow> ('q, 'r) OperationResult \<Rightarrow> ('q, 'r, 's) RSM option" where
  "chan_send rsm c x =
     (if chan_buf rsm c = [] then Some (rsm\<lparr>chan_buf := (chan_buf rsm)(c := [x])\<rparr>) else None)"

text \<open>\<open>Submit\<close> up to the wait: the waiter's operation, log index and channel, if this is the leader.\<close>

definition Submit_start ::
  "('q, 'r, 's) RSM \<Rightarrow> 'q \<Rightarrow> 64 word \<Rightarrow>
     ('q, 'r, 's) RSM \<times> ('q Op \<times> nat \<times> nat) option \<times> 'q Op spawn list" where
  "Submit_start rsm req rand =
     (let operation = \<lparr>op_Command = req, op_Id = rand\<rparr>
      in case Start (rsm_rf rsm) operation of
           (rf, (log_index, term, is_leader), sp) \<Rightarrow>
             if \<not> is_leader then (rsm\<lparr>rsm_rf := rf\<rparr>, None, sp)
             else (rsm\<lparr>rsm_rf := rf, operation_channels := (operation_channels rsm)(log_index \<mapsto> chan_next rsm),
                       chan_buf := (chan_buf rsm)(chan_next rsm := []), chan_next := chan_next rsm + 1\<rparr>,
                   Some (operation, log_index, chan_next rsm), sp))"

text \<open>
  The two ends of the wait, each followed by the deferred deletion of the map entry: the result
  arrived, or two seconds passed.
\<close>

definition Submit_receive ::
  "('q, 'r, 's) RSM \<Rightarrow> 'q Op \<times> nat \<times> nat \<Rightarrow> (('q, 'r, 's) RSM \<times> Err \<times> 'r option) option" where
  "Submit_receive rsm w =
     (case w of (operation, log_index, channel) \<Rightarrow>
        case chan_buf rsm channel of
          [] \<Rightarrow> None
        | operation_result # rest \<Rightarrow>
            let rsm1 = rsm\<lparr>chan_buf := (chan_buf rsm)(channel := rest),
                           operation_channels := (operation_channels rsm)(log_index := None)\<rparr>
            in if op_Id (or_operation operation_result) \<noteq> op_Id operation
               then Some (rsm1, ErrWrongLeader, None)
               else Some (rsm1, OK, Some (or_result operation_result)))"

definition Submit_timeout ::
  "('q, 'r, 's) RSM \<Rightarrow> 'q Op \<times> nat \<times> nat \<Rightarrow> ('q, 'r, 's) RSM \<times> Err \<times> 'r option" where
  "Submit_timeout rsm w =
     (case w of (operation, log_index, channel) \<Rightarrow>
        (rsm\<lparr>operation_channels := (operation_channels rsm)(log_index := None)\<rparr>, ErrWrongLeader, None))"

section \<open>Waiting for one's own operation\<close>

text \<open>
  All goroutines of one server: the applier's pending send, the waiting \<open>Submit\<close>s, and as
  history what was applied at which index with which result and what the \<open>Submit\<close>s
  answered. Raft's own goroutines change the peer in between in any way.
\<close>

record ('q, 'r, 's) rsm_conf =
  cf_rsm :: "('q, 'r, 's) RSM"
  cf_send :: "(nat \<times> ('q, 'r) OperationResult) option"
  cf_waiters :: "('q Op \<times> nat \<times> nat) set"
  cf_applied :: "(nat \<times> ('q, 'r) OperationResult) set"
  cf_answers :: "('q Op \<times> nat \<times> Err \<times> 'r option) set"

inductive rsm_step ::
  "('s \<Rightarrow> 'q \<Rightarrow> ('s \<times> 'r) res) \<Rightarrow> ('s \<Rightarrow> bytes) \<Rightarrow> ('s \<Rightarrow> bytes \<Rightarrow> 's res) \<Rightarrow> ('q Op gob list \<Rightarrow> nat) \<Rightarrow>
     ('q, 'r, 's) rsm_conf \<Rightarrow> ('q, 'r, 's) rsm_conf \<Rightarrow> bool"
  for DoOp snap rest sz where
  raft: "rsm_step DoOp snap rest sz cf (cf\<lparr>cf_rsm := (cf_rsm cf)\<lparr>rsm_rf := rf\<rparr>\<rparr>)"
| submit: "Submit_start (cf_rsm cf) req rand = (rsm, w, sp) \<Longrightarrow>
     rsm_step DoOp snap rest sz cf
       (cf\<lparr>cf_rsm := rsm, cf_waiters := cf_waiters cf \<union> set_option w\<rparr>)"
| apply_command: "cf_send cf = None \<Longrightarrow> CommandValid msg \<Longrightarrow> MsgCommand msg = Some operation \<Longrightarrow>
     DoOp (rsm_sm (cf_rsm cf)) (op_Command operation) = Inr (sm, result) \<Longrightarrow>
     applyReader_msg DoOp snap rest sz (cf_rsm cf) msg = Inr (rsm, send) \<Longrightarrow>
     rsm_step DoOp snap rest sz cf
       (cf\<lparr>cf_rsm := rsm, cf_send := send,
           cf_applied := insert (CommandIndex msg, \<lparr>or_operation = operation, or_result = result\<rparr>) (cf_applied cf)\<rparr>)"
| apply_other: "cf_send cf = None \<Longrightarrow> \<not> CommandValid msg \<Longrightarrow>
     applyReader_msg DoOp snap rest sz (cf_rsm cf) msg = Inr (rsm, send) \<Longrightarrow>
     rsm_step DoOp snap rest sz cf (cf\<lparr>cf_rsm := rsm, cf_send := send\<rparr>)"
| send: "cf_send cf = Some (c, x) \<Longrightarrow> chan_send (cf_rsm cf) c x = Some rsm \<Longrightarrow>
     rsm_step DoOp snap rest sz cf (cf\<lparr>cf_rsm := rsm, cf_send := None\<rparr>)"
| receive: "w \<in> cf_waiters cf \<Longrightarrow> Submit_receive (cf_rsm cf) w = Some (rsm, e, r) \<Longrightarrow>
     rsm_step DoOp snap rest sz cf
       (cf\<lparr>cf_rsm := rsm, cf_waiters := cf_waiters cf - {w},
           cf_answers := insert (fst w, fst (snd w), e, r) (cf_answers cf)\<rparr>)"
| timeout: "w \<in> cf_waiters cf \<Longrightarrow> Submit_timeout (cf_rsm cf) w = (rsm, e, r) \<Longrightarrow>
     rsm_step DoOp snap rest sz cf
       (cf\<lparr>cf_rsm := rsm, cf_waiters := cf_waiters cf - {w},
           cf_answers := insert (fst w, fst (snd w), e, r) (cf_answers cf)\<rparr>)"

definition rsm_idle :: "('q, 'r, 's) RSM \<Rightarrow> ('q, 'r, 's) rsm_conf" where
  "rsm_idle rsm = \<lparr>cf_rsm = rsm\<lparr>operation_channels := Map.empty, chan_buf := (\<lambda>_. [])\<rparr>, cf_send = None,
     cf_waiters = {}, cf_applied = {}, cf_answers = {}\<rparr>"

text \<open>
  The invariant: every channel belongs to one log index for good (\<open>owner\<close>), it only ever
  carries what was applied at that index, and an answer \<open>OK\<close> carries such a result.
\<close>

definition rsm_inv :: "(nat \<Rightarrow> nat) \<Rightarrow> ('q, 'r, 's) rsm_conf \<Rightarrow> bool" where
  "rsm_inv owner cf \<longleftrightarrow>
     (\<forall>i c. operation_channels (cf_rsm cf) i = Some c \<longrightarrow> c < chan_next (cf_rsm cf) \<and> owner c = i) \<and>
     (\<forall>op i c. (op, i, c) \<in> cf_waiters cf \<longrightarrow> c < chan_next (cf_rsm cf) \<and> owner c = i) \<and>
     (\<forall>c x. cf_send cf = Some (c, x) \<longrightarrow> c < chan_next (cf_rsm cf) \<and> (owner c, x) \<in> cf_applied cf) \<and>
     (\<forall>c x. x \<in> set (chan_buf (cf_rsm cf) c) \<longrightarrow> (owner c, x) \<in> cf_applied cf) \<and>
     (\<forall>op i r. (op, i, OK, Some r) \<in> cf_answers cf \<longrightarrow>
        (\<exists>x. (i, x) \<in> cf_applied cf \<and> or_result x = r \<and> op_Id (or_operation x) = op_Id op))"

lemma rsm_inv_idle: "rsm_inv owner (rsm_idle rsm)"
  by (simp add: rsm_inv_def rsm_idle_def)

lemma applyReader_channels:
  assumes "applyReader_msg DoOp snap rest sz rsm msg = Inr (rsm', send)"
  shows "operation_channels rsm' = operation_channels rsm" "chan_buf rsm' = chan_buf rsm" "chan_next rsm' = chan_next rsm"
    "send \<noteq> None \<Longrightarrow> CommandValid msg"
  using assms by (auto simp: applyReader_msg_def bindr_eq_Inr split: if_splits option.splits)

lemma applyReader_command:
  assumes "applyReader_msg DoOp snap rest sz rsm msg = Inr (rsm', send)"
    and "CommandValid msg" and "MsgCommand msg = Some operation"
    and "DoOp (rsm_sm rsm) (op_Command operation) = Inr (sm, result)"
  shows "send = map_option (\<lambda>c. (c, \<lparr>or_operation = operation, or_result = result\<rparr>))
           (operation_channels rsm (CommandIndex msg))"
    and "rsm_sm rsm' = sm"
  using assms by (auto simp: applyReader_msg_def bindr_eq_Inr)

lemma rsm_inv_submit:
  assumes "rsm_inv owner cf" and "Submit_start (cf_rsm cf) req rand = (rsm, w, sp)"
  shows "\<exists>owner'. rsm_inv owner' (cf\<lparr>cf_rsm := rsm, cf_waiters := cf_waiters cf \<union> set_option w\<rparr>)"
proof (cases w)
  case None
  then show ?thesis
    using assms by (intro exI [of _ owner]) (auto simp: rsm_inv_def Submit_start_def Let_def split: prod.splits if_splits)
next
  case (Some x)
  obtain op i c where x: "x = (op, i, c)" by (cases x)
  let ?n = "chan_next (cf_rsm cf)"
  have r: "c = ?n" "operation_channels rsm = (operation_channels (cf_rsm cf))(i \<mapsto> ?n)"
      "chan_buf rsm = (chan_buf (cf_rsm cf))(?n := [])" "chan_next rsm = ?n + 1"
    using assms(2) Some x by (auto simp: Submit_start_def Let_def split: prod.splits if_splits)
  show ?thesis
    using assms(1) Some x r
    by (intro exI [of _ "owner(?n := i)"]) (fastforce simp: rsm_inv_def less_Suc_eq split: if_splits)
qed

lemma Submit_receive_OK:
  assumes "Submit_receive rsm (op, i, c) = Some (rsm', e, r)"
  obtains x xs where "chan_buf rsm c = x # xs" "chan_buf rsm' = (chan_buf rsm)(c := xs)"
    "operation_channels rsm' = (operation_channels rsm)(i := None)" "chan_next rsm' = chan_next rsm"
    "e = OK \<Longrightarrow> r = Some (or_result x) \<and> op_Id (or_operation x) = op_Id op"
  using assms by (auto simp: Submit_receive_def Let_def split: list.splits if_splits)

lemma rsm_inv_applied: "rsm_inv owner cf \<Longrightarrow> rsm_inv owner (cf\<lparr>cf_applied := insert y (cf_applied cf)\<rparr>)"
  unfolding rsm_inv_def by simp (metis insertCI)

lemma rsm_inv_send:
  assumes "rsm_inv owner cf" and "operation_channels rsm = operation_channels (cf_rsm cf)"
    and "chan_buf rsm = chan_buf (cf_rsm cf)" and "chan_next rsm = chan_next (cf_rsm cf)"
    and "\<And>c x. s = Some (c, x) \<Longrightarrow> c < chan_next (cf_rsm cf) \<and> (owner c, x) \<in> cf_applied cf"
  shows "rsm_inv owner (cf\<lparr>cf_rsm := rsm, cf_send := s\<rparr>)"
  using assms unfolding rsm_inv_def by simp

lemma rsm_step_inv:
  assumes "rsm_step DoOp snap rest sz cf cf'" and "rsm_inv owner cf"
  shows "\<exists>owner'. rsm_inv owner' cf'"
  using assms
proof cases
  case (raft rf)
  then show ?thesis using assms(2) by (intro exI [of _ owner]) (simp add: rsm_inv_def)
next
  case (submit req rand rsm w sp)
  then show ?thesis using rsm_inv_submit [OF assms(2) submit(2)] by simp
next
  case (apply_command msg operation sm result rsm send)
  let ?x = "\<lparr>or_operation = operation, or_result = result\<rparr>"
  let ?cf = "cf\<lparr>cf_applied := insert (CommandIndex msg, ?x) (cf_applied cf)\<rparr>"
  have "rsm_inv owner (?cf\<lparr>cf_rsm := rsm, cf_send := send\<rparr>)"
  proof (rule rsm_inv_send)
    show "rsm_inv owner ?cf" using assms(2) by (rule rsm_inv_applied)
  qed (use assms(2) applyReader_channels [OF apply_command(6)] applyReader_command(1) [OF apply_command(6,3-5)]
    in \<open>auto simp: rsm_inv_def\<close>)
  moreover have "?cf\<lparr>cf_rsm := rsm, cf_send := send\<rparr> = cf'" using apply_command(1) by (cases cf) simp
  ultimately show ?thesis by auto
next
  case (apply_other msg rsm send)
  then show ?thesis
    using assms(2) applyReader_channels [OF apply_other(4)]
    by (intro exI [of _ owner]) (auto simp: rsm_inv_def)
next
  case (send c x rsm)
  then show ?thesis
    using assms(2) by (intro exI [of _ owner]) (auto simp: rsm_inv_def chan_send_def split: if_splits)
next
  case (receive w rsm e r)
  obtain op i c where w: "w = (op, i, c)" by (cases w)
  obtain x xs where r: "chan_buf (cf_rsm cf) c = x # xs" "chan_buf rsm = (chan_buf (cf_rsm cf))(c := xs)"
    "operation_channels rsm = (operation_channels (cf_rsm cf))(i := None)" "chan_next rsm = chan_next (cf_rsm cf)"
    "e = OK \<Longrightarrow> r = Some (or_result x) \<and> op_Id (or_operation x) = op_Id op"
    using receive(3) w Submit_receive_OK by metis
  have "owner c = i" using assms(2) receive(2) w unfolding rsm_inv_def by blast
  moreover have "(owner c, y) \<in> cf_applied cf" if "y \<in> set (x # xs)" for y
    using assms(2) r(1) that unfolding rsm_inv_def by metis
  ultimately have buf: "(i, x) \<in> cf_applied cf" "\<And>y. y \<in> set xs \<Longrightarrow> (i, y) \<in> cf_applied cf" by auto
  show ?thesis
    using assms(2) receive(1,2) w r buf
    by (intro exI [of _ owner]) (auto simp: rsm_inv_def split: if_splits)
next
  case (timeout w rsm e r)
  then show ?thesis
    using assms(2) by (intro exI [of _ owner])
      (auto simp: rsm_inv_def Submit_timeout_def split: prod.splits if_splits)
qed

lemma rsm_run_inv:
  assumes "(rsm_step DoOp snap rest sz)\<^sup>*\<^sup>* (rsm_idle rsm) cf"
  shows "\<exists>owner. rsm_inv owner cf"
  using assms
proof (induction rule: rtranclp_induct)
  case base
  then show ?case using rsm_inv_idle by blast
next
  case (step y z)
  then show ?case using rsm_step_inv by blast
qed

section \<open>Replicas\<close>

text \<open>The contract of the interface \<^verbatim>\<open>StateMachine\<close>: a snapshot restores the state it was taken in.\<close>

locale state_machine =
  fixes DoOp :: "'s \<Rightarrow> 'q \<Rightarrow> ('s \<times> 'r) res"
    and snap :: "'s \<Rightarrow> bytes"
    and rest :: "'s \<Rightarrow> bytes \<Rightarrow> 's res"
  assumes rest_snap: "rest s (snap s') = Inr s'"
begin

text \<open>The state after the first operations of a log.\<close>

fun exec :: "'s \<Rightarrow> 'q Op list \<Rightarrow> 's res" where
  "exec s [] = Inr s"
| "exec s (a # as) = bindr (DoOp s (op_Command a)) (\<lambda>(s', _). exec s' as)"

lemma exec_append: "exec s (as @ bs) = bindr (exec s as) (\<lambda>s'. exec s' bs)"
  by (induction as arbitrary: s) (auto simp: bindr_def split: sum.split)

lemma exec_snoc: "exec s as = Inr s' \<Longrightarrow> exec s (as @ [a]) = Inr s'' \<Longrightarrow> \<exists>r. DoOp s' (op_Command a) = Inr (s'', r)"
  by (auto simp: exec_append bindr_eq_Inr)

text \<open>
  A message says what the log says: a command is the entry of its index, a snapshot is the
  snapshot of the state after its index.
\<close>

definition faithful :: "'s \<Rightarrow> 'q Op list \<Rightarrow> 'q Op ApplyMsg \<Rightarrow> bool" where
  "faithful s0 log m \<longleftrightarrow>
     (if CommandValid m then 0 < CommandIndex m \<and> CommandIndex m \<le> length log \<and>
        MsgCommand m = Some (log ! (CommandIndex m - 1))
      else SnapshotValid m \<longrightarrow> (\<exists>s. exec s0 (take (SnapshotIndex m) log) = Inr s \<and> MsgSnapshot m = snap s))"

text \<open>The messages one after the other, as \<open>applyReader\<close> handles them; sends and Raft aside.\<close>

fun apply_all :: "('q Op gob list \<Rightarrow> nat) \<Rightarrow> ('q, 'r, 's) RSM \<Rightarrow> 'q Op ApplyMsg list \<Rightarrow> ('q, 'r, 's) RSM res" where
  "apply_all sz rsm [] = Inr rsm"
| "apply_all sz rsm (m # ms) = bindr (applyReader_msg DoOp snap rest sz rsm m) (\<lambda>(rsm', _). apply_all sz rsm' ms)"

text \<open>
  A replica fed faithful messages in order is, at each index, in the state of executing the log
  up to that index, no matter which parts it received as snapshots.
\<close>

lemma replica_state:
  assumes "apply_all sz rsm ms = Inr rsm'" and "in_order la ms = Some k"
    and "exec s0 (take la log) = Inr (rsm_sm rsm)" and "\<forall>m \<in> set ms. faithful s0 log m"
  shows "exec s0 (take k log) = Inr (rsm_sm rsm')"
  using assms
proof (induction ms arbitrary: rsm la)
  case Nil
  then show ?case by simp
next
  case (Cons m ms)
  obtain rsm1 send where step: "applyReader_msg DoOp snap rest sz rsm m = Inr (rsm1, send)"
    "apply_all sz rsm1 ms = Inr rsm'"
    using Cons.prems(1) by (auto simp: bindr_eq_Inr)
  show ?case
  proof (cases "CommandValid m")
    case True
    then have i: "CommandIndex m = la + 1" "in_order (la + 1) ms = Some k"
      using Cons.prems(2) by (auto split: if_splits)
    have f: "la < length log" "MsgCommand m = Some (log ! la)"
      using Cons.prems(4) True i(1) by (auto simp: faithful_def)
    have "\<exists>r. DoOp (rsm_sm rsm) (op_Command (log ! la)) = Inr (rsm_sm rsm1, r)"
      using step(1) True f(2) by (auto simp: applyReader_msg_def bindr_eq_Inr)
    then have "exec s0 (take (la + 1) log) = Inr (rsm_sm rsm1)"
      using Cons.prems(3) f(1) by (auto simp: take_Suc_conv_app_nth exec_append)
    then show ?thesis using Cons.IH [OF step(2) i(2)] Cons.prems(4) by simp
  next
    case False
    then have i: "SnapshotValid m" "in_order (SnapshotIndex m) ms = Some k"
      using Cons.prems(2) by (auto split: if_splits)
    then obtain s where s: "exec s0 (take (SnapshotIndex m) log) = Inr s" "MsgSnapshot m = snap s"
      using Cons.prems(4) False by (auto simp: faithful_def)
    have "rsm_sm rsm1 = s"
      using step(1) False i(1) s(2) by (auto simp: applyReader_msg_def rest_snap)
    then show ?thesis using Cons.IH [OF step(2) i(2)] Cons.prems(4) s(1) by simp
  qed
qed

text \<open>After a restart the first message is the snapshot, and the state before it does not matter.\<close>

lemma replica_state_restarted:
  assumes "apply_all sz rsm (m # ms) = Inr rsm'" and "in_order la (m # ms) = Some k" and "\<not> CommandValid m"
    and "\<forall>m \<in> set (m # ms). faithful s0 log m"
  shows "exec s0 (take k log) = Inr (rsm_sm rsm')"
proof -
  have i: "SnapshotValid m" "in_order (SnapshotIndex m) ms = Some k"
    using assms(2,3) by (auto split: if_splits)
  then obtain s where s: "exec s0 (take (SnapshotIndex m) log) = Inr s" "MsgSnapshot m = snap s"
    using assms(3,4) by (auto simp: faithful_def)
  have "apply_all sz (rsm\<lparr>rsm_sm := s\<rparr>) ms = Inr rsm'"
    using assms(1,3) i(1) s(2) by (simp add: applyReader_msg_def rest_snap)
  then show ?thesis using replica_state i(2) s(1) assms(4) by simp
qed

end

section \<open>The counter service\<close>

text \<open>
  rsm/server.go. The replicated state is the counter. An operation of another type ends the
  process (\<^verbatim>\<open>log.Fatalf\<close>), as does a snapshot that does not decode.
\<close>

datatype rsm_req = Inc | Null | Dec

datatype rsm_rep = IncRep int | NullRep

type_synonym rsmSrv = int

definition newRSMSrv :: rsmSrv where "newRSMSrv = 0"

fun rsmSrv_DoOp :: "rsmSrv \<Rightarrow> rsm_req \<Rightarrow> (rsmSrv \<times> rsm_rep) res" where
  "rsmSrv_DoOp counter Inc = Inr (counter + 1, IncRep (counter + 1))"
| "rsmSrv_DoOp counter Null = Inr (counter, NullRep)"
| "rsmSrv_DoOp counter Dec = Inl Fatal"

definition rsmSrv_Snapshot :: "rsmSrv \<Rightarrow> bytes" where
  "rsmSrv_Snapshot counter = [GvInt counter]"

definition rsmSrv_Restore :: "rsmSrv \<Rightarrow> bytes \<Rightarrow> rsmSrv res" where
  "rsmSrv_Restore counter data = (case data of GvInt n # _ \<Rightarrow> Inr n | _ \<Rightarrow> Inl Fatal)"

interpretation counter: state_machine rsmSrv_DoOp rsmSrv_Snapshot rsmSrv_Restore
  by unfold_locales (simp add: rsmSrv_Snapshot_def rsmSrv_Restore_def)

section \<open>Properties\<close>

text \<open>
  C8. \<open>Submit\<close> answers \<open>OK\<close> only for its own operation: under any interleaving of
  submits, timeouts, Raft's changes of the peer and deliveries, the result it returns is the
  result of applying an operation with its id at the index Raft gave it; when ids do not
  collide that is the submitted operation itself.
\<close>

theorem submit_returns_own_result:
  assumes "(rsm_step DoOp snap rest sz)\<^sup>*\<^sup>* (rsm_idle rsm) cf"
    and "(op, i, OK, Some r) \<in> cf_answers cf"
    and "\<And>j x. (j, x) \<in> cf_applied cf \<Longrightarrow> op_Id (or_operation x) = op_Id op \<Longrightarrow> or_operation x = op"
  shows "(i, \<lparr>or_operation = op, or_result = r\<rparr>) \<in> cf_applied cf"
proof -
  obtain owner where "rsm_inv owner cf" using rsm_run_inv [OF assms(1)] by blast
  then obtain x where x: "(i, x) \<in> cf_applied cf" "or_result x = r" "op_Id (or_operation x) = op_Id op"
    using assms(2) unfolding rsm_inv_def by blast
  from assms(3) [OF x(1,3)] x(2) have "x = \<lparr>or_operation = op, or_result = r\<rparr>" by simp
  with x(1) show ?thesis by simp
qed

text \<open>A leader of a one-peer group that submits an increment.\<close>

definition demo_rsm :: "(rsm_req, rsm_rep, rsmSrv) RSM" where
  "demo_rsm = \<lparr>rsm_me = 0, rsm_rf = (booted 1 0)\<lparr>role := Leader\<rparr>, maxraftstate = -1, rsm_sm = newRSMSrv,
     operation_channels = Map.empty, chan_buf = (\<lambda>_. []), chan_next = 0\<rparr>"

definition demo_op :: "rsm_req Op" where "demo_op = \<lparr>op_Command = Inc, op_Id = 5\<rparr>"

definition demo_msg :: "rsm_req Op ApplyMsg" where
  "demo_msg = \<lparr>CommandValid = True, MsgCommand = Some demo_op, CommandIndex = 1, SnapshotValid = False,
     MsgSnapshot = [], SnapshotTerm = 0, SnapshotIndex = 0\<rparr>"

lemma demo_submit:
  "\<exists>cf. (rsm_step rsmSrv_DoOp rsmSrv_Snapshot rsmSrv_Restore (\<lambda>_. 0))\<^sup>*\<^sup>* (rsm_idle demo_rsm) cf \<and>
     cf_answers cf = {(demo_op, 1, OK, Some (IncRep 1))} \<and>
     cf_applied cf = {(1, \<lparr>or_operation = demo_op, or_result = IncRep 1\<rparr>)}"
proof -
  let ?S = "rsm_step rsmSrv_DoOp rsmSrv_Snapshot rsmSrv_Restore (\<lambda>_. 0)"
  let ?x = "\<lparr>or_operation = demo_op, or_result = IncRep 1\<rparr>"
  define r0 where "r0 = cf_rsm (rsm_idle demo_rsm)"
  define r1 where "r1 = fst (Submit_start r0 Inc 5)"
  define r2 where "r2 = r1\<lparr>rsm_sm := 1\<rparr>"
  define r3 where "r3 = r2\<lparr>chan_buf := (chan_buf r2)(0 := [?x])\<rparr>"
  define r4 where "r4 = r3\<lparr>chan_buf := (chan_buf r3)(0 := []), operation_channels := (operation_channels r3)(1 := None)\<rparr>"
  note defs = r4_def r3_def r2_def r1_def r0_def rsm_idle_def demo_rsm_def Submit_start_def Start_def
    booted_def Make_def readPersist_def Let_def getLogLength_def demo_op_def
  let ?c0 = "rsm_idle demo_rsm"
  let ?c1 = "?c0\<lparr>cf_rsm := r1, cf_waiters := {(demo_op, 1, 0)}\<rparr>"
  let ?c2 = "?c1\<lparr>cf_rsm := r2, cf_send := Some (0, ?x), cf_applied := {(1, ?x)}\<rparr>"
  let ?c3 = "?c2\<lparr>cf_rsm := r3, cf_send := None\<rparr>"
  let ?c4 = "?c3\<lparr>cf_rsm := r4, cf_waiters := {}, cf_answers := {(demo_op, 1, OK, Some (IncRep 1))}\<rparr>"
  have "?S ?c0 ?c1"
    using rsm_step.submit [of ?c0 Inc 5 r1 "Some (demo_op, 1, 0)" "[SignalSend]"]
    by (simp add: defs)
  moreover have "?S ?c1 ?c2"
    using rsm_step.apply_command [of ?c1 demo_msg demo_op rsmSrv_DoOp 1 "IncRep 1" rsmSrv_Snapshot rsmSrv_Restore "\<lambda>_. 0" r2 "Some (0, ?x)"]
    by (simp add: defs demo_msg_def newRSMSrv_def applyReader_msg_def)
  moreover have "?S ?c2 ?c3"
    using rsm_step.send [of ?c2 0 ?x r3] by (simp add: defs chan_send_def)
  moreover have "?S ?c3 ?c4"
    using rsm_step.receive [of "(demo_op, 1, 0)" ?c3 r4 OK "Some (IncRep 1)"]
    by (simp add: defs Submit_receive_def)
  ultimately have "?S\<^sup>*\<^sup>* ?c0 ?c4" by (meson converse_rtranclp_into_rtranclp rtranclp.rtrancl_refl)
  then show ?thesis by (intro exI [of _ ?c4]) simp
qed

theorem submit_returns_own_result_witness:
  "\<exists>cf. (rsm_step rsmSrv_DoOp rsmSrv_Snapshot rsmSrv_Restore (\<lambda>_. 0))\<^sup>*\<^sup>* (rsm_idle demo_rsm) cf \<and>
     (demo_op, 1, OK, Some (IncRep 1)) \<in> cf_answers cf \<and>
     (1, \<lparr>or_operation = demo_op, or_result = IncRep 1\<rparr>) \<in> cf_applied cf"
proof -
  obtain cf where cf: "(rsm_step rsmSrv_DoOp rsmSrv_Snapshot rsmSrv_Restore (\<lambda>_. 0))\<^sup>*\<^sup>* (rsm_idle demo_rsm) cf"
    "cf_answers cf = {(demo_op, 1, OK, Some (IncRep 1))}"
    "cf_applied cf = {(1, \<lparr>or_operation = demo_op, or_result = IncRep 1\<rparr>)}"
    using demo_submit by blast
  have "(1, \<lparr>or_operation = demo_op, or_result = IncRep 1\<rparr>) \<in> cf_applied cf"
    by (rule submit_returns_own_result [OF cf(1)]) (use cf in auto)
  with cf show ?thesis by auto
qed

end
