(* ===== verification/KvRaft.thy ===== *)
theory KvRaft
  imports Rsm KvClerk
begin

text \<open>
  The replicated key/value service (kvraft1/server.go, kvraft1/client.go). The server is the
  second instance of the state machine contract and, seen through \<open>DoOp\<close>, the second
  instance of the versioned store; its replicas refine the single server of kvsrv1. The clerk
  tries the servers in turn.
\<close>

section \<open>The server\<close>

text \<open>The field \<^verbatim>\<open>me\<close> is stored and never read; \<^verbatim>\<open>rsm\<close> is the record of theory \<open>Rsm\<close> around this one.\<close>

record RKVServer =
  r_kv_map :: "string \<rightharpoonup> ValueType"

text \<open>What reaches \<open>DoOp\<close> as an \<^verbatim>\<open>any\<close>, and what it returns.\<close>

datatype kv_req = ReqGet GetArgs | ReqPut PutArgs | ReqOther

datatype kv_rep = RepGet GetReply | RepPut PutReply | RepNil

definition DoOp_Get :: "RKVServer \<Rightarrow> GetArgs \<Rightarrow> GetReply" where
  "DoOp_Get kv args =
     (case r_kv_map kv (GetKey args) of
        None \<Rightarrow> zeroGetReply\<lparr>GetErr := ErrNoKey\<rparr>
      | Some value \<Rightarrow> zeroGetReply\<lparr>GetErr := OK, GetValue := vvalue value, GetVersion := vversion value\<rparr>)"

definition DoOp_Put :: "RKVServer \<Rightarrow> PutArgs \<Rightarrow> RKVServer \<times> PutReply" where
  "DoOp_Put kv args =
     (let new_value = \<lparr>vvalue = PutValue args, vversion = PutVersion args + 1\<rparr>;
          kv' = kv\<lparr>r_kv_map := (r_kv_map kv)(PutKey args \<mapsto> new_value)\<rparr>
      in case r_kv_map kv (PutKey args) of
           None \<Rightarrow> if PutVersion args = 0 then (kv', zeroPutReply\<lparr>PutErr := OK\<rparr>)
                   else (kv, zeroPutReply\<lparr>PutErr := ErrNoKey\<rparr>)
         | Some value \<Rightarrow> if PutVersion args \<noteq> vversion value then (kv, zeroPutReply\<lparr>PutErr := ErrVersion\<rparr>)
                   else (kv', zeroPutReply\<lparr>PutErr := OK\<rparr>))"

fun RKVServer_DoOp :: "RKVServer \<Rightarrow> kv_req \<Rightarrow> (RKVServer \<times> kv_rep) res" where
  "RKVServer_DoOp kv (ReqGet args) = Inr (kv, RepGet (DoOp_Get kv args))"
| "RKVServer_DoOp kv (ReqPut args) = Inr (map_prod id RepPut (DoOp_Put kv args))"
| "RKVServer_DoOp kv ReqOther = Inr (kv, RepNil)"

definition RKVServer_Snapshot :: "RKVServer \<Rightarrow> bytes" where
  "RKVServer_Snapshot kv =
     [GvKvMap (KvTable (\<lambda>k. map_option (\<lambda>v. (vvalue v, vversion v)) (r_kv_map kv k)))]"

definition RKVServer_Restore :: "RKVServer \<Rightarrow> bytes \<Rightarrow> RKVServer res" where
  "RKVServer_Restore kv data =
     (if length data < 1 then Inr kv
      else case data of
             GvKvMap t # _ \<Rightarrow>
               Inr (kv\<lparr>r_kv_map := \<lambda>k. map_option (\<lambda>(x, n). \<lparr>vvalue = x, vversion = n\<rparr>) (kv_entries t k)\<rparr>)
           | _ \<Rightarrow> Inl Fatal)"

text \<open>The RPC handlers, given what \<open>Submit\<close> returned; the assertion panics on another type.\<close>

definition RKVServer_Get :: "Err \<times> kv_rep option \<Rightarrow> GetReply \<Rightarrow> GetReply res" where
  "RKVServer_Get submitted reply =
     (if fst submitted = ErrWrongLeader then Inr (reply\<lparr>GetErr := ErrWrongLeader\<rparr>)
      else case snd submitted of Some (RepGet r) \<Rightarrow> Inr r | _ \<Rightarrow> Inl TypeAssertion)"

definition RKVServer_Put :: "Err \<times> kv_rep option \<Rightarrow> PutReply \<Rightarrow> PutReply res" where
  "RKVServer_Put submitted reply =
     (if fst submitted = ErrWrongLeader then Inr (reply\<lparr>PutErr := ErrWrongLeader\<rparr>)
      else case snd submitted of Some (RepPut r) \<Rightarrow> Inr r | _ \<Rightarrow> Inl TypeAssertion)"

definition StartKVServer ::
  "nat \<Rightarrow> nat \<Rightarrow> kv_req Op gob Persister \<Rightarrow> int \<Rightarrow> (kv_req, kv_rep, RKVServer) RSM res" where
  "StartKVServer n i ps mx = MakeRSM RKVServer_Restore n i ps mx \<lparr>r_kv_map = Map.empty\<rparr>"

section \<open>The clerk\<close>

record RClerk =
  servers :: "string list"
  leader :: nat

definition MakeClerk :: "string list \<Rightarrow> RClerk" where
  "MakeClerk ss = \<lparr>servers = ss, leader = 0\<rparr>"

definition next_leader :: "RClerk \<Rightarrow> RClerk" where
  "next_leader ck = ck\<lparr>leader := (leader ck + 1) mod length (servers ck)\<rparr>"

text \<open>
  The loops take fuel as those of kvsrv1 do. The call names the server it goes to; without
  servers the index panics. The reply variable is shared by all iterations: a reply that
  arrives overwrites the previous one.
\<close>

fun RClerk_Get ::
  "(string \<Rightarrow> 'w \<Rightarrow> GetArgs \<Rightarrow> 'w \<times> GetReply option) \<Rightarrow> nat \<Rightarrow> RClerk \<Rightarrow> 'w \<Rightarrow> string \<Rightarrow>
     ((string \<times> Tversion \<times> Err) \<times> RClerk \<times> 'w) option res" where
  "RClerk_Get call 0 ck w key = Inr None"
| "RClerk_Get call (Suc n) ck w key =
     bindr (idx (servers ck) (leader ck)) (\<lambda>server.
       case call server w \<lparr>GetKey = key\<rparr> of
         (w', None) \<Rightarrow> RClerk_Get call n (next_leader ck) w' key
       | (w', Some reply) \<Rightarrow>
           if GetErr reply = ErrWrongLeader then RClerk_Get call n (next_leader ck) w' key
           else if GetErr reply = ErrNoKey then Inr (Some ((GetValue reply, GetVersion reply, ErrNoKey), ck, w'))
           else if GetErr reply = OK then Inr (Some ((GetValue reply, GetVersion reply, OK), ck, w'))
           else RClerk_Get call n ck w' key)"

fun RClerk_Put_loop ::
  "(string \<Rightarrow> 'w \<Rightarrow> PutArgs \<Rightarrow> 'w \<times> PutReply option) \<Rightarrow> nat \<Rightarrow> RClerk \<Rightarrow> bool \<Rightarrow> 'w \<Rightarrow> PutArgs \<Rightarrow>
     (Err \<times> RClerk \<times> 'w) option res" where
  "RClerk_Put_loop call 0 ck is_resend w args = Inr None"
| "RClerk_Put_loop call (Suc n) ck is_resend w args =
     bindr (idx (servers ck) (leader ck)) (\<lambda>server.
       case call server w args of
         (w', None) \<Rightarrow> RClerk_Put_loop call n (next_leader ck) True w' args
       | (w', Some reply) \<Rightarrow>
           if PutErr reply = ErrWrongLeader then RClerk_Put_loop call n (next_leader ck) True w' args
           else if PutErr reply = ErrVersion \<and> \<not> is_resend then Inr (Some (ErrVersion, ck, w'))
           else if PutErr reply = ErrVersion \<and> is_resend then Inr (Some (ErrMaybe, ck, w'))
           else if PutErr reply = OK then Inr (Some (OK, ck, w'))
           else RClerk_Put_loop call n ck is_resend w' args)"

definition RClerk_Put ::
  "(string \<Rightarrow> 'w \<Rightarrow> PutArgs \<Rightarrow> 'w \<times> PutReply option) \<Rightarrow> nat \<Rightarrow> RClerk \<Rightarrow> 'w \<Rightarrow> string \<Rightarrow> string \<Rightarrow> Tversion \<Rightarrow>
     (Err \<times> RClerk \<times> 'w) option res" where
  "RClerk_Put call n ck w key val version =
     RClerk_Put_loop call n ck False w \<lparr>PutKey = key, PutValue = val, PutVersion = version\<rparr>"

section \<open>The service as a state machine and as a versioned store\<close>

lemma Restore_Snapshot [simp]: "RKVServer_Restore kv (RKVServer_Snapshot kv') = Inr kv'"
proof -
  have "(\<lambda>x. \<lparr>vvalue = vvalue x, vversion = vversion x\<rparr>) = id" by (simp add: fun_eq_iff)
  then show ?thesis
    by (cases kv') (simp add: RKVServer_Restore_def RKVServer_Snapshot_def option.map_comp comp_def option.map_id)
qed

interpretation kv: state_machine RKVServer_DoOp RKVServer_Snapshot RKVServer_Restore
  by unfold_locales simp

definition rsrv_lookup :: "RKVServer \<Rightarrow> string \<Rightarrow> (string \<times> Tversion) option" where
  "rsrv_lookup kv k = map_option (\<lambda>x. (vvalue x, vversion x)) (r_kv_map kv k)"

definition rsrv_put :: "RKVServer \<Rightarrow> PutArgs \<Rightarrow> RKVServer \<times> Err" where
  "rsrv_put kv a = map_prod id PutErr (DoOp_Put kv a)"

text \<open>The single server with the same table.\<close>

definition as_single :: "RKVServer \<Rightarrow> KVServer" where
  "as_single kv = \<lparr>kv_map = r_kv_map kv\<rparr>"

lemma DoOp_single:
  "DoOp_Get kv gargs = KVServer_Get (as_single kv) gargs zeroGetReply"
  "as_single (fst (DoOp_Put kv pargs)) = fst (KVServer_Put (as_single kv) pargs zeroPutReply)"
  "snd (DoOp_Put kv pargs) = snd (KVServer_Put (as_single kv) pargs zeroPutReply)"
  by (auto simp: DoOp_Get_def DoOp_Put_def KVServer_Get_def KVServer_Put_def as_single_def zeroGetReply_def
      Let_def split: option.split)

lemma rsrv_single: "rsrv_lookup kv = srv_lookup (as_single kv)" "snd (rsrv_put kv a) = snd (srv_put (as_single kv) a)"
  "as_single (fst (rsrv_put kv a)) = fst (srv_put (as_single kv) a)"
  by (simp_all add: rsrv_lookup_def srv_lookup_def as_single_def [of kv] rsrv_put_def srv_put_def fun_eq_iff
      DoOp_single [unfolded as_single_def [of kv]])

lemma as_single_inj: "as_single a = as_single b \<longleftrightarrow> a = b"
  by (cases a; cases b) (simp add: as_single_def)

interpretation kr: versioned_store rsrv_lookup rsrv_put
proof unfold_locales
  fix s :: RKVServer and a x n
  note facts = ks.put_new [of "as_single s" a] ks.put_missing [of "as_single s" a] ks.put_match [of "as_single s" a x]
    ks.put_stale [of "as_single s" a x n] ks.put_lookup [of "as_single s" a]
  show "rsrv_lookup s (PutKey a) = None \<Longrightarrow> PutVersion a = 0 \<Longrightarrow> snd (rsrv_put s a) = OK"
    and "rsrv_lookup s (PutKey a) = Some (x, PutVersion a) \<Longrightarrow> snd (rsrv_put s a) = OK"
    and "snd (rsrv_put s a) = OK \<Longrightarrow>
      rsrv_lookup (fst (rsrv_put s a)) = (rsrv_lookup s)(PutKey a \<mapsto> (PutValue a, PutVersion a + 1))"
    using facts by (simp_all add: rsrv_single)
  show "rsrv_lookup s (PutKey a) = None \<Longrightarrow> PutVersion a \<noteq> 0 \<Longrightarrow> rsrv_put s a = (s, ErrNoKey)"
    and "rsrv_lookup s (PutKey a) = Some (x, n) \<Longrightarrow> n \<noteq> PutVersion a \<Longrightarrow> rsrv_put s a = (s, ErrVersion)"
    using facts by (simp_all add: rsrv_single prod_eq_iff as_single_inj [symmetric])
qed

section \<open>Replicas\<close>

text \<open>One operation of the log on the single server.\<close>

fun single_do :: "KVServer \<Rightarrow> kv_req \<Rightarrow> KVServer" where
  "single_do s (ReqGet a) = s"
| "single_do s (ReqPut a) = fst (KVServer_Put s a zeroPutReply)"
| "single_do s ReqOther = s"

lemma exec_single:
  "kv.exec s log = Inr s' \<Longrightarrow> as_single s' = foldl single_do (as_single s) (map op_Command log)"
proof (induction log arbitrary: s)
  case (Cons a log)
  then show ?case by (cases "op_Command a") (auto simp: DoOp_single(2) [symmetric] map_prod_def split: prod.splits)
qed simp

lemma exec_total: "\<exists>s'. kv.exec s log = Inr s'"
proof (induction log arbitrary: s)
  case (Cons a log)
  then show ?case by (cases "op_Command a") (auto simp: map_prod_def split: prod.splits)
qed simp

definition new_RKVServer :: RKVServer where
  "new_RKVServer = \<lparr>r_kv_map = Map.empty\<rparr>"

section \<open>The clerk's world\<close>

text \<open>
  What a call can meet: the server cannot be reached or its answer is lost, it is not the leader
  (or gives up waiting), or it answers; an operation handed to Raft may be executed by the
  group at once, later, or never. The schedule gives for each call what the group executes
  before it, copies of this clerk's earlier attempts included (\<open>True\<close>), and how it ends.
\<close>

datatype group_answer = Unreachable | Redirected | ExecutedSilently | ExecutedRedirected | Answered

record 's rworld =
  rw_srv :: 's
  rw_sched :: "((bool \<times> PutArgs) list \<times> group_answer) list"
  rw_hist :: "(bool \<times> PutArgs) list"

definition rnet_Put :: "('s \<Rightarrow> PutArgs \<Rightarrow> 's \<times> Err) \<Rightarrow> string \<Rightarrow> 's rworld \<Rightarrow> PutArgs \<Rightarrow> 's rworld \<times> PutReply option" where
  "rnet_Put put server w args =
     (case rw_sched w of
        [] \<Rightarrow> (w, None)
      | (batch, ans) # rest \<Rightarrow>
          let s = run_puts put (rw_srv w) (map snd batch);
              w0 = w\<lparr>rw_srv := s, rw_sched := rest, rw_hist := rw_hist w @ batch\<rparr>;
              w1 = w\<lparr>rw_srv := fst (put s args), rw_sched := rest, rw_hist := rw_hist w @ batch @ [(True, args)]\<rparr>
          in case ans of
               Unreachable \<Rightarrow> (w0, None)
             | Redirected \<Rightarrow> (w0, Some \<lparr>PutErr = ErrWrongLeader\<rparr>)
             | ExecutedSilently \<Rightarrow> (w1, None)
             | ExecutedRedirected \<Rightarrow> (w1, Some \<lparr>PutErr = ErrWrongLeader\<rparr>)
             | Answered \<Rightarrow> (w1, Some \<lparr>PutErr = snd (put s args)\<rparr>))"

text \<open>Copies of the clerk's put are executed late only if an earlier call left one behind.\<close>

fun plausible :: "PutArgs \<Rightarrow> bool \<Rightarrow> ((bool \<times> PutArgs) list \<times> group_answer) list \<Rightarrow> bool" where
  "plausible a left [] = True"
| "plausible a left ((batch, ans) # rest) \<longleftrightarrow>
     own_only a batch \<and> (left \<or> (\<forall>x \<in> set batch. \<not> fst x)) \<and>
     plausible a (left \<or> ans = Unreachable \<or> ans = Redirected) rest"

lemma own_performed_foreign: "(\<forall>x \<in> set b. \<not> fst x) \<Longrightarrow> own_performed put s b = 0"
  by (induction put s b rule: own_performed.induct) auto

text \<open>What is known while the clerk tries: \<open>r\<close> is its flag, \<open>left\<close> says a copy may be pending.\<close>

definition rput_inv :: "('s \<Rightarrow> PutArgs \<Rightarrow> 's \<times> Err) \<Rightarrow> 's \<Rightarrow> PutArgs \<Rightarrow> bool \<Rightarrow> 's rworld \<Rightarrow> bool" where
  "rput_inv put s0 a r w \<longleftrightarrow>
     rw_srv w = run_puts put s0 (map snd (rw_hist w)) \<and> own_only a (rw_hist w) \<and>
     (\<exists>left. plausible a left (rw_sched w) \<and>
        (r \<or> \<not> left \<and> own_performed put s0 (rw_hist w) = 0))"

context versioned_store
begin

text \<open>One call of the clerk, split by what it returns.\<close>

lemma rnet_Put_failed:
  assumes "rput_inv put s0 a r w" and "rnet_Put put server w a = (w', rep)"
  shows "rput_inv put s0 a True w'"
proof -
  obtain left where left: "plausible a left (rw_sched w)" using assms(1) by (auto simp: rput_inv_def)
  show ?thesis
  proof (cases "rw_sched w")
    case Nil
    then show ?thesis using assms left by (auto simp: rput_inv_def rnet_Put_def)
  next
    case (Cons x rest)
    obtain batch ans where x: "x = (batch, ans)" by (cases x)
    let ?left = "left \<or> ans = Unreachable \<or> ans = Redirected"
    have "plausible a ?left rest" "own_only a batch" using left Cons x by auto
    moreover have "rw_sched w' = rest" "rw_srv w' = run_puts put s0 (map snd (rw_hist w'))"
        "rw_hist w' = rw_hist w @ batch \<or> rw_hist w' = rw_hist w @ batch @ [(True, a)]"
      using assms Cons x by (auto simp: rput_inv_def rnet_Put_def Let_def split: group_answer.splits)
    moreover have "own_only a (rw_hist w)" using assms(1) by (simp add: rput_inv_def)
    ultimately show ?thesis unfolding rput_inv_def by (intro conjI exI [of _ ?left]) auto
  qed
qed

lemma rnet_Put_answered:
  assumes inv: "rput_inv put s0 a r w" and call: "rnet_Put put server w a = (w', Some reply)"
    and not_redirected: "PutErr reply \<noteq> ErrWrongLeader"
  shows "\<exists>h. rw_hist w' = h @ [(True, a)] \<and> own_only a h \<and>
      PutErr reply = snd (put (run_puts put s0 (map snd h)) a) \<and>
      (\<not> r \<longrightarrow> own_performed put s0 h = 0)"
    and "PutErr reply \<noteq> OK \<Longrightarrow> rput_inv put s0 a r w'"
proof -
  obtain batch rest where sched: "rw_sched w = (batch, Answered) # rest"
    using call not_redirected by (auto simp: rnet_Put_def Let_def split: list.splits group_answer.splits)
  let ?h = "rw_hist w @ batch"
  obtain left where l: "plausible a left (rw_sched w)" "r \<or> \<not> left \<and> own_performed put s0 (rw_hist w) = 0"
    using inv by (auto simp: rput_inv_def)
  have w': "rw_srv w' = fst (put (run_puts put s0 (map snd ?h)) a)" "rw_hist w' = ?h @ [(True, a)]" "rw_sched w' = rest"
      "PutErr reply = snd (put (run_puts put s0 (map snd ?h)) a)"
    using call sched inv by (auto simp: rnet_Put_def Let_def rput_inv_def)
  have own: "own_only a ?h" using inv l(1) sched by (simp add: rput_inv_def)
  have zero: "\<not> r \<longrightarrow> own_performed put s0 ?h = 0"
    using l sched by (auto simp: own_performed_foreign)
  show "\<exists>h. rw_hist w' = h @ [(True, a)] \<and> own_only a h \<and>
      PutErr reply = snd (put (run_puts put s0 (map snd h)) a) \<and> (\<not> r \<longrightarrow> own_performed put s0 h = 0)"
    using w' own zero by blast
  show "rput_inv put s0 a r w'" if "PutErr reply \<noteq> OK"
    unfolding rput_inv_def
    using that w' own zero l sched by (auto intro!: exI [of _ left])
qed

text \<open>What the clerk reports about a put, given whether it was performed.\<close>

lemma RPut_loop_outcome:
  assumes "RClerk_Put_loop (rnet_Put put) n ck r w a = Inr (Some (e, ck', w'))"
    and "rput_inv put s0 a r w" and "length (rw_hist w') < 2 ^ 64"
  shows "own_performed put s0 (rw_hist w') \<le> 1 \<and>
     (e = OK \<and> own_performed put s0 (rw_hist w') = 1 \<or> e = ErrVersion \<and> own_performed put s0 (rw_hist w') = 0 \<or> e = ErrMaybe)"
  using assms
proof (induction n arbitrary: ck r w)
  case 0
  then show ?case by simp
next
  case (Suc n)
  obtain server where srv: "idx (servers ck) (leader ck) = Inr server"
    using Suc.prems(1) by (auto simp: bindr_eq_Inr)
  obtain w1 rep where call: "rnet_Put put server w a = (w1, rep)" by fastforce
  note again = rnet_Put_failed [OF Suc.prems(2) call]
  show ?case
  proof (cases "rep = None \<or> (\<exists>reply. rep = Some reply \<and> PutErr reply = ErrWrongLeader)")
    case True
    then have "RClerk_Put_loop (rnet_Put put) n (next_leader ck) True w1 a = Inr (Some (e, ck', w'))"
      using Suc.prems(1) srv call by auto
    then show ?thesis using Suc.IH again Suc.prems(3) by blast
  next
    case False
    then obtain reply where rep: "rep = Some reply" "PutErr reply \<noteq> ErrWrongLeader" by auto
    note ans = rnet_Put_answered [OF Suc.prems(2) call [unfolded rep(1)] rep(2)]
    obtain h where h: "rw_hist w1 = h @ [(True, a)]" "own_only a h"
      "PutErr reply = snd (put (run_puts put s0 (map snd h)) a)" "\<not> r \<longrightarrow> own_performed put s0 h = 0"
      using ans(1) by blast
    show ?thesis
    proof (cases "PutErr reply = ErrNoKey")
      case True
      then have "RClerk_Put_loop (rnet_Put put) n ck r w1 a = Inr (Some (e, ck', w'))"
        using Suc.prems(1) srv call rep by simp
      then show ?thesis using Suc.IH ans(2) True Suc.prems(3) by simp
    next
      case False
      have err: "PutErr reply = OK \<or> PutErr reply = ErrVersion"
        using h(3) put_err [of "run_puts put s0 (map snd h)" a] False by (auto split: if_splits)
      have ret: "w' = w1" "e = (if PutErr reply = ErrVersion then if r then ErrMaybe else ErrVersion else OK)"
        using Suc.prems(1) srv call rep err by (auto split: if_splits)
      have len: "length h < 2 ^ 64 - 1" using Suc.prems(3) h(1) ret(1) by simp
      note out = reply_outcome [OF h(2) len h(3)]
      have "own_performed put s0 (rw_hist w1) \<le> 1"
        using h(1,2) Suc.prems(3) ret(1) by (intro own_at_most_once [where a = a]) auto
      then show ?thesis using out h(1,4) ret err by auto
    qed
  qed
qed

end

section \<open>Properties\<close>

lemma replica_state_single:
  assumes "kv.apply_all sz rsm ms = Inr rsm'" and "in_order la ms = Some k"
    and "kv.exec new_RKVServer (take la log) = Inr (rsm_sm rsm) \<or> ms \<noteq> [] \<and> \<not> CommandValid (hd ms)"
    and "\<forall>m \<in> set ms. kv.faithful new_RKVServer log m"
  shows "as_single (rsm_sm rsm') = foldl single_do MakeKVServer (map op_Command (take k log))"
proof -
  have "kv.exec new_RKVServer (take k log) = Inr (rsm_sm rsm')"
    using assms(3)
  proof
    assume "kv.exec new_RKVServer (take la log) = Inr (rsm_sm rsm)"
    then show ?thesis using kv.replica_state [OF assms(1,2)] assms(4) by blast
  next
    assume "ms \<noteq> [] \<and> \<not> CommandValid (hd ms)"
    then obtain m ms1 where "ms = m # ms1" "\<not> CommandValid m" by (cases ms) auto
    then show ?thesis using kv.replica_state_restarted assms(1,2,4) by blast
  qed
  from exec_single [OF this] show ?thesis by (simp add: new_RKVServer_def as_single_def MakeKVServer_def)
qed

lemma replica_single:
  assumes "kv.apply_all sz rsm ms = Inr rsm'" and "in_order 0 ms = Some k" and "rsm_sm rsm = new_RKVServer"
    and "\<forall>m \<in> set ms. kv.faithful new_RKVServer log m"
  shows "as_single (rsm_sm rsm') = foldl single_do MakeKVServer (map op_Command (take k log))"
  using assms by (intro replica_state_single) auto

text \<open>
  A replica refines the single server. Take any log of operations and a replica that receives, in
  order, messages that say what the log says (commands of the log, or snapshots of the state
  after an index), starting from the table after the first entries or from a snapshot as after
  a restart: having reached index \<open>k\<close>, its table is the one the single server of kvsrv1
  has after executing the first \<open>k\<close> operations of the log. All replicas at the same index
  hence hold the same table.
\<close>

theorem replica_refines_single_server:
  assumes "kv.apply_all sz rsm ms = Inr rsm'" and "in_order la ms = Some k"
    and "kv.exec new_RKVServer (take la log) = Inr (rsm_sm rsm) \<or> ms \<noteq> [] \<and> \<not> CommandValid (hd ms)"
    and "\<forall>m \<in> set ms. kv.faithful new_RKVServer log m"
  shows "as_single (rsm_sm rsm') = foldl single_do MakeKVServer (map op_Command (take k log))"
  using assms by (rule replica_state_single)

text \<open>A put executed by a replica that then receives the snapshot of the state two operations on.\<close>

definition demo_log :: "kv_req Op list" where
  "demo_log = [\<lparr>op_Command = ReqPut \<lparr>PutKey = ''k'', PutValue = ''x'', PutVersion = 0\<rparr>, op_Id = 1\<rparr>,
     \<lparr>op_Command = ReqGet \<lparr>GetKey = ''k''\<rparr>, op_Id = 2\<rparr>]"

definition demo_kv :: "(kv_req, kv_rep, RKVServer) RSM" where
  "demo_kv = \<lparr>rsm_me = 0, rsm_rf = booted 1 0, maxraftstate = -1, rsm_sm = new_RKVServer,
     operation_channels = Map.empty, chan_buf = (\<lambda>_. []), chan_next = 0\<rparr>"

definition demo_put_msg :: "kv_req Op ApplyMsg" where
  "demo_put_msg = \<lparr>CommandValid = True, MsgCommand = Some (demo_log ! 0), CommandIndex = 1, SnapshotValid = False,
     MsgSnapshot = [], SnapshotTerm = 0, SnapshotIndex = 0\<rparr>"

theorem replica_refines_single_server_witness:
  "\<exists>rsm'. kv.apply_all (\<lambda>_. 0) demo_kv [demo_put_msg] = Inr rsm' \<and>
     as_single (rsm_sm rsm') = foldl single_do MakeKVServer (map op_Command (take 1 demo_log))"
proof -
  let ?rsm' = "demo_kv\<lparr>rsm_sm := fst (DoOp_Put new_RKVServer \<lparr>PutKey = ''k'', PutValue = ''x'', PutVersion = 0\<rparr>)\<rparr>"
  have run: "kv.apply_all (\<lambda>_. 0) demo_kv [demo_put_msg] = Inr ?rsm'"
    by (simp add: applyReader_msg_def demo_put_msg_def demo_log_def demo_kv_def map_prod_def split: prod.split)
  have "as_single (rsm_sm ?rsm') = foldl single_do MakeKVServer (map op_Command (take 1 demo_log))"
    by (rule replica_refines_single_server [OF run, of 0])
      (auto simp: demo_put_msg_def demo_kv_def kv.faithful_def demo_log_def)
  with run show ?thesis by blast
qed

text \<open>
  C16. What the replicated service's \<open>Clerk.Put\<close> reports is right. Whatever servers it meets and
  whatever the group does with the attempts it leaves behind (execute them at once, later, or
  never), if it returns then its put was performed at most once so far; \<open>OK\<close> means it was
  performed, \<open>ErrVersion\<close> means it was not, and otherwise it says \<open>ErrMaybe\<close>.
\<close>

theorem rclerk_put_outcome:
  assumes "RClerk_Put (rnet_Put rsrv_put) n ck w k x v = Inr (Some (e, ck', w'))"
    and "rw_hist w = []" and "plausible \<lparr>PutKey = k, PutValue = x, PutVersion = v\<rparr> False (rw_sched w)"
    and "length (rw_hist w') < 2 ^ 64"
  shows "own_performed rsrv_put (rw_srv w) (rw_hist w') \<le> 1 \<and>
     (e = OK \<and> own_performed rsrv_put (rw_srv w) (rw_hist w') = 1 \<or>
      e = ErrVersion \<and> own_performed rsrv_put (rw_srv w) (rw_hist w') = 0 \<or> e = ErrMaybe)"
proof -
  have "rput_inv rsrv_put (rw_srv w) \<lparr>PutKey = k, PutValue = x, PutVersion = v\<rparr> False w"
    using assms(2,3) by (auto simp: rput_inv_def)
  from kr.RPut_loop_outcome [OF assms(1) [unfolded RClerk_Put_def] this assms(4)] show ?thesis .
qed

lemmas rkv_eval = RClerk_Put_def rnet_Put_def rsrv_put_def DoOp_Put_def new_RKVServer_def
  zeroPutReply_def err_defs run_puts_def next_leader_def MakeClerk_def Let_def

text \<open>The first server redirects after handing the put to Raft, the group executes it late, the second answers.\<close>

theorem rclerk_put_outcome_witness:
  "\<exists>ck w'. RClerk_Put (rnet_Put rsrv_put) 2 (MakeClerk [''s0'', ''s1''])
      \<lparr>rw_srv = new_RKVServer, rw_sched = [([], Redirected), ([(True, \<lparr>PutKey = ''k'', PutValue = ''x'', PutVersion = 0\<rparr>)], Answered)],
       rw_hist = []\<rparr> ''k'' ''x'' 0 = Inr (Some (ErrMaybe, ck, w')) \<and>
     own_performed rsrv_put new_RKVServer (rw_hist w') \<le> 1"
proof -
  let ?w = "\<lparr>rw_srv = new_RKVServer,
      rw_sched = [([], Redirected), ([(True, \<lparr>PutKey = ''k'', PutValue = ''x'', PutVersion = 0\<rparr>)], Answered)], rw_hist = []\<rparr>"
  obtain ck w' where r: "RClerk_Put (rnet_Put rsrv_put) 2 (MakeClerk [''s0'', ''s1'']) ?w ''k'' ''x'' 0 =
      Inr (Some (ErrMaybe, ck, w'))" "length (rw_hist w') = 2"
    by (simp add: rkv_eval numeral_2_eq_2)
  then have "own_performed rsrv_put new_RKVServer (rw_hist w') \<le> 1"
    using rclerk_put_outcome [OF r(1)] by simp
  with r(1) show ?thesis by blast
qed

text \<open>
  C23. The clerk of the replicated service does not handle \<open>ErrNoKey\<close> as an answer to a put:
  when the key does not exist and the version is not 0, every attempt that reaches the group is
  answered \<open>ErrNoKey\<close>, and \<open>Put\<close> repeats the call forever.
\<close>

theorem rclerk_put_never_returns:
  assumes "leader ck < length (servers ck)" and "rsrv_lookup kv k = None" and "v \<noteq> 0"
  shows "RClerk_Put (\<lambda>srv s a. (fst (rsrv_put s a), Some \<lparr>PutErr = snd (rsrv_put s a)\<rparr>)) n ck kv k x v = Inr None"
proof -
  have "rsrv_put kv \<lparr>PutKey = k, PutValue = x, PutVersion = v\<rparr> = (kv, ErrNoKey)"
    using kr.put_missing [of kv "\<lparr>PutKey = k, PutValue = x, PutVersion = v\<rparr>"] assms(2,3) by simp
  then show ?thesis
    unfolding RClerk_Put_def using assms(1) by (induction n) simp_all
qed

theorem rclerk_put_never_returns_witness:
  "RClerk_Put (\<lambda>srv s a. (fst (rsrv_put s a), Some \<lparr>PutErr = snd (rsrv_put s a)\<rparr>)) 1000
     (MakeClerk [''s0'']) new_RKVServer ''k'' ''x'' 1 = Inr None"
  by (rule rclerk_put_never_returns) (simp_all add: MakeClerk_def new_RKVServer_def rsrv_lookup_def)

end
