(* ===== verification/LinearRaft.thy ===== *)
theory LinearRaft
  imports Linear KvRaft
begin

text \<open>
  Linearizability of what the clients of the replicated key/value service record (kvraft1 under kvtest1/porcupine.go), for a
  group that executes one sequence of operations. The clients and the check are those of theory \<open>Linear\<close>; the clerk is
  the one that looks for the leader. The group is the table of kvraft1's \<open>DoOp\<close>, on which requests are executed one
  after the other. A request that the clerk gives up, because the server cannot be reached or answers
  that it is not the leader (any more), may have been handed to Raft: the group may execute it later, even after the
  clerk has returned and any number of other operations have been executed, or never.

  Raft, \<open>Submit\<close> and the leaders are not part of this theory: that the replicas execute one sequence is an assumption here.
  It is shown in theories \<open>RaftSafety\<close> and \<open>Spec2Isabelle\<close> for runs with atomic elections and without
  snapshots, and that \<open>Submit\<close> answers with the result of its own operation in theory \<open>Rsm\<close>; outside of that scope the code
  does not guarantee it (\<open>two_leaders_possible\<close>, \<open>stale_append_acknowledged\<close>).

  Clients take the version of a put from what they have read, or 0. For other versions
  the log is not always linearizable: a copy left behind with a version that the key reaches after the clerk
  has returned \<open>ErrMaybe\<close> is performed outside the two clock readings of its operation (\<open>late_copy_not_linearizable\<close>).
\<close>

section \<open>The clerk and the group\<close>

definition RPut_reply :: "bool \<Rightarrow> Err \<Rightarrow> Err option" where
  "RPut_reply is_resend e =
     (if e = ErrVersion \<and> \<not> is_resend then Some ErrVersion
      else if e = ErrVersion \<and> is_resend then Some ErrMaybe
      else if e = OK then Some OK else None)"

definition RGet_reply :: "GetReply \<Rightarrow> (string \<times> Tversion \<times> Err) option" where
  "RGet_reply reply =
     (if GetErr reply = ErrNoKey then Some (GetValue reply, GetVersion reply, ErrNoKey)
      else if GetErr reply = OK then Some (GetValue reply, GetVersion reply, OK) else None)"

text \<open>The loops of the clerk repeat this; an answer \<open>ErrWrongLeader\<close> counts as none.\<close>

lemma RClerk_Put_iteration:
  assumes "leader ck < length (servers ck)"
  shows "RClerk_Put_loop call (Suc n) ck r w a =
     (case call (servers ck ! leader ck) w a of
        (w', None) \<Rightarrow> RClerk_Put_loop call n (next_leader ck) True w' a
      | (w', Some reply) \<Rightarrow>
          if PutErr reply = ErrWrongLeader then RClerk_Put_loop call n (next_leader ck) True w' a
          else (case RPut_reply r (PutErr reply) of
                  None \<Rightarrow> RClerk_Put_loop call n ck r w' a | Some e \<Rightarrow> Inr (Some (e, ck, w'))))"
  using assms by (auto simp: RPut_reply_def err_defs split: prod.split option.split)

lemma RClerk_Get_iteration:
  assumes "leader ck < length (servers ck)"
  shows "RClerk_Get call (Suc n) ck w k =
     (case call (servers ck ! leader ck) w \<lparr>GetKey = k\<rparr> of
        (w', None) \<Rightarrow> RClerk_Get call n (next_leader ck) w' k
      | (w', Some reply) \<Rightarrow>
          if GetErr reply = ErrWrongLeader then RClerk_Get call n (next_leader ck) w' k
          else (case RGet_reply reply of
                  None \<Rightarrow> RClerk_Get call n ck w' k | Some r \<Rightarrow> Inr (Some (r, ck, w'))))"
  using assms by (auto simp: RGet_reply_def err_defs split: prod.split option.split)

text \<open>The group as one executor of \<open>DoOp\<close>: the sequence of operations that its replicas are assumed to agree on.\<close>

definition group_service :: "RKVServer service" where
  "group_service =
     \<lparr>sv_init = new_RKVServer, sv_put = rsrv_put, sv_get = (\<lambda>kv k. DoOp_Get kv \<lparr>GetKey = k\<rparr>),
      sv_put_reply = RPut_reply, sv_get_reply = RGet_reply, sv_late = True, sv_known = True\<rparr>"

interpretation group: recorded_store rsrv_lookup group_service
proof -
  have eqs: "sv_put group_service = rsrv_put" "sv_init group_service = new_RKVServer"
    "sv_put_reply group_service = RPut_reply" "sv_known group_service" by (simp_all add: group_service_def)
  show "recorded_store rsrv_lookup group_service"
  proof (rule recorded_store.intro, unfold eqs)
    show "versioned_store rsrv_lookup rsrv_put" by unfold_locales
    show "recorded_store_axioms rsrv_lookup group_service"
    proof
      fix s k x v e assume "sv_get_reply group_service (sv_get group_service s k) = Some (x, v, e)"
      then show "x = StValue (store_abs rsrv_lookup s k)"
        by (auto simp: group_service_def DoOp_Get_def zeroGetReply_def RGet_reply_def store_abs_def rsrv_lookup_def
            KvModel_Init_def err_defs split: option.splits if_splits)
    qed (simp_all add: eqs rsrv_lookup_def new_RKVServer_def RPut_reply_def err_defs fun_eq_iff)
  qed
qed

lemma group_answers:
  assumes "(lin_step group_service)\<^sup>*\<^sup>* (lin_init group_service) s"
  shows "\<not> unknown_answer s"
  using assms
proof (induction rule: rtranclp_induct)
  case base
  then show ?case by (simp add: unknown_answer_def lin_init_def)
next
  case (step s s')
  have "RPut_reply r e \<noteq> Some ErrNoKey" for r e by (simp add: RPut_reply_def err_defs)
  then show ?case using known_answer_step [OF step(2)] step.IH by (simp add: group_service_def)
qed

section \<open>Properties\<close>

text \<open>
  C10. The clerks of kvraft1 are linearizable over a group that executes one sequence of operations. Any number of clients get
  and put any keys through clerks that look for the leader, at the same time; requests and answers are lost, servers turn out not
  to lead, and requests that were given up are executed by \<open>DoOp\<close> at any later time or never, but all in one sequence, which
  is an assumption on the group and not derived from Raft here. When every put was called with a version that its key had
  reached (a version that was read, or 0) and all clients have finished, every part of the partitioned log is linearizable
  and the check of the tests passes, with any search that reports an illegal history only when there is no order; the group executes fewer than \<open>2 ^ 64\<close> puts.
\<close>

theorem group_history_linearizable:
  assumes "(lin_step group_service)\<^sup>*\<^sup>* (lin_init group_service) s" and "\<forall>c. l_cl s c = None"
    and "length (l_hist s) < 2 ^ 64" and "sound_search search"
  shows "(\<forall>h \<in> set (KvModel_Partition (l_log s)). linearizable h) \<and> checkPorcupine search (l_log s)"
  using group.log_linearizable [OF assms(1-3) _ assms(4)] group_answers [OF assms(1)] by (simp add: unknown_answer_def)

text \<open>
  Two clients: a put that is given up once and executed late, so that its repetition is refused and it reports \<open>ErrMaybe\<close>, and a get
  that starts later and sees its value.
\<close>

lemmas group_eval = lin_init_def lin_put_def call_defs group_service_def rsrv_put_def DoOp_Put_def DoOp_Get_def new_RKVServer_def
  zeroPutReply_def zeroGetReply_def RPut_reply_def RGet_reply_def known_version_def n_versions_def Let_def

lemma group_demo_run:
  "\<exists>s. (lin_step group_service)\<^sup>*\<^sup>* (lin_init group_service) s \<and> l_cl s = (\<lambda>_. None) \<and> l_hist s = [lin_put, lin_put] \<and>
     l_log s = lin_demo_log"
proof -
  let ?S = group_service
  define s1 where "s1 = at_call 0 (PutCall lin_put False 0) (lin_init ?S)"
  define s2 where "s2 = Put_call ?S 0 lin_put False 0 LostRequest s1"
  define s3 where "s3 = s2\<lparr>l_clock := 5\<rparr>"
  define s4 where "s4 = at_call 1 (GetCall ''k'' 5) s3"
  define s5 where "s5 = execute ?S lin_put (s4\<lparr>l_left := remove1 lin_put (l_left s4)\<rparr>)"
  define s6 where "s6 = Put_call ?S 0 lin_put True 0 Delivered s5"
  define s7 where "s7 = Get_call ?S 1 ''k'' 5 Delivered s6"
  define s8 where "s8 = at_call 0 (Recording (put_operation lin_put ErrMaybe 0 5 0)) s7"
  define s9 where "s9 = s8\<lparr>l_cl := (l_cl s8)(0 := None), l_log := l_log s8 @ [put_operation lin_put ErrMaybe 0 5 0]\<rparr>"
  define s10 where "s10 = at_call 1 (Recording (get_operation ''k'' ''x'' 1 OK 5 5 1)) s9"
  define s11 where "s11 = s10\<lparr>l_cl := (l_cl s10)(1 := None), l_log := l_log s10 @ [get_operation ''k'' ''x'' 1 OK 5 5 1]\<rparr>"
  note defs = s1_def s2_def s3_def s4_def s5_def s6_def s7_def s8_def s9_def s10_def s11_def group_eval
  have "lin_step ?S (lin_init ?S) s1"
    unfolding s1_def using lin_step.put [of "lin_init ?S" 0 ?S lin_put] by (simp add: group_eval)
  moreover have "lin_step ?S s1 s2" unfolding s2_def by (rule lin_step.put_call) (simp add: s1_def)
  moreover have "lin_step ?S s2 s3" unfolding s3_def by (rule lin_step.tick) (simp add: defs)
  moreover have "lin_step ?S s3 s4" unfolding s4_def using lin_step.get [of s3 1 ?S "''k''"] by (simp add: defs)
  moreover have "lin_step ?S s4 s5" unfolding s5_def by (rule lin_step.late) (simp add: defs)
  moreover have "lin_step ?S s5 s6" unfolding s6_def by (rule lin_step.put_call) (simp add: defs)
  moreover have "lin_step ?S s6 s7" unfolding s7_def by (rule lin_step.get_call) (simp add: defs)
  moreover have "lin_step ?S s7 s8" unfolding s8_def using lin_step.put_end [of s7 0 lin_put 0 ErrMaybe] by (simp add: defs)
  moreover have "lin_step ?S s8 s9" unfolding s9_def by (rule lin_step.append) (simp add: s8_def)
  moreover have "lin_step ?S s9 s10" unfolding s10_def using lin_step.get_end [of s9 1 "''k''" 5 "''x''" 1 OK] by (simp add: defs)
  moreover have "lin_step ?S s10 s11" unfolding s11_def by (rule lin_step.append) (simp add: s10_def)
  ultimately have "(lin_step ?S)\<^sup>*\<^sup>* (lin_init ?S) s11" by (meson converse_rtranclp_into_rtranclp rtranclp.rtrancl_refl)
  moreover have "l_cl s11 = (\<lambda>_. None)" "l_hist s11 = [lin_put, lin_put]" "l_log s11 = lin_demo_log"
    by (auto simp: defs lin_demo_log_def fun_eq_iff)
  ultimately show ?thesis by blast
qed

theorem group_history_linearizable_witness: "linearizable lin_demo_log \<and> checkPorcupine lin_search lin_demo_log"
proof -
  obtain s where s: "(lin_step group_service)\<^sup>*\<^sup>* (lin_init group_service) s" "l_cl s = (\<lambda>_. None)"
      "l_hist s = [lin_put, lin_put]" "l_log s = lin_demo_log"
    using group_demo_run by blast
  have "(\<forall>h \<in> set (KvModel_Partition (l_log s)). linearizable h) \<and> checkPorcupine lin_search (l_log s)"
    by (rule group_history_linearizable [OF s(1)]) (use s lin_search_sound in simp_all)
  then show ?thesis using s(4) lin_demo_partition by simp
qed

section \<open>Why the versions have to be known\<close>

text \<open>Operations that are answered at the first attempt while nothing else happens.\<close>

lemma put_at_once:
  assumes "l_cl s c = None" and "\<not> sv_known S" and "sv_put_reply S False (snd (sv_put S (l_srv s) a)) = Some e"
  shows "(lin_step S)\<^sup>*\<^sup>* s ((execute S a s)\<lparr>l_log := l_log s @ [put_operation a e (l_clock s) (l_clock s) (int c)]\<rparr>)"
proof -
  let ?op = "put_operation a e (l_clock s) (l_clock s) (int c)"
  define s1 where "s1 = at_call c (PutCall a False (l_clock s)) s"
  define s2 where "s2 = Put_call S c a False (l_clock s) Delivered s1"
  define s3 where "s3 = at_call c (Recording ?op) s2"
  define s4 where "s4 = s3\<lparr>l_cl := (l_cl s3)(c := None), l_log := l_log s3 @ [?op]\<rparr>"
  note defs = s1_def s2_def s3_def s4_def call_defs
  have "lin_step S s s1" unfolding s1_def using assms(1,2) by (intro lin_step.put) simp_all
  moreover have "lin_step S s1 s2" unfolding s2_def by (rule lin_step.put_call) (simp add: s1_def)
  moreover have "lin_step S s2 s3"
    unfolding s3_def using lin_step.put_end [of s2 c a "l_clock s" e S] assms(3) by (simp add: defs)
  moreover have "lin_step S s3 s4" unfolding s4_def by (rule lin_step.append) (simp add: s3_def)
  ultimately have "(lin_step S)\<^sup>*\<^sup>* s s4" by (meson converse_rtranclp_into_rtranclp rtranclp.rtrancl_refl)
  moreover have "s4 = (execute S a s)\<lparr>l_log := l_log s @ [?op]\<rparr>"
    using assms(1,3) by (simp add: defs fun_upd_idem)
  ultimately show ?thesis by simp
qed

text \<open>A put that is given up once, leaves a copy behind and is answered at the second attempt.\<close>

lemma put_second_attempt:
  assumes "l_cl s c = None" and "\<not> sv_known S" and "sv_late S" and "sv_put_reply S True (snd (sv_put S (l_srv s) a)) = Some e"
  shows "(lin_step S)\<^sup>*\<^sup>* s ((execute S a s)\<lparr>l_left := a # l_left s,
           l_log := l_log s @ [put_operation a e (l_clock s) (l_clock s) (int c)]\<rparr>)"
proof -
  let ?op = "put_operation a e (l_clock s) (l_clock s) (int c)"
  define s1 where "s1 = at_call c (PutCall a False (l_clock s)) s"
  define s2 where "s2 = Put_call S c a False (l_clock s) LostRequest s1"
  define s3 where "s3 = Put_call S c a True (l_clock s) Delivered s2"
  define s4 where "s4 = at_call c (Recording ?op) s3"
  define s5 where "s5 = s4\<lparr>l_cl := (l_cl s4)(c := None), l_log := l_log s4 @ [?op]\<rparr>"
  note defs = s1_def s2_def s3_def s4_def s5_def call_defs
  have "lin_step S s s1" unfolding s1_def using assms(1,2) by (intro lin_step.put) simp_all
  moreover have "lin_step S s1 s2" unfolding s2_def by (rule lin_step.put_call) (simp add: s1_def)
  moreover have "lin_step S s2 s3" unfolding s3_def by (rule lin_step.put_call) (simp add: defs)
  moreover have "lin_step S s3 s4"
    unfolding s4_def using lin_step.put_end [of s3 c a "l_clock s" e S] assms(4) by (simp add: defs)
  moreover have "lin_step S s4 s5" unfolding s5_def by (rule lin_step.append) (simp add: s4_def)
  ultimately have "(lin_step S)\<^sup>*\<^sup>* s s5" by (meson converse_rtranclp_into_rtranclp rtranclp.rtrancl_refl)
  moreover have "s5 = (execute S a s)\<lparr>l_left := a # l_left s, l_log := l_log s @ [?op]\<rparr>"
    using assms(1,3,4) by (simp add: defs fun_upd_idem)
  ultimately show ?thesis by simp
qed

lemma get_at_once:
  assumes "l_cl s c = None" and "sv_get_reply S (sv_get S (l_srv s) k) = Some (x, v, e)"
  shows "(lin_step S)\<^sup>*\<^sup>* s (s\<lparr>l_log := l_log s @ [get_operation k x v e (l_clock s) (l_clock s) (int c)]\<rparr>)"
proof -
  let ?op = "get_operation k x v e (l_clock s) (l_clock s) (int c)"
  define s1 where "s1 = at_call c (GetCall k (l_clock s)) s"
  define s2 where "s2 = Get_call S c k (l_clock s) Delivered s1"
  define s3 where "s3 = at_call c (Recording ?op) s2"
  define s4 where "s4 = s3\<lparr>l_cl := (l_cl s3)(c := None), l_log := l_log s3 @ [?op]\<rparr>"
  note defs = s1_def s2_def s3_def s4_def call_defs
  have "lin_step S s s1" unfolding s1_def using assms(1) by (rule lin_step.get)
  moreover have "lin_step S s1 s2" unfolding s2_def by (rule lin_step.get_call) (simp add: s1_def)
  moreover have "lin_step S s2 s3"
    unfolding s3_def using lin_step.get_end [of s2 c k "l_clock s" x v e S] assms(2) by (simp add: defs)
  moreover have "lin_step S s3 s4" unfolding s4_def by (rule lin_step.append) (simp add: s3_def)
  ultimately have "(lin_step S)\<^sup>*\<^sup>* s s4" by (meson converse_rtranclp_into_rtranclp rtranclp.rtrancl_refl)
  moreover have "s4 = s\<lparr>l_log := l_log s @ [?op]\<rparr>" using assms by (simp add: defs fun_upd_idem)
  ultimately show ?thesis by simp
qed

text \<open>Operations one after the other have only one order.\<close>

lemma sequential_linearizable:
  assumes "\<forall>op \<in> set h. OpReturn op = OpCall op" and "sorted (map OpCall h)" and "distinct (map OpCall h)" and "linearizable h"
  shows "run_model KvModel_Init h \<noteq> None"
proof -
  obtain L where L: "mset L = mset h" "sorted_wrt (\<lambda>a b. OpCall a \<le> OpReturn b) L" "run_model KvModel_Init L \<noteq> None"
    using assms(4) by (auto simp: linearizable_def)
  have set: "set L = set h" using L(1) by (rule mset_eq_setD)
  have "sorted_wrt (\<lambda>a b. OpCall a \<le> OpCall b) L"
    by (rule sorted_wrt_mono_rel [OF _ L(2)]) (use assms(1) set in auto)
  then have "sorted (map OpCall L)" by (simp add: sorted_wrt_map)
  moreover have "distinct (map OpCall L)"
    using assms(3) mset_eq_imp_distinct_iff [of "map OpCall L" "map OpCall h"] L(1) by simp
  moreover have "inj_on OpCall (set L \<union> set h)" using assms(3) set by (simp add: distinct_map)
  ultimately have "L = h" using map_sorted_distinct_set_unique [of OpCall L h] assms(2,3) set by simp
  then show ?thesis using L(3) by simp
qed

definition ahead_log :: "Operation list" where
  "ahead_log =
     [put_operation \<lparr>PutKey = ''k'', PutValue = ''x'', PutVersion = 0\<rparr> OK 0 0 0,
      put_operation \<lparr>PutKey = ''k'', PutValue = ''y'', PutVersion = 2\<rparr> ErrMaybe 1 1 1,
      put_operation \<lparr>PutKey = ''k'', PutValue = ''z'', PutVersion = 1\<rparr> OK 2 2 0,
      get_operation ''k'' ''y'' 3 OK 3 3 0]"

lemma ahead_log_not_linearizable: "\<not> linearizable ahead_log"
proof
  assume "linearizable ahead_log"
  then have "run_model KvModel_Init ahead_log \<noteq> None"
    by (intro sequential_linearizable) (simp_all add: ahead_log_def)
  then show False by (simp add: ahead_log_def KvModel_Step_def KvModel_Init_def err_defs)
qed

text \<open>
  Without the condition on the versions the log need not be linearizable: a put of version 2 is sent while the key is at
  version 1, reports \<open>ErrMaybe\<close>, and its copy is performed when another put has brought the key to version 2.
\<close>

theorem late_copy_not_linearizable:
  "\<exists>s. (lin_step (group_service\<lparr>sv_known := False\<rparr>))\<^sup>*\<^sup>* (lin_init (group_service\<lparr>sv_known := False\<rparr>)) s \<and>
     (\<forall>c. l_cl s c = None) \<and> l_log s = ahead_log \<and> \<not> (\<forall>h \<in> set (KvModel_Partition (l_log s)). linearizable h)"
proof -
  let ?S = "group_service\<lparr>sv_known := False\<rparr>"
  let ?x = "\<lparr>PutKey = ''k'', PutValue = ''x'', PutVersion = 0\<rparr>" and ?y = "\<lparr>PutKey = ''k'', PutValue = ''y'', PutVersion = 2\<rparr>"
    and ?z = "\<lparr>PutKey = ''k'', PutValue = ''z'', PutVersion = 1\<rparr>"
  define s1 where "s1 = (execute ?S ?x (lin_init ?S))\<lparr>l_log := [put_operation ?x OK 0 0 0]\<rparr>"
  define s2 where "s2 = s1\<lparr>l_clock := 1\<rparr>"
  define s3 where "s3 = (execute ?S ?y s2)\<lparr>l_left := [?y], l_log := l_log s2 @ [put_operation ?y ErrMaybe 1 1 1]\<rparr>"
  define s4 where "s4 = s3\<lparr>l_clock := 2\<rparr>"
  define s5 where "s5 = (execute ?S ?z s4)\<lparr>l_log := l_log s4 @ [put_operation ?z OK 2 2 0]\<rparr>"
  define s6 where "s6 = s5\<lparr>l_clock := 3\<rparr>"
  define s7 where "s7 = execute ?S ?y (s6\<lparr>l_left := remove1 ?y (l_left s6)\<rparr>)"
  define s8 where "s8 = s7\<lparr>l_log := l_log s7 @ [get_operation ''k'' ''y'' 3 OK 3 3 0]\<rparr>"
  note defs = s1_def s2_def s3_def s4_def s5_def s6_def s7_def s8_def group_eval
  have "(lin_step ?S)\<^sup>*\<^sup>* (lin_init ?S) s1"
    using put_at_once [of "lin_init ?S" 0 ?S ?x OK] by (simp add: defs)
  also have "(lin_step ?S)\<^sup>*\<^sup>* s1 s2" unfolding s2_def by (rule r_into_rtranclp, rule lin_step.tick) (simp add: defs)
  also have "(lin_step ?S)\<^sup>*\<^sup>* s2 s3" using put_second_attempt [of s2 1 ?S ?y ErrMaybe] by (simp add: defs)
  also have "(lin_step ?S)\<^sup>*\<^sup>* s3 s4" unfolding s4_def by (rule r_into_rtranclp, rule lin_step.tick) (simp add: defs)
  also have "(lin_step ?S)\<^sup>*\<^sup>* s4 s5" using put_at_once [of s4 0 ?S ?z OK] by (simp add: defs)
  also have "(lin_step ?S)\<^sup>*\<^sup>* s5 s6" unfolding s6_def by (rule r_into_rtranclp, rule lin_step.tick) (simp add: defs)
  also have "(lin_step ?S)\<^sup>*\<^sup>* s6 s7" unfolding s7_def by (rule r_into_rtranclp, rule lin_step.late) (simp add: defs)
  also have "(lin_step ?S)\<^sup>*\<^sup>* s7 s8" using get_at_once [of s7 0 ?S "''k''" "''y''" 3 OK] by (simp add: defs)
  finally have run: "(lin_step ?S)\<^sup>*\<^sup>* (lin_init ?S) s8" .
  have log: "l_log s8 = ahead_log" and fin: "\<forall>c. l_cl s8 c = None" by (simp_all add: defs ahead_log_def)
  have "KvModel_Partition ahead_log = [ahead_log]" by (simp add: Partition_eq ahead_log_def)
  then have "\<not> (\<forall>h \<in> set (KvModel_Partition (l_log s8)). linearizable h)" using log ahead_log_not_linearizable by simp
  then show ?thesis using run log fin by blast
qed

end
