(* ===== verification/RaftSpec.thy ===== *)
theory RaftSpec
  imports RaftLocal "HOL-Library.Sublist"
begin

text \<open>
  What the peers of a Raft group achieve together, as an abstract protocol: terms, logs, votes
  and acknowledgements, without messages, timers, roles or indices per follower. For each term
  the protocol keeps the log of that term's leader (\<open>tlog\<close>); an \<open>AppendEntries\<close> is the
  merge of a piece of it. The quorums are the interface \<open>quorum_system\<close>; the majorities
  that raft.go counts provide it. Theory \<open>RaftSafety\<close> shows that the peers of theory
  \<open>RaftCluster\<close> run this protocol.
\<close>

section \<open>Quorums\<close>

locale quorum_system =
  fixes quorum :: "nat set \<Rightarrow> bool"
  assumes quorum_inter: "quorum A \<Longrightarrow> quorum B \<Longrightarrow> A \<inter> B \<noteq> {}"
    and quorum_mono: "quorum A \<Longrightarrow> A \<subseteq> B \<Longrightarrow> quorum B"
begin

lemma quorum_common:
  assumes "quorum A" and "quorum B"
  obtains v where "v \<in> A" and "v \<in> B"
  using quorum_inter [OF assms] by blast

text \<open>Two candidates cannot both collect a quorum of the votes of one ballot.\<close>

lemma quorum_choice:
  assumes "quorum {v. f v = Some c}" and "quorum {v. f v = Some d}"
  shows "c = d"
  using quorum_inter [OF assms] by auto

end

text \<open>The majorities of \<open>n\<close> peers, as the code counts them.\<close>

definition majority :: "nat \<Rightarrow> nat set \<Rightarrow> bool" where
  "majority n A \<longleftrightarrow> n div 2 < card (A \<inter> {..<n})"

interpretation maj: quorum_system "majority n" for n
proof
  show "A \<inter> B \<noteq> {}" if "majority n A" and "majority n B" for A B
  proof
    assume "A \<inter> B = {}"
    then have "card (A \<inter> {..<n}) + card (B \<inter> {..<n}) = card ((A \<union> B) \<inter> {..<n})"
      by (subst card_Un_disjoint [symmetric]) (auto simp: Int_Un_distrib2)
    also have "\<dots> \<le> n" using card_mono [of "{..<n}" "(A \<union> B) \<inter> {..<n}"] by simp
    finally show False using that by (simp add: majority_def)
  qed
  show "majority n B" if "majority n A" and "A \<subseteq> B" for A B
  proof -
    have "card (A \<inter> {..<n}) \<le> card (B \<inter> {..<n})" using that(2) by (intro card_mono) auto
    then show ?thesis using that(1) by (simp add: majority_def)
  qed
qed

section \<open>The protocol\<close>

record 'c spec =
  sterm :: "nat \<Rightarrow> nat"
  slog :: "nat \<Rightarrow> 'c LogEntry list"
  scommit :: "nat \<Rightarrow> nat"
  sballot :: "nat \<Rightarrow> nat \<Rightarrow> nat option"
  tlog :: "nat \<Rightarrow> 'c LogEntry list"
  acks :: "nat \<Rightarrow> nat \<Rightarrow> nat"

text \<open>
  \<open>sballot v t\<close> is the vote of \<open>v\<close> in term \<open>t\<close>, \<open>tlog t\<close> the log of the leader of
  term \<open>t\<close> (empty before the election is won), and \<open>acks v t\<close> the length of the prefix of
  \<open>tlog t\<close> that \<open>v\<close> has confirmed to that leader.
\<close>

definition leads :: "(nat set \<Rightarrow> bool) \<Rightarrow> 'c spec \<Rightarrow> nat \<Rightarrow> nat \<Rightarrow> bool" where
  "leads Q a c t \<longleftrightarrow> Q {v. sballot a v t = Some c}"

definition valid :: "'c spec \<Rightarrow> nat \<Rightarrow> nat \<Rightarrow> bool" where
  "valid a t k \<longleftrightarrow> k < length (tlog a t) \<and> Term (tlog a t ! k) = t"

text \<open>An entry of its leader's own term that a quorum has confirmed to that leader.\<close>

definition chosen :: "(nat set \<Rightarrow> bool) \<Rightarrow> 'c spec \<Rightarrow> nat \<Rightarrow> nat \<Rightarrow> bool" where
  "chosen Q a t k \<longleftrightarrow> valid a t k \<and> Q {v. k < acks a v t}"

text \<open>An entry that will never be chosen: a quorum has left the term without confirming it.\<close>

definition dead :: "(nat set \<Rightarrow> bool) \<Rightarrow> 'c spec \<Rightarrow> nat \<Rightarrow> nat \<Rightarrow> bool" where
  "dead Q a t k \<longleftrightarrow> (\<exists>A. Q A \<and> (\<forall>v \<in> A. t < sterm a v \<and> acks a v t \<le> k))"

definition agrees :: "'c spec \<Rightarrow> 'c LogEntry list \<Rightarrow> nat \<Rightarrow> nat \<Rightarrow> bool" where
  "agrees a L t k \<longleftrightarrow> prefix (take (Suc k) (tlog a t)) L"

text \<open>A log whose first \<open>m\<close> commands are known to be chosen, by a leader of term at most \<open>t\<close>.\<close>

definition known :: "(nat set \<Rightarrow> bool) \<Rightarrow> 'c spec \<Rightarrow> 'c LogEntry list \<Rightarrow> nat \<Rightarrow> nat \<Rightarrow> bool" where
  "known Q a L t m \<longleftrightarrow> m = 0 \<or> m < length L \<and>
     (\<exists>u k. chosen Q a u k \<and> u \<le> t \<and> m \<le> k \<and> prefix (take (Suc m) L) (tlog a u))"

definition newer :: "'c LogEntry list \<Rightarrow> 'c LogEntry list \<Rightarrow> bool" where
  "newer L M \<longleftrightarrow> Term (last M) < Term (last L) \<or> Term (last M) = Term (last L) \<and> length M \<le> length L"

inductive spec_step :: "(nat set \<Rightarrow> bool) \<Rightarrow> 'c spec \<Rightarrow> 'c spec \<Rightarrow> bool" for Q where
  adopt: "sterm a v < t \<Longrightarrow> spec_step Q a (a\<lparr>sterm := (sterm a)(v := t)\<rparr>)"
| vote: "sterm a v \<le> t \<Longrightarrow> 0 < t \<Longrightarrow> sballot a v t = None \<Longrightarrow> c = v \<or> t \<le> sterm a c \<Longrightarrow>
     (c \<noteq> v \<Longrightarrow> sterm a c = t \<Longrightarrow> tlog a t = [] \<Longrightarrow> newer (slog a c) (slog a v)) \<Longrightarrow>
     spec_step Q a (a\<lparr>sterm := (sterm a)(v := t), sballot := (sballot a)(v := (sballot a v)(t := Some c))\<rparr>)"
| elect: "sterm a c = t \<Longrightarrow> leads Q a c t \<Longrightarrow> tlog a t = [] \<Longrightarrow>
     spec_step Q a (a\<lparr>tlog := (tlog a)(t := slog a c),
                      acks := (acks a)(c := (acks a c)(t := length (slog a c)))\<rparr>)"
| append: "sterm a c = t \<Longrightarrow> leads Q a c t \<Longrightarrow> tlog a t \<noteq> [] \<Longrightarrow> Term e = t \<Longrightarrow>
     spec_step Q a (a\<lparr>slog := (slog a)(c := slog a c @ [e]), tlog := (tlog a)(t := tlog a t @ [e]),
                      acks := (acks a)(c := (acks a c)(t := Suc (length (tlog a t))))\<rparr>)"
| merge: "sterm a v \<le> t \<Longrightarrow> 0 < p \<Longrightarrow> p \<le> length (slog a v) \<Longrightarrow> p + length es \<le> length (tlog a t) \<Longrightarrow>
     Term (slog a v ! (p - 1)) = Term (tlog a t ! (p - 1)) \<Longrightarrow>
     es = take (length es) (drop p (tlog a t)) \<Longrightarrow>
     spec_step Q a (a\<lparr>sterm := (sterm a)(v := t), slog := (slog a)(v := merge_log (slog a v) p es),
                      acks := (acks a)(v := (acks a v)(t := max (acks a v t) (p + length es)))\<rparr>)"
| learn: "known Q a (slog a v) (sterm a v) m \<Longrightarrow> spec_step Q a (a\<lparr>scommit := (scommit a)(v := m)\<rparr>)"

definition spec_init :: "'c spec" where
  "spec_init = \<lparr>sterm = (\<lambda>_. 0), slog = (\<lambda>_. [nilEntry]), scommit = (\<lambda>_. 0), sballot = (\<lambda>_ _. None),
     tlog = (\<lambda>_. []), acks = (\<lambda>_ _. 0)\<rparr>"

section \<open>What only grows\<close>

definition grows :: "'c spec \<Rightarrow> 'c spec \<Rightarrow> bool" where
  "grows a a' \<longleftrightarrow> (\<forall>v. sterm a v \<le> sterm a' v) \<and> (\<forall>t. prefix (tlog a t) (tlog a' t)) \<and>
     (\<forall>v t. acks a v t \<le> acks a' v t) \<and> (\<forall>v t. t < sterm a v \<longrightarrow> acks a' v t = acks a v t) \<and>
     (\<forall>v t c. sballot a v t = Some c \<longrightarrow> sballot a' v t = Some c)"

lemma grows_refl [simp]: "grows a a"
  by (simp add: grows_def)

lemma grows_trans:
  assumes "grows a b" and "grows b c"
  shows "grows a c"
proof -
  have "acks c v t = acks a v t" if "t < sterm a v" for v t
  proof -
    have "t < sterm b v" using assms(1) that by (auto simp: grows_def intro: less_le_trans)
    then show ?thesis using assms that by (simp add: grows_def)
  qed
  then show ?thesis using assms unfolding grows_def by (meson order_trans prefix_order.trans)
qed

lemma prefix_nth: "prefix xs ys \<Longrightarrow> k < length xs \<Longrightarrow> ys ! k = xs ! k"
  by (auto simp: prefix_def nth_append)

lemma prefix_take: "prefix xs ys \<Longrightarrow> k \<le> length xs \<Longrightarrow> take k ys = take k xs"
  by (auto simp: prefix_def)

lemma prefix_takeI: "prefix xs ys \<Longrightarrow> length xs \<le> k \<Longrightarrow> prefix xs (take k ys)"
  by (auto simp: prefix_def)

lemma prefix_take_mono: "prefix (take m L) M \<Longrightarrow> j \<le> m \<Longrightarrow> prefix (take j L) M"
  using prefix_order.trans [OF take_is_prefix [of j "take m L"]] by (simp add: min_def)

lemma grows_term: "grows a a' \<Longrightarrow> sterm a v \<le> sterm a' v"
  by (simp add: grows_def)

lemma grows_tlog: "grows a a' \<Longrightarrow> prefix (tlog a t) (tlog a' t)"
  by (simp add: grows_def)

lemma grows_valid: "grows a a' \<Longrightarrow> valid a t k \<Longrightarrow> valid a' t k"
  using prefix_length_le [OF grows_tlog, of a a' t] prefix_nth [OF grows_tlog, of a a' k t] by (simp add: valid_def)

lemma grows_take: "grows a a' \<Longrightarrow> k \<le> length (tlog a t) \<Longrightarrow> take k (tlog a' t) = take k (tlog a t)"
  by (rule prefix_take [OF grows_tlog])

lemma grows_agrees: "grows a a' \<Longrightarrow> valid a t k \<Longrightarrow> agrees a' L t k = agrees a L t k"
  using grows_take [of a a' "Suc k" t] by (simp add: agrees_def valid_def)

lemma grows_prefix: "grows a a' \<Longrightarrow> prefix L (tlog a t) \<Longrightarrow> prefix L (tlog a' t)"
  using grows_tlog prefix_order.trans by blast

lemma grows_dead: "grows a a' \<Longrightarrow> dead Q a t k \<Longrightarrow> dead Q a' t k"
  unfolding dead_def grows_def by (metis less_le_trans)

section \<open>Logs that match the leaders' logs\<close>

text \<open>
  Every entry is at the same place in the log of its term's leader, with everything before it:
  the log matching property in one line per entry.
\<close>

definition good :: "'c spec \<Rightarrow> 'c LogEntry list \<Rightarrow> bool" where
  "good a L \<longleftrightarrow> L \<noteq> [] \<and> L ! 0 = nilEntry \<and> sorted (map Term L) \<and>
     (\<forall>k < length L. 0 < k \<longrightarrow> 0 < Term (L ! k) \<and> prefix (take (Suc k) L) (tlog a (Term (L ! k))))"

lemma goodD:
  assumes "good a L"
  shows "L \<noteq> []" "L ! 0 = nilEntry" "sorted (map Term L)"
    "k < length L \<Longrightarrow> 0 < k \<Longrightarrow> 0 < Term (L ! k)"
    "k < length L \<Longrightarrow> 0 < k \<Longrightarrow> prefix (take (Suc k) L) (tlog a (Term (L ! k)))"
  using assms by (auto simp: good_def)

lemma good_grows: "grows a a' \<Longrightarrow> good a L \<Longrightarrow> good a' L"
  by (auto simp: good_def intro: grows_prefix)

lemma good_mono_nth:
  "good a L \<Longrightarrow> j \<le> k \<Longrightarrow> k < length L \<Longrightarrow> Term (L ! j) \<le> Term (L ! k)"
  using sorted_nth_mono [of "map Term L" j k] by (auto dest: goodD(3))

lemma good_take: "good a L \<Longrightarrow> 0 < m \<Longrightarrow> good a (take m L)"
  unfolding good_def
  by (auto simp: take_map [symmetric] min_absorb1 intro!: sorted_wrt_take)

lemma good_term_valid:
  "good a L \<Longrightarrow> k < length L \<Longrightarrow> 0 < k \<Longrightarrow> Term (L ! k) = t \<Longrightarrow> valid a t k"
  using goodD(5) [of a L k] prefix_length_le [of "take (Suc k) L" "tlog a t"]
    prefix_nth [of "take (Suc k) L" "tlog a t" k]
  by (auto simp: valid_def)

text \<open>Log matching: logs with an entry of the same index and term agree up to there.\<close>

lemma good_match:
  assumes "good a L" and "good a M" and "k < length L" and "k < length M" and "Term (L ! k) = Term (M ! k)"
  shows "take (Suc k) L = take (Suc k) M"
proof (cases "k = 0")
  case True
  then show ?thesis using assms goodD(1,2) [OF assms(1)] goodD(1,2) [OF assms(2)]
    by (simp add: take_Suc hd_conv_nth)
next
  case False
  then have "prefix (take (Suc k) L) (tlog a (Term (L ! k)))" "prefix (take (Suc k) M) (tlog a (Term (L ! k)))"
    using goodD(5) [OF assms(1,3)] goodD(5) [OF assms(2,4)] assms(5) by simp_all
  from prefix_take [OF this(1), of "Suc k"] prefix_take [OF this(2), of "Suc k"] show ?thesis
    using assms(3,4) by simp
qed

text \<open>
  Merging a piece of a leader's log either changes nothing or cuts the log at the first
  disagreement and continues as the leader's.
\<close>

lemma merge_log_cases:
  assumes "good a L" and "good a M" and "0 < p" and "p \<le> length L" and "take p L = take p M"
    and "p + length es \<le> length M" and "es = take (length es) (drop p M)"
  shows "merge_log L p es = L \<and> prefix (take (p + length es) M) L \<or>
     merge_log L p es = take (p + length es) M \<and>
     (\<exists>q < p + length es. q \<le> length L \<and> take q L = take q M \<and> (q < length L \<longrightarrow> Term (L ! q) \<noteq> Term (M ! q)))"
  using assms(3-)
proof (induction es arbitrary: p)
  case Nil
  then show ?case using take_is_prefix [of p L] by simp
next
  case (Cons e es)
  have "drop p M = M ! p # drop (Suc p) M" using Cons.prems(4) by (simp add: Cons_nth_drop_Suc)
  then have e: "e = M ! p" "es = take (length es) (drop (Suc p) M)" using Cons.prems(5) by auto
  have whole: "take p L @ e # es = take (p + length (e # es)) M"
    by (simp only: take_add Cons.prems(3) Cons.prems(5) [symmetric])
  show ?case
  proof (cases "p < length L \<and> Term (L ! p) = Term e")
    case True
    then have "take (Suc p) L = take (Suc p) M"
      using Cons.prems e(1) by (intro good_match [OF assms(1,2)]) auto
    from Cons.IH [OF _ _ this _ e(2)] Cons.prems(4) True
    have "merge_log L (Suc p) es = L \<and> prefix (take (Suc p + length es) M) L \<or>
      merge_log L (Suc p) es = take (Suc p + length es) M \<and>
      (\<exists>q < Suc p + length es. q \<le> length L \<and> take q L = take q M \<and> (q < length L \<longrightarrow> Term (L ! q) \<noteq> Term (M ! q)))"
      by simp
    moreover have "merge_log L p (e # es) = merge_log L (Suc p) es" using True by simp
    moreover have "p + length (e # es) = Suc p + length es" by simp
    ultimately show ?thesis by (simp only:)
  next
    case False
    then have "merge_log L p (e # es) = take (p + length (e # es)) M"
      using whole Cons.prems(2) by auto
    moreover have "p < length L \<longrightarrow> Term (L ! p) \<noteq> Term (M ! p)" using False e by auto
    ultimately show ?thesis using Cons.prems(2,3) by (intro disjI2 conjI exI [of _ p]) auto
  qed
qed

lemma merge_log_good:
  assumes "good a L" and "good a M" and "0 < p" and "p \<le> length L" and "Term (L ! (p - 1)) = Term (M ! (p - 1))"
    and "p + length es \<le> length M" and "es = take (length es) (drop p M)"
  shows "take p L = take p M" and "good a (merge_log L p es)"
    and "prefix (take (p + length es) M) (merge_log L p es)"
proof -
  from good_match [OF assms(1,2), of "p - 1"] assms show eq: "take p L = take p M" by simp
  from merge_log_cases [OF assms(1-4) eq assms(6,7)]
  show "good a (merge_log L p es)" "prefix (take (p + length es) M) (merge_log L p es)"
    using assms(1-3) good_take [of a M "p + length es"] by auto
qed

lemma merge_log_set: "set (merge_log L p es) \<subseteq> set L \<union> set es"
  by (induction L p es rule: merge_log.induct) (auto dest: in_set_takeD)

section \<open>The invariants\<close>

definition inv_terms :: "(nat set \<Rightarrow> bool) \<Rightarrow> 'c spec \<Rightarrow> bool" where
  "inv_terms Q a \<longleftrightarrow>
     (\<forall>v t c. sballot a v t = Some c \<longrightarrow> 0 < t \<and> t \<le> sterm a v \<and> t \<le> sterm a c) \<and>
     (\<forall>v t. 0 < acks a v t \<longrightarrow> t \<le> sterm a v) \<and>
     (\<forall>v t. acks a v t \<le> length (tlog a t)) \<and>
     (\<forall>t. tlog a t \<noteq> [] \<longrightarrow> (\<exists>c. leads Q a c t))"

definition inv_logs :: "'c spec \<Rightarrow> bool" where
  "inv_logs a \<longleftrightarrow>
     (\<forall>v. good a (slog a v) \<and> (\<forall>e \<in> set (slog a v). Term e \<le> sterm a v)) \<and>
     (\<forall>t. tlog a t \<noteq> [] \<longrightarrow> good a (tlog a t) \<and> (\<forall>e \<in> set (tlog a t). Term e \<le> t))"

definition inv_leader :: "(nat set \<Rightarrow> bool) \<Rightarrow> 'c spec \<Rightarrow> bool" where
  "inv_leader Q a \<longleftrightarrow> (\<forall>c t. leads Q a c t \<longrightarrow> sterm a c = t \<longrightarrow> tlog a t \<noteq> [] \<longrightarrow> slog a c = tlog a t)"

text \<open>
  Leader completeness, in the form that is stable under every step: what a later leader, a
  peer that has confirmed an entry, or a candidate such a peer has voted for does not have,
  cannot be chosen any more.
\<close>

definition inv_complete :: "(nat set \<Rightarrow> bool) \<Rightarrow> 'c spec \<Rightarrow> bool" where
  "inv_complete Q a \<longleftrightarrow>
     (\<forall>t u k. t < u \<longrightarrow> tlog a u \<noteq> [] \<longrightarrow> valid a t k \<longrightarrow> agrees a (tlog a u) t k \<or> dead Q a t k)"

definition inv_acks :: "(nat set \<Rightarrow> bool) \<Rightarrow> 'c spec \<Rightarrow> bool" where
  "inv_acks Q a \<longleftrightarrow>
     (\<forall>v t k. k < acks a v t \<longrightarrow> valid a t k \<longrightarrow> agrees a (slog a v) t k \<or> dead Q a t k)"

definition inv_votes :: "(nat set \<Rightarrow> bool) \<Rightarrow> 'c spec \<Rightarrow> bool" where
  "inv_votes Q a \<longleftrightarrow>
     (\<forall>v u c t k. sballot a v u = Some c \<longrightarrow> sterm a c = u \<longrightarrow> tlog a u = [] \<longrightarrow> t < u \<longrightarrow>
        k < acks a v t \<longrightarrow> valid a t k \<longrightarrow> agrees a (slog a c) t k \<or> dead Q a t k)"

definition inv_commit :: "(nat set \<Rightarrow> bool) \<Rightarrow> 'c spec \<Rightarrow> bool" where
  "inv_commit Q a \<longleftrightarrow> (\<forall>v. known Q a (slog a v) (sterm a v) (scommit a v))"

definition spec_inv :: "(nat set \<Rightarrow> bool) \<Rightarrow> 'c spec \<Rightarrow> bool" where
  "spec_inv Q a \<longleftrightarrow> inv_terms Q a \<and> inv_logs a \<and> inv_leader Q a \<and> inv_complete Q a \<and> inv_acks Q a \<and>
     inv_votes Q a \<and> inv_commit Q a"

lemma inv_termsD:
  assumes "inv_terms Q a"
  shows "sballot a v t = Some c \<Longrightarrow> 0 < t \<and> t \<le> sterm a v \<and> t \<le> sterm a c"
    and "0 < acks a v t \<Longrightarrow> t \<le> sterm a v"
    and "acks a v t \<le> length (tlog a t)"
    and "tlog a t \<noteq> [] \<Longrightarrow> \<exists>c. leads Q a c t"
  using assms by (auto simp: inv_terms_def)

lemma inv_logsD:
  assumes "inv_logs a"
  shows "good a (slog a v)" "e \<in> set (slog a v) \<Longrightarrow> Term e \<le> sterm a v"
    "tlog a t \<noteq> [] \<Longrightarrow> good a (tlog a t)" "e \<in> set (tlog a t) \<Longrightarrow> Term e \<le> t"
  using assms by (auto simp: inv_logs_def) (metis empty_iff list.set(1))

lemma inv_completeD:
  "inv_complete Q a \<Longrightarrow> t < u \<Longrightarrow> tlog a u \<noteq> [] \<Longrightarrow> valid a t k \<Longrightarrow> agrees a (tlog a u) t k \<or> dead Q a t k"
  by (simp add: inv_complete_def)

lemma spec_invD:
  assumes "spec_inv Q a"
  shows "inv_terms Q a" "inv_logs a" "inv_leader Q a" "inv_complete Q a" "inv_acks Q a" "inv_votes Q a" "inv_commit Q a"
  using assms by (auto simp: spec_inv_def)

lemma spec_init_inv: "(\<And>A. Q A \<Longrightarrow> A \<noteq> {}) \<Longrightarrow> spec_inv Q spec_init"
  by (auto simp: spec_inv_def inv_terms_def inv_logs_def inv_leader_def inv_complete_def inv_acks_def
      inv_votes_def inv_commit_def spec_init_def known_def good_def nilEntry_def)

lemma spec_step_grows:
  assumes "spec_step Q a a'" and "inv_terms Q a" and "inv_leader Q a"
  shows "grows a a'"
  using assms(1)
proof cases
  case (elect c t)
  then show ?thesis using inv_termsD(3) [OF assms(2), of c t] by (auto simp: grows_def)
next
  case (append c t e)
  then show ?thesis using inv_termsD(3) [OF assms(2), of c t] by (auto simp: grows_def intro: le_SucI)
next
  case (merge v t p es)
  then show ?thesis by (auto simp: grows_def)
qed (auto simp: grows_def)

context quorum_system
begin

lemma grows_leads: "grows a a' \<Longrightarrow> leads quorum a c t \<Longrightarrow> leads quorum a' c t"
  unfolding leads_def grows_def by (erule quorum_mono) auto

lemma grows_chosen: "grows a a' \<Longrightarrow> chosen quorum a t k \<Longrightarrow> chosen quorum a' t k"
  unfolding chosen_def
  by (auto intro: grows_valid elim!: quorum_mono) (auto simp: grows_def intro: less_le_trans)

lemma grows_known: "grows a a' \<Longrightarrow> known quorum a L t m \<Longrightarrow> known quorum a' L t m"
  unfolding known_def using grows_chosen [of a a'] grows_prefix [of a a'] by blast

lemma known_mono: "known quorum a L t m \<Longrightarrow> t \<le> t' \<Longrightarrow> prefix (take (Suc m) L) L' \<Longrightarrow> known quorum a L' t' m"
proof -
  assume k: "known quorum a L t m" and "t \<le> t'" and p: "prefix (take (Suc m) L) L'"
  have "m < length L \<Longrightarrow> m < length L' \<and> take (Suc m) L' = take (Suc m) L"
    using prefix_length_le [OF p] prefix_take [OF p, of "Suc m"] by simp
  with k \<open>t \<le> t'\<close> show ?thesis unfolding known_def using le_trans by metis
qed

lemma chosen_not_dead: "chosen quorum a t k \<Longrightarrow> \<not> dead quorum a t k"
proof
  assume "chosen quorum a t k" and "dead quorum a t k"
  then obtain A where A: "quorum A" "\<forall>v \<in> A. acks a v t \<le> k" and "quorum {v. k < acks a v t}"
    by (auto simp: chosen_def dead_def)
  then obtain v where "v \<in> A" "k < acks a v t" using quorum_common [of A "{v. k < acks a v t}"] by auto
  with A(2) show False by auto
qed

lemma leader_unique: "leads quorum a c t \<Longrightarrow> leads quorum a d t \<Longrightarrow> c = d"
  unfolding leads_def by (rule quorum_choice)

lemma quorum_nonempty: "quorum A \<Longrightarrow> A \<noteq> {}"
  using quorum_inter [of A A] by auto

lemma leads_terms:
  assumes "inv_terms quorum a" and "leads quorum a c t"
  shows "0 < t" and "t \<le> sterm a c"
  using quorum_nonempty [of "{v. sballot a v t = Some c}"] inv_termsD(1) [OF assms(1)] assms(2)
  unfolding leads_def by blast+

lemma tlog_pos: "inv_terms quorum a \<Longrightarrow> tlog a t \<noteq> [] \<Longrightarrow> 0 < t"
  using leads_terms(1) inv_termsD(4) by blast

lemma step_terms:
  assumes "spec_step quorum a a'" and "spec_inv quorum a"
  shows "inv_terms quorum a'"
proof -
  note T = spec_invD(1) [OF assms(2)]
  have g: "grows a a'" using assms spec_step_grows spec_invD by blast
  have L: "\<exists>c. leads quorum a' c t" if "tlog a t \<noteq> []" for t
    using inv_termsD(4) [OF T that] grows_leads [OF g] by blast
  from assms(1) show ?thesis
  proof cases
    case (adopt v t)
    then show ?thesis
      using T L inv_termsD(1) [OF T] inv_termsD(2) [OF T]
      by (auto simp: inv_terms_def) (meson le_trans nless_le)+
  next
    case (vote v t c)
    then show ?thesis
      using T L by (auto simp: inv_terms_def) (meson le_trans)+
  next
    case (elect c t)
    then show ?thesis
      using T L inv_termsD(3) [OF T, of _ t] grows_leads [OF g, of c t] by (auto simp: inv_terms_def)
  next
    case (append c t e)
    then show ?thesis using T L by (auto simp: inv_terms_def intro: le_SucI)
  next
    case (merge v t p es)
    then show ?thesis using T L by (auto simp: inv_terms_def) (meson le_trans)+
  next
    case (learn v m)
    then show ?thesis using T L by (auto simp: inv_terms_def)
  qed
qed

lemma good_snoc:
  assumes "good a L" and "tlog a t = L @ [e]" and "Term e = t" and "0 < t" and "\<forall>x \<in> set L. Term x \<le> t"
  shows "good a (L @ [e])"
  using assms by (auto simp: good_def sorted_append nth_append less_Suc_eq)

lemma step_logs:
  assumes "spec_step quorum a a'" and "spec_inv quorum a"
  shows "inv_logs a'"
proof -
  note T = spec_invD(1) [OF assms(2)] and L = spec_invD(2) [OF assms(2)]
  have g: "grows a a'" using assms spec_step_grows spec_invD by blast
  note G = good_grows [OF g]
  have old: "good a' (slog a v)" "tlog a t \<noteq> [] \<Longrightarrow> good a' (tlog a t)"
    "e \<in> set (slog a v) \<Longrightarrow> Term e \<le> sterm a' v" "e \<in> set (tlog a t) \<Longrightarrow> Term e \<le> t" for v t e
    using inv_logsD [OF L] G order_trans [OF inv_logsD(2) [OF L] grows_term [OF g]] by auto
  from assms(1) show ?thesis
  proof cases
    case (adopt v t)
    then show ?thesis using old by (simp add: inv_logs_def)
  next
    case (vote v t c)
    then show ?thesis using old by (simp add: inv_logs_def)
  next
    case (elect c t)
    then show ?thesis using L G by (auto simp: inv_logs_def)
  next
    case (append c t e)
    then have eq: "slog a c = tlog a t" using spec_invD(3) [OF assms(2)] by (simp add: inv_leader_def)
    have "good a' (tlog a t @ [e])"
      using append leads_terms(1) [OF T append(3)] inv_logsD(4) [OF L] G inv_logsD(3) [OF L append(4)]
      by (intro good_snoc [of _ _ t]) auto
    with append eq L G show ?thesis by (auto simp: inv_logs_def)
  next
    case (merge v t p es)
    then have "tlog a t \<noteq> []" by auto
    with merge have "good a (merge_log (slog a v) p es)"
      using inv_logsD(1,3) [OF L] by (intro merge_log_good(2) [of a _ "tlog a t"]) auto
    moreover have "set es \<subseteq> set (tlog a t)" using merge(7) by (metis set_drop_subset set_take_subset subset_trans)
    then have "Term e \<le> t" if "e \<in> set (merge_log (slog a v) p es)" for e
      using that merge_log_set [of "slog a v" p es] order_trans [OF inv_logsD(2) [OF L] merge(2)] inv_logsD(4) [OF L]
      by blast
    ultimately show ?thesis
      using merge(1) old(1,2,4) G inv_logsD(2) [OF L] by (simp add: inv_logs_def)
  next
    case (learn v m)
    then show ?thesis using L G by (auto simp: inv_logs_def)
  qed
qed

text \<open>The leader of a term whose log is already open was its leader before the step.\<close>

lemma leads_before:
  assumes "spec_step quorum a a'" and "spec_inv quorum a"
    and "tlog a t \<noteq> []" and "leads quorum a' c t" and "sterm a' c = t"
  shows "leads quorum a c t" and "sterm a c = t" and "slog a c = tlog a t"
proof -
  have g: "grows a a'" using assms spec_step_grows spec_invD by blast
  obtain d where d: "leads quorum a d t" using inv_termsD(4) [OF spec_invD(1) [OF assms(2)] assms(3)] by blast
  then show l: "leads quorum a c t" using leader_unique [OF assms(4) grows_leads [OF g d]] by simp
  with leads_terms(2) [OF spec_invD(1) [OF assms(2)]] grows_term [OF g, of c] assms(5)
  show s: "sterm a c = t" by fastforce
  from l s assms(3) spec_invD(3) [OF assms(2)] show "slog a c = tlog a t" by (simp add: inv_leader_def)
qed

lemma step_leader:
  assumes "spec_step quorum a a'" and "spec_inv quorum a"
  shows "inv_leader quorum a'"
  unfolding inv_leader_def
proof (intro allI impI)
  fix c t
  assume l: "leads quorum a' c t" and s: "sterm a' c = t" and open': "tlog a' t \<noteq> []"
  note before = leads_before [OF assms _ l s] and L = spec_invD(2) [OF assms(2)]
  from assms(1) show "slog a' c = tlog a' t"
  proof cases
    case (elect d u)
    have "leads quorum a' = leads quorum a" using elect(1) by (simp add: leads_def fun_eq_iff)
    with elect(3) l have "t = u \<Longrightarrow> c = d" using leader_unique [of a c u d] by simp
    with elect before(3) open' s show ?thesis by (cases "t = u") auto
  next
    case (append d u e)
    then show ?thesis
    proof (cases "t = u")
      case True
      then have "c = d" using before(1) append leader_unique [of a c u d] by simp
      with append True before(3) show ?thesis by simp
    next
      case False
      then have "c \<noteq> d" using append s by auto
      with append False before(3) open' show ?thesis by simp
    qed
  next
    case (merge v u p es)
    then have "tlog a t \<noteq> []" using open' by auto
    note b = before [OF this]
    show ?thesis
    proof (cases "c = v")
      case True
      then have "u = t" using merge s by simp
      with merge True b(3) have "merge_log (slog a v) p es = slog a v"
        using merge_log_cases [OF inv_logsD(1) [OF L, of v] inv_logsD(1) [OF L, of v], of p es] by auto
      then show ?thesis using merge True b by simp
    next
      case False
      with merge b(3) show ?thesis by simp
    qed
  qed (use before open' in auto)
qed

lemma valid_pos:
  assumes "spec_inv quorum a" and "valid a t k"
  shows "0 < t" and "0 < k"
proof -
  note T = spec_invD(1) [OF assms(1)] and L = spec_invD(2) [OF assms(1)]
  have ne: "tlog a t \<noteq> []" using assms(2) by (auto simp: valid_def)
  then show "0 < t" by (rule tlog_pos [OF T])
  with assms(2) goodD(2) [OF inv_logsD(3) [OF L ne]] show "0 < k"
    by (cases k) (auto simp: valid_def nilEntry_def)
qed

text \<open>An election adds no entry of the new term, and the other steps leave the leaders' logs or extend one.\<close>

lemma valid_before:
  assumes "spec_step quorum a a'" and "spec_inv quorum a" and "valid a' t k"
  shows "valid a t k \<or> (\<exists>c e. a' = a\<lparr>slog := (slog a)(c := slog a c @ [e]), tlog := (tlog a)(t := tlog a t @ [e]),
       acks := (acks a)(c := (acks a c)(t := Suc (length (tlog a t))))\<rparr> \<and>
       sterm a c = t \<and> tlog a t \<noteq> [] \<and> k = length (tlog a t))"
  using assms(1)
proof cases
  case (elect c u)
  have "\<not> valid a' u k"
  proof
    assume v: "valid a' u k"
    with elect have k: "k < length (slog a c)" "Term (slog a c ! k) = u" by (auto simp: valid_def)
    have "0 < u" by (rule leads_terms(1) [OF spec_invD(1) [OF assms(2)] elect(3)])
    with k goodD(2) [OF inv_logsD(1) [OF spec_invD(2) [OF assms(2)], of c]] have "0 < k"
      by (cases k) (auto simp: nilEntry_def)
    with good_term_valid [OF inv_logsD(1) [OF spec_invD(2) [OF assms(2)]] k(1) _ k(2)] elect(4)
    show False by (simp add: valid_def)
  qed
  then have "t \<noteq> u" using assms(3) by blast
  then have "valid a t k" using elect(1) assms(3) by (simp add: valid_def)
  then show ?thesis ..
next
  case (append c u e)
  then show ?thesis using assms(3) by (auto simp: valid_def nth_append split: if_splits)
qed (use assms(3) in \<open>auto simp: valid_def\<close>)

text \<open>The voters of a leader have left every earlier term.\<close>

lemma later_voters:
  assumes "spec_inv quorum a" and "tlog a u \<noteq> []" and "t < u"
  obtains A where "quorum A" and "\<And>v. v \<in> A \<Longrightarrow> t < sterm a v"
proof -
  obtain c where "leads quorum a c u" using inv_termsD(4) [OF spec_invD(1) [OF assms(1)] assms(2)] by blast
  moreover have "t < sterm a v" if "sballot a v u = Some c" for v
    using inv_termsD(1) [OF spec_invD(1) [OF assms(1)] that] assms(3) by simp
  ultimately show thesis using that [of "{v. sballot a v u = Some c}"] by (auto simp: leads_def)
qed

lemma step_complete:
  assumes "spec_step quorum a a'" and "spec_inv quorum a"
  shows "inv_complete quorum a'"
  unfolding inv_complete_def
proof (intro allI impI)
  fix t u k
  assume tu: "t < u" and ne: "tlog a' u \<noteq> []" and v': "valid a' t k"
  note T = spec_invD(1) [OF assms(2)]
  have g: "grows a a'" using assms spec_step_grows spec_invD by blast
  have old: "agrees a' (tlog a' u) t k \<or> dead quorum a' t k" if "tlog a u \<noteq> []" and v: "valid a t k"
  proof -
    have "agrees a (tlog a u) t k \<or> dead quorum a t k"
      using spec_invD(4) [OF assms(2)] that tu by (simp add: inv_complete_def)
    then show ?thesis using grows_dead [OF g] grows_agrees [OF g v] grows_prefix [OF g] by (auto simp: agrees_def)
  qed
  consider (same) "tlog a u \<noteq> []" "valid a t k"
    | (new) c where "tlog a u \<noteq> []" "acks a' = (acks a)(c := (acks a c)(t := Suc (length (tlog a t))))"
        "sterm a' = sterm a" "sterm a c = t" "k = length (tlog a t)"
    | (elected) c where "tlog a u = []" "valid a t k" "leads quorum a c u" "sterm a c = u" "tlog a' u = slog a c"
  proof (cases "tlog a u = []")
    case True
    with assms(1) ne tu obtain c where "leads quorum a c u" "sterm a c = u" "tlog a' u = slog a c" "valid a t k"
      using v' by cases (auto simp: valid_def split: if_splits)
    with True show thesis by (intro elected) auto
  next
    case False
    from valid_before [OF assms v'] show thesis
    proof (elim disjE exE conjE)
      assume "valid a t k"
      with False show thesis by (rule same)
    next
      fix c e
      assume "a' = a\<lparr>slog := (slog a)(c := slog a c @ [e]), tlog := (tlog a)(t := tlog a t @ [e]),
          acks := (acks a)(c := (acks a c)(t := Suc (length (tlog a t))))\<rparr>" "sterm a c = t" "k = length (tlog a t)"
      then show thesis by (intro new [OF False]) auto
    qed
  qed
  then show "agrees a' (tlog a' u) t k \<or> dead quorum a' t k"
  proof cases
    case (new c)
    obtain A where A: "quorum A" "\<And>v. v \<in> A \<Longrightarrow> t < sterm a v"
      using later_voters [OF assms(2) new(1) tu] by blast
    then have "v \<noteq> c" if "v \<in> A" for v using that new(4) by auto
    then have "dead quorum a' t k"
      unfolding dead_def using A new inv_termsD(3) [OF T] by (intro exI [of _ A]) auto
    then show ?thesis ..
  next
    case (elected c)
    have later: "t < sterm a v" if "sballot a v u = Some c" for v using inv_termsD(1) [OF T that] tu by simp
    show ?thesis
    proof (cases "\<exists>v. sballot a v u = Some c \<and> k < acks a v t")
      case True
      then have "agrees a (slog a c) t k \<or> dead quorum a t k"
        using spec_invD(6) [OF assms(2)] elected tu by (auto simp: inv_votes_def)
      then show ?thesis using grows_agrees [OF g elected(2)] grows_dead [OF g] elected(5) by auto
    next
      case False
      then have "dead quorum a t k"
        unfolding dead_def using elected(3) later by (intro exI [of _ "{v. sballot a v u = Some c}"]) (auto simp: leads_def not_less)
      then show ?thesis using grows_dead [OF g] by blast
    qed
  qed (rule old)
qed

text \<open>
  A merge keeps of a log whatever the leader's log has as well; what it drops was confirmed, if
  at all, to the leader of an earlier term that this leader's log contradicts.
\<close>

lemma merge_keeps:
  assumes "good a L" and "good a M" and "0 < p" and "p \<le> length L" and "Term (L ! (p - 1)) = Term (M ! (p - 1))"
    and "p + length es \<le> length M" and "es = take (length es) (drop p M)"
    and "prefix N L" and "prefix N M"
  shows "prefix N (merge_log L p es)"
proof -
  note eq = merge_log_good(1) [OF assms(1-7)]
  from merge_log_cases [OF assms(1-4) eq assms(6,7)] show ?thesis
  proof (elim disjE conjE exE)
    fix q
    assume q: "merge_log L p es = take (p + length es) M" "q < p + length es" "take q L = take q M"
      "q < length L \<longrightarrow> Term (L ! q) \<noteq> Term (M ! q)" "q \<le> length L"
    have "length N \<le> q"
    proof (rule ccontr)
      assume n: "\<not> length N \<le> q"
      then have "L ! q = M ! q" "q < length L"
        using prefix_nth [OF assms(8), of q] prefix_nth [OF assms(9), of q] prefix_length_le [OF assms(8)] by auto
      with q(4) show False by simp
    qed
    then have "N = take (length N) (take (p + length es) M)"
      using q(2) prefix_take [OF assms(9), of "length N"] by (simp add: min_def)
    then show ?thesis unfolding q(1) by (metis take_is_prefix)
  qed (use assms(8) in simp)
qed

lemma step_acks:
  assumes "spec_step quorum a a'" and "spec_inv quorum a"
  shows "inv_acks quorum a'"
  unfolding inv_acks_def
proof (intro allI impI)
  fix v t k
  assume k: "k < acks a' v t" and v': "valid a' t k"
  note T = spec_invD(1) [OF assms(2)] and L = spec_invD(2) [OF assms(2)]
  have g: "grows a a'" using assms spec_step_grows spec_invD by blast
  have old: "valid a t k \<and> (agrees a (slog a v) t k \<or> dead quorum a' t k)" if ka: "k < acks a v t"
  proof -
    have "valid a t k"
      using valid_before [OF assms v'] ka inv_termsD(3) [OF T, of v t] by auto
    then show ?thesis
      using spec_invD(5) [OF assms(2)] ka grows_dead [OF g] unfolding inv_acks_def by blast
  qed
  have stay: "agrees a' (slog a' v) t k \<or> dead quorum a' t k"
    if "k < acks a v t" and "agrees a (slog a v) t k \<Longrightarrow> valid a t k \<Longrightarrow> agrees a (slog a' v) t k"
    using old [OF that(1)] that(2) grows_agrees [OF g] by blast
  from assms(1) show "agrees a' (slog a' v) t k \<or> dead quorum a' t k"
  proof cases
    case (elect c u)
    have "t \<noteq> u \<or> v \<noteq> c"
      using valid_before [OF assms v'] elect by (auto simp: valid_def)
    then have "k < acks a v t" using elect k by (auto split: if_splits)
    with elect stay show ?thesis by auto
  next
    case (append c u e)
    show ?thesis
    proof (cases "v = c \<and> t = u")
      case True
      then have "slog a' v = tlog a' t"
        using append spec_invD(3) [OF assms(2)] by (simp add: inv_leader_def)
      then show ?thesis by (simp add: agrees_def take_is_prefix)
    next
      case False
      then have "k < acks a v t" using append k by (auto split: if_splits)
      with append stay show ?thesis by (auto simp: agrees_def)
    qed
  next
    case (merge w u p es)
    then have tu: "tlog a u \<noteq> []" by auto
    show ?thesis
    proof (cases "v = w")
      case w: True
      note m = inv_logsD(1) [OF L, of v] inv_logsD(3) [OF L tu] merge(3-7)
      show ?thesis
      proof (cases "t = u \<and> k < p + length es")
        case True
        then have "prefix (take (Suc k) (tlog a u)) (take (p + length es) (tlog a u))"
          by (metis Suc_leI take_is_prefix take_take min.absorb1)
        also have "prefix \<dots> (merge_log (slog a v) p es)" using m w by (intro merge_log_good(3)) auto
        finally show ?thesis using True w merge(1) by (simp add: agrees_def)
      next
        case False
        then have ka: "k < acks a v t" using k w merge(1) by (auto split: if_splits)
        have "agrees a (tlog a u) t k \<or> dead quorum a' t k"
        proof (cases "t = u")
          case False
          then have "t < u" using inv_termsD(2) [OF T, of v t] ka merge(2) w by fastforce
          then show ?thesis
            using inv_completeD [OF spec_invD(4) [OF assms(2)] _ tu] old [OF ka] grows_dead [OF g] by blast
        qed (simp add: agrees_def take_is_prefix)
        then show ?thesis
        proof
          assume ag: "agrees a (tlog a u) t k"
          show ?thesis
          proof (rule stay [OF ka])
            assume "agrees a (slog a v) t k"
            with ag m w show "agrees a (slog a' v) t k"
              unfolding agrees_def merge(1) by simp (rule merge_keeps [of a _ "tlog a u"]; simp)
          qed
        qed simp
      qed
    next
      case False
      then show ?thesis using merge(1) k by (intro stay) auto
    qed
  qed (rule stay; use k in simp)+
qed

text \<open>
  The election restriction: a candidate whose log is at least as up to date as the voter's has
  whatever the voter confirmed, unless that can no longer be chosen.
\<close>

lemma newer_agrees:
  assumes "spec_inv quorum a" and "newer (slog a c) (slog a v)" and "agrees a (slog a v) t k" and "valid a t k"
    and "tlog a (sterm a c) = []"
  shows "agrees a (slog a c) t k \<or> dead quorum a t k"
proof -
  let ?L = "slog a c" and ?M = "slog a v"
  let ?x = "Term (last ?L)" and ?l = "length ?L - 1"
  note L = spec_invD(2) [OF assms(1)] and pos = valid_pos [OF assms(1,4)]
  note gL = inv_logsD(1) [OF L, of c] and gM = inv_logsD(1) [OF L, of v]
  have lastL: "last ?L = ?L ! ?l" and lastM: "last ?M = ?M ! (length ?M - 1)"
    using goodD(1) [OF gL] goodD(1) [OF gM] by (simp_all add: last_conv_nth)
  have kM: "k < length ?M" "Term (?M ! k) = t"
    using assms(3,4) prefix_length_le [of "take (Suc k) (tlog a t)" ?M]
      prefix_nth [of "take (Suc k) (tlog a t)" ?M k] by (auto simp: agrees_def valid_def)
  then have "t \<le> Term (last ?M)" unfolding lastM using good_mono_nth [OF gM, of k "length ?M - 1"] by simp
  then have x: "t \<le> ?x" and len: "?x = t \<Longrightarrow> length ?M \<le> length ?L"
    using assms(2) by (auto simp: newer_def)
  then have l: "0 < ?l" using pos(1) goodD(2) [OF gL] lastL by (cases "?l = 0") (auto simp: nilEntry_def)
  then have vx: "valid a ?x ?l" using good_term_valid [OF gL, of ?l ?x] lastL by simp
  have Lx: "prefix ?L (tlog a ?x)" using goodD(5) [OF gL, of ?l] l lastL by simp
  show ?thesis
  proof (cases "?x = t")
    case True
    then have "take (Suc k) (tlog a t) = take (Suc k) ?L"
      using prefix_take [OF Lx, of "Suc k"] len kM(1) by simp
    then show ?thesis by (simp add: agrees_def take_is_prefix)
  next
    case False
    then have tx: "t < ?x" and ne: "tlog a ?x \<noteq> []" using x vx by (auto simp: valid_def)
    then have "agrees a (tlog a ?x) t k \<or> dead quorum a t k"
      using spec_invD(4) [OF assms(1)] assms(4) by (simp add: inv_complete_def)
    moreover have "agrees a ?L t k" if ag: "agrees a (tlog a ?x) t k"
    proof -
      have kx: "k < length (tlog a ?x)" "Term (tlog a ?x ! k) = t" "take (Suc k) (tlog a ?x) = take (Suc k) (tlog a t)"
        using ag assms(4) prefix_length_le [of "take (Suc k) (tlog a t)" "tlog a ?x"]
          prefix_nth [of "take (Suc k) (tlog a t)" "tlog a ?x" k]
          prefix_take [of "take (Suc k) (tlog a t)" "tlog a ?x" "Suc k"] by (auto simp: agrees_def valid_def)
      have "k < ?l"
      proof (rule ccontr)
        assume "\<not> k < ?l"
        then have "Term (tlog a ?x ! ?l) \<le> t"
          using good_mono_nth [OF inv_logsD(3) [OF L ne], of ?l k] kx by simp
        with vx tx show False by (simp add: valid_def)
      qed
      then show ?thesis using prefix_take [OF Lx, of "Suc k"] kx(3) by (simp add: agrees_def take_is_prefix)
    qed
    ultimately show ?thesis by blast
  qed
qed

lemma step_votes:
  assumes "spec_step quorum a a'" and "spec_inv quorum a"
  shows "inv_votes quorum a'"
  unfolding inv_votes_def
proof (intro allI impI)
  fix v u c t k
  assume b: "sballot a' v u = Some c" and cu: "sterm a' c = u" and none: "tlog a' u = []" and tu: "t < u"
    and k': "k < acks a' v t" and v': "valid a' t k"
  note T = spec_invD(1) [OF assms(2)]
  have g: "grows a a'" using assms spec_step_grows spec_invD by blast
  have none': "tlog a u = []" using none grows_tlog [OF g, of u] by simp
  have vt: "t < sterm a v"  if "sballot a v u = Some c" using inv_termsD(1) [OF T that] tu by simp
  have valid: "valid a t k" if "k < acks a v t"
    using valid_before [OF assms v'] that inv_termsD(3) [OF T, of v t] by auto
  have old: "agrees a' (slog a' c) t k \<or> dead quorum a' t k"
    if "sballot a v u = Some c" and same: "sterm a c = u \<Longrightarrow> slog a' c = slog a c"
  proof -
    have k: "k < acks a v t" using vt [OF that(1)] g k' by (simp add: grows_def)
    have "sterm a c = u" using inv_termsD(1) [OF T that(1)] grows_term [OF g, of c] cu by simp
    with that(1) none' tu k valid [OF k] have "agrees a (slog a c) t k \<or> dead quorum a t k"
      using spec_invD(6) [OF assms(2)] unfolding inv_votes_def by blast
    then show ?thesis
      using same [OF \<open>sterm a c = u\<close>] grows_agrees [OF g valid [OF k]] grows_dead [OF g] by auto
  qed
  from assms(1) show "agrees a' (slog a' c) t k \<or> dead quorum a' t k"
  proof cases
    case (vote w s d)
    show ?thesis
    proof (cases "v = w \<and> u = s")
      case True
      then have d: "d = c" using b vote by simp
      have k: "k < acks a v t" using k' vote by simp
      have "agrees a (slog a v) t k \<or> dead quorum a t k"
        using spec_invD(5) [OF assms(2)] k valid [OF k] by (auto simp: inv_acks_def)
      moreover have "agrees a (slog a c) t k \<or> dead quorum a t k" if "agrees a (slog a v) t k" and "c \<noteq> v"
      proof (rule newer_agrees [OF assms(2) _ that(1) valid [OF k]])
        have "sterm a c = u" using cu vote(1) that(2) True d by simp
        then show "newer (slog a c) (slog a v)" "tlog a (sterm a c) = []"
          using vote(6) that(2) True d none' by auto
      qed
      ultimately have "agrees a (slog a c) t k \<or> dead quorum a t k" by blast
      then show ?thesis using vote(1) grows_agrees [OF g valid [OF k]] grows_dead [OF g] by auto
    next
      case False
      then show ?thesis using b vote(1) by (intro old) (auto split: if_splits)
    qed
  next
    case (append d s e)
    then show ?thesis using b none' cu by (intro old) auto
  next
    case (merge w s p es)
    then show ?thesis using b none' cu by (intro old) (auto split: if_splits)
  qed (rule old; use b in simp)+
qed

text \<open>What is chosen in a term is in the log of every later leader.\<close>

lemma chosen_complete:
  assumes "spec_inv quorum a" and "chosen quorum a u k" and "u \<le> t" and "tlog a t \<noteq> []"
  shows "prefix (take (Suc k) (tlog a u)) (tlog a t)"
proof (cases "u = t")
  case False
  then show ?thesis
    using inv_completeD [OF spec_invD(4) [OF assms(1)], of u t k] assms(2-4) chosen_not_dead [OF assms(2)]
    by (simp add: chosen_def agrees_def)
qed (simp add: take_is_prefix)

lemma known_complete:
  assumes "spec_inv quorum a" and "known quorum a L u m" and "u \<le> t" and "tlog a t \<noteq> []" and "0 < m"
  shows "prefix (take (Suc m) L) (tlog a t)"
proof -
  from assms(2,5) obtain w k where w: "chosen quorum a w k" "w \<le> u" "m \<le> k" "prefix (take (Suc m) L) (tlog a w)"
    by (auto simp: known_def)
  have "prefix (take (Suc m) L) (take (Suc k) (tlog a w))"
    using w(3,4) by (intro prefix_takeI) auto
  also have "prefix \<dots> (tlog a t)" using chosen_complete [OF assms(1) w(1) _ assms(4)] w(2) assms(3) by simp
  finally show ?thesis .
qed

lemma step_commit:
  assumes "spec_step quorum a a'" and "spec_inv quorum a"
  shows "inv_commit quorum a'"
  unfolding inv_commit_def
proof
  fix v
  note L = spec_invD(2) [OF assms(2)]
  have g: "grows a a'" using assms spec_step_grows spec_invD by blast
  have kn: "known quorum a (slog a v) (sterm a v) (scommit a v)"
    using spec_invD(7) [OF assms(2)] by (simp add: inv_commit_def)
  have old: "known quorum a' (slog a' v) (sterm a' v) (scommit a' v)"
    if "scommit a' v = scommit a v" and "scommit a v = 0 \<or> prefix (take (Suc (scommit a v)) (slog a v)) (slog a' v)"
  proof (cases "scommit a v = 0")
    case False
    with that show ?thesis using known_mono [OF grows_known [OF g kn] grows_term [OF g]] by simp
  qed (simp add: that(1) known_def)
  from assms(1) show "known quorum a' (slog a' v) (sterm a' v) (scommit a' v)"
  proof cases
    case (append c t e)
    then show ?thesis by (intro old) (auto simp: take_is_prefix prefix_prefix)
  next
    case (merge w t p es)
    then have tn: "tlog a t \<noteq> []" by auto
    have "prefix (take (Suc (scommit a v)) (slog a v)) (slog a' v)" if "0 < scommit a v"
    proof (cases "v = w")
      case True
      have "prefix (take (Suc (scommit a v)) (slog a v)) (tlog a t)"
        using known_complete [OF assms(2) kn _ tn that] merge(2) True by simp
      then show ?thesis
        using merge True inv_logsD(1) [OF L, of v] inv_logsD(3) [OF L tn]
        by (auto simp: take_is_prefix intro!: merge_keeps [of a _ "tlog a t"])
    next
      case False
      then show ?thesis using merge(1) by (simp add: take_is_prefix)
    qed
    then have "scommit a v = 0 \<or> prefix (take (Suc (scommit a v)) (slog a v)) (slog a' v)" by blast
    then show ?thesis by (rule old [rotated]) (simp add: merge(1))
  next
    case (learn w m)
    then have "known quorum a' (slog a w) (sterm a w) m" by (intro grows_known [OF g])
    with learn old show ?thesis by (auto simp: take_is_prefix)
  qed (rule old; simp add: take_is_prefix)+
qed

theorem spec_step_inv: "spec_step quorum a a' \<Longrightarrow> spec_inv quorum a \<Longrightarrow> spec_inv quorum a'"
  unfolding spec_inv_def [of _ a']
  by (intro conjI step_terms step_logs step_leader step_complete step_acks step_votes step_commit)

lemma spec_steps_inv:
  "(spec_step quorum)\<^sup>*\<^sup>* a a' \<Longrightarrow> spec_inv quorum a \<Longrightarrow> spec_inv quorum a' \<and> grows a a'"
proof (induction rule: rtranclp_induct)
  case (step b c)
  then show ?case using spec_step_inv [of b c] spec_step_grows [of quorum b c] grows_trans [of a b c]
    by (auto dest: spec_invD)
qed simp

lemma known_leader:
  assumes "known quorum a L t m" and "0 < m"
  obtains u where "tlog a u \<noteq> []" and "m < length L" and "known quorum a L u m"
proof -
  from assms obtain u k where *: "m < length L" "chosen quorum a u k" "m \<le> k" "prefix (take (Suc m) L) (tlog a u)"
    by (auto simp: known_def)
  then have "known quorum a L u m" "tlog a u \<noteq> []" unfolding known_def by (blast, auto simp: chosen_def valid_def)
  with * that show thesis by blast
qed

text \<open>State machine safety: what two peers know to be chosen agrees.\<close>

theorem known_agree:
  assumes "spec_inv quorum a" and "known quorum a L t m" and "known quorum a L' t' m'"
    and "good a L" and "good a L'" and "j \<le> m" and "j \<le> m'"
  shows "L ! j = L' ! j"
proof (cases "j = 0")
  case True
  then show ?thesis using goodD(2) [OF assms(4)] goodD(2) [OF assms(5)] by simp
next
  case False
  obtain u where u: "tlog a u \<noteq> []" "m < length L" and ku: "known quorum a L u m"
    using known_leader [OF assms(2)] False assms(6) by auto
  obtain u' where u': "tlog a u' \<noteq> []" "m' < length L'" and ku': "known quorum a L' u' m'"
    using known_leader [OF assms(3)] False assms(7) by auto
  have "prefix (take (Suc m) L) (tlog a (max u u'))" "prefix (take (Suc m') L') (tlog a (max u u'))"
    using known_complete [OF assms(1) ku, of "max u u'"] known_complete [OF assms(1) ku', of "max u u'"] False assms(6,7)
      u(1) u'(1) by (auto simp: max_def)
  from prefix_nth [OF this(1), of j] prefix_nth [OF this(2), of j] u(2) u'(2) assms(6,7) show ?thesis by simp
qed

end

end
