(* ===== verification/RaftCluster.thy ===== *)
theory RaftCluster
  imports RaftSpec
begin

text \<open>
  The peers of theory \<open>RaftNode\<close> as one system (raft1/raft.go). A step of the system is
  one critical section of one peer, on a message that was sent or on a timer, or a crash
  followed by a restart from stable storage. Requests and replies stay in the network for ever
  and are delivered any number of times, in any order, or never: this covers loss, delay,
  reordering and the goroutines of a peer being scheduled at any later time. The goroutines of
  one election share a counter, so each of them handles its reply once.

  Two parameters say which runs are meant. With \<open>atomic\<close> no election starts at a peer
  that became leader after its ticker had checked the role; the code releases the mutex between
  that check and \<open>startElection\<close>, so its own runs are those without \<open>atomic\<close>. With
  \<open>snaps\<close> the service above takes snapshots.
\<close>

section \<open>The system\<close>

text \<open>The goroutines of one call of \<open>startElection\<close>: the counter and the calls still out.\<close>

record poll =
  poll_args :: RequestVoteArgs
  poll_votes :: nat
  poll_waiting :: "nat set"

text \<open>
  \<open>ticking\<close> are the peers whose ticker has passed the check before \<open>startElection\<close>;
  \<open>jobs\<close> the goroutines and signals a peer has issued, with an \<open>AppendEntries\<close> request as
  part of the goroutine that sends it. \<open>cast\<close> records the votes; no step reads it.
\<close>

record 'c cluster =
  node :: "nat \<Rightarrow> 'c Raft"
  ticking :: "nat set"
  polls :: "nat \<Rightarrow> nat \<Rightarrow> poll option"
  jobs :: "(nat \<times> 'c spawn) set"
  rv_reqs :: "(nat \<times> RequestVoteArgs) set"
  rv_reps :: "(nat \<times> RequestVoteArgs \<times> RequestVoteReply) set"
  ae_reps :: "(nat \<times> 'c AppendEntriesArgs \<times> AppendEntriesReplys) set"
  is_reqs :: "(nat \<times> InstallSnapshotArgs) set"
  is_reps :: "(nat \<times> InstallSnapshotArgs \<times> InstallSnapshotReplys) set"
  cast :: "nat \<Rightarrow> nat \<Rightarrow> nat option"

definition put :: "'c cluster \<Rightarrow> nat \<Rightarrow> 'c Raft \<Rightarrow> 'c spawn list \<Rightarrow> 'c cluster" where
  "put s i rf sp = s\<lparr>node := (node s)(i := rf), jobs := jobs s \<union> {i} \<times> set sp\<rparr>"

inductive raft_step :: "nat \<Rightarrow> bool \<Rightarrow> bool \<Rightarrow> 'c cluster \<Rightarrow> 'c cluster \<Rightarrow> bool" for n atomic snaps where
  timeout: "i < n \<Longrightarrow> raft_step n atomic snaps s (put s i (ticker_follower (node s i) now) [])"
| tick: "i < n \<Longrightarrow> ticker_candidate (node s i) \<Longrightarrow>
     raft_step n atomic snaps s (s\<lparr>ticking := insert i (ticking s)\<rparr>)"
| campaign: "i < n \<Longrightarrow> i \<in> ticking s \<Longrightarrow> (atomic \<Longrightarrow> role (node s i) \<noteq> Leader) \<Longrightarrow>
     startElection (node s i) now = Inr (rf, args) \<Longrightarrow>
     raft_step n atomic snaps s
       ((put s i rf [])\<lparr>ticking := ticking s - {i},
          polls := (polls s)(i := (polls s i)(rv_Term args \<mapsto>
            \<lparr>poll_args = args, poll_votes = 1, poll_waiting = {..<n} - {i}\<rparr>)),
          rv_reqs := rv_reqs s \<union> ({..<n} - {i}) \<times> {args},
          cast := (cast s)(i := (cast s i)(rv_Term args \<mapsto> i))\<rparr>)"
| request_vote: "(j, args) \<in> rv_reqs s \<Longrightarrow> RequestVote (node s j) args now = Inr (rf, reply) \<Longrightarrow>
     raft_step n atomic snaps s
       ((put s j rf [])\<lparr>rv_reps := insert (j, args, reply) (rv_reps s),
          cast := if rvr_VoteGranted reply
                  then (cast s)(j := (cast s j)(rv_Term args \<mapsto> nat (rv_Candidate_ID args)))
                  else cast s\<rparr>)"
| vote: "polls s i t = Some p \<Longrightarrow> j \<in> poll_waiting p \<Longrightarrow> (j, poll_args p, reply) \<in> rv_reps s \<Longrightarrow>
     vote_reply (node s i) (poll_votes p) (poll_args p) reply = Inr (rf, k, sp) \<Longrightarrow>
     raft_step n atomic snaps s
       ((put s i rf sp)\<lparr>polls := (polls s)(i := (polls s i)(t \<mapsto>
          p\<lparr>poll_votes := k, poll_waiting := poll_waiting p - {j}\<rparr>))\<rparr>)"
| start: "i < n \<Longrightarrow> Start (node s i) command = (rf, result, sp) \<Longrightarrow>
     raft_step n atomic snaps s (put s i rf sp)"
| send: "i < n \<Longrightarrow> entriesSender_round (node s i) = Inr sp \<Longrightarrow>
     raft_step n atomic snaps s (put s i (node s i) sp)"
| append_entries: "(i, GoSendAppendEntries j args) \<in> jobs s \<Longrightarrow>
     AppendEntries (node s j) args now = Inr (rf, reply, sp) \<Longrightarrow>
     raft_step n atomic snaps s ((put s j rf sp)\<lparr>ae_reps := insert (j, args, reply) (ae_reps s)\<rparr>)"
| append_reply: "(i, GoSendAppendEntries j args) \<in> jobs s \<Longrightarrow> (j, args, reply) \<in> ae_reps s \<Longrightarrow>
     sendAppendEntries_reply (node s i) j args reply = Inr (rf, sp) \<Longrightarrow>
     raft_step n atomic snaps s (put s i rf sp)"
| commit: "(i, GoCommit) \<in> jobs s \<Longrightarrow> commit (node s i) = Inr (rf, sp) \<Longrightarrow>
     raft_step n atomic snaps s (put s i rf sp)"
| snap: "snaps \<Longrightarrow> i < n \<Longrightarrow> last_applied (node s i) < getLogLength (node s i) \<Longrightarrow>
     Snapshot (node s i) index data = Inr rf \<Longrightarrow> raft_step n atomic snaps s (put s i rf [])"
| send_snapshot: "(i, GoSendInstallSnapshot j) \<in> jobs s \<Longrightarrow>
     raft_step n atomic snaps s (s\<lparr>is_reqs := insert (j, sendInstallSnapshot_args (node s i)) (is_reqs s)\<rparr>)"
| install: "(j, args) \<in> is_reqs s \<Longrightarrow> InstallSnapshot (node s j) args = Inr (rf, reply, sp) \<Longrightarrow>
     raft_step n atomic snaps s ((put s j rf sp)\<lparr>is_reps := insert (j, args, reply) (is_reps s)\<rparr>)"
| install_reply: "(j, args, reply) \<in> is_reps s \<Longrightarrow> is_LeaderID args = int i \<Longrightarrow>
     sendInstallSnapshot_reply (node s i) j args reply = Inr (rf, sp) \<Longrightarrow>
     raft_step n atomic snaps s (put s i rf sp)"
| deliver_snapshot: "i < n \<Longrightarrow> applier_first (node s i) = Some (rf, ms) \<Longrightarrow>
     raft_step n atomic snaps s (put s i rf [])"
| deliver: "i < n \<Longrightarrow> applier_second (node s i) = Inr (rf, ms) \<Longrightarrow>
     raft_step n atomic snaps s (put s i rf [])"
| crash: "i < n \<Longrightarrow>
     raft_step n atomic snaps s
       ((put s i (restart (node s i)) [])\<lparr>ticking := ticking s - {i}, polls := (polls s)(i := Map.empty)\<rparr>)"

definition boot :: "nat \<Rightarrow> 'c cluster" where
  "boot n = \<lparr>node = booted n, ticking = {}, polls = (\<lambda>_ _. None), jobs = {}, rv_reqs = {}, rv_reps = {},
     ae_reps = {}, is_reqs = {}, is_reps = {}, cast = (\<lambda>_ _. None)\<rparr>"

definition raft_run :: "nat \<Rightarrow> bool \<Rightarrow> bool \<Rightarrow> 'c cluster \<Rightarrow> 'c cluster \<Rightarrow> bool" where
  "raft_run n atomic snaps = (raft_step n atomic snaps)\<^sup>*\<^sup>*"

lemma put_simps [simp]:
  "node (put s i rf sp) = (node s)(i := rf)" "jobs (put s i rf sp) = jobs s \<union> {i} \<times> set sp"
  "ticking (put s i rf sp) = ticking s" "polls (put s i rf sp) = polls s"
  "rv_reqs (put s i rf sp) = rv_reqs s" "rv_reps (put s i rf sp) = rv_reps s"
  "ae_reps (put s i rf sp) = ae_reps s" "is_reqs (put s i rf sp) = is_reqs s" "is_reps (put s i rf sp) = is_reps s"
  "cast (put s i rf sp) = cast s"
  by (simp_all add: put_def)

section \<open>What a step does to term, vote and role\<close>

text \<open>Away from elections a peer keeps its term and vote, or it adopts a higher term and follows.\<close>

definition quiet :: "'c Raft \<Rightarrow> 'c Raft \<Rightarrow> bool" where
  "quiet rf rf' \<longleftrightarrow> keeps rf rf' \<and>
     (current_term rf' = current_term rf \<and> voted_for rf' = voted_for rf \<and> (role rf' = Leader \<longrightarrow> role rf = Leader) \<or>
      current_term rf < current_term rf' \<and> voted_for rf' = -1 \<and> role rf' = Follower)"

lemma append_loop_logs: "append_loop rf index es md = Inr (rf', md') \<Longrightarrow> \<exists>l. rf' = rf\<lparr>logs := l\<rparr>"
proof (induction es arbitrary: rf index md)
  case Nil
  then show ?case by (auto intro: exI [of _ "logs rf"])
next
  case (Cons e es)
  then show ?case
    by (fastforce simp: bindr_eq_Inr setLogEntry_def split: if_splits)
qed

lemma ae_finish_vote:
  "ae_finish rf md args = (rf', reply, sp) \<Longrightarrow>
     current_term rf' = current_term rf \<and> voted_for rf' = voted_for rf \<and> role rf' = role rf"
  by (cases md) (auto simp: ae_finish_def Let_def split: if_splits)

lemma ae_check_vote:
  assumes "ae_check rf args = Inr (rf', reply, sp)"
  shows "current_term rf' = current_term rf \<and> voted_for rf' = voted_for rf \<and> role rf' = role rf"
proof -
  have "rf' = rf \<or> (\<exists>rf1 md. append_loop rf (ae_PreviousLogIndex args + 1) (ae_Entries args) False = Inr (rf1, md) \<and>
      ae_finish rf1 md args = (rf', reply, sp))"
    using assms by (simp add: ae_check_def Let_def bindr_eq_Inr split: if_splits) (auto split: prod.splits)
  then show ?thesis by (auto dest!: append_loop_logs ae_finish_vote)
qed

lemma AppendEntries_quiet:
  assumes "raft_wf rf" and "AppendEntries rf args now = Inr (rf', reply, sp)"
  shows "quiet rf rf'"
  using assms returnsD [OF AppendEntries_keeps [OF assms(1)] assms(2)]
  by (auto simp: quiet_def AppendEntries_def ae_begin_def Let_def split: if_splits dest!: ae_check_vote)

lemma InstallSnapshot_quiet:
  assumes "raft_wf rf" and "InstallSnapshot rf args = Inr (rf', reply, sp)"
  shows "quiet rf rf'"
  using returnsD [OF InstallSnapshot_keeps [OF assms(1)] assms(2)] assms(2)
  by (auto simp: quiet_def InstallSnapshot_eq split: if_splits)

lemma Snapshot_quiet:
  assumes "raft_wf rf" and "last_applied rf < getLogLength rf" and "Snapshot rf index data = Inr rf'"
  shows "quiet rf rf'"
proof -
  have "keeps rf rf'" using returnsD [OF Snapshot_keeps [OF assms(1,2)] assms(3)] .
  moreover have "current_term rf' = current_term rf \<and> voted_for rf' = voted_for rf \<and> role rf' = role rf"
    using assms(3) unfolding Snapshot_eq [OF assms(2)] by (auto split: if_splits)
  ultimately show ?thesis by (simp add: quiet_def)
qed

text \<open>What a reply to \<open>AppendEntries\<close> does to the sender.\<close>

lemma sendAppendEntries_reply_cases:
  assumes "sendAppendEntries_reply rf j args reply = Inr (rf', sp)"
  obtains (higher) "current_term rf < aer_Term reply" "sp = []"
      "rf' = persist (rf\<lparr>role := Follower, current_term := aer_Term reply, voted_for := -1\<rparr>)"
    | (stale) "rf' = rf" "sp = []"
    | (retry) ns where "role rf = Leader" "current_term rf = ae_Term args" "rf' = rf \<or> rf' = rf\<lparr>next_index := ns\<rparr>"
        "sp = [] \<or> sp = [GoSendInstallSnapshot j] \<or> sendAppendEntriesHelper rf' j = Inr sp"
    | (matched) ns where "role rf = Leader" "current_term rf = ae_Term args" "aer_Success reply" "sp = [GoCommit]"
        "rf' = rf \<or> j < length (match_index rf) \<and>
           rf' = rf\<lparr>match_index := (match_index rf)[j := ae_PreviousLogIndex args + length (ae_Entries args)],
                     next_index := ns\<rparr>"
proof (cases "current_term rf < aer_Term reply")
  case True
  then show thesis using assms by (intro higher) (simp_all add: sendAppendEntries_reply_def)
next
  case low: False
  show thesis
  proof (cases "role rf \<noteq> Leader \<or> current_term rf \<noteq> ae_Term args")
    case True
    then show thesis using assms low by (intro stale) (auto simp: sendAppendEntries_reply_def)
  next
    case False
    then have r: "role rf = Leader" "current_term rf = ae_Term args" by auto
    show thesis
    proof (cases "aer_Success reply")
      case True
      with assms low r show thesis
        by (auto simp: sendAppendEntries_reply_def bindr_eq_Inr set_idx_def Let_def split: if_splits intro: matched)
    next
      case False
      then show thesis
        using assms low r
        by (auto simp: sendAppendEntries_reply_def bindr_eq_Inr Let_def split: if_splits intro: retry [OF r])
    qed
  qed
qed

lemma local_quiet:
  assumes "raft_wf rf"
  shows "quiet rf (ticker_follower rf now)"
    and "quiet rf (fst (Start rf command))"
    and "sendAppendEntries_reply rf j aargs areply = Inr (rf', sp) \<Longrightarrow> quiet rf rf'"
    and "sendInstallSnapshot_reply rf j sargs sreply = Inr (rf', sp) \<Longrightarrow> quiet rf rf'"
    and "commit rf = Inr (rf', sp) \<Longrightarrow> quiet rf rf'"
    and "applier_first rf = Some (rf', ms) \<Longrightarrow> quiet rf rf'"
    and "applier_second rf = Inr (rf', ms) \<Longrightarrow> quiet rf rf'"
    and "durable rf \<Longrightarrow> quiet rf (restart rf)"
proof -
  show "quiet rf (ticker_follower rf now)"
    using ticker_follower_keeps [OF assms] by (auto simp: quiet_def ticker_follower_def)
  show "quiet rf (fst (Start rf command))"
    using Start_keeps [OF assms, of command] by (auto simp: quiet_def Start_def Let_def)
  show "quiet rf rf'" if "sendAppendEntries_reply rf j aargs areply = Inr (rf', sp)"
    using that sendAppendEntries_reply_keeps [OF assms that]
    by (cases rule: sendAppendEntries_reply_cases) (auto simp: quiet_def)
  show "quiet rf rf'" if "sendInstallSnapshot_reply rf j sargs sreply = Inr (rf', sp)"
    using that sendInstallSnapshot_reply_keeps [OF assms that]
    by (auto simp: quiet_def sendInstallSnapshot_reply_def bindr_eq_Inr split: if_splits)
  show "quiet rf rf'" if "commit rf = Inr (rf', sp)"
    using that commit_keeps [OF assms that] by (auto simp: quiet_def commit_def bindr_eq_Inr split: if_splits)
  show "quiet rf rf'" if "applier_first rf = Some (rf', ms)"
    using that applier_keeps(1) [OF assms that] by (auto simp: quiet_def applier_first_def split: if_splits)
  show "quiet rf rf'" if "applier_second rf = Inr (rf', ms)"
    using that applier_keeps(2) [OF assms that] by (auto simp: quiet_def applier_second_def bindr_eq_Inr split: if_splits)
  show "quiet rf (restart rf)" if "durable rf"
    using restart_keeps [OF assms that] that by (simp add: quiet_def) (simp add: durable_def persistent_def)
qed

section \<open>Election safety\<close>

definition nodes_ok :: "nat \<Rightarrow> 'c cluster \<Rightarrow> bool" where
  "nodes_ok n s \<longleftrightarrow> (\<forall>i < n. raft_wf (node s i) \<and> durable (node s i) \<and> npeers (node s i) = n \<and> me (node s i) = i)"

definition asks :: "nat \<Rightarrow> 'c cluster \<Rightarrow> RequestVoteArgs \<Rightarrow> nat \<Rightarrow> bool" where
  "asks n s args c \<longleftrightarrow> c < n \<and> rv_Candidate_ID args = int c \<and> 0 < rv_Term args \<and> rv_Term args \<le> current_term (node s c)"

definition votes_ok :: "nat \<Rightarrow> 'c cluster \<Rightarrow> bool" where
  "votes_ok n s \<longleftrightarrow>
     (\<forall>v t c. cast s v t = Some c \<longrightarrow> v < n \<and> c < n \<and> 0 < t \<and> t \<le> current_term (node s v) \<and> t \<le> current_term (node s c)) \<and>
     (\<forall>v < n. voted_for (node s v) = (case cast s v (current_term (node s v)) of None \<Rightarrow> -1 | Some c \<Rightarrow> int c)) \<and>
     (\<forall>(j, args) \<in> rv_reqs s. j < n \<and> (\<exists>c. asks n s args c \<and> c \<noteq> j)) \<and>
     (\<forall>(j, args, reply) \<in> rv_reps s. rvr_VoteGranted reply \<longrightarrow>
        cast s j (rv_Term args) = Some (nat (rv_Candidate_ID args)))"

definition polls_ok :: "nat \<Rightarrow> 'c cluster \<Rightarrow> bool" where
  "polls_ok n s \<longleftrightarrow>
     (\<forall>i t p. polls s i t = Some p \<longrightarrow> asks n s (poll_args p) i \<and> rv_Term (poll_args p) = t \<and>
        cast s i t = Some i \<and> poll_waiting p \<subseteq> {..<n} \<and>
        poll_votes p \<le> card ({v. cast s v t = Some i} \<inter> {..<n} - poll_waiting p))"

definition leaders_ok :: "nat \<Rightarrow> 'c cluster \<Rightarrow> bool" where
  "leaders_ok n s \<longleftrightarrow>
     (\<forall>i < n. role (node s i) = Leader \<longrightarrow> majority n {v. cast s v (current_term (node s i)) = Some i})"

definition elections_ok :: "nat \<Rightarrow> 'c cluster \<Rightarrow> bool" where
  "elections_ok n s \<longleftrightarrow> nodes_ok n s \<and> votes_ok n s \<and> polls_ok n s \<and> leaders_ok n s"

lemma nodes_okD:
  assumes "nodes_ok n s" and "i < n"
  shows "raft_wf (node s i)" "durable (node s i)" "npeers (node s i) = n" "me (node s i) = i"
  using assms by (auto simp: nodes_ok_def)

lemma votes_okD:
  assumes "votes_ok n s"
  shows "cast s v t = Some c \<Longrightarrow> v < n \<and> c < n \<and> 0 < t \<and> t \<le> current_term (node s v) \<and> t \<le> current_term (node s c)"
    and "v < n \<Longrightarrow> voted_for (node s v) = (case cast s v (current_term (node s v)) of None \<Rightarrow> -1 | Some c \<Rightarrow> int c)"
    and "(j, args) \<in> rv_reqs s \<Longrightarrow> j < n \<and> (\<exists>c. asks n s args c \<and> c \<noteq> j)"
    and "(j, args, reply) \<in> rv_reps s \<Longrightarrow> rvr_VoteGranted reply \<Longrightarrow>
      cast s j (rv_Term args) = Some (nat (rv_Candidate_ID args))"
  using assms unfolding votes_ok_def by (blast, blast, fast, fast)

lemma votes_okI:
  assumes "\<And>v t c. cast s v t = Some c \<Longrightarrow>
      v < n \<and> c < n \<and> 0 < t \<and> t \<le> current_term (node s v) \<and> t \<le> current_term (node s c)"
    and "\<And>v. v < n \<Longrightarrow> voted_for (node s v) = (case cast s v (current_term (node s v)) of None \<Rightarrow> -1 | Some c \<Rightarrow> int c)"
    and "\<And>j args. (j, args) \<in> rv_reqs s \<Longrightarrow> j < n \<and> (\<exists>c. asks n s args c \<and> c \<noteq> j)"
    and "\<And>j args reply. (j, args, reply) \<in> rv_reps s \<Longrightarrow> rvr_VoteGranted reply \<Longrightarrow>
      cast s j (rv_Term args) = Some (nat (rv_Candidate_ID args))"
  shows "votes_ok n s"
  using assms unfolding votes_ok_def by blast

lemma polls_okD:
  assumes "polls_ok n s" and "polls s i t = Some p"
  shows "asks n s (poll_args p) i" "rv_Term (poll_args p) = t" "cast s i t = Some i" "poll_waiting p \<subseteq> {..<n}"
    "poll_votes p \<le> card ({v. cast s v t = Some i} \<inter> {..<n} - poll_waiting p)"
  using assms by (auto simp: polls_ok_def)

lemma elections_okD:
  assumes "elections_ok n s"
  shows "nodes_ok n s" "votes_ok n s" "polls_ok n s" "leaders_ok n s"
  using assms by (auto simp: elections_ok_def)

lemma booted_fields [simp]:
  "current_term (booted n v) = 0" "voted_for (booted n v) = -1" "role (booted n v) = Follower"
  "npeers (booted n v) = n" "me (booted n v) = v" "logs (booted n v) = [nilEntry]"
  "last_included_index (booted n v) = 0" "last_included_term (booted n v) = 0" "commit_index (booted n v) = 0"
  by (auto simp: booted_def Make_def readPersist_def Let_def)

lemma boot_ok: "elections_ok n (boot n)"
  by (simp add: elections_ok_def nodes_ok_def votes_ok_def polls_ok_def leaders_ok_def boot_def booted_ok)

text \<open>A quiet step keeps the votes and what they mean.\<close>

lemma quiet_elections:
  assumes ok: "elections_ok n s" and i: "i < n" and q: "quiet (node s i) rf"
    and eq: "node s' = (node s)(i := rf)" "cast s' = cast s" "rv_reqs s' = rv_reqs s"
    and reps: "\<And>j args reply. (j, args, reply) \<in> rv_reps s' \<Longrightarrow> rvr_VoteGranted reply \<Longrightarrow> (j, args, reply) \<in> rv_reps s"
    and polls: "\<And>j t p. polls s' j t = Some p \<Longrightarrow> polls s j t = Some p"
  shows "elections_ok n s'"
proof -
  note O = elections_okD [OF ok] and V = votes_okD [OF elections_okD(2) [OF ok]]
  have mono: "current_term (node s v) \<le> current_term (node s' v)" for v
    using q eq(1) by (auto simp: quiet_def)
  have asks: "asks n s args c \<Longrightarrow> asks n s' args c" for args c
    using mono [of c] by (auto simp: asks_def)
  have "nodes_ok n s'"
    using O(1) i q unfolding nodes_ok_def by (auto simp: eq(1) quiet_def keeps_def)
  moreover have "votes_ok n s'"
  proof -
    have "voted_for (node s' v) = (case cast s v (current_term (node s' v)) of None \<Rightarrow> -1 | Some c \<Rightarrow> int c)"
      if "v < n" for v
    proof (cases "v = i \<and> current_term (node s i) < current_term rf")
      case True
      then have "cast s i (current_term rf) = None" using V(1) [of i "current_term rf"] by fastforce
      with True q eq(1) show ?thesis by (auto simp: quiet_def)
    next
      case False
      with V(2) [OF that] q eq(1) show ?thesis by (auto simp: quiet_def)
    qed
    then show ?thesis
      by (intro votes_okI; unfold eq(2,3))
        (use V(1) mono order_trans in blast, simp, use V(3) asks in blast, use V(4) reps in blast)
  qed
  moreover have "polls_ok n s'"
    using O(3) asks polls unfolding polls_ok_def eq(2) by blast
  moreover have "leaders_ok n s'"
    using O(4) i q unfolding leaders_ok_def by (auto simp: eq(1,2) quiet_def)
  ultimately show ?thesis by (simp add: elections_ok_def)
qed

lemma RequestVote_vote:
  "RequestVote rf args now = Inr (rf', reply) \<Longrightarrow> \<not> rvr_VoteGranted reply \<Longrightarrow>
     voted_for rf' = (if current_term rf < rv_Term args then -1 else voted_for rf)"
  by (auto simp: RequestVote_def zeroRV_def bindr_eq_Inr Let_def split: if_splits)

lemma vote_reply_cases:
  assumes "vote_reply rf k args reply = Inr (rf', k', sp)" and "raft_wf rf"
  obtains (higher) "current_term rf < rvr_Term reply" "k' = k"
      "rf' = persist (rf\<lparr>current_term := rvr_Term reply, role := Follower, voted_for := -1\<rparr>)"
    | (ignored) "rf' = rf" "k' = k"
    | (counted) "role rf = Candidate" "current_term rf = rv_Term args" "rvr_VoteGranted reply" "rf' = rf" "k' = k + 1"
    | (elected) "role rf = Candidate" "current_term rf = rv_Term args" "rvr_VoteGranted reply" "k' = k + 1"
        "npeers rf div 2 < k'"
        "rf' = rf\<lparr>role := Leader, next_index := replicate (npeers rf) (getLogLength rf),
                  match_index := replicate (npeers rf) 0\<rparr>"
proof (cases "current_term rf < rvr_Term reply")
  case True
  then show thesis using assms(1) by (intro higher) (simp_all add: vote_reply_def)
next
  case low: False
  note len = raft_wf_lengths [OF assms(2)]
  show thesis
  proof (cases "role rf = Candidate \<and> current_term rf = rv_Term args \<and> rvr_VoteGranted reply")
    case False
    with low assms(1) show thesis by (intro ignored) (auto simp: vote_reply_def split: if_splits)
  next
    case True
    then have r: "role rf = Candidate" "current_term rf = rv_Term args" "rvr_VoteGranted reply" by auto
    show thesis
    proof (cases "npeers rf div 2 < k + 1")
      case True
      with low r len assms(1) show thesis by (intro elected [OF r]) (simp_all add: vote_reply_def)
    next
      case False
      with low r len assms(1) show thesis by (intro counted [OF r]) (simp_all add: vote_reply_def)
    qed
  qed
qed

text \<open>Recording one more vote of a peer that had none in that term.\<close>

lemma majority_mono: "majority n A \<Longrightarrow> A \<subseteq> B \<Longrightarrow> majority n B"
  by (rule maj.quorum_mono)

lemma cast_more:
  assumes "\<And>v t d. cast s v t = Some d \<Longrightarrow> cast s' v t = Some d"
  shows "majority n {v. cast s v t = Some i} \<Longrightarrow> majority n {v. cast s' v t = Some i}"
    and "card ({v. cast s v t = Some i} \<inter> {..<n} - W) \<le> card ({v. cast s' v t = Some i} \<inter> {..<n} - W)"
  using assms by (auto elim: majority_mono intro!: card_mono)

lemma cast_elections:
  assumes ok: "elections_ok n s" and v: "v < n" and kp: "keeps (node s v) rf"
    and t: "current_term (node s v) \<le> t" "current_term rf = t" "0 < t" and vf: "voted_for rf = int c"
    and c: "c < n" "c = v \<or> t \<le> current_term (node s c)"
    and r: "role rf = Leader \<Longrightarrow> role (node s v) = Leader \<and> current_term (node s v) = t"
    and same: "\<And>d. cast s v t = Some d \<Longrightarrow> d = c"
    and eq: "node s' = (node s)(v := rf)" "cast s' = (cast s)(v := (cast s v)(t \<mapsto> c))"
    and reqs: "\<And>j a. (j, a) \<in> rv_reqs s' \<Longrightarrow> (j, a) \<in> rv_reqs s \<or> j < n \<and> (\<exists>d. asks n s' a d \<and> d \<noteq> j)"
    and reps: "\<And>j a rep. (j, a, rep) \<in> rv_reps s' \<Longrightarrow> rvr_VoteGranted rep \<Longrightarrow>
      (j, a, rep) \<in> rv_reps s \<or> j = v \<and> rv_Term a = t \<and> rv_Candidate_ID a = int c"
    and polls: "\<And>i u p. polls s' i u = Some p \<Longrightarrow> polls s i u = Some p \<or>
      i = v \<and> u = t \<and> c = v \<and> asks n s' (poll_args p) v \<and> rv_Term (poll_args p) = t \<and>
      poll_votes p = 1 \<and> poll_waiting p = {..<n} - {v}"
  shows "elections_ok n s'"
proof -
  note O = elections_okD [OF ok] and V = votes_okD [OF elections_okD(2) [OF ok]]
  have more: "cast s' w u = Some d" if "cast s w u = Some d" for w u d
    using that same by (auto simp: eq)
  have mono: "current_term (node s w) \<le> current_term (node s' w)" for w using t by (simp add: eq)
  then have asks: "asks n s a d \<Longrightarrow> asks n s' a d" for a d
    unfolding asks_def using order_trans by blast
  have "nodes_ok n s'" using O(1) kp v unfolding nodes_ok_def by (auto simp: eq keeps_def)
  moreover have "votes_ok n s'"
  proof (rule votes_okI)
    show "w < n \<and> d < n \<and> 0 < u \<and> u \<le> current_term (node s' w) \<and> u \<le> current_term (node s' d)"
      if "cast s' w u = Some d" for w u d
    proof (cases "w = v \<and> u = t")
      case True
      then show ?thesis using that v c t by (auto simp: eq)
    next
      case False
      then have "cast s w u = Some d" using that by (auto simp: eq split: if_splits)
      then show ?thesis using V(1) mono order_trans by blast
    qed
    show "voted_for (node s' w) = (case cast s' w (current_term (node s' w)) of None \<Rightarrow> -1 | Some d \<Rightarrow> int d)"
      if "w < n" for w using V(2) [OF that] t(2) vf by (simp add: eq)
    show "i < n \<and> (\<exists>d. asks n s' a d \<and> d \<noteq> i)" if "(i, a) \<in> rv_reqs s'" for i a
      using reqs [OF that] V(3) [of i a] asks by blast
    show "cast s' i (rv_Term a) = Some (nat (rv_Candidate_ID a))"
      if "(i, a, rep) \<in> rv_reps s'" and "rvr_VoteGranted rep" for i a rep
      using reps [OF that] more [OF V(4) [OF _ that(2)]] by (cases "(i, a, rep) \<in> rv_reps s") (auto simp: eq(2))
  qed
  moreover have "polls_ok n s'"
    unfolding polls_ok_def
  proof (intro allI impI)
    fix i u p
    assume p': "polls s' i u = Some p"
    show "asks n s' (poll_args p) i \<and> rv_Term (poll_args p) = u \<and> cast s' i u = Some i \<and> poll_waiting p \<subseteq> {..<n} \<and>
      poll_votes p \<le> card ({w. cast s' w u = Some i} \<inter> {..<n} - poll_waiting p)"
    proof (cases "polls s i u = Some p")
      case True
      note P = polls_okD [OF O(3) this]
      have "poll_votes p \<le> card ({w. cast s' w u = Some i} \<inter> {..<n} - poll_waiting p)"
        using P(5) cast_more(2) [of s s' u i n "poll_waiting p"] more by fastforce
      then show ?thesis using P asks more by simp
    next
      case False
      then have new: "i = v" "u = t" "c = v" "asks n s' (poll_args p) v" "rv_Term (poll_args p) = t"
        "poll_votes p = 1" "poll_waiting p = {..<n} - {v}"
        using polls [OF p'] by auto
      have "{w. cast s' w t = Some v} \<inter> {..<n} - ({..<n} - {v}) = {v}" using v new(3) by (auto simp: eq)
      moreover have "cast s' v t = Some v" using new(3) by (simp add: eq)
      ultimately show ?thesis using new by simp
    qed
  qed
  moreover have "leaders_ok n s'"
    unfolding leaders_ok_def
  proof (intro allI impI)
    fix i
    assume i: "i < n" "role (node s' i) = Leader"
    then have "role (node s i) = Leader" "current_term (node s' i) = current_term (node s i)"
      using r t(2) by (auto simp: eq split: if_splits)
    then have "majority n {w. cast s w (current_term (node s' i)) = Some i}" using O(4) i(1) by (simp add: leaders_ok_def)
    then show "majority n {w. cast s' w (current_term (node s' i)) = Some i}"
      by (rule cast_more(1) [rotated]) (rule more)
  qed
  ultimately show ?thesis by (simp add: elections_ok_def)
qed

lemma campaign_elections:
  assumes ok: "elections_ok n s" and i: "i < n" and r: "role (node s i) \<noteq> Leader"
    and e: "startElection (node s i) now = Inr (rf, args)"
  shows "elections_ok n ((put s i rf [])\<lparr>ticking := ticking s - {i},
          polls := (polls s)(i := (polls s i)(rv_Term args \<mapsto>
            \<lparr>poll_args = args, poll_votes = 1, poll_waiting = {..<n} - {i}\<rparr>)),
          rv_reqs := rv_reqs s \<union> ({..<n} - {i}) \<times> {args},
          cast := (cast s)(i := (cast s i)(rv_Term args \<mapsto> i))\<rparr>)"
proof -
  note V = votes_okD [OF elections_okD(2) [OF ok]] and N = nodes_okD [OF elections_okD(1) [OF ok] i]
  let ?t = "current_term (node s i)"
  have rf: "keeps (node s i) rf" "current_term rf = ?t + 1" "voted_for rf = int i" "role rf = role (node s i)"
    and args: "rv_Term args = ?t + 1" "rv_Candidate_ID args = int i"
    using e startElection_eq [OF N(1)] N(4) returnsD [OF startElection_keeps [OF N(1)] e] by auto
  have none: "cast s i (?t + 1) = None" using V(1) [of i "?t + 1"] by fastforce
  show ?thesis (is "elections_ok n ?s")
  proof (rule cast_elections [OF ok i rf(1), of "?t + 1" i])
    have asks: "asks n ?s args i" using i args rf(2) by (simp add: asks_def)
    then show "(j, a) \<in> rv_reqs s \<or> j < n \<and> (\<exists>d. asks n ?s a d \<and> d \<noteq> j)" if "(j, a) \<in> rv_reqs ?s" for j a
      using that by auto
    show "polls s j u = Some p \<or> j = i \<and> u = ?t + 1 \<and> i = i \<and> asks n ?s (poll_args p) i \<and>
        rv_Term (poll_args p) = ?t + 1 \<and> poll_votes p = 1 \<and> poll_waiting p = {..<n} - {i}"
      if "polls ?s j u = Some p" for j u p
      using that asks args by (cases "j = i \<and> u = ?t + 1") (auto simp del: asks_def split: if_splits)
  qed (use i rf(2-4) args none r in simp_all)
qed

lemma request_vote_elections:
  assumes ok: "elections_ok n s" and m: "(j, args) \<in> rv_reqs s"
    and e: "RequestVote (node s j) args now = Inr (rf, reply)"
  shows "elections_ok n ((put s j rf [])\<lparr>rv_reps := insert (j, args, reply) (rv_reps s),
          cast := if rvr_VoteGranted reply
                  then (cast s)(j := (cast s j)(rv_Term args \<mapsto> nat (rv_Candidate_ID args)))
                  else cast s\<rparr>)"
proof -
  note V = votes_okD [OF elections_okD(2) [OF ok]]
  obtain c where j: "j < n" and c: "asks n s args c" "c \<noteq> j" using V(3) [OF m] by blast
  note N = nodes_okD [OF elections_okD(1) [OF ok] j]
  have spec: "RequestVote_spec (node s j) args rf reply" using returnsD [OF RequestVote_ok [OF N(1)] e] by simp
  then have kp: "keeps (node s j) rf" by (auto simp: RequestVote_spec_def keeps_def)
  show ?thesis
  proof (cases "rvr_VoteGranted reply")
    case False
    then have "quiet (node s j) rf"
      using spec kp RequestVote_vote [OF e] by (auto simp: quiet_def RequestVote_spec_def max_def split: if_splits)
    then show ?thesis using False by (intro quiet_elections [OF ok j]) auto
  next
    case True
    let ?t = "rv_Term args"
    have rf: "current_term (node s j) \<le> ?t" "current_term rf = ?t" "voted_for rf = int c"
      and r: "role rf = Leader \<Longrightarrow> role (node s j) = Leader \<and> current_term (node s j) = ?t"
      using spec True c(1) by (auto simp: RequestVote_spec_def asks_def split: if_splits)
    have same: "d = c" if "cast s j ?t = Some d" for d
    proof -
      have "current_term (node s j) = ?t" using V(1) [OF that] rf(1) by simp
      then have "voted_for (node s j) = int d" using V(2) [OF j] that by simp
      then show ?thesis using spec True c(1) \<open>current_term (node s j) = ?t\<close>
        by (auto simp: RequestVote_spec_def asks_def)
    qed
    show ?thesis
      by (rule cast_elections [OF ok j kp rf(1,2) _ rf(3) _ _ r same])
        (use True c in \<open>auto simp: asks_def\<close>)
  qed
qed

lemma vote_elections:
  assumes ok: "elections_ok n s" and p: "polls s i t = Some p" and j: "j \<in> poll_waiting p"
    and rep: "(j, poll_args p, reply) \<in> rv_reps s"
    and e: "vote_reply (node s i) (poll_votes p) (poll_args p) reply = Inr (rf, k, sp)"
  shows "elections_ok n ((put s i rf sp)\<lparr>polls := (polls s)(i := (polls s i)(t \<mapsto>
          p\<lparr>poll_votes := k, poll_waiting := poll_waiting p - {j}\<rparr>))\<rparr>)" (is "elections_ok n ?s")
proof -
  note O = elections_okD [OF ok] and V = votes_okD [OF elections_okD(2) [OF ok]]
  note P = polls_okD [OF O(3) p]
  have i: "i < n" using P(1) by (simp add: asks_def)
  note N = nodes_okD [OF O(1) i]
  let ?A = "{v. cast s v t = Some i} \<inter> {..<n}"
  have k: "k \<le> card (?A - (poll_waiting p - {j}))"
  proof (cases "k = poll_votes p")
    case True
    have "card (?A - poll_waiting p) \<le> card (?A - (poll_waiting p - {j}))" by (rule card_mono) auto
    then show ?thesis using True P(5) by simp
  next
    case False
    have k: "k = poll_votes p + 1 \<and> rvr_VoteGranted reply"
      using e N(1) False by (cases rule: vote_reply_cases) auto
    then have "cast s j t = Some i" using V(4) [OF rep] P(1,2) by (simp add: asks_def)
    then have "?A - (poll_waiting p - {j}) = insert j (?A - poll_waiting p)" using P(4) j by auto
    moreover have "card (insert j (?A - poll_waiting p)) = Suc (card (?A - poll_waiting p))" using j by simp
    ultimately show ?thesis using k P(5) by simp
  qed
  then have kA: "k \<le> card ?A" using card_mono [of ?A "?A - (poll_waiting p - {j})"] by force
  have polls: "polls_ok n s'" if "cast s' = cast s" "polls s' = polls ?s"
    "\<And>a d. asks n s a d \<Longrightarrow> asks n s' a d" for s' :: "'a cluster"
  proof -
    have "asks n s (poll_args p') i' \<and> rv_Term (poll_args p') = t' \<and> cast s i' t' = Some i' \<and> poll_waiting p' \<subseteq> {..<n} \<and>
        poll_votes p' \<le> card ({v. cast s v t' = Some i'} \<inter> {..<n} - poll_waiting p')"
      if "polls ?s i' t' = Some p'" for i' t' p'
    proof (cases "i' = i \<and> t' = t")
      case True
      then show ?thesis using that k P by auto
    next
      case False
      then have "polls s i' t' = Some p'" using that by (auto split: if_splits)
      then show ?thesis using polls_okD [OF O(3)] by blast
    qed
    then show ?thesis unfolding polls_ok_def using that by (simp only:) blast
  qed
  have quietly: "elections_ok n ?s" if "quiet (node s i) rf"
  proof -
    have "elections_ok n (put s i rf sp)" using that by (intro quiet_elections [OF ok i]) auto
    moreover have "current_term (node s i) \<le> current_term rf" using that by (auto simp: quiet_def)
    then have "polls_ok n ?s" by (intro polls) (auto simp: asks_def)
    ultimately show ?thesis by (auto simp: elections_ok_def nodes_ok_def votes_ok_def leaders_ok_def asks_def)
  qed
  have N': "raft_wf (node s i)" "npeers (node s i) = n" using N by auto
  from e N'(1) show ?thesis
  proof (cases rule: vote_reply_cases)
    case elected
    have "keeps (node s i) rf" using returnsD [OF vote_reply_keeps [OF N'(1)] e] by simp
    then have "nodes_ok n ?s" using O(1) i unfolding nodes_ok_def by (auto simp: keeps_def)
    moreover have tm: "current_term (node ?s v) = current_term (node s v)"
      "voted_for (node ?s v) = voted_for (node s v)" for v using elected(6) by auto
    then have "asks n ?s a d = asks n s a d" for a d by (simp add: asks_def)
    with O(2) have "votes_ok n ?s" unfolding votes_ok_def tm by simp
    moreover have "polls_ok n ?s" using \<open>\<And>a d. asks n ?s a d = asks n s a d\<close> by (intro polls) auto
    moreover have "majority n {v. cast s v t = Some i}" using elected(5) kA N'(2) by (simp add: majority_def)
    then have "leaders_ok n ?s"
      using O(4) elected(2) P(2) unfolding leaders_ok_def tm by auto
    ultimately show ?thesis by (simp add: elections_ok_def)
  qed (rule quietly; simp add: quiet_def keeps_step_down N')+
qed

text \<open>Messages come from and go to peers of the group.\<close>

definition jobs_ok :: "nat \<Rightarrow> 'c cluster \<Rightarrow> bool" where
  "jobs_ok n s \<longleftrightarrow> (\<forall>(i, job) \<in> jobs s. i < n \<and>
     (\<forall>j args. job = GoSendAppendEntries j args \<longrightarrow> j < n) \<and> (\<forall>j. job = GoSendInstallSnapshot j \<longrightarrow> j < n)) \<and>
     (\<forall>(j, args) \<in> is_reqs s. j < n \<and> (\<forall>i. is_LeaderID args = int i \<longrightarrow> i < n)) \<and>
     (\<forall>(j, args, reply) \<in> is_reps s. \<forall>i. is_LeaderID args = int i \<longrightarrow> i < n)"

lemma helper_jobs:
  "sendAppendEntriesHelper rf j = Inr sp \<Longrightarrow>
     sp = [GoSendInstallSnapshot j] \<or> (\<exists>args. sp = [GoSendAppendEntries j args])"
  by (auto simp: sendAppendEntriesHelper_def bindr_eq_Inr Let_def split: if_splits)

lemma send_to_all_jobs:
  "send_to_all rf ps = Inr sp \<Longrightarrow> job \<in> set sp \<Longrightarrow>
     \<exists>j \<in> set ps. j \<noteq> me rf \<and> (\<exists>sj. sendAppendEntriesHelper rf j = Inr sj \<and> job \<in> set sj)"
proof (induction ps arbitrary: sp)
  case (Cons p ps)
  then show ?case by (fastforce simp: bindr_eq_Inr split: if_splits)
qed simp

lemma jobs_okD:
  assumes "jobs_ok n s"
  shows "(i, job) \<in> jobs s \<Longrightarrow> i < n" "(i, GoSendAppendEntries j args) \<in> jobs s \<Longrightarrow> j < n"
    "(i, GoSendInstallSnapshot j) \<in> jobs s \<Longrightarrow> j < n"
    "(j, sargs) \<in> is_reqs s \<Longrightarrow> j < n" "(j, sargs) \<in> is_reqs s \<Longrightarrow> is_LeaderID sargs = int i \<Longrightarrow> i < n"
    "(j, sargs, sreply) \<in> is_reps s \<Longrightarrow> is_LeaderID sargs = int i \<Longrightarrow> i < n"
  using assms unfolding jobs_ok_def by fast+

lemma jobs_put:
  assumes "jobs_ok n s" and "i < n" and "\<And>job j args. job \<in> set sp \<Longrightarrow>
      (job = GoSendAppendEntries j args \<longrightarrow> j < n) \<and> (job = GoSendInstallSnapshot j \<longrightarrow> j < n)"
    and "jobs s' = jobs s \<union> {i} \<times> set sp" and "is_reqs s' = is_reqs s"
    and "\<And>j args reply. (j, args, reply) \<in> is_reps s' \<Longrightarrow> (j, args, reply) \<in> is_reps s \<or> (j, args) \<in> is_reqs s"
  shows "jobs_ok n s'"
  unfolding jobs_ok_def assms(4,5)
  using jobs_okD [OF assms(1)] assms(2,3,6) by fast

lemma no_sends:
  "raft_wf rf \<Longrightarrow> vote_reply rf k vargs vreply = Inr (rf', k', sp) \<Longrightarrow> job \<in> set sp \<Longrightarrow>
     job \<noteq> GoSendAppendEntries j args \<and> job \<noteq> GoSendInstallSnapshot j"
  "AppendEntries rf aargs now = Inr (rf', areply, sp) \<Longrightarrow> raft_wf rf \<Longrightarrow> job \<in> set sp \<Longrightarrow>
     job \<noteq> GoSendAppendEntries j args \<and> job \<noteq> GoSendInstallSnapshot j"
  "InstallSnapshot rf sargs = Inr (rf', sreply, sp) \<Longrightarrow> job \<in> set sp \<Longrightarrow>
     job \<noteq> GoSendAppendEntries j args \<and> job \<noteq> GoSendInstallSnapshot j"
  "commit rf = Inr (rf', sp) \<Longrightarrow> job \<in> set sp \<Longrightarrow>
     job \<noteq> GoSendAppendEntries j args \<and> job \<noteq> GoSendInstallSnapshot j"
  "sendInstallSnapshot_reply rf i sargs sreply = Inr (rf', sp) \<Longrightarrow> job \<in> set sp \<Longrightarrow>
     job \<noteq> GoSendAppendEntries j args \<and> job \<noteq> GoSendInstallSnapshot j"
proof -
  show "vote_reply rf k vargs vreply = Inr (rf', k', sp) \<Longrightarrow> job \<in> set sp \<Longrightarrow>
     job \<noteq> GoSendAppendEntries j args \<and> job \<noteq> GoSendInstallSnapshot j"
    by (auto simp: vote_reply_def split: if_splits)
  show "job \<noteq> GoSendAppendEntries j args \<and> job \<noteq> GoSendInstallSnapshot j"
    if "AppendEntries rf aargs now = Inr (rf', areply, sp)" "raft_wf rf" "job \<in> set sp"
    using returnsD [OF AppendEntries_ok [OF that(2)] that(1)] that(3)
    by (auto simp: AppendEntries_spec_def split: if_splits)
  show "InstallSnapshot rf sargs = Inr (rf', sreply, sp) \<Longrightarrow> job \<in> set sp \<Longrightarrow>
     job \<noteq> GoSendAppendEntries j args \<and> job \<noteq> GoSendInstallSnapshot j"
    by (auto simp: InstallSnapshot_eq split: if_splits)
  show "commit rf = Inr (rf', sp) \<Longrightarrow> job \<in> set sp \<Longrightarrow>
     job \<noteq> GoSendAppendEntries j args \<and> job \<noteq> GoSendInstallSnapshot j"
    by (auto simp: commit_def bindr_eq_Inr split: if_splits)
  show "sendInstallSnapshot_reply rf i sargs sreply = Inr (rf', sp) \<Longrightarrow> job \<in> set sp \<Longrightarrow>
     job \<noteq> GoSendAppendEntries j args \<and> job \<noteq> GoSendInstallSnapshot j"
    by (auto simp: sendInstallSnapshot_reply_def bindr_eq_Inr split: if_splits)
qed

lemma step_jobs:
  assumes st: "raft_step n atomic snaps s s'" and J: "jobs_ok n s" and N: "nodes_ok n s" and P: "polls_ok n s"
  shows "jobs_ok n s'"
  using st
proof cases
  case (vote i t p j reply rf k sp)
  have i: "i < n" using polls_okD(1) [OF P vote(2)] by (simp add: asks_def)
  show ?thesis using vote no_sends(1) [OF nodes_okD(1) [OF N i] vote(5)] by (intro jobs_put [OF J i, of sp]) auto
next
  case (start i command rf result sp)
  then show ?thesis by (intro jobs_put [OF J start(2), of sp]) (auto simp: Start_def Let_def split: if_splits)
next
  case (send i sp)
  have "(job = GoSendAppendEntries j args \<longrightarrow> j < n) \<and> (job = GoSendInstallSnapshot j \<longrightarrow> j < n)"
    if "job \<in> set sp" for job j args
  proof -
    have "send_to_all (node s i) [0..<n] = Inr sp"
      using send(3) that nodes_okD(3) [OF N send(2)] by (auto simp: entriesSender_round_def split: if_splits)
    from send_to_all_jobs [OF this that] show ?thesis by (auto dest: helper_jobs)
  qed
  then show ?thesis using send by (intro jobs_put [OF J send(2), of sp]) auto
next
  case (append_entries i j args now rf reply sp)
  note j = jobs_okD(2) [OF J append_entries(2)]
  show ?thesis using append_entries no_sends(2) [OF append_entries(3) nodes_okD(1) [OF N j]]
    by (intro jobs_put [OF J j, of sp]) auto
next
  case (append_reply i j args reply rf sp)
  note i = jobs_okD(1) [OF J append_reply(2)] and j = jobs_okD(2) [OF J append_reply(2)]
  have "(job = GoSendAppendEntries j' args' \<longrightarrow> j' < n) \<and> (job = GoSendInstallSnapshot j' \<longrightarrow> j' < n)"
    if "job \<in> set sp" for job j' args'
    using append_reply(4)
  proof (cases rule: sendAppendEntries_reply_cases)
    case (retry ns)
    then show ?thesis using that j helper_jobs by fastforce
  qed (use that in auto)
  then show ?thesis using append_reply by (intro jobs_put [OF J i, of sp]) auto
next
  case (commit i rf sp)
  note i = jobs_okD(1) [OF J commit(2)]
  show ?thesis using commit no_sends(4) [OF commit(3)] by (intro jobs_put [OF J i, of sp]) auto
next
  case (send_snapshot i j)
  note i = jobs_okD(1) [OF J send_snapshot(2)] and j = jobs_okD(3) [OF J send_snapshot(2)]
  show ?thesis
    using J i j nodes_okD(4) [OF N i] by (auto simp: send_snapshot(1) jobs_ok_def sendInstallSnapshot_args_def)
next
  case (install j args rf reply sp)
  note j = jobs_okD(4) [OF J install(2)]
  show ?thesis using install no_sends(3) [OF install(3)] by (intro jobs_put [OF J j, of sp]) auto
next
  case (install_reply j args reply i rf sp)
  note i = jobs_okD(6) [OF J install_reply(2,3)]
  show ?thesis using install_reply no_sends(5) [OF install_reply(4)] by (intro jobs_put [OF J i, of sp]) auto
qed (use J in \<open>auto simp: jobs_ok_def put_def\<close>)

lemma elections_cong:
  assumes "node s' = node s" "cast s' = cast s" "rv_reqs s' = rv_reqs s" "rv_reps s' = rv_reps s" "polls s' = polls s"
  shows "elections_ok n s' = elections_ok n s"
  unfolding elections_ok_def nodes_ok_def votes_ok_def polls_ok_def leaders_ok_def asks_def assms ..

text \<open>Every step that does not start an election at a leader keeps the election invariant.\<close>

lemma step_elections:
  assumes st: "raft_step n atomic snaps s s'" and ok: "elections_ok n s" and J: "jobs_ok n s"
    and guard: "\<And>i. i \<in> ticking s \<Longrightarrow> i \<notin> ticking s' \<Longrightarrow> atomic \<or> role (node s i) \<noteq> Leader"
  shows "elections_ok n s'"
proof -
  note N = nodes_okD [OF elections_okD(1) [OF ok]]
  note Q = quiet_elections [OF ok] and L = local_quiet [OF N(1)]
  from st show ?thesis
  proof cases
    case (timeout i now)
    then show ?thesis using L(1) by (intro Q [OF timeout(2)]) auto
  next
    case (tick i)
    show ?thesis unfolding tick(1) by (rule iffD2 [OF elections_cong ok]) simp_all
  next
    case (campaign i now rf args)
    then have "role (node s i) \<noteq> Leader" using guard [of i] by auto
    then show ?thesis unfolding campaign(1) by (intro campaign_elections [OF ok campaign(2) _ campaign(5)])
  next
    case (request_vote j args now rf reply)
    then show ?thesis using request_vote_elections [OF ok] by simp
  next
    case (vote i t p j reply rf k sp)
    then show ?thesis using vote_elections [OF ok] by simp
  next
    case (start i command rf result sp)
    then have "quiet (node s i) rf" using L(2) [OF start(2), of command] by simp
    then show ?thesis using start by (intro Q [OF start(2)]) auto
  next
    case (send i sp)
    then show ?thesis using N(1) by (intro Q [OF send(2), of "node s i"]) (auto simp: quiet_def)
  next
    case (append_entries i j args now rf reply sp)
    note j = jobs_okD(2) [OF J append_entries(2)]
    show ?thesis using append_entries AppendEntries_quiet [OF N(1) [OF j]] by (intro Q [OF j]) auto
  next
    case (append_reply i j args reply rf sp)
    note i = jobs_okD(1) [OF J append_reply(2)]
    show ?thesis using append_reply L(3) [OF i] by (intro Q [OF i]) auto
  next
    case (commit i rf sp)
    note i = jobs_okD(1) [OF J commit(2)]
    show ?thesis using commit L(5) [OF i] by (intro Q [OF i]) auto
  next
    case (snap i index data rf)
    then show ?thesis using Snapshot_quiet [OF N(1) [OF snap(3)]] by (intro Q [OF snap(3)]) auto
  next
    case (send_snapshot i j)
    show ?thesis unfolding send_snapshot(1) by (rule iffD2 [OF elections_cong ok]) simp_all
  next
    case (install j args rf reply sp)
    note j = jobs_okD(4) [OF J install(2)]
    show ?thesis using install InstallSnapshot_quiet [OF N(1) [OF j]] by (intro Q [OF j]) auto
  next
    case (install_reply j args reply i rf sp)
    note i = jobs_okD(6) [OF J install_reply(2,3)]
    show ?thesis using install_reply L(4) [OF i] by (intro Q [OF i]) auto
  next
    case (deliver_snapshot i rf ms)
    then show ?thesis using L(6) [OF deliver_snapshot(2)] by (intro Q [OF deliver_snapshot(2)]) auto
  next
    case (deliver i rf ms)
    then show ?thesis using L(7) [OF deliver(2)] by (intro Q [OF deliver(2)]) auto
  next
    case (crash i)
    then show ?thesis using L(8) [OF crash(2)] N(2) [OF crash(2)] by (intro Q [OF crash(2)]) (auto split: if_splits)
  qed
qed

lemma step_cast:
  assumes "raft_step n atomic snaps s s'" and "elections_ok n s" and "cast s v t = Some c"
  shows "cast s' v t = Some c"
  using assms(1)
proof cases
  case (campaign i now rf args)
  have "rv_Term args = current_term (node s i) + 1"
    using campaign(5) startElection_eq [OF nodes_okD(1) [OF elections_okD(1) [OF assms(2)] campaign(2)]] by auto
  then have "v \<noteq> i \<or> t \<noteq> rv_Term args"
    using votes_okD(1) [OF elections_okD(2) [OF assms(2)] assms(3)] by auto
  then show ?thesis using assms(3) campaign(1) by auto
next
  case (request_vote j args now rf reply)
  obtain d where j: "j < n" and d: "asks n s args d" using votes_okD(3) [OF elections_okD(2) [OF assms(2)] request_vote(2)] by blast
  note N = nodes_okD [OF elections_okD(1) [OF assms(2)] j]
  have spec: "RequestVote_spec (node s j) args rf reply" using returnsD [OF RequestVote_ok [OF N(1)] request_vote(3)] by simp
  have "c = d" if "v = j" "t = rv_Term args" "rvr_VoteGranted reply"
  proof -
    have "current_term (node s j) = t"
      using votes_okD(1) [OF elections_okD(2) [OF assms(2)] assms(3)] that spec by (auto simp: RequestVote_spec_def)
    moreover then have "voted_for (node s j) = int c"
      using votes_okD(2) [OF elections_okD(2) [OF assms(2)] j] assms(3) that by simp
    ultimately show ?thesis using spec that d by (auto simp: RequestVote_spec_def asks_def)
  qed
  then show ?thesis using assms(3) request_vote(1) d by (auto simp: asks_def)
qed (use assms(3) in auto)

lemma cluster_ok:
  assumes "raft_run n True snaps (boot n) s"
  shows "elections_ok n s" and "jobs_ok n s"
proof -
  have "elections_ok n s \<and> jobs_ok n s"
    using assms unfolding raft_run_def
  proof (induction rule: rtranclp_induct)
    case base
    then show ?case using boot_ok by (simp add: jobs_ok_def boot_def)
  next
    case (step s s')
    then show ?case using step_elections [of n True snaps s s'] step_jobs [of n True snaps s s'] elections_okD by blast
  qed
  then show "elections_ok n s" "jobs_ok n s" by auto
qed

lemma run_cast:
  assumes "raft_run n True snaps s s'" and "raft_run n True snaps (boot n) s" and "cast s v t = Some c"
  shows "cast s' v t = Some c"
  using assms(1) unfolding raft_run_def
proof (induction rule: rtranclp_induct)
  case base
  then show ?case by (rule assms(3))
next
  case (step y z)
  have "raft_run n True snaps (boot n) y" using assms(2) step.hyps(1) unfolding raft_run_def by simp
  then show ?case using step_cast [OF step.hyps(2)] cluster_ok(1) step.IH by blast
qed

lemma leader_unique_run:
  assumes "raft_run n True snaps (boot n) s" and "raft_run n True snaps s s'" and "i < n" and "j < n"
    and "role (node s i) = Leader" and "role (node s' j) = Leader"
    and "current_term (node s i) = current_term (node s' j)"
  shows "i = j"
proof -
  let ?t = "current_term (node s i)"
  have run': "raft_run n True snaps (boot n) s'"
    using assms(1,2) unfolding raft_run_def by (rule rtranclp_trans)
  have "majority n {v. cast s v ?t = Some i}"
    using elections_okD(4) [OF cluster_ok(1) [OF assms(1)]] assms(3,5) by (simp add: leaders_ok_def)
  then have "majority n {v. cast s' v ?t = Some i}"
    by (rule cast_more(1) [rotated]) (rule run_cast [OF assms(2,1)])
  moreover have "majority n {v. cast s' v ?t = Some j}"
    using elections_okD(4) [OF cluster_ok(1) [OF run']] assms(4,6,7) by (simp add: leaders_ok_def)
  ultimately show ?thesis by (rule maj.quorum_choice)
qed

text \<open>
  C2. Election safety of the peers of raft.go running together: if no election is started at a peer
  that has just become leader, then in one term at most one peer is ever leader, at any two
  moments of a run, whatever is lost, delayed, repeated or reordered, and however often peers
  crash and restart; taking snapshots does not matter.
\<close>

theorem election_safety:
  assumes "raft_run n True snaps (boot n) s" and "raft_run n True snaps s s'" and "i < n" and "j < n"
    and "role (node s i) = Leader" and "role (node s' j) = Leader"
    and "current_term (node s i) = current_term (node s' j)"
  shows "i = j"
  using assms by (rule leader_unique_run)

section \<open>Executing runs\<close>

text \<open>The steps without snapshots and crashes as a function, to compute concrete runs.\<close>

datatype 'c event =
    Timeout nat int
  | Tick nat
  | Campaign nat
  | Request nat RequestVoteArgs
  | Vote nat nat nat RequestVoteReply
  | Propose nat 'c
  | Send nat
  | Append nat nat "'c AppendEntriesArgs"
  | Reply nat nat "'c AppendEntriesArgs" AppendEntriesReplys
  | Commit nat

fun exec :: "nat \<Rightarrow> bool \<Rightarrow> 'c event \<Rightarrow> 'c cluster \<Rightarrow> 'c cluster option" where
  "exec n atomic (Timeout i now) s =
     (if i < n then Some (put s i (ticker_follower (node s i) now) []) else None)"
| "exec n atomic (Tick i) s =
     (if i < n \<and> ticker_candidate (node s i) then Some (s\<lparr>ticking := insert i (ticking s)\<rparr>) else None)"
| "exec n atomic (Campaign i) s =
     (if i < n \<and> i \<in> ticking s \<and> (atomic \<longrightarrow> role (node s i) \<noteq> Leader)
      then case startElection (node s i) 0 of
             Inl e \<Rightarrow> None
           | Inr (rf, args) \<Rightarrow>
               Some ((put s i rf [])\<lparr>ticking := ticking s - {i},
                  polls := (polls s)(i := (polls s i)(rv_Term args \<mapsto>
                    \<lparr>poll_args = args, poll_votes = 1, poll_waiting = {..<n} - {i}\<rparr>)),
                  rv_reqs := rv_reqs s \<union> ({..<n} - {i}) \<times> {args},
                  cast := (cast s)(i := (cast s i)(rv_Term args \<mapsto> i))\<rparr>)
      else None)"
| "exec n atomic (Request j args) s =
     (if (j, args) \<in> rv_reqs s
      then case RequestVote (node s j) args 0 of
             Inl e \<Rightarrow> None
           | Inr (rf, reply) \<Rightarrow>
               Some ((put s j rf [])\<lparr>rv_reps := insert (j, args, reply) (rv_reps s),
                  cast := if rvr_VoteGranted reply
                          then (cast s)(j := (cast s j)(rv_Term args \<mapsto> nat (rv_Candidate_ID args)))
                          else cast s\<rparr>)
      else None)"
| "exec n atomic (Vote i t j reply) s =
     (case polls s i t of
        None \<Rightarrow> None
      | Some p \<Rightarrow>
          if j \<in> poll_waiting p \<and> (j, poll_args p, reply) \<in> rv_reps s
          then case vote_reply (node s i) (poll_votes p) (poll_args p) reply of
                 Inl e \<Rightarrow> None
               | Inr (rf, k, sp) \<Rightarrow>
                   Some ((put s i rf sp)\<lparr>polls := (polls s)(i := (polls s i)(t \<mapsto>
                      p\<lparr>poll_votes := k, poll_waiting := poll_waiting p - {j}\<rparr>))\<rparr>)
          else None)"
| "exec n atomic (Propose i c) s =
     (if i < n then case Start (node s i) c of (rf, result, sp) \<Rightarrow> Some (put s i rf sp) else None)"
| "exec n atomic (Send i) s =
     (if i < n
      then case entriesSender_round (node s i) of Inl e \<Rightarrow> None | Inr sp \<Rightarrow> Some (put s i (node s i) sp)
      else None)"
| "exec n atomic (Append i j args) s =
     (if (i, GoSendAppendEntries j args) \<in> jobs s
      then case AppendEntries (node s j) args 0 of
             Inl e \<Rightarrow> None
           | Inr (rf, reply, sp) \<Rightarrow> Some ((put s j rf sp)\<lparr>ae_reps := insert (j, args, reply) (ae_reps s)\<rparr>)
      else None)"
| "exec n atomic (Reply i j args reply) s =
     (if (i, GoSendAppendEntries j args) \<in> jobs s \<and> (j, args, reply) \<in> ae_reps s
      then case sendAppendEntries_reply (node s i) j args reply of
             Inl e \<Rightarrow> None | Inr (rf, sp) \<Rightarrow> Some (put s i rf sp)
      else None)"
| "exec n atomic (Commit i) s =
     (if (i, GoCommit) \<in> jobs s
      then case commit (node s i) of Inl e \<Rightarrow> None | Inr (rf, sp) \<Rightarrow> Some (put s i rf sp)
      else None)"

fun execs :: "nat \<Rightarrow> bool \<Rightarrow> 'c event list \<Rightarrow> 'c cluster \<Rightarrow> 'c cluster option" where
  "execs n atomic [] s = Some s"
| "execs n atomic (ev # evs) s = Option.bind (exec n atomic ev s) (execs n atomic evs)"

lemma exec_step:
  assumes "exec n atomic ev s = Some s'"
  shows "raft_step n atomic snaps s s'"
proof (cases ev)
  case (Campaign i)
  then obtain rf args where *: "i < n" "i \<in> ticking s" "atomic \<longrightarrow> role (node s i) \<noteq> Leader"
      "startElection (node s i) 0 = Inr (rf, args)"
    using assms by (auto split: if_splits sum.splits)
  then show ?thesis using assms Campaign raft_step.campaign [OF *(1,2) _ *(4)] by auto
next
  case (Request j args)
  then obtain rf reply where *: "(j, args) \<in> rv_reqs s" "RequestVote (node s j) args 0 = Inr (rf, reply)"
    using assms by (auto split: if_splits sum.splits)
  then show ?thesis using assms Request raft_step.request_vote [OF *, of n atomic snaps] by simp
next
  case (Vote i t j reply)
  then obtain p rf k sp where *: "polls s i t = Some p" "j \<in> poll_waiting p" "(j, poll_args p, reply) \<in> rv_reps s"
      "vote_reply (node s i) (poll_votes p) (poll_args p) reply = Inr (rf, k, sp)"
    using assms by (auto split: if_splits sum.splits option.splits)
  then show ?thesis using assms Vote raft_step.vote [OF *, of n atomic snaps] by simp
qed (use assms in \<open>auto split: if_splits sum.splits prod.splits intro: raft_step.intros\<close>)

lemma execs_run: "execs n atomic evs s = Some s' \<Longrightarrow> raft_run n atomic snaps s s'"
proof (induction evs arbitrary: s)
  case Nil
  then show ?case by (simp add: raft_run_def)
next
  case (Cons ev evs)
  then obtain s1 where "exec n atomic ev s = Some s1" "execs n atomic evs s1 = Some s'"
    by (auto simp: bind_eq_Some_conv)
  then show ?case
    using exec_step [of n atomic ev s s1 snaps] Cons.IH [of s1] unfolding raft_run_def
    by (meson converse_rtranclp_into_rtranclp)
qed

lemma execs_the: "execs n atomic evs s \<noteq> None \<Longrightarrow> raft_run n atomic snaps s (the (execs n atomic evs s))"
  by (auto intro: execs_run)

definition yes :: "nat \<Rightarrow> RequestVoteReply" where
  "yes t = \<lparr>rvr_Term = t, rvr_VoteGranted = True\<rparr>"

text \<open>Peer 0 is elected in term 1 by peer 1.\<close>

definition elect_events :: "nat event list" where
  "elect_events = [Timeout 0 500, Tick 0, Campaign 0, Request 1 demo_args, Vote 0 1 1 (yes 1)]"

definition elected :: "nat cluster" where
  "elected = the (execs 3 True elect_events (boot 3))"

lemma elected_run: "raft_run 3 True snaps (boot 3) elected"
  unfolding elected_def by (rule execs_the) code_simp

theorem election_safety_witness:
  "role (node elected 0) = Leader \<and> role (node elected 1) \<noteq> Leader \<and> current_term (node elected 1) = 1"
proof -
  have *: "role (node elected 0) = Leader" "current_term (node elected 0) = 1" "current_term (node elected 1) = 1"
    by code_simp+
  then have "role (node elected 1) \<noteq> Leader"
    using election_safety [OF elected_run, of False elected 0 1] by (auto simp: raft_run_def)
  with * show ?thesis by simp
qed

text \<open>
  Peer 0 stands for election in term 1 and peer 1 votes for it. Before the reply arrives, the
  ticker of peer 0 checks the role again. The reply makes it leader; then the ticker calls
  \<open>startElection\<close>. Peer 1 is elected in term 2 by peer 2.
\<close>

definition race_args :: RequestVoteArgs where
  "race_args = \<lparr>rv_Term = 2, rv_Candidate_ID = 1, rv_LastLogIndex = 0, rv_LastLogTerm = 0\<rparr>"

definition race_events :: "nat event list" where
  "race_events = [Timeout 0 500, Tick 0, Campaign 0, Request 1 demo_args, Tick 0, Vote 0 1 1 (yes 1), Campaign 0,
     Timeout 1 500, Tick 1, Campaign 1, Request 2 race_args, Vote 1 2 2 (yes 2)]"

text \<open>
  C15. The code as written does not guarantee election safety: between the ticker's check of the role
  and \<open>startElection\<close> the mutex is released, a vote that arrives there makes the peer leader,
  and \<open>startElection\<close> raises the term of a peer that goes on calling itself leader. There is a
  run of three peers, without loss, crashes or snapshots, at whose end two peers are leaders of
  the same term.
\<close>

theorem two_leaders_possible:
  "\<exists>s :: nat cluster. raft_run 3 False False (boot 3) s \<and> role (node s 0) = Leader \<and> role (node s 1) = Leader \<and>
     current_term (node s 0) = current_term (node s 1)"
proof -
  have "raft_run 3 False False (boot 3) (the (execs 3 False race_events (boot 3)))"
    by (rule execs_the) code_simp
  moreover have "role (node (the (execs 3 False race_events (boot 3))) 0) = Leader \<and>
      role (node (the (execs 3 False race_events (boot 3))) 1) = Leader \<and>
      current_term (node (the (execs 3 False race_events (boot 3))) 0) = 2 \<and>
      current_term (node (the (execs 3 False race_events (boot 3))) 1) = 2" by code_simp
  ultimately show ?thesis by metis
qed

end
