(* ===== verification/RaftSafety.thy ===== *)
theory RaftSafety
  imports RaftCluster
begin

text \<open>
  The peers of theory \<open>RaftCluster\<close> run the protocol of theory \<open>RaftSpec\<close>: a
  simulation, for runs in which elections are atomic and no snapshots are taken. From it follow
  log matching and state machine safety for the peers themselves.
\<close>

section \<open>The simulation\<close>

text \<open>What a request for entries means: it is a piece of the log of its term's leader.\<close>

definition sent :: "nat \<Rightarrow> 'c spec \<Rightarrow> nat \<Rightarrow> 'c AppendEntriesArgs \<Rightarrow> bool" where
  "sent n a i args \<longleftrightarrow>
     (let t = ae_Term args; prev = ae_PreviousLogIndex args; es = ae_Entries args in
      leads (majority n) a i t \<and> Suc prev + length es \<le> length (tlog a t) \<and>
      ae_PreviousLogTerm args = Term (tlog a t ! prev) \<and> es = take (length es) (drop (Suc prev) (tlog a t)) \<and>
      known (majority n) a (tlog a t) t (ae_LeaderCommit args))"

definition sim_nodes :: "nat \<Rightarrow> 'c cluster \<Rightarrow> 'c spec \<Rightarrow> bool" where
  "sim_nodes n s a \<longleftrightarrow> sballot a = cast s \<and>
     (\<forall>i < n. sterm a i = current_term (node s i) \<and> slog a i = logs (node s i) \<and>
        scommit a i = commit_index (node s i) \<and> last_included_index (node s i) = 0)"

definition sim_reqs :: "'c cluster \<Rightarrow> 'c spec \<Rightarrow> bool" where
  "sim_reqs s a \<longleftrightarrow> (\<forall>j args c. (j, args) \<in> rv_reqs s \<longrightarrow> rv_Candidate_ID args = int c \<longrightarrow>
     sterm a c = rv_Term args \<longrightarrow> tlog a (rv_Term args) = [] \<longrightarrow>
     rv_LastLogIndex args = length (slog a c) - 1 \<and> rv_LastLogTerm args = Term (last (slog a c)))"

definition sim_leader :: "nat \<Rightarrow> 'c spec \<Rightarrow> nat \<Rightarrow> 'c Raft \<Rightarrow> bool" where
  "sim_leader n a i rf \<longleftrightarrow> (role rf = Leader \<longrightarrow>
     tlog a (current_term rf) \<noteq> [] \<and> acks a i (current_term rf) = length (tlog a (current_term rf)) \<and>
     (\<forall>j < n. j \<noteq> i \<longrightarrow> match_index rf ! j = 0 \<or> match_index rf ! j < acks a j (current_term rf)))"

definition sim_polls :: "nat \<Rightarrow> 'c cluster \<Rightarrow> 'c spec \<Rightarrow> bool" where
  "sim_polls n s a \<longleftrightarrow> (\<forall>i t p. polls s i t = Some p \<longrightarrow> current_term (node s i) = t \<longrightarrow> tlog a t \<noteq> [] \<longrightarrow>
     majority n {v. cast s v t = Some i} \<longrightarrow> role (node s i) = Leader)"

definition sim_msgs :: "nat \<Rightarrow> 'c cluster \<Rightarrow> 'c spec \<Rightarrow> bool" where
  "sim_msgs n s a \<longleftrightarrow>
     (\<forall>i j args. (i, GoSendAppendEntries j args) \<in> jobs s \<longrightarrow> j \<noteq> i \<and> sent n a i args) \<and>
     (\<forall>j args reply. (j, args, reply) \<in> ae_reps s \<longrightarrow> aer_Success reply \<longrightarrow>
        ae_PreviousLogIndex args + length (ae_Entries args) < acks a j (ae_Term args)) \<and>
     (\<forall>j args. (j, args) \<in> is_reqs s \<longrightarrow> is_LastIncludedIndex args = 0) \<and>
     (\<forall>j args reply. (j, args, reply) \<in> is_reps s \<longrightarrow> is_LastIncludedIndex args = 0)"

definition sim :: "nat \<Rightarrow> 'c cluster \<Rightarrow> 'c spec \<Rightarrow> bool" where
  "sim n s a \<longleftrightarrow> elections_ok n s \<and> jobs_ok n s \<and> spec_inv (majority n) a \<and>
     sim_nodes n s a \<and> sim_reqs s a \<and> (\<forall>i < n. sim_leader n a i (node s i)) \<and> sim_polls n s a \<and> sim_msgs n s a"

lemma simD:
  assumes "sim n s a"
  shows "elections_ok n s" "jobs_ok n s" "spec_inv (majority n) a" "sim_nodes n s a" "sim_reqs s a"
    "i < n \<Longrightarrow> sim_leader n a i (node s i)" "sim_polls n s a" "sim_msgs n s a"
  using assms by (auto simp: sim_def)

lemma sim_nodesD:
  assumes "sim_nodes n s a" and "i < n"
  shows "sterm a i = current_term (node s i)" "slog a i = logs (node s i)" "scommit a i = commit_index (node s i)"
    "last_included_index (node s i) = 0"
  using assms by (auto simp: sim_nodes_def)

lemma sim_msgsD:
  assumes "sim_msgs n s a"
  shows "(i, GoSendAppendEntries j args) \<in> jobs s \<Longrightarrow> j \<noteq> i \<and> sent n a i args"
    "(j, args, reply) \<in> ae_reps s \<Longrightarrow> aer_Success reply \<Longrightarrow>
      ae_PreviousLogIndex args + length (ae_Entries args) < acks a j (ae_Term args)"
    "(j, sargs) \<in> is_reqs s \<Longrightarrow> is_LastIncludedIndex sargs = 0"
    "(j, sargs, sreply) \<in> is_reps s \<Longrightarrow> is_LastIncludedIndex sargs = 0"
  using assms unfolding sim_msgs_def by (simp, metis, metis, metis)

lemma boot_sim: "sim n (boot n) spec_init"
proof -
  have "spec_inv (majority n) (spec_init :: 'a spec)" by (rule spec_init_inv) (auto simp: majority_def)
  then show ?thesis
    using boot_ok [of n]
    by (simp add: sim_def sim_nodes_def sim_reqs_def sim_leader_def sim_polls_def sim_msgs_def jobs_ok_def)
      (simp add: boot_def spec_init_def fun_eq_iff)
qed

section \<open>What stays true as the protocol moves on\<close>

lemma sent_grows:
  assumes "grows a a'" and "sent n a i args"
  shows "sent n a' i args"
proof -
  let ?t = "ae_Term args" and ?m = "Suc (ae_PreviousLogIndex args) + length (ae_Entries args)"
  have old: "leads (majority n) a i ?t" "?m \<le> length (tlog a ?t)"
    "ae_PreviousLogTerm args = Term (tlog a ?t ! ae_PreviousLogIndex args)"
    "ae_Entries args = take (length (ae_Entries args)) (drop (Suc (ae_PreviousLogIndex args)) (tlog a ?t))"
    "known (majority n) a (tlog a ?t) ?t (ae_LeaderCommit args)"
    using assms(2) by (simp_all add: sent_def Let_def)
  note p = grows_tlog [OF assms(1), of ?t]
  have "take ?m (tlog a' ?t) = take ?m (tlog a ?t)" using prefix_take [OF p old(2)] .
  then have "drop (Suc (ae_PreviousLogIndex args)) (take ?m (tlog a' ?t)) =
      drop (Suc (ae_PreviousLogIndex args)) (take ?m (tlog a ?t))" by simp
  then have "take (length (ae_Entries args)) (drop (Suc (ae_PreviousLogIndex args)) (tlog a' ?t)) = ae_Entries args"
    using old(4) by (simp add: drop_take)
  moreover have "tlog a' ?t ! ae_PreviousLogIndex args = tlog a ?t ! ae_PreviousLogIndex args"
    using prefix_nth [OF p] old(2) by simp
  moreover have "known (majority n) a' (tlog a' ?t) ?t (ae_LeaderCommit args)"
    by (rule maj.known_mono [OF maj.grows_known [OF assms(1) old(5)] le_refl])
      (meson p prefix_order.trans take_is_prefix)
  ultimately show ?thesis
    using old(2,3) maj.grows_leads [OF assms(1) old(1)] prefix_length_le [OF p] by (simp add: sent_def Let_def)
qed

text \<open>New messages on top of the old ones.\<close>

lemma msgs_grow:
  assumes m: "sim_msgs n s a" and g: "grows a a'"
    and "\<And>i j args. (i, GoSendAppendEntries j args) \<in> jobs s' \<Longrightarrow>
      (i, GoSendAppendEntries j args) \<in> jobs s \<or> j \<noteq> i \<and> sent n a' i args"
    and "\<And>j args reply. (j, args, reply) \<in> ae_reps s' \<Longrightarrow> aer_Success reply \<Longrightarrow>
      (j, args, reply) \<in> ae_reps s \<or>
      ae_PreviousLogIndex args + length (ae_Entries args) < acks a' j (ae_Term args)"
    and "\<And>j args. (j, args) \<in> is_reqs s' \<Longrightarrow> (j, args) \<in> is_reqs s \<or> is_LastIncludedIndex args = 0"
    and "\<And>j args reply. (j, args, reply) \<in> is_reps s' \<Longrightarrow> (j, args, reply) \<in> is_reps s \<or> is_LastIncludedIndex args = 0"
  shows "sim_msgs n s' a'"
proof -
  have "acks a j t \<le> acks a' j t" for j t using g by (simp add: grows_def)
  then have acks: "x < acks a j t \<Longrightarrow> x < acks a' j t" for x j t using less_le_trans by blast
  note M = sim_msgsD [OF m]
  show ?thesis
    unfolding sim_msgs_def
  proof (intro conjI allI impI)
    show "j \<noteq> i" "sent n a' i args" if "(i, GoSendAppendEntries j args) \<in> jobs s'" for i j args
      using assms(3) [OF that] M(1) [of i j args] sent_grows [OF g, of n i args] by auto
    show "ae_PreviousLogIndex args + length (ae_Entries args) < acks a' j (ae_Term args)"
      if "(j, args, reply) \<in> ae_reps s'" and "aer_Success reply" for j args reply
      using assms(4) [OF that] M(2) [OF _ that(2), of j args] acks by auto
    show "is_LastIncludedIndex args = 0" if "(j, args) \<in> is_reqs s'" for j args
      using assms(5) [OF that] M(3) [of j args] by auto
    show "is_LastIncludedIndex args = 0" if "(j, args, reply) \<in> is_reps s'" for j args reply
      using assms(6) [OF that] M(4) [of j args reply] by auto
  qed
qed

lemma leader_grows:
  assumes "sim_leader n a i rf" and "grows a a'" and "tlog a' (current_term rf) = tlog a (current_term rf)"
    and "acks a' i (current_term rf) = acks a i (current_term rf)"
    and "role rf' = Leader \<Longrightarrow> role rf = Leader \<and> current_term rf' = current_term rf \<and> match_index rf' = match_index rf"
  shows "sim_leader n a' i rf'"
proof -
  have "acks a j t \<le> acks a' j t" for j t using assms(2) by (simp add: grows_def)
  then have acks: "x < acks a j t \<Longrightarrow> x < acks a' j t" for x j t using less_le_trans by blast
  then show ?thesis using assms unfolding sim_leader_def by (metis (no_types, lifting))
qed

lemma leader_match:
  assumes "sim_leader n a i rf" and "role rf' = role rf" and "current_term rf' = current_term rf"
    and "\<And>j. j < n \<Longrightarrow> j \<noteq> i \<Longrightarrow> match_index rf' ! j = 0 \<or> match_index rf' ! j = match_index rf ! j \<or>
      match_index rf' ! j < acks a j (current_term rf)"
  shows "sim_leader n a i rf'"
  unfolding sim_leader_def
proof (intro impI conjI allI)
  assume r: "role rf' = Leader"
  then show "tlog a (current_term rf') \<noteq> []" "acks a i (current_term rf') = length (tlog a (current_term rf'))"
    using assms(1-3) by (simp_all add: sim_leader_def)
  fix j
  assume "j < n" "j \<noteq> i"
  with r assms(1-3) assms(4) [of j] show "match_index rf' ! j = 0 \<or> match_index rf' ! j < acks a j (current_term rf')"
    by (auto simp: sim_leader_def)
qed

section \<open>Steps that leave logs and votes alone\<close>

text \<open>Messages and leaders' knowledge do not depend on terms and commit indices.\<close>

lemma spec_upd [simp]:
  fixes a :: "'c spec"
  shows "leads Q (a\<lparr>sterm := f\<rparr>) = leads Q a" "leads Q (a\<lparr>scommit := g\<rparr>) = leads Q a"
    "chosen Q (a\<lparr>sterm := f\<rparr>) = chosen Q a" "chosen Q (a\<lparr>scommit := g\<rparr>) = chosen Q a"
    "known Q (a\<lparr>sterm := f\<rparr>) = known Q a" "known Q (a\<lparr>scommit := g\<rparr>) = known Q a"
    "sent n (a\<lparr>sterm := f\<rparr>) = sent n a" "sent n (a\<lparr>scommit := g\<rparr>) = sent n a"
    "sim_leader n (a\<lparr>sterm := f\<rparr>) = sim_leader n a" "sim_leader n (a\<lparr>scommit := g\<rparr>) = sim_leader n a"
    "sim_msgs n s (a\<lparr>sterm := f\<rparr>) = sim_msgs n s a" "sim_msgs n s (a\<lparr>scommit := g\<rparr>) = sim_msgs n s a"
proof -
  show l: "leads Q (a\<lparr>sterm := f\<rparr>) = leads Q a" "leads Q (a\<lparr>scommit := g\<rparr>) = leads Q a" for Q f g
    by (simp_all add: leads_def fun_eq_iff)
  show c: "chosen Q (a\<lparr>sterm := f\<rparr>) = chosen Q a" "chosen Q (a\<lparr>scommit := g\<rparr>) = chosen Q a" for Q f g
    by (simp_all add: chosen_def valid_def fun_eq_iff)
  then show k: "known Q (a\<lparr>sterm := f\<rparr>) = known Q a" "known Q (a\<lparr>scommit := g\<rparr>) = known Q a" for Q f g
    by (simp_all add: known_def fun_eq_iff)
  then show t: "sent n (a\<lparr>sterm := f\<rparr>) = sent n a" "sent n (a\<lparr>scommit := g\<rparr>) = sent n a" for n f g
    by (simp_all add: sent_def l fun_eq_iff)
  show "sim_leader n (a\<lparr>sterm := f\<rparr>) = sim_leader n a" "sim_leader n (a\<lparr>scommit := g\<rparr>) = sim_leader n a"
    by (simp_all add: sim_leader_def fun_eq_iff)
  show "sim_msgs n s (a\<lparr>sterm := f\<rparr>) = sim_msgs n s a" "sim_msgs n s (a\<lparr>scommit := g\<rparr>) = sim_msgs n s a"
    by (simp_all add: sim_msgs_def t)
qed

definition sim_next :: "nat \<Rightarrow> 'c spec \<Rightarrow> 'c cluster \<Rightarrow> bool" where
  "sim_next n a s' \<longleftrightarrow> (\<exists>a'. (spec_step (majority n))\<^sup>*\<^sup>* a a' \<and> sim n s' a')"

lemma sim_still:
  assumes S: "sim n s a" and i: "i < n" and E: "elections_ok n s'" and J: "jobs_ok n s'"
    and eq: "node s' = (node s)(i := rf)" "cast s' = cast s" "rv_reqs s' = rv_reqs s"
    and polls: "\<And>j t p. polls s' j t = Some p \<Longrightarrow> \<exists>p'. polls s j t = Some p'"
    and rf: "logs rf = logs (node s i)" "last_included_index rf = 0" "current_term (node s i) \<le> current_term rf"
    and leader: "sim_leader n a i rf"
    and role: "current_term rf = current_term (node s i) \<Longrightarrow> role (node s i) = Leader \<Longrightarrow>
      role rf = Leader \<or> polls s' i = Map.empty"
    and commit: "commit_index rf = commit_index (node s i) \<or>
      known (majority n) a (logs rf) (current_term rf) (commit_index rf)"
    and msgs: "sim_msgs n s' a"
  shows "sim_next n a s'"
proof -
  note N = sim_nodesD [OF simD(4) [OF S]] and V = votes_okD [OF elections_okD(2) [OF simD(1) [OF S]]]
  let ?t = "current_term rf"
  define a1 where "a1 = a\<lparr>sterm := (sterm a)(i := ?t)\<rparr>"
  define a2 where "a2 = a1\<lparr>scommit := (scommit a1)(i := commit_index rf)\<rparr>"
  have "(spec_step (majority n))\<^sup>*\<^sup>* a a1"
  proof (cases "sterm a i < ?t")
    case True
    then show ?thesis unfolding a1_def by (intro r_into_rtranclp spec_step.adopt)
  next
    case False
    then have "(sterm a)(i := ?t) = sterm a" using rf(3) N(1) [OF i] by auto
    then show ?thesis unfolding a1_def by simp
  qed
  moreover have "spec_step (majority n) a1 a2"
    unfolding a2_def
  proof (rule spec_step.learn)
    have "known (majority n) a (logs rf) (current_term rf) (commit_index rf)"
    proof (rule disjE [OF commit])
      assume "commit_index rf = commit_index (node s i)"
      moreover have "known (majority n) a (slog a i) (sterm a i) (scommit a i)"
        using spec_invD(7) [OF simD(3) [OF S]] by (simp add: inv_commit_def)
      ultimately show ?thesis
        using rf(1,3) N [OF i] maj.known_mono [of n a "slog a i" "sterm a i" _ ?t "slog a i"] by (simp add: take_is_prefix)
    qed
    then show "known (majority n) a1 (slog a1 i) (sterm a1 i) (commit_index rf)"
      using N(2) [OF i] rf(1) by (simp add: a1_def)
  qed
  ultimately have steps: "(spec_step (majority n))\<^sup>*\<^sup>* a a2" by simp
  have "sim n s' a2"
    unfolding sim_def
  proof (intro conjI allI impI E J)
    show "spec_inv (majority n) a2" using maj.spec_steps_inv [OF steps simD(3) [OF S]] by simp
    show "sim_nodes n s' a2"
      using simD(4) [OF S] rf i unfolding sim_nodes_def by (auto simp: eq a2_def a1_def)
    have "asks n s args c \<Longrightarrow> rv_Candidate_ID args = int d \<Longrightarrow> c = d" for args c d by (simp add: asks_def)
    then show "sim_reqs s' a2"
      unfolding sim_reqs_def eq(3)
    proof (intro allI impI)
      fix j args c
      assume m: "(j, args) \<in> rv_reqs s" "rv_Candidate_ID args = int c" "sterm a2 c = rv_Term args" "tlog a2 (rv_Term args) = []"
      then have "asks n s args c" using V(3) [OF m(1)] by (auto simp: asks_def)
      then have "rv_Term args \<le> current_term (node s c)" "c < n" by (auto simp: asks_def)
      with m(3) rf(3) N(1) have "sterm a c = rv_Term args" by (auto simp: a2_def a1_def split: if_splits)
      then show "rv_LastLogIndex args = length (slog a2 c) - 1 \<and> rv_LastLogTerm args = Term (last (slog a2 c))"
        using simD(5) [OF S] m by (auto simp: sim_reqs_def a2_def a1_def)
    qed
    show "sim_leader n a2 j (node s' j)" if "j < n" for j
      using simD(6) [OF S that] leader by (simp add: eq a2_def a1_def)
    show "sim_polls n s' a2"
      unfolding sim_polls_def eq(2)
    proof (intro allI impI)
      fix j t p
      assume p: "polls s' j t = Some p" "current_term (node s' j) = t" "tlog a2 t \<noteq> []" "majority n {v. cast s v t = Some j}"
      obtain p' where p': "polls s j t = Some p'" using polls [OF p(1)] by blast
      have le: "t \<le> current_term (node s j)"
        using polls_okD(1,2) [OF elections_okD(3) [OF simD(1) [OF S]] p'] by (simp add: asks_def)
      have "current_term (node s j) = t" using p(2) le rf(3) by (auto simp: eq split: if_splits)
      moreover have "tlog a t \<noteq> []" using p(3) by (simp add: a2_def a1_def)
      ultimately have "role (node s j) = Leader" using simD(7) [OF S] p' p(4) unfolding sim_polls_def by blast
      then show "role (node s' j) = Leader"
        using role p(1,2) \<open>current_term (node s j) = t\<close> by (auto simp: eq split: if_splits)
    qed
    show "sim_msgs n s' a2" using msgs by (simp add: a2_def a1_def)
  qed
  with steps show ?thesis unfolding sim_next_def by blast
qed

section \<open>The steps\<close>

text \<open>What a leader sends is a piece of its log.\<close>

lemma helper_sent:
  assumes "sendAppendEntriesHelper rf j = Inr sp" and "GoSendAppendEntries j' args \<in> set sp"
    and "last_included_index rf = 0" and "logs rf = tlog a (current_term rf)"
    and "leads (majority n) a i (current_term rf)"
    and "known (majority n) a (logs rf) (current_term rf) (commit_index rf)"
  shows "j' = j" and "sent n a i args"
proof -
  let ?L = "logs rf"
  from assms(1,2) obtain p e es where *: "getLogEntry rf p = Inr e" "j' = j"
    "es = [] \<or> getLogSliceCopy rf (Suc p) (getLogLength rf) = Inr es"
    "args = \<lparr>ae_Term = current_term rf, ae_LeaderID = int (me rf), ae_PreviousLogIndex = p,
      ae_PreviousLogTerm = Term e, ae_Entries = es, ae_LeaderCommit = commit_index rf\<rparr>"
    using assms(3) by (auto simp: sendAppendEntriesHelper_def bindr_eq_Inr Let_def split: if_splits)
  then show "j' = j" by simp
  have e: "p < length ?L" "e = ?L ! p"
    using *(1) assms(3)
    by (auto simp: getLogEntry_def logicalIndexToPhysicalIndex_def idx_def split: if_splits)
  have "es = [] \<or> es = drop (Suc p) ?L"
    using *(3) e(1) assms(3) by (auto simp: getLogSliceCopy_def getLogSlice_in getLogLength_def)
  then have "es = take (length es) (drop (Suc p) ?L)" "Suc p + length es \<le> length ?L" using e(1) by auto
  then show "sent n a i args"
    using e assms(4-6) *(4) by (simp add: sent_def Let_def)
qed

lemma leader_facts:
  assumes "sim n s a" and "i < n" and "role (node s i) = Leader"
  shows "leads (majority n) a i (current_term (node s i))"
    and "tlog a (current_term (node s i)) = logs (node s i)"
    and "known (majority n) a (logs (node s i)) (current_term (node s i)) (commit_index (node s i))"
    and "tlog a (current_term (node s i)) \<noteq> []"
proof -
  note N = sim_nodesD [OF simD(4) [OF assms(1)] assms(2)]
  show l: "leads (majority n) a i (current_term (node s i))"
    using elections_okD(4) [OF simD(1) [OF assms(1)]] assms(2,3) simD(4) [OF assms(1)]
    by (simp add: leaders_ok_def leads_def sim_nodes_def)
  show ne: "tlog a (current_term (node s i)) \<noteq> []"
    using simD(6) [OF assms(1,2)] assms(3) by (simp add: sim_leader_def)
  with l N spec_invD(3) [OF simD(3) [OF assms(1)]] show "tlog a (current_term (node s i)) = logs (node s i)"
    by (auto simp: inv_leader_def)
  show "known (majority n) a (logs (node s i)) (current_term (node s i)) (commit_index (node s i))"
    using spec_invD(7) [OF simD(3) [OF assms(1)]] N unfolding inv_commit_def by metis
qed

lemma send_sim:
  assumes S: "sim n s a" and i: "i < n" and e: "entriesSender_round (node s i) = Inr sp"
    and E: "elections_ok n (put s i (node s i) sp)" and J: "jobs_ok n (put s i (node s i) sp)"
  shows "sim_next n a (put s i (node s i) sp)"
proof (rule sim_still [OF S i E J])
  note N = sim_nodesD [OF simD(4) [OF S] i] and W = nodes_okD [OF elections_okD(1) [OF simD(1) [OF S]] i]
  have new: "j \<noteq> i \<and> sent n a i args" if m: "GoSendAppendEntries j args \<in> set sp" for j args
  proof -
    have r: "role (node s i) = Leader" "send_to_all (node s i) [0..<npeers (node s i)] = Inr sp"
      using e that by (auto simp: entriesSender_round_def split: if_splits)
    obtain j' sj where j': "j' \<noteq> i" "sendAppendEntriesHelper (node s i) j' = Inr sj" "GoSendAppendEntries j args \<in> set sj"
      using send_to_all_jobs [OF r(2) m] W(4) by auto
    note F = leader_facts [OF S i r(1)]
    from helper_sent [OF j'(2,3) N(4) F(2) [symmetric] F(1,3)] j'(1) show ?thesis by simp
  qed
  then show "sim_msgs n (put s i (node s i) sp) a" by (intro msgs_grow [OF simD(8) [OF S]]) auto
  show "sim_leader n a i (node s i)" by (rule simD(6) [OF S i])
qed (use sim_nodesD [OF simD(4) [OF S] i] in auto)

lemma append_reply_sim:
  assumes S: "sim n s a" and m: "(i, GoSendAppendEntries j args) \<in> jobs s" "(j, args, reply) \<in> ae_reps s"
    and e: "sendAppendEntries_reply (node s i) j args reply = Inr (rf, sp)"
    and E: "elections_ok n (put s i rf sp)" and J: "jobs_ok n (put s i rf sp)"
  shows "sim_next n a (put s i rf sp)"
proof -
  have i: "i < n" and ji: "j \<noteq> i"
    using jobs_okD(1) [OF simD(2) [OF S] m(1)] sim_msgsD(1) [OF simD(8) [OF S] m(1)] by auto
  note N = sim_nodesD [OF simD(4) [OF S] i] and L = simD(6) [OF S i]
  have keep: "sim_next n a (put s i rf sp)"
    if "logs rf = logs (node s i)" "last_included_index rf = 0" "current_term (node s i) \<le> current_term rf"
      "sim_leader n a i rf" "current_term rf = current_term (node s i) \<Longrightarrow> role (node s i) = Leader \<Longrightarrow> role rf = Leader"
      "commit_index rf = commit_index (node s i)"
      "\<And>j args. GoSendAppendEntries j args \<in> set sp \<Longrightarrow> j \<noteq> i \<and> sent n a i args"
    by (rule sim_still [OF S i E J]) (use that in \<open>auto intro!: msgs_grow [OF simD(8) [OF S]]\<close>)
  from e show ?thesis
  proof (cases rule: sendAppendEntries_reply_cases)
    case higher
    then show ?thesis using N by (intro keep) (auto simp: sim_leader_def)
  next
    case stale
    then show ?thesis using N L by (intro keep) auto
  next
    case (retry ns)
    have same: "logs rf = logs (node s i)" "last_included_index rf = 0" "current_term rf = current_term (node s i)"
      "role rf = role (node s i)" "match_index rf = match_index (node s i)" "commit_index rf = commit_index (node s i)"
      using retry(3) N(4) by auto
    note F = leader_facts [OF S i retry(1)]
    have "k \<noteq> i \<and> sent n a i args'" if "GoSendAppendEntries k args' \<in> set sp" for k args'
    proof -
      have h: "sendAppendEntriesHelper rf j = Inr sp" using retry(4) that by auto
      from helper_sent [OF h that same(2), of a n i] F same ji show ?thesis by auto
    qed
    then show ?thesis using L same by (intro keep) (auto simp: sim_leader_def)
  next
    case (matched ns)
    have acked: "ae_PreviousLogIndex args + length (ae_Entries args) < acks a j (current_term (node s i))"
      using sim_msgsD(2) [OF simD(8) [OF S] m(2) matched(3)] matched(2) by simp
    have "match_index rf ! k = match_index (node s i) ! k \<or> match_index rf ! k < acks a k (current_term (node s i))" for k
      using acked matched(5) by (cases "k = j") auto
    then have "sim_leader n a i rf" using matched(5) by (intro leader_match [OF L]) auto
    then show ?thesis using matched(4,5) N by (intro keep) auto
  qed
qed

lemma commit_sim:
  assumes S: "sim n s a" and m: "(i, GoCommit) \<in> jobs s" and e: "commit (node s i) = Inr (rf, sp)"
    and E: "elections_ok n (put s i rf sp)" and J: "jobs_ok n (put s i rf sp)"
  shows "sim_next n a (put s i rf sp)"
proof -
  have i: "i < n" using jobs_okD(1) [OF simD(2) [OF S] m] .
  note N = sim_nodesD [OF simD(4) [OF S] i] and L = simD(6) [OF S i]
  note W = nodes_okD [OF elections_okD(1) [OF simD(1) [OF S]] i]
  let ?rf = "node s i" and ?t = "current_term (node s i)" and ?m = "commit_index rf"
  have same: "logs rf = logs ?rf" "last_included_index rf = 0" "current_term rf = ?t" "role rf = role ?rf"
    "match_index rf = match_index ?rf" and sp: "\<And>j args. GoSendAppendEntries j args \<notin> set sp"
    using e N(4) by (auto simp: commit_def bindr_eq_Inr split: if_splits)
  have "known (majority n) a (logs rf) ?t ?m" if "?m \<noteq> commit_index ?rf"
  proof -
    have c: "role ?rf = Leader" "0 < ?m" "n div 2 < card (holders ?rf ?m)"
      "\<exists>e. getLogEntry ?rf ?m = Inr e \<and> Term e = ?t"
      using commit_majority [OF W(1) e] that W(3) by auto
    note F = leader_facts [OF S i c(1)]
    have v: "?m < length (logs ?rf)" "Term (logs ?rf ! ?m) = ?t"
      using c(4) N(4) by (auto simp: getLogEntry_def logicalIndexToPhysicalIndex_def idx_def split: if_splits)
    have "holders ?rf ?m \<subseteq> {v. ?m < acks a v ?t} \<inter> {..<n}"
    proof
      fix v
      assume "v \<in> holders ?rf ?m"
      then have h: "v < n" "if v = i then ?m < length (logs ?rf) else ?m \<le> match_index ?rf ! v"
        using W(3,4) N(4) by (auto simp: holders_def getLogLength_def)
      then show "v \<in> {v. ?m < acks a v ?t} \<inter> {..<n}"
        using L c(1,2) F(2) by (cases "v = i") (fastforce simp: sim_leader_def)+
    qed
    then have "majority n {v. ?m < acks a v ?t}"
      using c(3) card_mono [of "{v. ?m < acks a v ?t} \<inter> {..<n}" "holders ?rf ?m"] by (simp add: majority_def)
    then have "chosen (majority n) a ?t ?m" using v F(2) by (simp add: chosen_def valid_def)
    moreover have "prefix (take (Suc ?m) (logs ?rf)) (tlog a ?t)" using F(2) by (simp add: take_is_prefix)
    ultimately show ?thesis unfolding known_def same(1) using v(1) by blast
  qed
  then have "?m = commit_index ?rf \<or> known (majority n) a (logs rf) ?t ?m" by blast
  moreover have "sim_leader n a i rf" using L same(3-5) by (simp add: sim_leader_def)
  ultimately show ?thesis
    by (intro sim_still [OF S i E J]) (use sp same in \<open>auto intro!: msgs_grow [OF simD(8) [OF S]]\<close>)
qed

lemma install_reply_sim:
  assumes S: "sim n s a" and m: "(j, args, reply) \<in> is_reps s" "is_LeaderID args = int i"
    and e: "sendInstallSnapshot_reply (node s i) j args reply = Inr (rf, sp)"
    and E: "elections_ok n (put s i rf sp)" and J: "jobs_ok n (put s i rf sp)"
  shows "sim_next n a (put s i rf sp)"
proof -
  have i: "i < n" using jobs_okD(6) [OF simD(2) [OF S] m] .
  have z: "is_LastIncludedIndex args = 0" using sim_msgsD(4) [OF simD(8) [OF S] m(1)] .
  note N = sim_nodesD [OF simD(4) [OF S] i] and L = simD(6) [OF S i]
  have "current_term (node s i) < current_term rf \<and> role rf = Follower \<or>
      current_term rf = current_term (node s i) \<and> role rf = role (node s i) \<and>
      (\<exists>k. match_index rf = (match_index (node s i))[k := 0] \<and> k < length (match_index (node s i)))"
    and same: "logs rf = logs (node s i)" "last_included_index rf = 0" "commit_index rf = commit_index (node s i)"
    and sp: "\<And>j args. GoSendAppendEntries j args \<notin> set sp"
    using e N(4) z by (auto simp: sendInstallSnapshot_reply_def bindr_eq_Inr split: if_splits)
  then have "sim_leader n a i rf \<and> current_term (node s i) \<le> current_term rf \<and>
      (current_term rf = current_term (node s i) \<longrightarrow> role rf = role (node s i))"
  proof (elim disjE conjE exE)
    fix k
    assume k: "match_index rf = (match_index (node s i))[k := 0]" "k < length (match_index (node s i))"
      and t: "current_term rf = current_term (node s i)" "role rf = role (node s i)"
    have "match_index rf ! j = 0 \<or> match_index rf ! j = match_index (node s i) ! j" for j
      using k by (cases "j = k") auto
    then have "sim_leader n a i rf" by (intro leader_match [OF L t(2,1)]) blast
    then show ?thesis using t by simp
  qed (simp add: sim_leader_def)
  then show ?thesis
    by (intro sim_still [OF S i E J]) (use sp same in \<open>auto intro!: msgs_grow [OF simD(8) [OF S]]\<close>)
qed

lemma install_sim:
  assumes S: "sim n s a" and m: "(j, args) \<in> is_reqs s"
    and e: "InstallSnapshot (node s j) args = Inr (rf, reply, sp)"
    and s': "s' = (put s j rf sp)\<lparr>is_reps := insert (j, args, reply) (is_reps s)\<rparr>"
    and E: "elections_ok n s'" and J: "jobs_ok n s'"
  shows "sim_next n a s'"
proof -
  have j: "j < n" using jobs_okD(4) [OF simD(2) [OF S] m] .
  have z: "is_LastIncludedIndex args = 0" using sim_msgsD(3) [OF simD(8) [OF S] m] .
  note N = sim_nodesD [OF simD(4) [OF S] j] and L = simD(6) [OF S j]
  have "rf = node s j" "sp = []" using e z by (auto simp: InstallSnapshot_eq installs_def)
  then show ?thesis
    using N L z by (intro sim_still [OF S j E J, of rf]) (auto simp: s' intro!: msgs_grow [OF simD(8) [OF S]])
qed

lemma local_sim:
  assumes S: "sim n s a" and i: "i < n" and E: "elections_ok n (put s i rf [])" and J: "jobs_ok n (put s i rf [])"
    and "(current_term rf, logs rf, last_included_index rf, commit_index rf, match_index rf) =
      (current_term (node s i), logs (node s i), last_included_index (node s i), commit_index (node s i), match_index (node s i))"
    and "role rf = Leader \<longleftrightarrow> role (node s i) = Leader"
  shows "sim_next n a (put s i rf [])"
  by (rule sim_still [OF S i E J, of rf])
    (use assms(5,6) sim_nodesD(4) [OF simD(4) [OF S] i] simD(6) [OF S i] in
      \<open>auto simp: sim_leader_def intro!: msgs_grow [OF simD(8) [OF S]]\<close>)

lemma crash_sim:
  assumes S: "sim n s a" and i: "i < n"
    and s': "s' = (put s i (restart (node s i)) [])\<lparr>ticking := ticking s - {i}, polls := (polls s)(i := Map.empty)\<rparr>"
    and E: "elections_ok n s'" and J: "jobs_ok n s'"
  shows "sim_next n a s'"
proof -
  note N = sim_nodesD [OF simD(4) [OF S] i] and W = nodes_okD [OF elections_okD(1) [OF simD(1) [OF S]] i]
  have "current_term (restart (node s i)) = current_term (node s i)" "logs (restart (node s i)) = logs (node s i)"
    "last_included_index (restart (node s i)) = 0"
    using W(2) N(4) by (auto simp: durable_def persistent_def)
  then show ?thesis
    by (intro sim_still [OF S i E J, of "restart (node s i)"])
      (auto simp: s' sim_leader_def known_def split: if_splits intro!: msgs_grow [OF simD(8) [OF S]])
qed

text \<open>A step of the cluster that is one or more steps of the protocol.\<close>

lemma sim_nextI:
  assumes "sim n s a" and "(spec_step (majority n))\<^sup>*\<^sup>* a a'" and "elections_ok n s'" and "jobs_ok n s'"
    and "sim_nodes n s' a'" and "sim_reqs s' a'" and "\<And>i. i < n \<Longrightarrow> sim_leader n a' i (node s' i)"
    and "sim_polls n s' a'" and "sim_msgs n s' a'"
  shows "sim_next n a s'"
  using assms maj.spec_steps_inv [OF assms(2) simD(3) [OF assms(1)]] unfolding sim_next_def sim_def by blast

lemma sim_grows: "sim n s a \<Longrightarrow> (spec_step (majority n))\<^sup>*\<^sup>* a a' \<Longrightarrow> grows a a'"
  using maj.spec_steps_inv simD(3) by blast

text \<open>One leader per term, seen from the protocol.\<close>

lemma leaders_differ:
  assumes "sim n s a" and "i < n" and "role (node s i) = Leader" and "leads (majority n) a k (current_term (node s i))"
  shows "i = k"
  using maj.leader_unique [OF leader_facts(1) [OF assms(1-3)] assms(4)] .

lemma others_lead:
  assumes S: "sim n s a" and k: "k < n" "k \<noteq> i" and l: "leads (majority n) a i t" and g: "grows a a'"
    and eq: "\<And>u. u \<noteq> t \<Longrightarrow> tlog a' u = tlog a u" "acks a' k = acks a k"
  shows "sim_leader n a' k (node s k)"
proof (cases "role (node s k) = Leader")
  case True
  then have "current_term (node s k) \<noteq> t" using leaders_differ [OF S k(1) True, of i] l k(2) by auto
  then show ?thesis by (intro leader_grows [OF simD(6) [OF S k(1)] g]) (auto simp: eq)
qed (simp add: sim_leader_def)

lemma start_sim:
  assumes S: "sim n s a" and i: "i < n" and e: "Start (node s i) command = (rf, result, sp)"
    and E: "elections_ok n (put s i rf sp)" and J: "jobs_ok n (put s i rf sp)"
  shows "sim_next n a (put s i rf sp)"
proof (cases "role (node s i) = Leader")
  case False
  then have "rf = node s i" "sp = []" using e by (auto simp: Start_def)
  then show ?thesis using local_sim [OF S i, of "node s i"] E J by simp
next
  case lead: True
  let ?t = "current_term (node s i)"
  let ?e = "\<lparr>Command = Some command, Term = ?t\<rparr>"
  note N = sim_nodesD [OF simD(4) [OF S]] and F = leader_facts [OF S i lead]
  have rf: "current_term rf = ?t" "logs rf = logs (node s i) @ [?e]" "commit_index rf = commit_index (node s i)"
    "last_included_index rf = 0" "role rf = Leader" "match_index rf = match_index (node s i)"
    and sp: "sp = [SignalSend]"
    using e lead N(4) [OF i] by (auto simp: Start_def Let_def)
  define a' where "a' = a\<lparr>slog := (slog a)(i := slog a i @ [?e]), tlog := (tlog a)(?t := tlog a ?t @ [?e]),
      acks := (acks a)(i := (acks a i)(?t := Suc (length (tlog a ?t))))\<rparr>"
  have "spec_step (majority n) a a'"
    unfolding a'_def using F N(1) [OF i] by (intro spec_step.append) auto
  then have st: "(spec_step (majority n))\<^sup>*\<^sup>* a a'" by simp
  note g = sim_grows [OF S st]
  show ?thesis
  proof (rule sim_nextI [OF S st E J])
    show "sim_nodes n (put s i rf sp) a'"
      using simD(4) [OF S] rf i unfolding sim_nodes_def by (auto simp: a'_def)
    show "sim_reqs (put s i rf sp) a'"
      using simD(5) [OF S] N(1) [OF i] unfolding sim_reqs_def by (auto simp: a'_def split: if_splits)
    show "sim_leader n a' k (node (put s i rf sp) k)" if "k < n" for k
    proof (cases "k = i")
      case True
      then show ?thesis using simD(6) [OF S i] rf lead by (auto simp: sim_leader_def a'_def)
    next
      case False
      have "sim_leader n a' k (node s k)" by (rule others_lead [OF S that False F(1) g]) (use False in \<open>simp_all add: a'_def\<close>)
      then show ?thesis using False by (simp)
    qed
    show "sim_polls n (put s i rf sp) a'"
      using simD(7) [OF S] rf(1,5) F(4) unfolding sim_polls_def by (auto simp: a'_def split: if_splits)
    show "sim_msgs n (put s i rf sp) a'"
      using sp by (intro msgs_grow [OF simD(8) [OF S] g]) auto
  qed
qed

lemma elected_sim:
  assumes S: "sim n s a" and i: "i < n" and p: "polls s i t = Some p" and r: "role (node s i) = Candidate"
    and t: "current_term (node s i) = t" and rf: "rf = node s i\<lparr>role := Leader, next_index := ns, match_index := ms\<rparr>"
    and ms: "\<And>j. j < n \<Longrightarrow> ms ! j = 0" and sp: "\<And>j args. GoSendAppendEntries j args \<notin> set sp"
    and s': "s' = (put s i rf sp)\<lparr>polls := (polls s)(i := (polls s i)(t \<mapsto> p'))\<rparr>"
    and E: "elections_ok n s'" and J: "jobs_ok n s'"
  shows "sim_next n a s'"
proof -
  note N = sim_nodesD [OF simD(4) [OF S]]
  have m: "majority n {v. cast s v t = Some i}"
  proof -
    have "role (node s' i) = Leader" "current_term (node s' i) = t" "cast s' = cast s" using t by (simp_all add: s' rf)
    then show ?thesis using elections_okD(4) [OF E] i unfolding leaders_ok_def by metis
  qed
  then have l: "leads (majority n) a i t" using simD(4) [OF S] by (simp add: leads_def sim_nodes_def)
  have none: "tlog a t = []"
  proof (rule ccontr)
    assume "tlog a t \<noteq> []"
    with simD(7) [OF S] p t m have "role (node s i) = Leader" unfolding sim_polls_def by blast
    with r show False by simp
  qed
  have ne: "logs (node s i) \<noteq> []" using nodes_okD(1) [OF elections_okD(1) [OF simD(1) [OF S]] i] by simp
  define a' where "a' = a\<lparr>tlog := (tlog a)(t := slog a i), acks := (acks a)(i := (acks a i)(t := length (slog a i)))\<rparr>"
  have "spec_step (majority n) a a'"
    unfolding a'_def using l none N(1) [OF i] t by (intro spec_step.elect) auto
  then have st: "(spec_step (majority n))\<^sup>*\<^sup>* a a'" by simp
  note g = sim_grows [OF S st]
  show ?thesis
  proof (rule sim_nextI [OF S st E J])
    show "sim_nodes n s' a'" using simD(4) [OF S] unfolding sim_nodes_def by (auto simp: a'_def s' rf)
    show "sim_reqs s' a'" using simD(5) [OF S] none unfolding sim_reqs_def by (auto simp: a'_def s' split: if_splits)
    show "sim_leader n a' k (node s' k)" if "k < n" for k
    proof (cases "k = i")
      case True
      then show ?thesis using t ms ne N(2) [OF i] by (simp add: sim_leader_def a'_def s' rf)
    next
      case False
      have "sim_leader n a' k (node s k)" by (rule others_lead [OF S that False l g]) (use False in \<open>simp_all add: a'_def\<close>)
      then show ?thesis using False by (simp add: s')
    qed
    show "sim_polls n s' a'"
      unfolding sim_polls_def
    proof (intro allI impI)
      fix k u q
      assume q: "polls s' k u = Some q" "current_term (node s' k) = u" "tlog a' u \<noteq> []" "majority n {v. cast s' v u = Some k}"
      show "role (node s' k) = Leader"
      proof (cases "k = i")
        case True
        then show ?thesis by (simp add: s' rf)
      next
        case False
        then have "u \<noteq> t" using q(4) m maj.quorum_choice [of n "\<lambda>v. cast s v t" i k] by (auto simp: s')
        then have "polls s k u = Some q" "current_term (node s k) = u" "tlog a u \<noteq> []" "majority n {v. cast s v u = Some k}"
          using q False by (simp_all add: a'_def s')
        then have "role (node s k) = Leader" using simD(7) [OF S] unfolding sim_polls_def by blast
        then show ?thesis using False by (simp add: s')
      qed
    qed
    show "sim_msgs n s' a'" using sp by (intro msgs_grow [OF simD(8) [OF S] g]) (auto simp: s')
  qed
qed

lemma vote_sim:
  assumes S: "sim n s a" and v: "v < n" and t: "current_term (node s v) \<le> t" "0 < t" and new: "cast s v t = None"
    and c: "c < n" "c = v \<or> t \<le> current_term (node s c)"
    and newer: "c \<noteq> v \<Longrightarrow> current_term (node s c) = t \<Longrightarrow> tlog a t = [] \<Longrightarrow> newer (logs (node s c)) (logs (node s v))"
    and E: "elections_ok n s'" and J: "jobs_ok n s'"
    and eq: "node s' = (node s)(v := rf)" "cast s' = (cast s)(v := (cast s v)(t \<mapsto> c))"
      "jobs s' = jobs s" "ae_reps s' = ae_reps s" "is_reqs s' = is_reqs s" "is_reps s' = is_reps s"
    and rf: "current_term rf = t" "logs rf = logs (node s v)" "commit_index rf = commit_index (node s v)"
      "last_included_index rf = 0" "match_index rf = match_index (node s v)"
    and role: "role rf = Leader \<Longrightarrow> current_term (node s v) = t" "current_term (node s v) = t \<Longrightarrow> role rf = role (node s v)"
    and reqs: "\<And>j args. (j, args) \<in> rv_reqs s' \<Longrightarrow> (j, args) \<in> rv_reqs s \<or> rv_Candidate_ID args = int v \<and>
      rv_LastLogIndex args = length (logs rf) - 1 \<and> rv_LastLogTerm args = Term (last (logs rf))"
    and polls: "\<And>k u p. polls s' k u = Some p \<Longrightarrow>
      (\<exists>p'. polls s k u = Some p') \<or> k = v \<and> u = t \<and> current_term (node s v) < t"
  shows "sim_next n a s'"
proof -
  note N = sim_nodesD [OF simD(4) [OF S]] and V = votes_okD [OF elections_okD(2) [OF simD(1) [OF S]]]
  note T = spec_invD(1) [OF simD(3) [OF S]]
  have bal: "sballot a = cast s" using simD(4) [OF S] by (simp add: sim_nodes_def)
  define a' where "a' = a\<lparr>sterm := (sterm a)(v := t), sballot := (sballot a)(v := (sballot a v)(t := Some c))\<rparr>"
  have "spec_step (majority n) a a'"
    unfolding a'_def using t new c newer N v bal by (intro spec_step.vote) auto
  then have st: "(spec_step (majority n))\<^sup>*\<^sup>* a a'" by simp
  note g = sim_grows [OF S st]
  have mono: "current_term (node s k) \<le> current_term (node s' k)" for k using t(1) rf(1) by (simp add: eq)
  have tl [simp]: "tlog a' = tlog a" "acks a' = acks a" "slog a' = slog a" by (simp_all add: a'_def)
  have lead: "leads (majority n) a k u" if "tlog a u \<noteq> []" and "leads (majority n) a' k u" for k u
    using inv_termsD(4) [OF T that(1)] maj.leader_unique [OF that(2) maj.grows_leads [OF g]] by blast
  show ?thesis
  proof (rule sim_nextI [OF S st E J])
    show nodes: "sim_nodes n s' a'"
      using simD(4) [OF S] rf(1-4) v unfolding sim_nodes_def by (auto simp: a'_def eq)
    show "sim_reqs s' a'"
      unfolding sim_reqs_def
    proof (intro allI impI)
      fix j args d
      assume m: "(j, args) \<in> rv_reqs s'" "rv_Candidate_ID args = int d" "sterm a' d = rv_Term args" "tlog a' (rv_Term args) = []"
      show "rv_LastLogIndex args = length (slog a' d) - 1 \<and> rv_LastLogTerm args = Term (last (slog a' d))"
      proof (cases "(j, args) \<in> rv_reqs s")
        case True
        then have d: "d < n" "rv_Term args \<le> current_term (node s d)" using V(3) [OF True] m(2) by (auto simp: asks_def)
        have "sterm a d = rv_Term args"
          using d m(3) mono [of d] sim_nodesD(1) [OF nodes d(1)] N(1) [OF d(1)] by simp
        then show ?thesis using simD(5) [OF S] True m(2,4) by (auto simp: sim_reqs_def)
      next
        case False
        then have "d = v" using reqs [OF m(1)] m(2) by simp
        then show ?thesis using reqs [OF m(1)] False rf(2) N(2) [OF v] by simp
      qed
    qed
    show "sim_leader n a' k (node s' k)" if "k < n" for k
    proof (cases "k = v")
      case True
      show ?thesis
      proof (cases "current_term (node s v) = t")
        case same: True
        have "sim_leader n a v rf" using leader_match [OF simD(6) [OF S v] role(2) [OF same]] rf(1,5) same by simp
        then show ?thesis using True by (simp add: eq sim_leader_def)
      next
        case False
        then show ?thesis using True role(1) by (auto simp: eq sim_leader_def)
      qed
    next
      case False
      then show ?thesis using simD(6) [OF S that] by (simp add: eq sim_leader_def)
    qed
    show "sim_polls n s' a'"
      unfolding sim_polls_def tl
    proof (intro allI impI)
      fix k u p
      assume p: "polls s' k u = Some p" "current_term (node s' k) = u" "tlog a u \<noteq> []" "majority n {w. cast s' w u = Some k}"
      have "leads (majority n) a' k u" using p(4) bal by (simp add: leads_def a'_def eq)
      note l = lead [OF p(3) this]
      have le: "u \<le> sterm a k" using maj.leads_terms(2) [OF T l] .
      then obtain p' where p': "polls s k u = Some p'" using polls [OF p(1)] N(1) [OF v] by auto
      have "k < n" using polls_okD(1) [OF elections_okD(3) [OF simD(1) [OF S]] p'] by (simp add: asks_def)
      then have "current_term (node s k) = u" using le p(2) mono [of k] N(1) by simp
      moreover have "majority n {w. cast s w u = Some k}" using l bal by (simp add: leads_def)
      ultimately have "role (node s k) = Leader" using simD(7) [OF S] p(3) p' unfolding sim_polls_def by blast
      then show "role (node s' k) = Leader"
        using role(2) p(2) rf(1) \<open>current_term (node s k) = u\<close> by (auto simp: eq split: if_splits)
    qed
    show "sim_msgs n s' a'" by (intro msgs_grow [OF simD(8) [OF S] g]) (auto simp: eq)
  qed
qed

lemma campaign_sim:
  assumes S: "sim n s a" and i: "i < n" and r: "role (node s i) \<noteq> Leader"
    and e: "startElection (node s i) now = Inr (rf, args)"
    and s': "s' = (put s i rf [])\<lparr>ticking := ticking s - {i},
          polls := (polls s)(i := (polls s i)(rv_Term args \<mapsto>
            \<lparr>poll_args = args, poll_votes = 1, poll_waiting = {..<n} - {i}\<rparr>)),
          rv_reqs := rv_reqs s \<union> ({..<n} - {i}) \<times> {args},
          cast := (cast s)(i := (cast s i)(rv_Term args \<mapsto> i))\<rparr>"
    and E: "elections_ok n s'" and J: "jobs_ok n s'"
  shows "sim_next n a s'"
proof -
  note W = nodes_okD [OF elections_okD(1) [OF simD(1) [OF S]] i] and N = sim_nodesD [OF simD(4) [OF S] i]
  let ?t = "current_term (node s i) + 1"
  have rf: "current_term rf = ?t" "logs rf = logs (node s i)" "commit_index rf = commit_index (node s i)"
      "last_included_index rf = 0" "match_index rf = match_index (node s i)" "role rf = role (node s i)"
    and args: "rv_Term args = ?t" "rv_Candidate_ID args = int i"
      "rv_LastLogIndex args = length (logs rf) - 1" "rv_LastLogTerm args = Term (last (logs rf))"
    using e startElection_eq [OF W(1)] W(4) N(4) by (auto simp: getLogLength_def)
  have "cast s i ?t = None"
    using votes_okD(1) [OF elections_okD(2) [OF simD(1) [OF S]], of i ?t] by fastforce
  then show ?thesis
    using rf args r i
    by (intro vote_sim [OF S i, of ?t i s' rf] E J) (auto simp: s' split: if_splits)
qed

lemma request_vote_sim:
  assumes S: "sim n s a" and m: "(j, args) \<in> rv_reqs s" and e: "RequestVote (node s j) args now = Inr (rf, reply)"
    and s': "s' = (put s j rf [])\<lparr>rv_reps := insert (j, args, reply) (rv_reps s),
          cast := if rvr_VoteGranted reply
                  then (cast s)(j := (cast s j)(rv_Term args \<mapsto> nat (rv_Candidate_ID args)))
                  else cast s\<rparr>"
    and E: "elections_ok n s'" and J: "jobs_ok n s'"
  shows "sim_next n a s'"
proof -
  note V = votes_okD [OF elections_okD(2) [OF simD(1) [OF S]]]
  obtain c where j: "j < n" and c: "asks n s args c" "c \<noteq> j" using V(3) [OF m] by blast
  note W = nodes_okD [OF elections_okD(1) [OF simD(1) [OF S]]] and N = sim_nodesD [OF simD(4) [OF S]]
  let ?t = "rv_Term args"
  have spec: "RequestVote_spec (node s j) args rf reply" using returnsD [OF RequestVote_ok [OF W(1) [OF j]] e] by simp
  then have same: "logs rf = logs (node s j)" "commit_index rf = commit_index (node s j)" "last_included_index rf = 0"
      "match_index rf = match_index (node s j)" "current_term rf = max (current_term (node s j)) ?t"
      "role rf = (if current_term (node s j) < ?t then Follower else role (node s j))"
    using N(4) [OF j] by (auto simp: RequestVote_spec_def)
  show ?thesis
  proof (cases "rvr_VoteGranted reply \<and> cast s j ?t = None")
    case True
    have le: "current_term (node s j) \<le> ?t" using spec True by (auto simp: RequestVote_spec_def)
    have "voted_for (node s j) = -1 \<or> current_term (node s j) < ?t" using V(2) [OF j] True le by (cases "current_term (node s j) = ?t") auto
    then have up: "up_to_date args (node s j)"
      using spec True c(1) by (auto simp: RequestVote_spec_def asks_def Let_def split: if_splits)
    have newer: "newer (logs (node s c)) (logs (node s j))" if "current_term (node s c) = ?t" "tlog a ?t = []"
    proof -
      have cn: "c < n" "rv_Candidate_ID args = int c" using c(1) by (auto simp: asks_def)
      then have "rv_LastLogIndex args = length (logs (node s c)) - 1" "rv_LastLogTerm args = Term (last (logs (node s c)))"
        using simD(5) [OF S] m that N(1,2) [OF cn(1)] unfolding sim_reqs_def by metis+
      moreover have "logs (node s c) \<noteq> []" "logs (node s j) \<noteq> []" using W(1) [OF cn(1)] W(1) [OF j] by simp_all
      ultimately show ?thesis
        using up N(4) [OF j] by (cases "logs (node s c)") (auto simp: up_to_date_def newer_def getLogLength_def)
    qed
    show ?thesis
      using same le True c newer
      by (intro vote_sim [OF S j, of ?t c s' rf] E J) (auto simp: s' asks_def max_def split: if_splits)
  next
    case False
    have eq: "cast s' = cast s"
    proof (cases "rvr_VoteGranted reply")
      case True
      then obtain d where d: "cast s j ?t = Some d" using False by (cases "cast s j ?t") auto
      then have "cast s' j ?t = Some d"
        using step_cast [of n True False s s'] simD(1) [OF S] raft_step.request_vote [OF m e] by (simp add: s')
      then have "nat (rv_Candidate_ID args) = d" using True by (simp add: s')
      then show ?thesis using True d by (auto simp: s' fun_eq_iff)
    qed (simp add: s')
    show ?thesis
    proof (rule sim_still [OF S j E J, of rf])
      have "role rf = Leader \<Longrightarrow> current_term rf = current_term (node s j)" using same(5,6) by (auto split: if_splits)
      then show "sim_leader n a j rf" using simD(6) [OF S j] same(4,6) by (auto simp: sim_leader_def split: if_splits)
      show "sim_msgs n s' a" by (intro msgs_grow [OF simD(8) [OF S]]) (auto simp: s')
      show "cast s' = cast s" by (rule eq)
    qed (use same in \<open>auto simp: s' max_def split: if_splits\<close>)
  qed
qed

lemma vote_reply_sim:
  assumes S: "sim n s a" and p: "polls s i t = Some p"
    and e: "vote_reply (node s i) (poll_votes p) (poll_args p) reply = Inr (rf, k, sp)"
    and s': "s' = (put s i rf sp)\<lparr>polls := (polls s)(i := (polls s i)(t \<mapsto> p'))\<rparr>"
    and E: "elections_ok n s'" and J: "jobs_ok n s'"
  shows "sim_next n a s'"
proof -
  note P = polls_okD [OF elections_okD(3) [OF simD(1) [OF S]] p]
  have i: "i < n" using P(1) by (simp add: asks_def)
  note W = nodes_okD [OF elections_okD(1) [OF simD(1) [OF S]] i] and N = sim_nodesD [OF simD(4) [OF S] i]
  have sp: "GoSendAppendEntries j args \<notin> set sp" for j args using no_sends(1) [OF W(1) e] by blast
  have still: "sim_next n a s'" if "logs rf = logs (node s i)" "last_included_index rf = 0"
      "current_term (node s i) \<le> current_term rf" "sim_leader n a i rf"
      "current_term rf = current_term (node s i) \<Longrightarrow> role rf = role (node s i)"
      "commit_index rf = commit_index (node s i)"
    by (rule sim_still [OF S i E J, of rf])
      (use that p sp in \<open>auto simp: s' split: if_splits intro!: msgs_grow [OF simD(8) [OF S]]\<close>)
  from e W(1) show ?thesis
  proof (cases rule: vote_reply_cases)
    case elected
    show ?thesis
      using elected(2) P(2) W(3) sp
      by (intro elected_sim [OF S i p elected(1) _ elected(6) _ _ s' E J]) auto
  qed (use N(4) simD(6) [OF S i] in \<open>auto intro!: still simp: sim_leader_def\<close>)
qed

lemma known_le: "known Q a L t m \<Longrightarrow> m' \<le> m \<Longrightarrow> known Q a L t m'"
proof -
  assume k: "known Q a L t m" and "m' \<le> m"
  show ?thesis
  proof (cases "m' = 0")
    case False
    then obtain u k where "m < length L" "chosen Q a u k" "u \<le> t" "m \<le> k" "prefix (take (Suc m) L) (tlog a u)"
      using k \<open>m' \<le> m\<close> by (auto simp: known_def)
    then show ?thesis
      unfolding known_def using \<open>m' \<le> m\<close> prefix_take_mono [of "Suc m" L "tlog a u" "Suc m'"] le_trans [of m' m k]
        le_less_trans [of m' m "length L"] by blast
  qed (simp add: known_def)
qed

lemma merge_sim:
  assumes S: "sim n s a" and j: "j < n" and ij: "j \<noteq> i" and l: "leads (majority n) a i t"
    and t: "current_term (node s j) \<le> t" and p: "0 < p" "p \<le> length (slog a j)" "p + length es \<le> length (tlog a t)"
      "Term (slog a j ! (p - 1)) = Term (tlog a t ! (p - 1))" "es = take (length es) (drop p (tlog a t))"
    and E: "elections_ok n s'" and J: "jobs_ok n s'"
    and eq: "node s' = (node s)(j := rf)" "cast s' = cast s" "polls s' = polls s" "rv_reqs s' = rv_reqs s"
      "is_reqs s' = is_reqs s" "is_reps s' = is_reps s"
    and jobs: "\<And>k d args. (k, GoSendAppendEntries d args) \<in> jobs s' \<Longrightarrow> (k, GoSendAppendEntries d args) \<in> jobs s"
    and reps: "\<And>k args reply. (k, args, reply) \<in> ae_reps s' \<Longrightarrow> (k, args, reply) \<in> ae_reps s \<or>
      k = j \<and> ae_Term args = t \<and> ae_PreviousLogIndex args + length (ae_Entries args) < p + length es"
    and rf: "current_term rf = t" "logs rf = merge_log (slog a j) p es" "last_included_index rf = 0" "role rf = Follower"
    and commit: "commit_index rf = commit_index (node s j) \<or>
      commit_index rf < p + length es \<and> known (majority n) a (tlog a t) t (commit_index rf)"
  shows "sim_next n a s'"
proof -
  note N = sim_nodesD [OF simD(4) [OF S]] and L = spec_invD(2) [OF simD(3) [OF S]]
  have ne: "tlog a t \<noteq> []" using p(1,3) by auto
  define a1 where "a1 = a\<lparr>sterm := (sterm a)(j := t), slog := (slog a)(j := merge_log (slog a j) p es),
      acks := (acks a)(j := (acks a j)(t := max (acks a j t) (p + length es)))\<rparr>"
  define a2 where "a2 = a1\<lparr>scommit := (scommit a1)(j := commit_index rf)\<rparr>"
  have st1: "spec_step (majority n) a a1"
    unfolding a1_def using p t N(1) [OF j] by (intro spec_step.merge) auto
  then have g1: "grows a a1" and I1: "spec_inv (majority n) a1"
    using sim_grows [OF S] maj.spec_step_inv [OF st1 simD(3) [OF S]] by auto
  have "known (majority n) a1 (slog a1 j) (sterm a1 j) (commit_index rf)"
  proof (rule disjE [OF commit])
    assume "commit_index rf = commit_index (node s j)"
    then have "commit_index rf = scommit a1 j" using N(3) [OF j] by (simp add: a1_def)
    then show ?thesis using spec_invD(7) [OF I1] by (simp add: inv_commit_def)
  next
    assume c: "commit_index rf < p + length es \<and> known (majority n) a (tlog a t) t (commit_index rf)"
    have "prefix (take (p + length es) (tlog a t)) (merge_log (slog a j) p es)"
      using p by (intro merge_log_good(3) [OF inv_logsD(1) [OF L] inv_logsD(3) [OF L ne]])
    then have "prefix (take (Suc (commit_index rf)) (tlog a t)) (slog a1 j)"
      using c by (auto simp: a1_def intro: prefix_take_mono)
    moreover have "known (majority n) a1 (tlog a t) t (commit_index rf)" using c maj.grows_known [OF g1] by blast
    ultimately show ?thesis using maj.known_mono [of n a1 "tlog a t" t] by (simp add: a1_def)
  qed
  then have "spec_step (majority n) a1 a2" unfolding a2_def by (rule spec_step.learn)
  with st1 have st: "(spec_step (majority n))\<^sup>*\<^sup>* a a2" by simp
  note g = sim_grows [OF S st]
  show ?thesis
  proof (rule sim_nextI [OF S st E J])
    show "sim_nodes n s' a2"
      using simD(4) [OF S] rf(1-3) j unfolding sim_nodes_def by (auto simp: a2_def a1_def eq)
    show "sim_reqs s' a2"
      using simD(5) [OF S] ne unfolding sim_reqs_def eq by (auto simp: a2_def a1_def split: if_splits)
    show "sim_leader n a2 k (node s' k)" if "k < n" for k
    proof (cases "k = j")
      case True
      then show ?thesis using rf(4) by (simp add: sim_leader_def eq)
    next
      case False
      then have "sim_leader n a2 k (node s k)"
        by (intro leader_grows [OF simD(6) [OF S that] g]) (simp_all add: a2_def a1_def)
      then show ?thesis using False by (simp add: eq)
    qed
    show "sim_polls n s' a2"
      unfolding sim_polls_def
    proof (intro allI impI)
      fix k u q
      assume q: "polls s' k u = Some q" "current_term (node s' k) = u" "tlog a2 u \<noteq> []" "majority n {v. cast s' v u = Some k}"
      have "leads (majority n) a k u" using q(4) simD(4) [OF S] by (simp add: leads_def sim_nodes_def eq)
      then have "k = j \<Longrightarrow> u = t \<Longrightarrow> False" using maj.leader_unique [OF l] ij by blast
      then have "k \<noteq> j" using q(2) rf(1) by (auto simp: eq)
      then have "polls s k u = Some q" "current_term (node s k) = u" "tlog a u \<noteq> []" "majority n {v. cast s v u = Some k}"
        using q by (simp_all add: eq a2_def a1_def)
      then have "role (node s k) = Leader" using simD(7) [OF S] unfolding sim_polls_def by blast
      then show "role (node s' k) = Leader" using \<open>k \<noteq> j\<close> by (simp add: eq)
    qed
    show "sim_msgs n s' a2"
      using jobs reps
      by (intro msgs_grow [OF simD(8) [OF S] g]) (fastforce simp: eq a2_def a1_def)+
  qed
qed

lemma append_entries_sim:
  assumes S: "sim n s a" and m: "(i, GoSendAppendEntries j args) \<in> jobs s"
    and e: "AppendEntries (node s j) args now = Inr (rf, reply, sp)"
    and s': "s' = (put s j rf sp)\<lparr>ae_reps := insert (j, args, reply) (ae_reps s)\<rparr>"
    and E: "elections_ok n s'" and J: "jobs_ok n s'"
  shows "sim_next n a s'"
proof -
  let ?t = "ae_Term args" and ?p = "Suc (ae_PreviousLogIndex args)" and ?es = "ae_Entries args"
  have j: "j < n" using jobs_okD(2) [OF simD(2) [OF S] m] .
  note N = sim_nodesD [OF simD(4) [OF S]] and Nj = sim_nodesD [OF simD(4) [OF S] j]
  note W = nodes_okD [OF elections_okD(1) [OF simD(1) [OF S]] j]
  have ij: "j \<noteq> i" and st: "sent n a i args" using sim_msgsD(1) [OF simD(8) [OF S] m] by auto
  have sd: "leads (majority n) a i ?t" "?p + length ?es \<le> length (tlog a ?t)"
    "ae_PreviousLogTerm args = Term (tlog a ?t ! ae_PreviousLogIndex args)"
    "?es = take (length ?es) (drop ?p (tlog a ?t))" "known (majority n) a (tlog a ?t) ?t (ae_LeaderCommit args)"
    using st by (simp_all add: sent_def Let_def)
  have spec: "AppendEntries_spec (node s j) args rf reply sp"
    using returnsD [OF AppendEntries_ok [OF W(1)] e] by simp
  have sp: "GoSendAppendEntries k args' \<notin> set sp" for k args' using no_sends(2) [OF e W(1)] by blast
  have notlead: "\<not> (role (node s j) = Leader \<and> current_term (node s j) = ?t)"
    using leaders_differ [OF S j, of i] sd(1) ij by auto
  have same: "last_included_index rf = 0" "current_term rf = max (current_term (node s j)) ?t"
    "role rf = (if current_term (node s j) \<le> ?t then Follower else role (node s j))"
    "match_index rf = match_index (node s j)"
    using spec Nj(4) by (auto simp: AppendEntries_spec_def)
  show ?thesis
  proof (cases "accepts (node s j) args")
    case False
    have "\<not> aer_Success reply" "logs rf = logs (node s j)" "commit_index rf = commit_index (node s j)"
      using spec False Nj(4) by (auto simp: AppendEntries_spec_def)
    moreover have "sim_leader n a j rf"
      using simD(6) [OF S j] same by (auto simp: sim_leader_def max_def split: if_splits)
    ultimately show ?thesis
      using same notlead sp
      by (intro sim_still [OF S j E J, of rf])
        (auto simp: s' max_def split: if_splits intro!: msgs_grow [OF simD(8) [OF S]])
  next
    case True
    have acc: "current_term (node s j) \<le> ?t" "?p \<le> length (slog a j)"
      "Term (slog a j ! ae_PreviousLogIndex args) = ae_PreviousLogTerm args"
      using True Nj by (auto simp: accepts_def getLogLength_def)
    have lg: "logs rf = merge_log (slog a j) ?p ?es" using spec True Nj by (simp add: AppendEntries_spec_def merged_logs_def)
    have cm: "commit_index rf = commit_index (node s j) \<or>
        commit_index rf < ?p + length ?es \<and> known (majority n) a (tlog a ?t) ?t (commit_index rf)"
    proof (cases "commit_index rf = commit_index (node s j)")
      case False
      moreover have "commit_index rf = max (commit_index (node s j)) (min (min (ae_LeaderCommit args) (getLogLength rf - 1))
          (ae_PreviousLogIndex args + length ?es))"
        using spec True by (simp add: AppendEntries_spec_def)
      ultimately have "commit_index rf \<le> ae_LeaderCommit args" "commit_index rf < ?p + length ?es" by linarith+
      then show ?thesis using known_le [OF sd(5)] by simp
    qed simp
    show ?thesis
      using acc sd(2,3) sp same(2,3)
      by (intro merge_sim [OF S j ij sd(1) acc(1) _ acc(2) sd(2) _ sd(4) E J _ _ _ _ _ _ _ _ _ lg same(1) _ cm])
        (auto simp: s')
  qed
qed

section \<open>The refinement\<close>

lemma step_sim:
  assumes st: "raft_step n True False s s'" and S: "sim n s a"
  shows "sim_next n a s'"
proof -
  have E: "elections_ok n s'" using step_elections [OF st simD(1,2) [OF S]] by simp
  have J: "jobs_ok n s'" using step_jobs [OF st simD(2) [OF S]] elections_okD [OF simD(1) [OF S]] by blast
  note W = nodes_okD [OF elections_okD(1) [OF simD(1) [OF S]]]
  have unchanged: "sim_next n a s'" if "node s' = node s" "cast s' = cast s" "rv_reqs s' = rv_reqs s" "polls s' = polls s"
    "sim_msgs n s' a"
    using that S E J unfolding sim_next_def sim_def sim_nodes_def sim_reqs_def sim_polls_def
    by (intro exI [of _ a]) simp
  note still = msgs_grow [OF simD(8) [OF S] grows_refl]
  from st show ?thesis
  proof cases
    case (timeout i now)
    then show ?thesis using E J by (auto intro!: local_sim [OF S] simp: ticker_follower_def)
  next
    case (tick i)
    then show ?thesis by (intro unchanged still) auto
  next
    case (campaign i now rf args)
    then show ?thesis using E J by (intro campaign_sim [OF S campaign(2) _ campaign(5)]) auto
  next
    case (request_vote j args now rf reply)
    then show ?thesis using E J by (intro request_vote_sim [OF S request_vote(2,3)]) auto
  next
    case (vote i t p j reply rf k sp)
    then show ?thesis using E J by (intro vote_reply_sim [OF S vote(2,5)]) auto
  next
    case (start i command rf result sp)
    then show ?thesis using E J start_sim [OF S start(2,3)] by simp
  next
    case (send i sp)
    then show ?thesis using E J send_sim [OF S send(2,3)] by simp
  next
    case (append_entries i j args now rf reply sp)
    then show ?thesis using E J append_entries_sim [OF S append_entries(2,3)] by simp
  next
    case (append_reply i j args reply rf sp)
    then show ?thesis using E J append_reply_sim [OF S append_reply(2-4)] by simp
  next
    case (commit i rf sp)
    then show ?thesis using E J commit_sim [OF S commit(2,3)] by simp
  next
    case (send_snapshot i j)
    have "is_LastIncludedIndex (sendInstallSnapshot_args (node s i)) = 0"
      using sim_nodesD(4) [OF simD(4) [OF S] jobs_okD(1) [OF simD(2) [OF S] send_snapshot(2)]]
      by (simp add: sendInstallSnapshot_args_def)
    then show ?thesis using send_snapshot(1) by (intro unchanged still) auto
  next
    case (install j args rf reply sp)
    then show ?thesis using E J install_sim [OF S install(2,3)] by simp
  next
    case (install_reply j args reply i rf sp)
    then show ?thesis using E J install_reply_sim [OF S install_reply(2-4)] by simp
  next
    case (deliver_snapshot i rf ms)
    then show ?thesis using E J local_sim [OF S deliver_snapshot(2)] by (auto simp: applier_first_def split: if_splits)
  next
    case (deliver i rf ms)
    then show ?thesis using E J local_sim [OF S deliver(2)] by (auto simp: applier_second_def bindr_eq_Inr split: if_splits)
  next
    case (crash i)
    then show ?thesis using E J crash_sim [OF S crash(2)] by simp
  qed simp
qed

lemma run_sim:
  assumes "raft_run n True False s s'" and "sim n s a"
  shows "\<exists>a'. (spec_step (majority n))\<^sup>*\<^sup>* a a' \<and> sim n s' a'"
  using assms(1) unfolding raft_run_def
proof (induction rule: rtranclp_induct)
  case base
  then show ?case using assms(2) by blast
next
  case (step y z)
  then obtain b where b: "(spec_step (majority n))\<^sup>*\<^sup>* a b" "sim n y b" by blast
  with step_sim [OF step.hyps(2)] obtain c where "(spec_step (majority n))\<^sup>*\<^sup>* b c" "sim n z c"
    unfolding sim_next_def by blast
  with b(1) show ?case by (meson rtranclp_trans)
qed

lemma run_sim_both:
  assumes "raft_run n True False (boot n) s" and "raft_run n True False s s'"
  obtains a a' where "sim n s a" and "sim n s' a'" and "grows a a'"
proof -
  obtain a where a: "sim n s a" using run_sim [OF assms(1) boot_sim] by blast
  then obtain a' where "(spec_step (majority n))\<^sup>*\<^sup>* a a'" "sim n s' a'" using run_sim [OF assms(2)] by blast
  then show thesis using that a sim_grows by blast
qed

lemma sim_good: "sim n s a \<Longrightarrow> i < n \<Longrightarrow> good a (logs (node s i))"
  using inv_logsD(1) [OF spec_invD(2) [OF simD(3)], of n s a i] sim_nodesD(2) [OF simD(4)] by metis

lemma sim_known:
  "sim n s a \<Longrightarrow> i < n \<Longrightarrow>
     known (majority n) a (logs (node s i)) (current_term (node s i)) (commit_index (node s i))"
  using spec_invD(7) [OF simD(3), of n s a] sim_nodesD [OF simD(4), of n s a i] unfolding inv_commit_def by metis

lemma applier_second_index:
  assumes "applier_second rf = Inr (rf', ms)" and "m \<in> set ms"
  shows "CommandIndex m \<le> commit_index rf"
proof -
  from assms obtain es where es: "getLogSlice rf (last_applied rf + 1) (commit_index rf + 1) = Inr es"
    "ms = command_msgs (last_applied rf + 1) es"
    by (auto simp: applier_second_def getLogSliceCopy_def bindr_eq_Inr split: if_splits)
  from command_msgs_nth [of m "last_applied rf + 1" es] assms(2) es(2)
  obtain k where "k < length es" "CommandIndex m = last_applied rf + 1 + k" by auto
  then show ?thesis using getLogSlice_Inr(2,4) [OF es(1)] by simp
qed

section \<open>A run that commits a command\<close>

definition heartbeat :: "nat AppendEntriesArgs" where
  "heartbeat = \<lparr>ae_Term = 1, ae_LeaderID = 0, ae_PreviousLogIndex = 1, ae_PreviousLogTerm = 1, ae_Entries = [],
     ae_LeaderCommit = 1\<rparr>"

definition commit_events :: "nat event list" where
  "commit_events = [Propose 0 7, Send 0, Append 0 1 demo_entries,
     Reply 0 1 demo_entries (zeroAE\<lparr>aer_Success := True\<rparr>), Commit 0, Send 0]"

definition committed :: "nat cluster" where
  "committed = the (execs 3 True commit_events elected)"

definition learned :: "nat cluster" where
  "learned = the (execs 3 True [Append 0 1 heartbeat] committed)"

lemma committed_run: "raft_run 3 True False (boot 3) committed"
proof -
  have "raft_run 3 True False elected committed" unfolding committed_def by (rule execs_the) code_simp
  then show ?thesis using elected_run [of False] unfolding raft_run_def by (meson rtranclp_trans)
qed

lemma learned_run: "raft_run 3 True False committed learned"
  unfolding learned_def by (rule execs_the) code_simp

section \<open>What the peers guarantee together\<close>

text \<open>
  C7. In runs with atomic elections and without snapshots the peers of raft.go refine the abstract Raft
  protocol: every state a group reaches in such a run, with any loss, delay, repetition and reordering
  of messages and any crashes, is reached by the protocol, with the same terms, votes, logs and
  commit indices.
\<close>

theorem raft_refines_spec:
  assumes "raft_run n True False (boot n) s"
  shows "\<exists>a. (spec_step (majority n))\<^sup>*\<^sup>* spec_init a \<and> sballot a = cast s \<and>
    (\<forall>i < n. sterm a i = current_term (node s i) \<and> slog a i = logs (node s i) \<and> scommit a i = commit_index (node s i))"
  using run_sim [OF assms boot_sim] by (auto simp: sim_def sim_nodes_def)

theorem raft_refines_spec_witness:
  "\<exists>a. (spec_step (majority 3))\<^sup>*\<^sup>* spec_init a \<and> slog a 0 = [nilEntry, \<lparr>Command = Some (7 :: nat), Term = 1\<rparr>] \<and> scommit a 0 = 1"
proof -
  have "logs (node committed 0) = [nilEntry, \<lparr>Command = Some 7, Term = 1\<rparr>]" "commit_index (node committed 0) = 1"
    by code_simp+
  then show ?thesis using raft_refines_spec [OF committed_run] by force
qed

text \<open>
  C4. Log matching, in runs with atomic elections and without snapshots: if the logs of two peers, at
  any two moments of the run, have an entry with the same index and term, the logs are identical up to
  that entry.
\<close>

theorem log_matching:
  assumes "raft_run n True False (boot n) s" and "raft_run n True False s s'" and "i < n" and "j < n"
    and "getLogEntry (node s i) k = Inr e" and "getLogEntry (node s' j) k = Inr e'" and "Term e = Term e'"
  shows "e = e' \<and> (\<forall>m \<le> k. getLogEntry (node s i) m = getLogEntry (node s' j) m)"
proof -
  obtain a a' where a: "sim n s a" "sim n s' a'" "grows a a'" using run_sim_both [OF assms(1,2)] .
  let ?L = "logs (node s i)" and ?M = "logs (node s' j)"
  have get: "getLogEntry (node s i) m = idx ?L m" "getLogEntry (node s' j) m = idx ?M m" for m
    using sim_nodesD(4) [OF simD(4) [OF a(1)] assms(3)] sim_nodesD(4) [OF simD(4) [OF a(2)] assms(4)]
    by (simp_all add: getLogEntry_def logicalIndexToPhysicalIndex_def)
  have k: "k < length ?L" "e = ?L ! k" "k < length ?M" "e' = ?M ! k"
    using assms(5,6) unfolding get by (auto simp: idx_def split: if_splits)
  have eq: "take (Suc k) ?L = take (Suc k) ?M"
    using good_match [OF good_grows [OF a(3) sim_good [OF a(1) assms(3)]] sim_good [OF a(2) assms(4)] k(1,3)] k(2,4) assms(7)
    by simp
  have "?L ! m = ?M ! m" if "m \<le> k" for m using arg_cong [OF eq, of "\<lambda>l. l ! m"] that by simp
  then show ?thesis unfolding get using k by (auto simp: idx_def)
qed

theorem log_matching_witness:
  "getLogEntry (node committed 0) 0 = getLogEntry (node learned 1) 0"
proof -
  have *: "getLogEntry (node committed 0) 1 = Inr \<lparr>Command = Some 7, Term = 1\<rparr>"
    "getLogEntry (node learned 1) 1 = Inr \<lparr>Command = Some 7, Term = 1\<rparr>" by code_simp+
  show ?thesis using log_matching [OF committed_run learned_run _ _ *] by simp
qed

text \<open>
  C3. Leader completeness, in runs with atomic elections and without snapshots: once a peer has committed
  a prefix of its log, every leader of the same or a later term has that prefix in its own log, at that
  moment and ever after.
\<close>

theorem leader_completeness:
  assumes "raft_run n True False (boot n) s" and "raft_run n True False s s'" and "i < n" and "j < n"
    and "role (node s' j) = Leader" and "current_term (node s i) \<le> current_term (node s' j)"
  shows "commit_index (node s i) < length (logs (node s' j)) \<and>
    take (Suc (commit_index (node s i))) (logs (node s' j)) = take (Suc (commit_index (node s i))) (logs (node s i))"
proof -
  obtain a a' where a: "sim n s a" "sim n s' a'" "grows a a'" using run_sim_both [OF assms(1,2)] .
  let ?L = "logs (node s i)" and ?M = "logs (node s' j)" and ?m = "commit_index (node s i)"
  have kn: "known (majority n) a' ?L (current_term (node s i)) ?m"
    using maj.grows_known [OF a(3) sim_known [OF a(1) assms(3)]] .
  note F = leader_facts [OF a(2) assms(4,5)]
  show ?thesis
  proof (cases "?m = 0")
    case True
    have "take 1 ?L = [nilEntry]" "take 1 ?M = [nilEntry]"
      using goodD(1,2) [OF sim_good [OF a(1) assms(3)]] goodD(1,2) [OF sim_good [OF a(2) assms(4)]]
      by (simp_all add: take_Suc hd_conv_nth)
    then show ?thesis using True goodD(1) [OF sim_good [OF a(2) assms(4)]] by simp
  next
    case False
    have p: "prefix (take (Suc ?m) ?L) ?M"
      using maj.known_complete [OF simD(3) [OF a(2)] kn assms(6) F(4)] False F(2) by simp
    moreover have "?m < length ?L" using kn False by (auto simp: known_def)
    ultimately show ?thesis using prefix_length_le [OF p] prefix_take [OF p, of "Suc ?m"] by simp
  qed
qed

theorem leader_completeness_witness:
  "take 2 (logs (node learned 0)) = take 2 (logs (node committed 0))"
proof -
  have "role (node learned 0) = Leader" "current_term (node committed 0) \<le> current_term (node learned 0)"
    "commit_index (node committed 0) = 1" by code_simp+
  then show ?thesis
    using leader_completeness [OF committed_run learned_run, of 0 0] by (simp add: eval_nat_numeral)
qed

lemma applied_agree:
  assumes "raft_run n True False (boot n) s" and "raft_run n True False s s'" and "i < n" and "j < n"
    and "applier_second (node s i) = Inr (rf, ms)" and "applier_second (node s' j) = Inr (rf', ms')"
    and "m \<in> set ms" and "m' \<in> set ms'" and "CommandIndex m = CommandIndex m'"
  shows "MsgCommand m = MsgCommand m'"
proof -
  obtain a a' where a: "sim n s a" "sim n s' a'" "grows a a'" using run_sim_both [OF assms(1,2)] .
  let ?L = "logs (node s i)" and ?M = "logs (node s' j)" and ?k = "CommandIndex m"
  note z = sim_nodesD(4) [OF simD(4) [OF a(1)] assms(3)] sim_nodesD(4) [OF simD(4) [OF a(2)] assms(4)]
  have L: "?k \<le> commit_index (node s i)" "MsgCommand m = Command (?L ! ?k)"
    using applier_second_index [OF assms(5,7)] applier_second_spec(3) [OF assms(5,7)] z(1)
    by (auto simp: getLogEntry_def logicalIndexToPhysicalIndex_def idx_def split: if_splits)
  have M: "?k \<le> commit_index (node s' j)" "MsgCommand m' = Command (?M ! ?k)"
    using applier_second_index [OF assms(6,8)] applier_second_spec(3) [OF assms(6,8)] z(2) assms(9)
    by (auto simp: getLogEntry_def logicalIndexToPhysicalIndex_def idx_def split: if_splits)
  have "?L ! ?k = ?M ! ?k"
    using L(1) M(1)
    by (intro maj.known_agree [OF simD(3) [OF a(2)] maj.grows_known [OF a(3) sim_known [OF a(1) assms(3)]]
          sim_known [OF a(2) assms(4)] good_grows [OF a(3) sim_good [OF a(1) assms(3)]] sim_good [OF a(2) assms(4)]])
  then show ?thesis using L(2) M(2) by simp
qed

text \<open>
  C1. State machine safety, in runs with atomic elections and without snapshots: no two peers, at any two
  moments of the run, ever hand their services different commands for the same log index.
\<close>

theorem state_machine_safety:
  assumes "raft_run n True False (boot n) s" and "raft_run n True False s s'" and "i < n" and "j < n"
    and "applier_second (node s i) = Inr (rf, ms)" and "applier_second (node s' j) = Inr (rf', ms')"
    and "m \<in> set ms" and "m' \<in> set ms'" and "CommandIndex m = CommandIndex m'"
  shows "MsgCommand m = MsgCommand m'"
  using assms by (rule applied_agree)

theorem state_machine_safety_witness:
  "map MsgCommand (snd (projr (applier_second (node committed 0)))) = [Some 7] \<and>
   map MsgCommand (snd (projr (applier_second (node learned 1)))) = [Some 7]"
proof -
  let ?A = "applier_second (node committed 0)" and ?B = "applier_second (node learned 1)"
  have *: "map CommandIndex (snd (projr ?A)) = [1]" "map MsgCommand (snd (projr ?A)) = [Some 7]"
    "map CommandIndex (snd (projr ?B)) = [1]" "\<not> isl ?A" "\<not> isl ?B" by code_simp+
  then obtain rf m rf' m' where A: "?A = Inr (rf, [m])" and B: "?B = Inr (rf', [m'])"
    by (cases ?A; cases ?B) auto
  have "MsgCommand m = MsgCommand m'"
    by (rule state_machine_safety [OF committed_run learned_run _ _ A B]) (use * A B in auto)
  then show ?thesis using * A B by auto
qed

end
