(* ===== verification/Hash.thy ===== *)
theory Hash
  imports Prelude
begin

text \<open>
  The hash function both MapReduce and the shard configuration use: \<^verbatim>\<open>fnv.New32a\<close> on the bytes of
  a string. Strings are lists of characters up to U+00FF, whose UTF-8 encoding has one or two
  bytes.
\<close>

definition utf8 :: "string \<Rightarrow> nat list" where
  "utf8 s = concat (map (\<lambda>c. let n = of_char c in if n < 128 then [n] else [192 + n div 64, 128 + n mod 64]) s)"

definition fnv32a :: "nat list \<Rightarrow> 32 word" where
  "fnv32a bs = foldl (\<lambda>h b. xor h (of_nat b) * 16777619) 2166136261 bs"

end
