(* ===== verification/MapReduce.thy ===== *)
theory MapReduce
  imports Hash "HOL-Library.List_Lexorder" "HOL-Library.Char_ord"
begin

text \<open>
  The computations of MapReduce: what a worker does with a map task and with a reduce task
  (mr/worker.go), the sequential reference program (main/mrsequential.go) and the applications
  \<open>wc\<close>, \<open>indexer\<close> and \<open>nocrash\<close> (mrapps). The theory shows that the
  distributed computation prints the lines of the sequential one.

  A string is a list of characters up to U+00FF; a file is a string. \<^verbatim>\<open>sort.Sort\<close> is not
  stable and is a parameter: all that is used of it is that it returns a permutation sorted by
  key.
\<close>

section \<open>Strings\<close>

record KeyValue =
  Key :: string
  Value :: string

text \<open>\<^verbatim>\<open>unicode.IsSpace\<close> and \<^verbatim>\<open>unicode.IsLetter\<close> on these characters.\<close>

definition is_space :: "char \<Rightarrow> bool" where
  "is_space c \<longleftrightarrow> (let n = of_char c :: nat in n \<in> {9..13} \<or> n = 32 \<or> n = 133 \<or> n = 160)"

definition is_letter :: "char \<Rightarrow> bool" where
  "is_letter c \<longleftrightarrow> (let n = of_char c :: nat in n \<in> {65..90} \<or> n \<in> {97..122} \<or> n = 170 \<or> n = 181 \<or>
     n = 186 \<or> n \<in> {192..214} \<or> n \<in> {216..246} \<or> n \<in> {248..255})"

definition is_line_break :: "char \<Rightarrow> bool" where
  "is_line_break c \<longleftrightarrow> c = CHR 0x0A \<or> c = CHR 0x0D"

text \<open>\<^verbatim>\<open>strings.FieldsFunc\<close>: the maximal runs of characters that are no separators.\<close>

function fields_func :: "(char \<Rightarrow> bool) \<Rightarrow> string \<Rightarrow> string list" where
  "fields_func sep [] = []"
| "fields_func sep (c # cs) =
     (if sep c then fields_func sep cs
      else (c # takeWhile (\<lambda>d. \<not> sep d) cs) # fields_func sep (dropWhile (\<lambda>d. \<not> sep d) cs))"
  by pat_completeness auto
termination
  by (relation "measure (\<lambda>(sep, cs). length cs)") (auto simp: less_Suc_eq_le length_dropWhile_le)

definition fields :: "string \<Rightarrow> string list" where
  "fields = fields_func is_space"

text \<open>\<^verbatim>\<open>strings.Join\<close> and a printed line.\<close>

fun join :: "string \<Rightarrow> string list \<Rightarrow> string" where
  "join sep [] = []"
| "join sep [x] = x"
| "join sep (x # y # xs) = x @ sep @ join sep (y # xs)"

definition line :: "string \<Rightarrow> string \<Rightarrow> string" where
  "line k v = k @ CHR 0x20 # v @ [CHR 0x0A]"

text \<open>The hash that chooses a key's reduce task.\<close>

definition ihash :: "string \<Rightarrow> nat" where
  "ihash key = unat (and (fnv32a (utf8 key)) 0x7fffffff)"

section \<open>The worker's map task\<close>

fun partition_kvs :: "nat \<Rightarrow> KeyValue list list \<Rightarrow> KeyValue list \<Rightarrow> KeyValue list list res" where
  "partition_kvs n intermediates [] = Inr intermediates"
| "partition_kvs n intermediates (kv # kva) =
     (if n = 0 then Inl DivideByZero
      else let index = ihash (Key kv) mod n
           in bindr (idx intermediates index) (\<lambda>b.
              bindr (set_idx intermediates index (b @ [kv])) (\<lambda>is. partition_kvs n is kva)))"

definition print_kvs :: "KeyValue list \<Rightarrow> string" where
  "print_kvs kvs = concat (map (\<lambda>kv. line (Key kv) (Value kv)) kvs)"

definition worker_map ::
  "(KeyValue list \<Rightarrow> KeyValue list) \<Rightarrow> (string \<Rightarrow> string \<Rightarrow> KeyValue list) \<Rightarrow> nat \<Rightarrow> string \<Rightarrow> string \<Rightarrow>
     string list res" where
  "worker_map srt mapf n filename content =
     bindr (partition_kvs n (replicate n []) (mapf filename content)) (\<lambda>intermediates.
       Inr (map (\<lambda>b. print_kvs (srt b)) intermediates))"

section \<open>The worker's reduce task\<close>

fun parse_lines :: "string list \<Rightarrow> KeyValue list res" where
  "parse_lines [] = Inr []"
| "parse_lines (kv_string # rest) =
     (let kv_slice = fields kv_string in
      bindr (idx kv_slice 0) (\<lambda>k. bindr (idx kv_slice 1) (\<lambda>v.
        bindr (parse_lines rest) (\<lambda>kvs. Inr (\<lparr>Key = k, Value = v\<rparr> # kvs)))))"

definition parse_file :: "string \<Rightarrow> KeyValue list res" where
  "parse_file content = parse_lines (fields_func is_line_break content)"

fun read_all :: "string list \<Rightarrow> KeyValue list res" where
  "read_all [] = Inr []"
| "read_all (content # rest) =
     bindr (parse_file content) (\<lambda>kvs. bindr (read_all rest) (\<lambda>kvs'. Inr (kvs @ kvs')))"

text \<open>The inner loop: the first position from \<open>j\<close> on whose key differs from the one at \<open>i\<close>.\<close>

function scan_same :: "KeyValue list \<Rightarrow> nat \<Rightarrow> nat \<Rightarrow> nat" where
  "scan_same kvs i j =
     (if j < length kvs \<and> Key (kvs ! i) = Key (kvs ! j) then scan_same kvs i (j + 1) else j)"
  by pat_completeness auto
termination
  by (relation "measure (\<lambda>(kvs, i, j). length kvs - j)") auto

declare scan_same.simps [simp del]

lemma scan_same_ge: "j \<le> scan_same kvs i j"
proof (induction kvs i j rule: scan_same.induct)
  case (1 kvs i j)
  then show ?case by (subst scan_same.simps) auto
qed

function reduce_loop ::
  "(string \<Rightarrow> string list \<Rightarrow> string) \<Rightarrow> KeyValue list \<Rightarrow> string list \<Rightarrow> nat \<Rightarrow> string list \<Rightarrow> (string \<rightharpoonup> string) \<Rightarrow>
     string list \<times> (string \<rightharpoonup> string)" where
  "reduce_loop reducef kvs values i keys result =
     (if i < length kvs
      then let j = scan_same kvs i (i + 1);
               key = Key (kvs ! i);
               keys' = keys @ [key];
               result' = result(key \<mapsto> reducef key (take (j - i) (drop i values)))
           in if j \<ge> length kvs then (keys', result')
              else reduce_loop reducef kvs values j keys' result'
      else (keys, result))"
  by pat_completeness auto
termination
proof (relation "measure (\<lambda>(reducef, kvs, values, i, keys, result). length kvs - i)", goal_cases)
  case (2 reducef kvs vs i keys result j key keys' result')
  then show ?case using scan_same_ge [of "i + 1" kvs i] by simp
qed simp

declare reduce_loop.simps [simp del]

text \<open>The lines of the output file; a missing map entry reads as the empty string.\<close>

definition reduce_lines :: "(string \<Rightarrow> string list \<Rightarrow> string) \<Rightarrow> KeyValue list \<Rightarrow> string list" where
  "reduce_lines reducef kvs =
     (case reduce_loop reducef kvs (map Value kvs) 0 [] Map.empty of
        (keys, result) \<Rightarrow> map (\<lambda>key. line key (case result key of None \<Rightarrow> '''' | Some v \<Rightarrow> v)) keys)"

definition worker_reduce ::
  "(KeyValue list \<Rightarrow> KeyValue list) \<Rightarrow> (string \<Rightarrow> string list \<Rightarrow> string) \<Rightarrow> string list \<Rightarrow> string list res" where
  "worker_reduce srt reducef files = bindr (read_all files) (\<lambda>kvs. Inr (reduce_lines reducef (srt kvs)))"

section \<open>The sequential program\<close>

function seq_loop :: "(string \<Rightarrow> string list \<Rightarrow> string) \<Rightarrow> KeyValue list \<Rightarrow> nat \<Rightarrow> string list" where
  "seq_loop reducef intermediate i =
     (if i < length intermediate
      then let j = scan_same intermediate i (i + 1);
               values = map (\<lambda>k. Value (intermediate ! k)) [i..<j];
               output = reducef (Key (intermediate ! i)) values
           in line (Key (intermediate ! i)) output # seq_loop reducef intermediate j
      else [])"
  by pat_completeness auto
termination
proof (relation "measure (\<lambda>(reducef, kvs, i). length kvs - i)", goal_cases)
  case (2 reducef kvs i j vs out)
  then show ?case using scan_same_ge [of "i + 1" kvs i] by simp
qed simp

declare seq_loop.simps [simp del]

definition mrsequential ::
  "(KeyValue list \<Rightarrow> KeyValue list) \<Rightarrow> (string \<Rightarrow> string \<Rightarrow> KeyValue list) \<Rightarrow> (string \<Rightarrow> string list \<Rightarrow> string) \<Rightarrow>
     (string \<times> string) list \<Rightarrow> string list" where
  "mrsequential srt mapf reducef files =
     seq_loop reducef (srt (concat (map (\<lambda>(filename, content). mapf filename content) files))) 0"

section \<open>Applications\<close>

text \<open>mrapps/wc.go\<close>

definition wc_Map :: "string \<Rightarrow> string \<Rightarrow> KeyValue list" where
  "wc_Map filename contents =
     map (\<lambda>w. \<lparr>Key = w, Value = ''1''\<rparr>) (fields_func (\<lambda>r. \<not> is_letter r) contents)"

definition wc_Reduce :: "string \<Rightarrow> string list \<Rightarrow> string" where
  "wc_Reduce key values = itoa (length values)"

text \<open>
  mrapps/indexer.go; Go iterates over the map \<^verbatim>\<open>m\<close> in an unspecified order, \<open>ord\<close>.
\<close>

definition indexer_Map :: "(string set \<Rightarrow> string list) \<Rightarrow> string \<Rightarrow> string \<Rightarrow> KeyValue list" where
  "indexer_Map ord document val =
     map (\<lambda>w. \<lparr>Key = w, Value = document\<rparr>) (ord (set (fields_func (\<lambda>x. \<not> is_letter x) val)))"

definition indexer_Reduce :: "string \<Rightarrow> string list \<Rightarrow> string" where
  "indexer_Reduce key values = itoa (length values) @ '' '' @ join '','' (sort values)"

text \<open>mrapps/nocrash.go, and crash.go when it does not crash\<close>

definition nocrash_Map :: "string \<Rightarrow> string \<Rightarrow> KeyValue list" where
  "nocrash_Map filename contents =
     [\<lparr>Key = ''a'', Value = filename\<rparr>, \<lparr>Key = ''b'', Value = itoa (length (utf8 filename))\<rparr>,
      \<lparr>Key = ''c'', Value = itoa (length (utf8 contents))\<rparr>, \<lparr>Key = ''d'', Value = ''xyzzy''\<rparr>]"

definition nocrash_Reduce :: "string \<Rightarrow> string list \<Rightarrow> string" where
  "nocrash_Reduce key values = join '' '' (sort values)"

section \<open>Files are read back as they were written\<close>

lemma fields_func_run:
  assumes "xs \<noteq> []" and "\<forall>c \<in> set xs. \<not> sep c"
  shows "fields_func sep xs = [xs]" and "sep d \<Longrightarrow> fields_func sep (xs @ d # ys) = xs # fields_func sep ys"
proof -
  obtain c cs where xs: "xs = c # cs" using assms(1) by (cases xs) auto
  have all: "\<not> sep c" "\<forall>d \<in> set cs. \<not> sep d" using assms(2) xs by auto
  then have t: "takeWhile (\<lambda>d. \<not> sep d) cs = cs" "dropWhile (\<lambda>d. \<not> sep d) cs = []"
    by (simp_all add: takeWhile_eq_all_conv dropWhile_eq_Nil_conv)
  have "fields_func sep (c # cs) = [c # cs]" using all(1) by (simp only: fields_func.simps t if_False)
  then show "fields_func sep xs = [xs]" using xs by simp
  assume "sep d"
  then have "takeWhile (\<lambda>d. \<not> sep d) (cs @ d # ys) = cs" "dropWhile (\<lambda>d. \<not> sep d) (cs @ d # ys) = d # ys"
    using all(2) by (simp_all add: takeWhile_append2 dropWhile_append2)
  then show "fields_func sep (xs @ d # ys) = xs # fields_func sep ys" using xs all(1) \<open>sep d\<close> by simp
qed

text \<open>Keys and values that survive the text format.\<close>

definition token :: "string \<Rightarrow> bool" where
  "token s \<longleftrightarrow> s \<noteq> [] \<and> (\<forall>c \<in> set s. \<not> is_space c)"

definition token_kvs :: "KeyValue list \<Rightarrow> bool" where
  "token_kvs kvs \<longleftrightarrow> (\<forall>kv \<in> set kvs. token (Key kv) \<and> token (Value kv))"

lemma space_facts: "is_space (CHR 0x20)" "is_line_break (CHR 0x0A)" "\<not> is_line_break (CHR 0x20)"
  "is_line_break c \<Longrightarrow> is_space c"
  by (auto simp: is_space_def is_line_break_def)

lemma parse_print_line:
  assumes "token k" and "token v"
  shows "fields (k @ CHR 0x20 # v) = [k, v]"
  using assms fields_func_run(2) [of k is_space "CHR 0x20" v] fields_func_run(1) [of v is_space]
  by (simp add: fields_def token_def space_facts)

lemma parse_print: "token_kvs kvs \<Longrightarrow> parse_file (print_kvs kvs) = Inr kvs"
proof (induction kvs)
  case Nil
  then show ?case by (simp add: parse_file_def print_kvs_def)
next
  case (Cons kv kvs)
  then have tok: "token (Key kv)" "token (Value kv)" "token_kvs kvs" by (auto simp: token_kvs_def)
  let ?l = "Key kv @ CHR 0x20 # Value kv"
  have "\<forall>c \<in> set ?l. \<not> is_line_break c" using tok by (auto simp: token_def dest: space_facts(4) simp: space_facts(3))
  then have "fields_func is_line_break (?l @ CHR 0x0A # print_kvs kvs) = ?l # fields_func is_line_break (print_kvs kvs)"
    by (intro fields_func_run(2)) (auto simp: space_facts)
  moreover have "print_kvs (kv # kvs) = ?l @ CHR 0x0A # print_kvs kvs" by (simp add: print_kvs_def line_def)
  ultimately show ?case
    using Cons.IH [OF tok(3)] parse_print_line [OF tok(1,2)] by (simp add: parse_file_def Let_def)
qed

lemma read_all_print: "\<forall>kvs \<in> set kvss. token_kvs kvs \<Longrightarrow> read_all (map print_kvs kvss) = Inr (concat kvss)"
  by (induction kvss) (auto simp: parse_print)

section \<open>Partitioning\<close>

definition bucket :: "nat \<Rightarrow> nat \<Rightarrow> KeyValue list \<Rightarrow> KeyValue list" where
  "bucket n r kvs = filter (\<lambda>kv. ihash (Key kv) mod n = r) kvs"

lemma partition_kvs_buckets:
  assumes "0 < n" and "length bs = n"
  shows "partition_kvs n bs kva = Inr (map (\<lambda>r. bs ! r @ bucket n r kva) [0..<n])"
  using assms
proof (induction kva arbitrary: bs)
  case Nil
  then show ?case using map_nth [of bs] by (simp add: bucket_def)
next
  case (Cons kv kva)
  let ?i = "ihash (Key kv) mod n"
  have "partition_kvs n bs (kv # kva) = partition_kvs n (bs[?i := bs ! ?i @ [kv]]) kva"
    using Cons.prems by (simp add: Let_def)
  also have "\<dots> = Inr (map (\<lambda>r. (bs[?i := bs ! ?i @ [kv]]) ! r @ bucket n r kva) [0..<n])"
    using Cons.prems by (intro Cons.IH) auto
  also have "\<dots> = Inr (map (\<lambda>r. bs ! r @ bucket n r (kv # kva)) [0..<n])"
    using Cons.prems by (auto simp: bucket_def nth_list_update)
  finally show ?case .
qed

lemma worker_map_eq:
  assumes "0 < n"
  shows "worker_map srt mapf n f c = Inr (map (\<lambda>r. print_kvs (srt (bucket n r (mapf f c)))) [0..<n])"
  using assms by (auto simp: worker_map_def partition_kvs_buckets)

section \<open>Grouping\<close>

text \<open>The reference: runs of equal keys with their values.\<close>

function groups :: "KeyValue list \<Rightarrow> (string \<times> string list) list" where
  "groups [] = []"
| "groups (kv # kvs) =
     (Key kv, Value kv # map Value (takeWhile (\<lambda>x. Key x = Key kv) kvs)) #
       groups (dropWhile (\<lambda>x. Key x = Key kv) kvs)"
  by pat_completeness auto
termination
  by (relation "measure length") (auto simp: less_Suc_eq_le length_dropWhile_le)

lemma scan_same_eq:
  "j \<le> length kvs \<Longrightarrow>
     scan_same kvs i j = j + length (takeWhile (\<lambda>x. Key x = Key (kvs ! i)) (drop j kvs))"
proof (induction kvs i j rule: scan_same.induct)
  case (1 kvs i j)
  show ?case
  proof (cases "j < length kvs")
    case True
    then have "drop j kvs = kvs ! j # drop (Suc j) kvs" by (simp add: Cons_nth_drop_Suc)
    then show ?thesis using 1 True by (subst scan_same.simps) auto
  next
    case False
    then show ?thesis using 1 by (subst scan_same.simps) auto
  qed
qed

text \<open>The run that starts at \<open>i\<close>: its end, its values, and what follows.\<close>

lemma run_at:
  assumes "i < length kvs" and "j = scan_same kvs i (i + 1)"
  shows "groups (drop i kvs) = (Key (kvs ! i), map Value (take (j - i) (drop i kvs))) # groups (drop j kvs)"
    and "i < j" and "j \<le> length kvs"
proof -
  let ?same = "\<lambda>x. Key x = Key (kvs ! i)" and ?rest = "drop (i + 1) kvs"
  have j: "j = i + 1 + length (takeWhile ?same ?rest)"
    using assms scan_same_eq [of "i + 1" kvs i] by simp
  have d: "drop i kvs = kvs ! i # ?rest" using assms(1) by (simp add: Cons_nth_drop_Suc)
  have "dropWhile ?same ?rest = drop j kvs" unfolding j by (simp add: dropWhile_eq_drop add.commute)
  moreover have "take (j - i) (drop i kvs) = kvs ! i # takeWhile ?same ?rest"
    unfolding d j by (simp add: takeWhile_eq_take [symmetric])
  ultimately show "groups (drop i kvs) = (Key (kvs ! i), map Value (take (j - i) (drop i kvs))) # groups (drop j kvs)"
    unfolding d by simp
  show "i < j" using j by simp
  have "length (takeWhile ?same ?rest) \<le> length ?rest" by (rule length_takeWhile_le)
  then show "j \<le> length kvs" using j assms(1) by simp
qed

lemma seq_loop_groups: "seq_loop f kvs i = map (\<lambda>(k, vs). line k (f k vs)) (groups (drop i kvs))"
proof (induction f kvs i rule: seq_loop.induct)
  case (1 f kvs i)
  show ?case
  proof (cases "i < length kvs")
    case True
    let ?j = "scan_same kvs i (i + 1)"
    note r = run_at [OF True refl]
    have "map (\<lambda>k. Value (kvs ! k)) [i..<?j] = map Value (take (?j - i) (drop i kvs))"
      using r(2,3) by (auto intro!: nth_equalityI)
    then show ?thesis using 1 True r(1) by (subst seq_loop.simps) (simp add: Let_def)
  next
    case False
    then show ?thesis by (subst seq_loop.simps) simp
  qed
qed

lemma reduce_loop_groups:
  "reduce_loop f kvs (map Value kvs) i keys res =
     (keys @ map fst (groups (drop i kvs)), foldl (\<lambda>m (k, vs). m(k \<mapsto> f k vs)) res (groups (drop i kvs)))"
proof (induction "length kvs - i" arbitrary: i keys res rule: less_induct)
  case less
  show ?case
  proof (cases "i < length kvs")
    case True
    let ?j = "scan_same kvs i (i + 1)"
    note r = run_at [OF True refl]
    show ?thesis
    proof (cases "?j < length kvs")
      case j: True
      have "length kvs - ?j < length kvs - i" using r(2) True by simp
      from less [OF this] show ?thesis
        using True r(1) j by (subst reduce_loop.simps) (simp add: Let_def take_map drop_map)
    next
      case False
      then have "drop ?j kvs = []" by simp
      then show ?thesis
        using True r(1) False by (subst reduce_loop.simps) (simp add: Let_def take_map drop_map)
    qed
  next
    case False
    then show ?thesis by (subst reduce_loop.simps) simp
  qed
qed

section \<open>Grouping a sorted list\<close>

definition by_key :: "KeyValue list \<Rightarrow> bool" where
  "by_key kvs \<longleftrightarrow> sorted (map Key kvs)"

lemma by_key_drop_run:
  assumes "by_key (kv # kvs)" and "x \<in> set (dropWhile (\<lambda>x. Key x = Key kv) kvs)"
  shows "Key kv < Key x"
  using assms
proof (induction kvs)
  case (Cons a kvs)
  then show ?case by (cases "Key a = Key kv") (auto simp: by_key_def)
qed simp

lemma by_key_dropWhile: "by_key kvs \<Longrightarrow> by_key (dropWhile P kvs)"
proof -
  have "map Key kvs = map Key (takeWhile P kvs) @ map Key (dropWhile P kvs)"
    by (metis map_append takeWhile_dropWhile_id)
  then show "by_key kvs \<Longrightarrow> by_key (dropWhile P kvs)" by (simp add: by_key_def sorted_append)
qed

lemma by_key_filter_run:
  assumes "by_key (kv # kvs)"
  shows "filter (\<lambda>x. Key x = Key kv) kvs = takeWhile (\<lambda>x. Key x = Key kv) kvs"
    and "k \<noteq> Key kv \<Longrightarrow> filter (\<lambda>x. Key x = k) kvs = filter (\<lambda>x. Key x = k) (dropWhile (\<lambda>x. Key x = Key kv) kvs)"
proof -
  let ?p = "\<lambda>x. Key x = Key kv"
  have split: "kvs = takeWhile ?p kvs @ dropWhile ?p kvs" by simp
  have "filter ?p (dropWhile ?p kvs) = []"
    using by_key_drop_run [OF assms] by (intro filter_False ballI) (metis less_irrefl)
  moreover have "filter ?p (takeWhile ?p kvs) = takeWhile ?p kvs" by (auto dest: set_takeWhileD intro: filter_True)
  ultimately show "filter ?p kvs = takeWhile ?p kvs" by (metis append_Nil2 filter_append split)
  assume "k \<noteq> Key kv"
  then have "filter (\<lambda>x. Key x = k) (takeWhile ?p kvs) = []"
    by (auto dest: set_takeWhileD intro!: filter_False)
  then show "filter (\<lambda>x. Key x = k) kvs = filter (\<lambda>x. Key x = k) (dropWhile ?p kvs)"
    by (metis append_Nil filter_append split)
qed

text \<open>Each key has one group, with all its values.\<close>

lemma groups_sorted_all:
  "by_key kvs \<Longrightarrow> distinct (map fst (groups kvs)) \<and> set (map fst (groups kvs)) = Key ` set kvs \<and>
     (\<forall>(k, vs) \<in> set (groups kvs). vs = map Value (filter (\<lambda>x. Key x = k) kvs))"
proof (induction kvs rule: groups.induct)
  case (2 kv kvs)
  let ?run = "takeWhile (\<lambda>x. Key x = Key kv) kvs" and ?rest = "dropWhile (\<lambda>x. Key x = Key kv) kvs"
  have "by_key kvs" using "2.prems" by (simp add: by_key_def)
  then have bk: "by_key ?rest" by (rule by_key_dropWhile)
  have IH: "distinct (map fst (groups ?rest))" "set (map fst (groups ?rest)) = Key ` set ?rest"
      "\<And>k vs. (k, vs) \<in> set (groups ?rest) \<Longrightarrow> vs = map Value (filter (\<lambda>x. Key x = k) ?rest)"
    using "2.IH" [OF bk] by auto
  have gt: "Key kv < k" if "k \<in> Key ` set ?rest" for k
    using that by_key_drop_run "2.prems" by auto
  then have new: "Key kv \<notin> set (map fst (groups ?rest))" unfolding IH(2) by auto
  have "set kvs = set ?run \<union> set ?rest" by (metis set_append takeWhile_dropWhile_id)
  moreover have "Key ` set ?run \<subseteq> {Key kv}" by (auto dest: set_takeWhileD)
  ultimately have keys: "Key ` set (kv # kvs) = insert (Key kv) (Key ` set ?rest)" by auto
  have vals: "vs = map Value (filter (\<lambda>x. Key x = k) (kv # kvs))" if "(k, vs) \<in> set (groups (kv # kvs))" for k vs
  proof (cases "k = Key kv")
    case True
    then have "(k, vs) \<notin> set (groups ?rest)" using new by force
    then show ?thesis using that True by_key_filter_run(1) [OF "2.prems"] by simp
  next
    case False
    then have "(k, vs) \<in> set (groups ?rest)" using that by simp
    then show ?thesis using IH(3) False by_key_filter_run(2) [OF "2.prems" False] by simp
  qed
  have "distinct (map fst (groups (kv # kvs)))" using IH(1) new by simp
  moreover have "set (map fst (groups (kv # kvs))) = Key ` set (kv # kvs)" using IH(2) keys by simp
  ultimately show ?case using vals by blast
qed simp

lemmas groups_sorted = groups_sorted_all [THEN conjunct1] groups_sorted_all [THEN conjunct2, THEN conjunct1]

lemma foldl_upd_lookup:
  "distinct (map fst gs) \<Longrightarrow> (k, vs) \<in> set gs \<Longrightarrow> foldl (\<lambda>m (k, vs). m(k \<mapsto> f k vs)) res gs k = Some (f k vs)"
proof (induction gs arbitrary: res rule: rev_induct)
  case (snoc g gs)
  then show ?case by (cases g) (force simp: image_iff)
qed simp

lemma reduce_lines_groups:
  assumes "by_key kvs"
  shows "reduce_lines f kvs = map (\<lambda>(k, vs). line k (f k vs)) (groups kvs)"
proof -
  have "foldl (\<lambda>m (k, vs). m(k \<mapsto> f k vs)) Map.empty (groups kvs) k = Some (f k vs)"
    if "(k, vs) \<in> set (groups kvs)" for k vs
    using foldl_upd_lookup [OF groups_sorted(1) [OF assms] that] .
  then show ?thesis by (auto simp: reduce_lines_def reduce_loop_groups)
qed

text \<open>The worker's loop and the sequential loop print the same lines.\<close>

lemma reduce_eq_seq: "by_key kvs \<Longrightarrow> reduce_lines f kvs = seq_loop f kvs 0"
  by (simp add: reduce_lines_groups seq_loop_groups)

section \<open>Distributed and sequential output\<close>

text \<open>The line a key must produce.\<close>

definition out_line :: "(string \<Rightarrow> string list \<Rightarrow> string) \<Rightarrow> KeyValue list \<Rightarrow> string \<Rightarrow> string" where
  "out_line f kvs k = line k (f k (map Value (filter (\<lambda>x. Key x = k) kvs)))"

text \<open>What is used of \<^verbatim>\<open>sort.Sort\<close>, and of a reduce function.\<close>

definition sorts :: "(KeyValue list \<Rightarrow> KeyValue list) \<Rightarrow> bool" where
  "sorts srt \<longleftrightarrow> (\<forall>kvs. mset (srt kvs) = mset kvs \<and> by_key (srt kvs))"

definition order_free :: "(string \<Rightarrow> string list \<Rightarrow> string) \<Rightarrow> bool" where
  "order_free f \<longleftrightarrow> (\<forall>k vs vs'. mset vs = mset vs' \<longrightarrow> f k vs = f k vs')"

lemma out_line_mset:
  assumes "order_free f" and "mset kvs = mset kvs'"
  shows "out_line f kvs = out_line f kvs'"
proof
  fix k
  have "mset (map Value (filter (\<lambda>x. Key x = k) kvs)) = mset (map Value (filter (\<lambda>x. Key x = k) kvs'))"
    using assms(2) by (simp add: mset_filter)
  then show "out_line f kvs k = out_line f kvs' k" using assms(1) unfolding out_line_def order_free_def by metis
qed

lemma seq_loop_mset:
  assumes "by_key kvs"
  shows "mset (seq_loop f kvs 0) = image_mset (out_line f kvs) (mset_set (Key ` set kvs))"
proof -
  have "seq_loop f kvs 0 = map (out_line f kvs) (map fst (groups kvs))"
    using groups_sorted_all [OF assms] by (auto simp: seq_loop_groups out_line_def)
  moreover have "mset (map fst (groups kvs)) = mset_set (Key ` set kvs)"
    using groups_sorted [OF assms] by (metis mset_set_set)
  ultimately show ?thesis by (metis mset_map)
qed

lemma sorted_output:
  assumes "sorts srt" and "order_free f"
  shows "mset (seq_loop f (srt kvs) 0) = image_mset (out_line f kvs) (mset_set (Key ` set kvs))"
proof -
  have s: "mset (srt kvs) = mset kvs" "by_key (srt kvs)" using assms(1) by (auto simp: sorts_def)
  then have "set (srt kvs) = set kvs" by (metis set_mset_mset)
  then show ?thesis using seq_loop_mset [OF s(2)] out_line_mset [OF assms(2) s(1)] by simp
qed

text \<open>All map output, and what reduce task \<open>r\<close> reads of it.\<close>

definition all_kvs :: "(string \<Rightarrow> string \<Rightarrow> KeyValue list) \<Rightarrow> (string \<times> string) list \<Rightarrow> KeyValue list" where
  "all_kvs mapf files = concat (map (\<lambda>(filename, content). mapf filename content) files)"

lemma all_kvs_Nil [simp]: "all_kvs mapf [] = []"
  by (simp add: all_kvs_def)

lemma all_kvs_Cons [simp]: "all_kvs mapf ((f, c) # files) = mapf f c @ all_kvs mapf files"
  by (simp add: all_kvs_def)

text \<open>The intermediate files for reduce task \<open>r\<close>.\<close>

definition intermediate ::
  "(KeyValue list \<Rightarrow> KeyValue list) \<Rightarrow> (string \<Rightarrow> string \<Rightarrow> KeyValue list) \<Rightarrow> nat \<Rightarrow> (string \<times> string) list \<Rightarrow> nat \<Rightarrow> string list" where
  "intermediate srt mapf n files r = map (\<lambda>(f, c). projr (worker_map srt mapf n f c) ! r) files"

lemma intermediate_eq:
  assumes "0 < n" and "r < n"
  shows "intermediate srt mapf n files r = map print_kvs (map (\<lambda>(f, c). srt (bucket n r (mapf f c))) files)"
  using assms by (auto simp: intermediate_def worker_map_eq)

lemma token_bucket:
  assumes "sorts srt" and "token_kvs kvs"
  shows "token_kvs (srt (bucket n r kvs))"
proof -
  have "set (srt (bucket n r kvs)) = set (bucket n r kvs)" using assms(1) unfolding sorts_def by (metis set_mset_mset)
  then show ?thesis using assms(2) by (auto simp: token_kvs_def bucket_def)
qed

lemma read_intermediate:
  assumes "sorts srt" and "0 < n" and "r < n" and "token_kvs (all_kvs mapf files)"
  shows "\<exists>kvs. read_all (intermediate srt mapf n files r) = Inr kvs \<and> mset kvs = mset (bucket n r (all_kvs mapf files))"
proof -
  let ?parts = "map (\<lambda>(f, c). srt (bucket n r (mapf f c))) files"
  have tok: "token_kvs (mapf f c)" if "(f, c) \<in> set files" for f c
    using assms(4) that by (force simp: token_kvs_def all_kvs_def)
  have "\<forall>kvs \<in> set ?parts. token_kvs kvs"
    using tok token_bucket [OF assms(1)] by auto
  then have "read_all (intermediate srt mapf n files r) = Inr (concat ?parts)"
    unfolding intermediate_eq [OF assms(2,3)] by (rule read_all_print)
  moreover have "mset (concat ?parts) = mset (bucket n r (all_kvs mapf files))"
    using assms(1) by (induction files) (auto simp: sorts_def bucket_def)
  ultimately show ?thesis by blast
qed

text \<open>Reduce task \<open>r\<close> prints the lines of the keys that hash to \<open>r\<close>.\<close>

lemma worker_reduce_output:
  assumes "sorts srt" and "order_free f" and "0 < n" and "r < n" and "token_kvs (all_kvs mapf files)"
  shows "returns (worker_reduce srt f (intermediate srt mapf n files r)) (\<lambda>lines. mset lines =
    image_mset (out_line f (all_kvs mapf files)) (mset_set {k \<in> Key ` set (all_kvs mapf files). ihash k mod n = r}))"
proof -
  let ?A = "all_kvs mapf files"
  obtain kvs where kvs: "read_all (intermediate srt mapf n files r) = Inr kvs" "mset kvs = mset (bucket n r ?A)"
    using read_intermediate [OF assms(1,3-5)] by blast
  have "by_key (srt kvs)" using assms(1) by (simp add: sorts_def)
  then have "mset (reduce_lines f (srt kvs)) = image_mset (out_line f kvs) (mset_set (Key ` set kvs))"
    using sorted_output [OF assms(1,2)] by (simp add: reduce_eq_seq)
  also have "out_line f kvs = out_line f (bucket n r ?A)" by (rule out_line_mset [OF assms(2) kvs(2)])
  also have "Key ` set kvs = {k \<in> Key ` set ?A. ihash k mod n = r}"
    using mset_eq_setD [OF kvs(2)] by (auto simp: bucket_def)
  also have "image_mset (out_line f (bucket n r ?A)) (mset_set {k \<in> Key ` set ?A. ihash k mod n = r}) =
      image_mset (out_line f ?A) (mset_set {k \<in> Key ` set ?A. ihash k mod n = r})"
    by (rule image_mset_cong) (auto simp: out_line_def bucket_def intro!: arg_cong [where f = "\<lambda>vs. line _ (f _ (map Value vs))"] filter_cong)
  finally show ?thesis using kvs(1) by (simp add: worker_reduce_def)
qed

lemma mset_set_classes:
  assumes "finite K"
  shows "(\<Sum>r<n. mset_set {k \<in> K. h k = r}) = mset_set {k \<in> K. h k < (n :: nat)}"
proof (induction n)
  case (Suc n)
  have "{k \<in> K. h k < Suc n} = {k \<in> K. h k < n} \<union> {k \<in> K. h k = n}" by auto
  then have "mset_set {k \<in> K. h k < Suc n} = mset_set {k \<in> K. h k < n} + mset_set {k \<in> K. h k = n}"
    using assms by (simp add: mset_set_Union disjoint_iff)
  then show ?case using Suc by simp
qed simp

lemma image_mset_sum_lessThan: "image_mset g (\<Sum>r<n. M r) = (\<Sum>r<n. image_mset g (M r))" for n :: nat
  by (induction n) simp_all

text \<open>The lines of all the output files together are those of the sequential program.\<close>

lemma distributed_lines:
  assumes "sorts srt" and "order_free f" and "0 < n" and "token_kvs (all_kvs mapf files)"
  shows "(\<Sum>r<n. mset (projr (worker_reduce srt f (intermediate srt mapf n files r)))) =
     mset (mrsequential srt mapf f files)"
proof -
  let ?A = "all_kvs mapf files"
  have "mset (projr (worker_reduce srt f (intermediate srt mapf n files r))) =
      image_mset (out_line f ?A) (mset_set {k \<in> Key ` set ?A. ihash k mod n = r})" if "r < n" for r
    using worker_reduce_output [OF assms(1-3) that assms(4)] by (auto simp: returns_def)
  then have "(\<Sum>r<n. mset (projr (worker_reduce srt f (intermediate srt mapf n files r)))) =
      image_mset (out_line f ?A) (\<Sum>r<n. mset_set {k \<in> Key ` set ?A. ihash k mod n = r})"
    by (simp add: image_mset_sum_lessThan)
  also have "\<dots> = image_mset (out_line f ?A) (mset_set (Key ` set ?A))"
    using assms(3) by (simp add: mset_set_classes)
  also have "\<dots> = mset (mrsequential srt mapf f files)"
    unfolding mrsequential_def all_kvs_def [symmetric] by (rule sorted_output [OF assms(1,2), symmetric])
  finally show ?thesis .
qed

section \<open>The applications meet the requirements\<close>

lemma sorts_sort_key: "sorts (sort_key Key)"
  by (simp add: sorts_def by_key_def)

lemma itoa_token: "token (itoa n)"
proof (induction n rule: itoa.induct)
  case (1 n)
  have d: "token [char_of (48 + m)]" if "m < 10" for m :: nat
  proof -
    have "(of_char (char_of (48 + m)) :: nat) = 48 + m" using that by simp
    then show ?thesis using that unfolding token_def is_space_def by simp
  qed
  show ?case
    using 1 d [of n] d [of "n mod 10"] by (subst itoa.simps) (auto simp: token_def)
qed

lemma fields_func_sound: "w \<in> set (fields_func sep s) \<Longrightarrow> w \<noteq> [] \<and> (\<forall>c \<in> set w. \<not> sep c)"
proof (induction sep s rule: fields_func.induct)
  case (2 sep c cs)
  show ?case
  proof (cases "sep c")
    case True
    then have "w \<in> set (fields_func sep cs)" using "2.prems" by simp
    then show ?thesis using "2.IH"(1) [OF True] by blast
  next
    case False
    then consider "w = c # takeWhile (\<lambda>d. \<not> sep d) cs" | "w \<in> set (fields_func sep (dropWhile (\<lambda>d. \<not> sep d) cs))"
      using "2.prems" by auto
    then show ?thesis
    proof cases
      case 1
      then show ?thesis using False by (auto dest: set_takeWhileD)
    next
      case 2
      then show ?thesis using "2.IH"(2) [OF False] by blast
    qed
  qed
qed simp

lemma letter_not_space: "is_letter c \<Longrightarrow> \<not> is_space c"
  by (auto simp: is_letter_def is_space_def Let_def)

lemma word_token: "w \<in> set (fields_func (\<lambda>r. \<not> is_letter r) s) \<Longrightarrow> token w"
  by (auto simp: token_def dest!: fields_func_sound letter_not_space)

lemma wc_requirements: "order_free wc_Reduce" "token_kvs (all_kvs wc_Map files)"
proof -
  show "order_free wc_Reduce" by (auto simp: order_free_def wc_Reduce_def dest: mset_eq_length)
  have "token ''1''" by (simp add: token_def is_space_def)
  then show "token_kvs (all_kvs wc_Map files)"
    by (auto simp: token_kvs_def all_kvs_def wc_Map_def word_token)
qed

lemma sort_mset_cong: "mset vs = mset vs' \<Longrightarrow> sort vs = sort vs'" for vs :: "string list"
  by (metis mset_sort properties_for_sort sorted_sort)

lemma sorting_reduces_order_free: "order_free indexer_Reduce" "order_free nocrash_Reduce"
  unfolding order_free_def indexer_Reduce_def nocrash_Reduce_def
  by (metis sort_mset_cong mset_eq_length)+

lemma indexer_token:
  "(\<And>W. finite W \<Longrightarrow> set (ord W) = W) \<Longrightarrow> \<forall>(f, c) \<in> set files. token f \<Longrightarrow> token_kvs (all_kvs (indexer_Map ord) files)"
  by (auto simp: token_kvs_def all_kvs_def indexer_Map_def word_token)

lemma nocrash_token: "\<forall>(f, c) \<in> set files. token f \<Longrightarrow> token_kvs (all_kvs nocrash_Map files)"
  by (auto simp: token_kvs_def all_kvs_def nocrash_Map_def itoa_token) (auto simp: token_def is_space_def)

section \<open>Properties\<close>

lemma length_filter_eq: "length (filter (\<lambda>x. x = w) xs) = count_list xs w"
  by (induction xs) auto

text \<open>The words of all the files.\<close>

definition all_words :: "(string \<times> string) list \<Rightarrow> string list" where
  "all_words files = concat (map (\<lambda>(f, c). fields_func (\<lambda>r. \<not> is_letter r) c) files)"

lemma wc_kvs: "all_kvs wc_Map files = map (\<lambda>w. \<lparr>Key = w, Value = ''1''\<rparr>) (all_words files)"
  by (induction files) (auto simp: all_words_def wc_Map_def)

text \<open>
  C24. Word count is right: for any input files and any number of reduce tasks, the reduce tasks
  together print exactly one line per word that occurs in the files, with the number of its
  occurrences, whatever \<^verbatim>\<open>sort.Sort\<close> does with equal keys.
\<close>

theorem word_count_correct:
  assumes "sorts srt" and "0 < n"
  shows "(\<Sum>r<n. mset (projr (worker_reduce srt wc_Reduce (intermediate srt wc_Map n files r)))) =
    image_mset (\<lambda>w. line w (itoa (count_list (all_words files) w))) (mset_set (set (all_words files)))"
proof -
  let ?W = "all_words files"
  have out: "out_line wc_Reduce (all_kvs wc_Map files) w = line w (itoa (count_list ?W w))" for w
    by (simp add: out_line_def wc_Reduce_def wc_kvs filter_map comp_def length_filter_eq)
  have "(\<Sum>r<n. mset (projr (worker_reduce srt wc_Reduce (intermediate srt wc_Map n files r)))) =
      mset (seq_loop wc_Reduce (srt (all_kvs wc_Map files)) 0)"
    using distributed_lines [OF assms(1) wc_requirements(1) assms(2) wc_requirements(2)]
    by (simp add: mrsequential_def all_kvs_def)
  also have "\<dots> = image_mset (out_line wc_Reduce (all_kvs wc_Map files)) (mset_set (Key ` set (all_kvs wc_Map files)))"
    by (rule sorted_output [OF assms(1) wc_requirements(1)])
  also have "Key ` set (all_kvs wc_Map files) = set ?W" by (simp add: wc_kvs image_image)
  finally show ?thesis by (simp add: out)
qed

theorem word_count_correct_witness:
  "(\<Sum>r<2. mset (projr (worker_reduce (sort_key Key) wc_Reduce (intermediate (sort_key Key) wc_Map 2 [(''f'', ''a b a'')] r)))) =
     {# line ''a'' ''2'', line ''b'' ''1'' #}"
proof -
  have w: "all_words [(''f'', ''a b a'')] = [''a'', ''b'', ''a'']"
    by (simp add: all_words_def is_letter_def)
  have i: "itoa 2 = ''2''" "itoa (Suc 0) = ''1''" by code_simp+
  have k: "set [''a'', ''b'', ''a''] = {''a'', ''b''}" by auto
  have c: "count_list [''a'', ''b'', ''a''] ''a'' = 2" "count_list [''a'', ''b'', ''a''] ''b'' = Suc 0" by simp_all
  show ?thesis
    unfolding word_count_correct [OF sorts_sort_key zero_less_numeral] w k by (simp add: c i del: count_list.simps)
qed

end
