(* ===== verification/Coordinator.thy ===== *)
theory Coordinator
  imports MapReduce
begin

text \<open>
  The MapReduce coordinator (mr/coordinator.go, mr/rpc.go) and the whole system: the
  coordinator, the workers of mr/worker.go and the files they share. Workers may crash at any
  point, tasks may be given out more than once, and reports may be lost, late or duplicated.
\<close>

section \<open>The coordinator\<close>

datatype TaskType = TaskMap | TaskReduce | TaskWait | TaskExit

datatype TaskState = StateIdle | StateInProgress | StateDone

record TaskInfo =
  State :: TaskState
  WorkerID :: int
  Start_time :: int

record Coordinator =
  files :: "string list"
  num_map :: nat
  num_reduce :: nat
  phase :: TaskType
  tasks :: "TaskInfo list"
  worker_register :: int

record GetTaskReply =
  Type_reply :: TaskType
  TaskID :: nat
  FileName :: string
  NumSlices :: nat

record ReportTaskDoneArgs =
  rt_WorkerID :: int
  rt_Type :: TaskType
  rt_TaskID :: int

text \<open>Times are in milliseconds.\<close>

definition TIMEOUT :: int where "TIMEOUT = 10000"

definition zeroTask :: TaskInfo where
  "zeroTask = \<lparr>State = StateIdle, WorkerID = 0, Start_time = 0\<rparr>"

definition MakeCoordinator :: "string list \<Rightarrow> nat \<Rightarrow> Coordinator" where
  "MakeCoordinator fs nReduce =
     \<lparr>files = fs, num_map = length fs, num_reduce = nReduce, phase = TaskMap,
      tasks = replicate (length fs) zeroTask, worker_register = 0\<rparr>"

definition Register :: "Coordinator \<Rightarrow> Coordinator \<times> int" where
  "Register c =
     (if phase c = TaskExit then (c, -1)
      else if worker_register c < 0 then (c, -1)
      else (c\<lparr>worker_register := worker_register c + 1\<rparr>, worker_register c))"

text \<open>The loop of \<open>GetTask\<close> over the task indices: the first idle or timed out task is taken.\<close>

fun find_task :: "int \<Rightarrow> int \<Rightarrow> TaskInfo list \<Rightarrow> nat list \<Rightarrow> (TaskInfo list \<times> nat option) res" where
  "find_task now worker ts [] = Inr (ts, None)"
| "find_task now worker ts (index # rest) =
     bindr (idx ts index) (\<lambda>task.
       case State task of
         StateIdle \<Rightarrow>
           Inr (ts[index := task\<lparr>State := StateInProgress, Start_time := now, WorkerID := worker\<rparr>], Some index)
       | StateInProgress \<Rightarrow>
           if now - Start_time task > TIMEOUT
           then Inr (ts[index := task\<lparr>Start_time := now, WorkerID := worker\<rparr>], Some index)
           else find_task now worker ts rest
       | StateDone \<Rightarrow> find_task now worker ts rest)"

definition GetTask :: "Coordinator \<Rightarrow> int \<Rightarrow> int \<Rightarrow> (Coordinator \<times> GetTaskReply option) res" where
  "GetTask c worker now =
     (let reply = \<lparr>Type_reply = TaskMap, TaskID = 0, FileName = '''', NumSlices = 0\<rparr> in
      case phase c of
        TaskMap \<Rightarrow>
          bindr (find_task now worker (tasks c) [0..<length (files c)]) (\<lambda>(ts, found).
            case found of
              None \<Rightarrow> Inr (c\<lparr>tasks := ts\<rparr>, Some (reply\<lparr>Type_reply := TaskWait\<rparr>))
            | Some index \<Rightarrow>
                Inr (c\<lparr>tasks := ts\<rparr>, Some (reply\<lparr>FileName := files c ! index, NumSlices := num_reduce c,
                       TaskID := index, Type_reply := TaskMap\<rparr>)))
      | TaskReduce \<Rightarrow>
          bindr (find_task now worker (tasks c) [0..<length (tasks c)]) (\<lambda>(ts, found).
            case found of
              None \<Rightarrow> Inr (c\<lparr>tasks := ts\<rparr>, Some (reply\<lparr>Type_reply := TaskWait\<rparr>))
            | Some index \<Rightarrow>
                Inr (c\<lparr>tasks := ts\<rparr>, Some (reply\<lparr>NumSlices := num_map c, TaskID := index, Type_reply := TaskReduce\<rparr>)))
      | TaskExit \<Rightarrow> Inr (c, Some (reply\<lparr>Type_reply := TaskExit\<rparr>))
      | TaskWait \<Rightarrow> Inr (c, None))"

text \<open>\<open>True\<close> is the reply \<^verbatim>\<open>OK_\<close>; \<open>False\<close> is the error of the default branch.\<close>

definition ReportTaskDone :: "Coordinator \<Rightarrow> ReportTaskDoneArgs \<Rightarrow> (Coordinator \<times> bool) res" where
  "ReportTaskDone c args =
     (if rt_Type args \<noteq> phase c then Inr (c, True)
      else if rt_TaskID args < 0 then Inl IndexOutOfRange
      else bindr (idx (tasks c) (nat (rt_TaskID args))) (\<lambda>task.
        if State task = StateDone then Inr (c, True)
        else
          let c1 = c\<lparr>tasks := (tasks c)[nat (rt_TaskID args) :=
                      task\<lparr>State := StateDone, WorkerID := rt_WorkerID args\<rparr>]\<rparr>
          in case phase c of
               TaskMap \<Rightarrow>
                 if list_ex (\<lambda>t. State t \<noteq> StateDone) (tasks c1) then Inr (c1, True)
                 else Inr (c1\<lparr>phase := TaskReduce, tasks := replicate (num_reduce c1) zeroTask\<rparr>, True)
             | TaskReduce \<Rightarrow>
                 if list_ex (\<lambda>t. State t \<noteq> StateDone) (tasks c1) then Inr (c1, True)
                 else Inr (c1\<lparr>phase := TaskExit\<rparr>, True)
             | TaskExit \<Rightarrow> Inr (c1, True)
             | TaskWait \<Rightarrow> Inr (c1, False)))"

definition Done :: "Coordinator \<Rightarrow> bool" where
  "Done c \<longleftrightarrow> phase c = TaskExit"

section \<open>The system\<close>

text \<open>
  The files the workers share and what each worker has done so far with the task it was given:
  \<open>(w, reply, k)\<close> says that worker \<open>w\<close> has renamed the first \<open>k\<close> files of the
  task into place. A worker that crashes just stops; one that is slow goes on whenever it
  likes. A report that reaches the coordinator is a step; lost reports are no step.
\<close>

record mr_sys =
  coord :: Coordinator
  fs_inter :: "nat \<times> nat \<rightharpoonup> string"
  fs_out :: "nat \<rightharpoonup> string list"
  progress :: "(int \<times> GetTaskReply \<times> nat) set"

text \<open>A job: the sort routine, the application, the contents of the input files, their names, and \<^verbatim>\<open>nReduce\<close>.\<close>

record mr_job =
  j_srt :: "KeyValue list \<Rightarrow> KeyValue list"
  j_mapf :: "string \<Rightarrow> string \<Rightarrow> KeyValue list"
  j_reducef :: "string \<Rightarrow> string list \<Rightarrow> string"
  j_content :: "string \<Rightarrow> string"
  j_files :: "string list"
  j_n :: nat

definition mr_init :: "mr_job \<Rightarrow> mr_sys" where
  "mr_init J = \<lparr>coord = MakeCoordinator (j_files J) (j_n J), fs_inter = Map.empty, fs_out = Map.empty, progress = {}\<rparr>"

text \<open>Reading the intermediate files of a reduce task; a missing file ends the worker.\<close>

definition read_inputs :: "mr_sys \<Rightarrow> GetTaskReply \<Rightarrow> string list option" where
  "read_inputs s reply =
     those (map (\<lambda>index. fs_inter s (index, TaskID reply)) [0..<NumSlices reply])"

inductive mr_step :: "mr_job \<Rightarrow> mr_sys \<Rightarrow> mr_sys \<Rightarrow> bool" for J where
  register: "Register (coord s) = (c, w) \<Longrightarrow> mr_step J s (s\<lparr>coord := c\<rparr>)"
| get: "GetTask (coord s) w now = Inr (c, Some reply) \<Longrightarrow>
     mr_step J s (s\<lparr>coord := c, progress := insert (w, reply, 0) (progress s)\<rparr>)"
| write_map: "(w, reply, k) \<in> progress s \<Longrightarrow> Type_reply reply = TaskMap \<Longrightarrow> k < NumSlices reply \<Longrightarrow>
     worker_map (j_srt J) (j_mapf J) (NumSlices reply) (FileName reply) (j_content J (FileName reply)) = Inr fs \<Longrightarrow>
     mr_step J s (s\<lparr>fs_inter := (fs_inter s)((TaskID reply, k) \<mapsto> fs ! k),
                    progress := insert (w, reply, k + 1) (progress s)\<rparr>)"
| report_map: "(w, reply, NumSlices reply) \<in> progress s \<Longrightarrow> Type_reply reply = TaskMap \<Longrightarrow>
     ReportTaskDone (coord s) \<lparr>rt_WorkerID = w, rt_Type = TaskMap, rt_TaskID = int (TaskID reply)\<rparr> = Inr (c, ok) \<Longrightarrow>
     mr_step J s (s\<lparr>coord := c\<rparr>)"
| write_reduce: "(w, reply, 0) \<in> progress s \<Longrightarrow> Type_reply reply = TaskReduce \<Longrightarrow>
     read_inputs s reply = Some inputs \<Longrightarrow>
     worker_reduce (j_srt J) (j_reducef J) inputs = Inr lines \<Longrightarrow>
     mr_step J s (s\<lparr>fs_out := (fs_out s)(TaskID reply \<mapsto> lines), progress := insert (w, reply, 1) (progress s)\<rparr>)"
| report_reduce: "(w, reply, 1) \<in> progress s \<Longrightarrow> Type_reply reply = TaskReduce \<Longrightarrow>
     ReportTaskDone (coord s) \<lparr>rt_WorkerID = w, rt_Type = TaskReduce, rt_TaskID = int (TaskID reply)\<rparr> = Inr (c, ok) \<Longrightarrow>
     mr_step J s (s\<lparr>coord := c\<rparr>)"

definition mr_reach :: "mr_job \<Rightarrow> mr_sys \<Rightarrow> bool" where
  "mr_reach J s \<longleftrightarrow> (mr_step J)\<^sup>*\<^sup>* (mr_init J) s"

section \<open>The coordinator's invariant\<close>

definition coord_wf :: "mr_job \<Rightarrow> Coordinator \<Rightarrow> bool" where
  "coord_wf J c \<longleftrightarrow> files c = j_files J \<and> num_map c = length (j_files J) \<and> num_reduce c = j_n J \<and>
     phase c \<noteq> TaskWait \<and> length (tasks c) = (if phase c = TaskMap then length (j_files J) else j_n J)"

text \<open>The tasks of the current phase that have been reported.\<close>

definition reported :: "Coordinator \<Rightarrow> nat \<Rightarrow> bool" where
  "reported c i \<longleftrightarrow> i < length (tasks c) \<and> State (tasks c ! i) = StateDone"

lemma coord_wf_init: "coord_wf J (MakeCoordinator (j_files J) (j_n J))"
  by (simp add: coord_wf_def MakeCoordinator_def)

lemma find_task_ok:
  assumes "\<forall>i \<in> set is. i < length ts"
  shows "returns (find_task now w ts is) (\<lambda>(ts', found). length ts' = length ts \<and>
     (\<forall>i < length ts. State (ts' ! i) = StateDone \<longleftrightarrow> State (ts ! i) = StateDone) \<and>
     (case found of
        None \<Rightarrow> ts' = ts \<and> (\<forall>i \<in> set is. State (ts ! i) = StateDone \<or>
                  State (ts ! i) = StateInProgress \<and> now - Start_time (ts ! i) \<le> TIMEOUT)
      | Some i \<Rightarrow> i \<in> set is \<and> State (ts ! i) \<noteq> StateDone))"
  using assms
proof (induction "is")
  case (Cons i "is")
  then show ?case
  proof (cases "State (ts ! i)")
    case StateDone
    then show ?thesis using Cons by (auto elim!: returns_mono split: option.splits)
  next
    case StateIdle
    then show ?thesis using Cons.prems by (auto simp: nth_list_update)
  next
    case StateInProgress
    then show ?thesis using Cons by (auto simp: nth_list_update elim!: returns_mono split: option.splits)
  qed
qed simp

text \<open>What a reply of \<open>GetTask\<close> says about the coordinator.\<close>

definition task_reply_ok :: "Coordinator \<Rightarrow> int \<Rightarrow> GetTaskReply \<Rightarrow> bool" where
  "task_reply_ok c now reply \<longleftrightarrow>
     (case Type_reply reply of
        TaskMap \<Rightarrow> phase c = TaskMap \<and> TaskID reply < length (tasks c) \<and> \<not> reported c (TaskID reply) \<and>
          FileName reply = files c ! TaskID reply \<and> NumSlices reply = num_reduce c
      | TaskReduce \<Rightarrow> phase c = TaskReduce \<and> TaskID reply < length (tasks c) \<and> \<not> reported c (TaskID reply) \<and>
          NumSlices reply = num_map c
      | TaskExit \<Rightarrow> phase c = TaskExit
      | TaskWait \<Rightarrow> phase c \<noteq> TaskExit \<and> (\<forall>t \<in> set (tasks c). State t = StateDone \<or>
          State t = StateInProgress \<and> now - Start_time t \<le> TIMEOUT))"

lemma GetTask_ok:
  assumes "coord_wf J c"
  shows "returns (GetTask c w now) (\<lambda>(c', r). coord_wf J c' \<and> phase c' = phase c \<and> reported c' = reported c \<and>
     (\<exists>reply. r = Some reply \<and> task_reply_ok c now reply))"
proof -
  have len: "phase c = TaskMap \<Longrightarrow> length (files c) = length (tasks c)" and "phase c \<noteq> TaskWait"
    using assms by (auto simp: coord_wf_def)
  have "\<forall>i \<in> set [0..<length (tasks c)]. i < length (tasks c)" by simp
  note find = find_task_ok [OF this, of now w]
  show ?thesis
  proof (cases "phase c")
    case TaskMap
    then show ?thesis
      using assms len
      by (simp add: GetTask_def Let_def)
        (rule returns_mono [OF find], auto simp: coord_wf_def reported_def task_reply_ok_def fun_eq_iff in_set_conv_nth Ball_def split: option.splits)
  next
    case TaskReduce
    then show ?thesis
      using assms
      by (simp add: GetTask_def Let_def)
        (rule returns_mono [OF find], auto simp: coord_wf_def reported_def task_reply_ok_def fun_eq_iff in_set_conv_nth Ball_def split: option.splits)
  next
    case TaskExit
    then show ?thesis using assms by (simp add: GetTask_def Let_def task_reply_ok_def)
  next
    case TaskWait
    then show ?thesis using assms by (simp add: coord_wf_def)
  qed
qed

text \<open>A report moves to the next phase exactly when it completes the current one.\<close>

lemma ReportTaskDone_ok:
  assumes "coord_wf J c" and "ReportTaskDone c args = Inr (c', ok)"
  shows "coord_wf J c'"
    and "phase c' = phase c \<and> (\<forall>i. reported c' i \<longleftrightarrow> reported c i \<or>
            rt_Type args = phase c \<and> i = nat (rt_TaskID args) \<and> i < length (tasks c)) \<or>
         rt_Type args = phase c \<and> (phase c, phase c') \<in> {(TaskMap, TaskReduce), (TaskReduce, TaskExit)} \<and>
         (\<forall>i < length (tasks c). reported c i \<or> i = nat (rt_TaskID args)) \<and>
         (phase c' = TaskReduce \<longrightarrow> (\<forall>i. \<not> reported c' i))"
proof -
  define i where "i = nat (rt_TaskID args)"
  have "coord_wf J c' \<and> (phase c' = phase c \<and> (\<forall>j. reported c' j \<longleftrightarrow> reported c j \<or>
            rt_Type args = phase c \<and> j = i \<and> j < length (tasks c)) \<or>
         rt_Type args = phase c \<and> (phase c, phase c') \<in> {(TaskMap, TaskReduce), (TaskReduce, TaskExit)} \<and>
         (\<forall>j < length (tasks c). reported c j \<or> j = i) \<and>
         (phase c' = TaskReduce \<longrightarrow> (\<forall>j. \<not> reported c' j)))"
  proof (cases "rt_Type args \<noteq> phase c")
    case True
    then show ?thesis using assms by (simp add: ReportTaskDone_def)
  next
    case False
    then have i: "i < length (tasks c)"
      using assms(2) by (auto simp: ReportTaskDone_def i_def bindr_eq_Inr split: if_splits)
    show ?thesis
    proof (cases "State (tasks c ! i) = StateDone")
      case True
      then show ?thesis
        using assms False i by (auto simp: ReportTaskDone_def i_def [symmetric] reported_def split: if_splits)
    next
      case undone: False
      let ?ts = "(tasks c)[i := (tasks c ! i)\<lparr>State := StateDone, WorkerID := rt_WorkerID args\<rparr>]"
      have done_iff: "State (?ts ! j) = StateDone \<longleftrightarrow> State (tasks c ! j) = StateDone \<or> j = i" if "j < length (tasks c)" for j
        using that by (cases "j = i") auto
      show ?thesis
        using assms False i undone done_iff
        by (auto simp: ReportTaskDone_def i_def [symmetric] reported_def coord_wf_def Let_def list_ex_length
            zeroTask_def split: if_splits TaskType.splits)
    qed
  qed
  then show "coord_wf J c'"
    and "phase c' = phase c \<and> (\<forall>i. reported c' i \<longleftrightarrow> reported c i \<or>
            rt_Type args = phase c \<and> i = nat (rt_TaskID args) \<and> i < length (tasks c)) \<or>
         rt_Type args = phase c \<and> (phase c, phase c') \<in> {(TaskMap, TaskReduce), (TaskReduce, TaskExit)} \<and>
         (\<forall>i < length (tasks c). reported c i \<or> i = nat (rt_TaskID args)) \<and>
         (phase c' = TaskReduce \<longrightarrow> (\<forall>i. \<not> reported c' i))"
    by (simp_all add: i_def)
qed

section \<open>The invariant of the system\<close>

text \<open>What the intermediate file of map task \<open>i\<close> for reduce task \<open>r\<close> must hold.\<close>

definition right_inter :: "mr_job \<Rightarrow> nat \<Rightarrow> nat \<Rightarrow> string" where
  "right_inter J i r = projr (worker_map (j_srt J) (j_mapf J) (j_n J) (j_files J ! i) (j_content J (j_files J ! i))) ! r"

definition map_done :: "mr_job \<Rightarrow> mr_sys \<Rightarrow> nat \<Rightarrow> bool" where
  "map_done J s i \<longleftrightarrow> (\<forall>r < j_n J. fs_inter s (i, r) \<noteq> None)"

definition item_ok :: "mr_job \<Rightarrow> mr_sys \<Rightarrow> GetTaskReply \<Rightarrow> nat \<Rightarrow> bool" where
  "item_ok J s reply k \<longleftrightarrow>
     (case Type_reply reply of
        TaskMap \<Rightarrow> TaskID reply < length (j_files J) \<and> FileName reply = j_files J ! TaskID reply \<and>
          NumSlices reply = j_n J \<and> (\<forall>r < k. fs_inter s (TaskID reply, r) \<noteq> None)
      | TaskReduce \<Rightarrow> TaskID reply < j_n J \<and> NumSlices reply = length (j_files J) \<and>
          (\<forall>i < length (j_files J). map_done J s i) \<and> (0 < k \<longrightarrow> fs_out s (TaskID reply) \<noteq> None)
      | _ \<Rightarrow> True)"

definition files_ok :: "mr_job \<Rightarrow> mr_sys \<Rightarrow> bool" where
  "files_ok J s \<longleftrightarrow> (\<forall>i r f. fs_inter s (i, r) = Some f \<longrightarrow> f = right_inter J i r) \<and>
     (\<forall>r l. fs_out s r = Some l \<longrightarrow>
        worker_reduce (j_srt J) (j_reducef J) (map (\<lambda>i. right_inter J i r) [0..<length (j_files J)]) = Inr l)"

text \<open>What has been reported is on disk.\<close>

definition reports_ok :: "mr_job \<Rightarrow> mr_sys \<Rightarrow> bool" where
  "reports_ok J s \<longleftrightarrow>
     (case phase (coord s) of
        TaskMap \<Rightarrow> \<forall>i. reported (coord s) i \<longrightarrow> map_done J s i
      | TaskReduce \<Rightarrow> (\<forall>i < length (j_files J). map_done J s i) \<and>
          (\<forall>r. reported (coord s) r \<longrightarrow> fs_out s r \<noteq> None)
      | _ \<Rightarrow> (\<forall>i < length (j_files J). map_done J s i) \<and> (\<forall>r < j_n J. fs_out s r \<noteq> None))"

definition mr_inv :: "mr_job \<Rightarrow> mr_sys \<Rightarrow> bool" where
  "mr_inv J s \<longleftrightarrow> coord_wf J (coord s) \<and> files_ok J s \<and> reports_ok J s \<and>
     (\<forall>(w, reply, k) \<in> progress s. item_ok J s reply k)"

text \<open>Files are only ever added or rewritten, so what holds of them is kept.\<close>

definition grows :: "mr_sys \<Rightarrow> mr_sys \<Rightarrow> bool" where
  "grows s s' \<longleftrightarrow> dom (fs_inter s) \<subseteq> dom (fs_inter s') \<and> dom (fs_out s) \<subseteq> dom (fs_out s')"

lemma map_done_grows: "grows s s' \<Longrightarrow> map_done J s i \<Longrightarrow> map_done J s' i"
  by (auto simp: grows_def map_done_def domD dest!: subsetD)

lemma item_ok_grows: "grows s s' \<Longrightarrow> item_ok J s reply k \<Longrightarrow> item_ok J s' reply k"
  using map_done_grows [of s s' J]
  by (auto simp: item_ok_def grows_def split: TaskType.splits dest!: subsetD)

lemma reports_ok_grows: "grows s s' \<Longrightarrow> coord s' = coord s \<Longrightarrow> reports_ok J s \<Longrightarrow> reports_ok J s'"
  using map_done_grows [of s s' J]
  by (auto simp: reports_ok_def grows_def split: TaskType.splits dest!: subsetD)

lemma mr_inv_init: "mr_inv J (mr_init J)"
  using coord_wf_init [of J]
  by (auto simp: mr_inv_def mr_init_def files_ok_def reports_ok_def MakeCoordinator_def reported_def zeroTask_def)

lemma mr_inv_get:
  assumes "mr_inv J s" and "GetTask (coord s) w now = Inr (c, Some reply)"
  shows "mr_inv J (s\<lparr>coord := c, progress := insert (w, reply, 0) (progress s)\<rparr>)"
proof -
  let ?s = "s\<lparr>coord := c, progress := insert (w, reply, 0) (progress s)\<rparr>"
  have wf: "coord_wf J (coord s)" using assms(1) by (simp add: mr_inv_def)
  have g: "coord_wf J c" "phase c = phase (coord s)" "reported c = reported (coord s)" "task_reply_ok (coord s) now reply"
    using returnsD [OF GetTask_ok [OF wf] assms(2)] by auto
  have same: "grows s ?s" "files_ok J ?s = files_ok J s" "\<And>i. map_done J ?s i = map_done J s i"
    by (simp_all add: grows_def files_ok_def map_done_def)
  have "item_ok J ?s reply 0"
    using g(4) wf assms(1) same(3)
    by (auto simp: task_reply_ok_def item_ok_def coord_wf_def mr_inv_def reports_ok_def split: TaskType.splits)
  moreover have "reports_ok J ?s" using assms(1) g(2,3) same(3)
    by (auto simp: mr_inv_def reports_ok_def split: TaskType.splits)
  moreover have "files_ok J ?s" using assms(1) same(2) by (simp add: mr_inv_def)
  ultimately show ?thesis
    using assms(1) g(1) item_ok_grows [OF same(1)] by (auto simp: mr_inv_def)
qed

text \<open>A report of something that is on disk keeps the invariant.\<close>

lemma mr_inv_report:
  assumes "mr_inv J s" and "ReportTaskDone (coord s) args = Inr (c, ok)" and "0 \<le> rt_TaskID args"
    and "rt_Type args = TaskMap \<and> map_done J s (nat (rt_TaskID args)) \<or>
         rt_Type args = TaskReduce \<and> fs_out s (nat (rt_TaskID args)) \<noteq> None"
  shows "mr_inv J (s\<lparr>coord := c\<rparr>)"
proof -
  let ?s = "s\<lparr>coord := c\<rparr>"
  have wf: "coord_wf J (coord s)" using assms(1) by (simp add: mr_inv_def)
  note r = ReportTaskDone_ok [OF wf assms(2)]
  have same: "grows s ?s" "files_ok J ?s = files_ok J s" "\<And>i. map_done J ?s i = map_done J s i"
    by (simp_all add: grows_def files_ok_def map_done_def)
  have len: "phase (coord s) = TaskMap \<Longrightarrow> length (tasks (coord s)) = length (j_files J)"
      "phase (coord s) \<noteq> TaskMap \<Longrightarrow> length (tasks (coord s)) = j_n J" "phase (coord s) \<noteq> TaskWait"
    using wf by (auto simp: coord_wf_def)
  have "reports_ok J s" using assms(1) by (simp add: mr_inv_def)
  then have "reports_ok J ?s"
    using r(2) assms(4) same(3) len by (auto simp: reports_ok_def split: TaskType.splits)
  then show ?thesis
    using assms(1) r(1) same(2) item_ok_grows [OF same(1)] by (auto simp: mr_inv_def)
qed

lemma mr_inv_write_map:
  assumes "mr_inv J s" and "(w, reply, k) \<in> progress s" and "Type_reply reply = TaskMap" and "k < NumSlices reply"
    and "worker_map (j_srt J) (j_mapf J) (NumSlices reply) (FileName reply) (j_content J (FileName reply)) = Inr fs"
  shows "mr_inv J (s\<lparr>fs_inter := (fs_inter s)((TaskID reply, k) \<mapsto> fs ! k), progress := insert (w, reply, k + 1) (progress s)\<rparr>)"
proof -
  let ?s = "s\<lparr>fs_inter := (fs_inter s)((TaskID reply, k) \<mapsto> fs ! k), progress := insert (w, reply, k + 1) (progress s)\<rparr>"
  have item: "item_ok J s reply k" using assms(1,2) by (auto simp: mr_inv_def)
  then have right: "fs ! k = right_inter J (TaskID reply) k"
    using assms(3,5) by (simp add: item_ok_def right_inter_def)
  have g: "grows s ?s" by (auto simp: grows_def)
  have "files_ok J ?s" using assms(1) right by (auto simp: mr_inv_def files_ok_def)
  moreover have "item_ok J ?s reply (k + 1)"
    using item assms(3) by (auto simp: item_ok_def less_Suc_eq)
  moreover have "reports_ok J ?s" using assms(1) reports_ok_grows [OF g] by (simp add: mr_inv_def)
  ultimately show ?thesis using assms(1) item_ok_grows [OF g] by (auto simp: mr_inv_def)
qed

lemma those_Some: "those (map f xs) = Some ys \<longleftrightarrow> (\<forall>x \<in> set xs. f x \<noteq> None) \<and> ys = map (the \<circ> f) xs"
  by (induction xs arbitrary: ys) (auto split: option.splits)

lemma mr_inv_write_reduce:
  assumes "mr_inv J s" and "(w, reply, 0) \<in> progress s" and "Type_reply reply = TaskReduce"
    and "read_inputs s reply = Some inputs" and "worker_reduce (j_srt J) (j_reducef J) inputs = Inr lines"
  shows "mr_inv J (s\<lparr>fs_out := (fs_out s)(TaskID reply \<mapsto> lines), progress := insert (w, reply, 1) (progress s)\<rparr>)"
proof -
  let ?s = "s\<lparr>fs_out := (fs_out s)(TaskID reply \<mapsto> lines), progress := insert (w, reply, 1) (progress s)\<rparr>"
  have item: "item_ok J s reply 0" using assms(1,2) by (auto simp: mr_inv_def)
  have "inputs = map (\<lambda>i. right_inter J i (TaskID reply)) [0..<length (j_files J)]"
    using assms(1,3,4) item by (auto simp: read_inputs_def those_Some item_ok_def mr_inv_def files_ok_def)
  then have right: "worker_reduce (j_srt J) (j_reducef J)
      (map (\<lambda>i. right_inter J i (TaskID reply)) [0..<length (j_files J)]) = Inr lines" using assms(5) by simp
  have g: "grows s ?s" by (auto simp: grows_def)
  have "files_ok J ?s" using assms(1) right by (auto simp: mr_inv_def files_ok_def)
  moreover have "item_ok J ?s reply 1" using item_ok_grows [OF g item] assms(3) by (auto simp: item_ok_def)
  moreover have "reports_ok J ?s" using assms(1) reports_ok_grows [OF g] by (simp add: mr_inv_def)
  ultimately show ?thesis using assms(1) item_ok_grows [OF g] by (auto simp: mr_inv_def)
qed

lemma Register_coord: "Register c = (c', w) \<Longrightarrow> phase c' = phase c \<and> tasks c' = tasks c \<and> coord_wf J c' = coord_wf J c"
  by (auto simp: Register_def coord_wf_def split: if_splits)

lemma mr_step_inv: "mr_step J s s' \<Longrightarrow> mr_inv J s \<Longrightarrow> mr_inv J s'"
proof (induction rule: mr_step.induct)
  case (register s c w)
  then show ?case
    using Register_coord [OF register(1), of J]
    by (auto simp: mr_inv_def files_ok_def reports_ok_def item_ok_def map_done_def reported_def
        split: TaskType.splits)
next
  case (get s w now c reply)
  then show ?case by (blast intro: mr_inv_get)
next
  case (write_map w reply k s fs)
  then show ?case by (blast intro: mr_inv_write_map)
next
  case (report_map w reply s c ok)
  then have "map_done J s (TaskID reply)" by (auto simp: mr_inv_def item_ok_def map_done_def)
  then show ?case using mr_inv_report [OF report_map(4,3)] by simp
next
  case (write_reduce w reply s inputs lines)
  then show ?case by (blast intro: mr_inv_write_reduce)
next
  case (report_reduce w reply s c ok)
  then have "fs_out s (TaskID reply) \<noteq> None" by (auto simp: mr_inv_def item_ok_def)
  then show ?case using mr_inv_report [OF report_reduce(4,3)] by simp
qed

lemma mr_reach_inv: "mr_reach J s \<Longrightarrow> mr_inv J s"
  unfolding mr_reach_def by (induction rule: rtranclp_induct) (auto intro: mr_inv_init mr_step_inv)

section \<open>Properties\<close>

definition j_inputs :: "mr_job \<Rightarrow> (string \<times> string) list" where
  "j_inputs J = map (\<lambda>f. (f, j_content J f)) (j_files J)"

lemma right_inter_intermediate:
  "map (\<lambda>i. right_inter J i r) [0..<length (j_files J)] = intermediate (j_srt J) (j_mapf J) (j_n J) (j_inputs J) r"
  by (rule nth_equalityI) (auto simp: right_inter_def intermediate_def j_inputs_def)

lemma done_outputs:
  assumes "mr_reach J s" and "Done (coord s)" and "0 < j_n J" and "sorts (j_srt J)"
    and "order_free (j_reducef J)" and "token_kvs (all_kvs (j_mapf J) (j_inputs J))"
  shows "(\<forall>r < j_n J. fs_out s r \<noteq> None) \<and>
    (\<Sum>r < j_n J. mset (the (fs_out s r))) = mset (mrsequential (j_srt J) (j_mapf J) (j_reducef J) (j_inputs J))"
proof -
  have inv: "mr_inv J s" using assms(1) by (rule mr_reach_inv)
  then have out: "\<forall>r < j_n J. fs_out s r \<noteq> None"
    using assms(2) by (simp add: mr_inv_def reports_ok_def Done_def)
  have "the (fs_out s r) = projr (worker_reduce (j_srt J) (j_reducef J) (intermediate (j_srt J) (j_mapf J) (j_n J) (j_inputs J) r))"
    if "r < j_n J" for r
    using inv out that by (auto simp: mr_inv_def files_ok_def right_inter_intermediate)
  then show ?thesis using out distributed_lines [OF assms(4,5,3,6)] by simp
qed

text \<open>
  C6. MapReduce computes what the sequential program computes. In every state the system can reach, with
  workers crashing or stalling anywhere, tasks executed several times and reports lost, late or
  duplicated: when the coordinator says it is done, every reduce task has its output file, and
  the lines of these files together are exactly the lines of \<open>mrsequential\<close>, each as often.
  Required of the application: keys and values without white space, and a reduce function
  that does not depend on the order of the values.
\<close>

theorem mapreduce_correct:
  assumes "mr_reach J s" and "Done (coord s)" and "0 < j_n J" and "sorts (j_srt J)"
    and "order_free (j_reducef J)" and "token_kvs (all_kvs (j_mapf J) (j_inputs J))"
  shows "(\<forall>r < j_n J. fs_out s r \<noteq> None) \<and>
    (\<Sum>r < j_n J. mset (the (fs_out s r))) = mset (mrsequential (j_srt J) (j_mapf J) (j_reducef J) (j_inputs J))"
  by (rule done_outputs [OF assms])

definition demo_job :: mr_job where
  "demo_job = \<lparr>j_srt = sort_key Key, j_mapf = wc_Map, j_reducef = wc_Reduce, j_content = (\<lambda>_. ''a''),
     j_files = [''f''], j_n = 1\<rparr>"

lemma demo_job_run: "\<exists>s. mr_reach demo_job s \<and> Done (coord s)"
proof -
  let ?c0 = "MakeCoordinator [''f''] 1"
  define c1 where "c1 = ?c0\<lparr>tasks := [\<lparr>State = StateInProgress, WorkerID = 0, Start_time = 0\<rparr>]\<rparr>"
  define c2 where "c2 = ?c0\<lparr>phase := TaskReduce\<rparr>"
  define c3 where "c3 = c2\<lparr>tasks := [\<lparr>State = StateInProgress, WorkerID = 0, Start_time = 0\<rparr>]\<rparr>"
  define c4 where "c4 = c2\<lparr>tasks := [\<lparr>State = StateDone, WorkerID = 0, Start_time = 0\<rparr>], phase := TaskExit\<rparr>"
  define r1 where "r1 = \<lparr>Type_reply = TaskMap, TaskID = 0, FileName = ''f'', NumSlices = 1\<rparr>"
  define r2 where "r2 = \<lparr>Type_reply = TaskReduce, TaskID = 0, FileName = '''', NumSlices = 1\<rparr>"
  note defs = c1_def c2_def c3_def c4_def r1_def r2_def MakeCoordinator_def zeroTask_def
  have e1: "GetTask ?c0 0 0 = Inr (c1, Some r1)" by (simp add: defs GetTask_def)
  have e2: "worker_map (sort_key Key) wc_Map 1 ''f'' ''a'' = Inr [line ''a'' ''1'']"
  proof -
    have "wc_Map ''f'' ''a'' = [\<lparr>Key = ''a'', Value = ''1''\<rparr>]" by code_simp
    then show ?thesis by (simp add: worker_map_eq bucket_def print_kvs_def)
  qed
  have e3: "ReportTaskDone c1 \<lparr>rt_WorkerID = 0, rt_Type = TaskMap, rt_TaskID = 0\<rparr> = Inr (c2, True)"
    by (simp add: defs ReportTaskDone_def)
  have e4: "GetTask c2 0 0 = Inr (c3, Some r2)" by (simp add: defs GetTask_def)
  have e5: "worker_reduce (sort_key Key) wc_Reduce [line ''a'' ''1''] = Inr [line ''a'' ''1'']" by code_simp
  have e6: "ReportTaskDone c3 \<lparr>rt_WorkerID = 0, rt_Type = TaskReduce, rt_TaskID = 0\<rparr> = Inr (c4, True)"
    by (simp add: defs ReportTaskDone_def)
  let ?s0 = "mr_init demo_job"
  let ?s1 = "?s0\<lparr>coord := c1, progress := insert (0, r1, 0) (progress ?s0)\<rparr>"
  let ?s2 = "?s1\<lparr>fs_inter := (fs_inter ?s1)((TaskID r1, 0) \<mapsto> [line ''a'' ''1''] ! 0), progress := insert (0, r1, 0 + 1) (progress ?s1)\<rparr>"
  let ?s3 = "?s2\<lparr>coord := c2\<rparr>"
  let ?s4 = "?s3\<lparr>coord := c3, progress := insert (0, r2, 0) (progress ?s3)\<rparr>"
  let ?s5 = "?s4\<lparr>fs_out := (fs_out ?s4)(TaskID r2 \<mapsto> [line ''a'' ''1'']), progress := insert (0, r2, 1) (progress ?s4)\<rparr>"
  let ?s6 = "?s5\<lparr>coord := c4\<rparr>"
  have "mr_step demo_job ?s0 ?s1" by (rule mr_step.get [where now = 0]) (use e1 in \<open>simp add: mr_init_def demo_job_def\<close>)
  moreover have "mr_step demo_job ?s1 ?s2"
    by (rule mr_step.write_map) (use e2 in \<open>simp_all add: demo_job_def r1_def\<close>)
  moreover have "mr_step demo_job ?s2 ?s3"
    by (rule mr_step.report_map [of 0 r1 _ _ True]) (use e3 in \<open>simp_all add: r1_def\<close>)
  moreover have "mr_step demo_job ?s3 ?s4" by (rule mr_step.get [where now = 0]) (simp add: e4)
  moreover have "mr_step demo_job ?s4 ?s5"
    by (rule mr_step.write_reduce [of 0 r2 _ "[line ''a'' ''1'']"])
      (use e5 in \<open>simp_all add: demo_job_def r1_def r2_def read_inputs_def\<close>)
  moreover have "mr_step demo_job ?s5 ?s6"
    by (rule mr_step.report_reduce [of 0 r2 _ _ True]) (use e6 in \<open>simp_all add: r2_def\<close>)
  ultimately have "mr_reach demo_job ?s6"
    unfolding mr_reach_def by (meson converse_rtranclp_into_rtranclp rtranclp.rtrancl_refl)
  moreover have "Done (coord ?s6)" by (simp add: Done_def c4_def)
  ultimately show ?thesis by blast
qed

theorem mapreduce_correct_witness:
  "\<exists>s. mr_reach demo_job s \<and> Done (coord s) \<and> mset (the (fs_out s 0)) =
     mset (mrsequential (sort_key Key) wc_Map wc_Reduce [(''f'', ''a'')])"
proof -
  obtain s where s: "mr_reach demo_job s" "Done (coord s)" using demo_job_run by blast
  have "sorts (j_srt demo_job)" "order_free (j_reducef demo_job)" "0 < j_n demo_job"
      "token_kvs (all_kvs (j_mapf demo_job) (j_inputs demo_job))"
    by (simp_all add: demo_job_def sorts_sort_key wc_requirements)
  then show ?thesis
    using mapreduce_correct [OF s] s by (auto simp: demo_job_def j_inputs_def)
qed

text \<open>As long as a phase lasts, one of its tasks has not been reported.\<close>

definition has_open_task :: "Coordinator \<Rightarrow> bool" where
  "has_open_task c \<longleftrightarrow> phase c = TaskExit \<or> (\<exists>i < length (tasks c). \<not> reported c i)"

lemma ReportTaskDone_open:
  assumes "ReportTaskDone c args = Inr (c', ok)" and "has_open_task c" and "0 < num_reduce c" and "phase c \<noteq> TaskWait"
  shows "has_open_task c'"
  using assms
  by (auto simp: ReportTaskDone_def has_open_task_def reported_def bindr_eq_Inr Let_def list_ex_length zeroTask_def
      split: if_splits TaskType.splits)

lemma mr_reach_open:
  assumes "mr_reach J s" and "j_files J \<noteq> []" and "0 < j_n J"
  shows "has_open_task (coord s)"
  using assms(1) unfolding mr_reach_def
proof (induction rule: rtranclp_induct)
  case base
  then show ?case using assms(2) by (auto simp: has_open_task_def mr_init_def MakeCoordinator_def reported_def zeroTask_def)
next
  case (step s s')
  have inv: "mr_inv J s" using step(1) mr_reach_inv by (simp add: mr_reach_def)
  then have wf: "coord_wf J (coord s)" by (simp add: mr_inv_def)
  then have n: "0 < num_reduce (coord s)" "phase (coord s) \<noteq> TaskWait" using assms(3) by (simp_all add: coord_wf_def)
  from step(2) show ?case
  proof cases
    case (register c w)
    then show ?thesis using step.IH Register_coord [OF register(2), of J] by (auto simp: has_open_task_def reported_def)
  next
    case (get w now c reply)
    have "coord_wf J c \<and> phase c = phase (coord s) \<and> reported c = reported (coord s)"
      using returnsD [OF GetTask_ok [OF wf] get(2)] by auto
    then show ?thesis using step.IH get(1) wf by (auto simp: has_open_task_def coord_wf_def)
  qed (use step.IH n ReportTaskDone_open in auto)
qed

text \<open>
  C25. The coordinator never stalls. In every reachable state before it is done, if every task in
  progress has exceeded its timeout, a worker that asks is given a task of the current phase
  that has not been reported done.
\<close>

theorem coordinator_never_stalls:
  assumes "mr_reach J s" and "j_files J \<noteq> []" and "0 < j_n J" and "\<not> Done (coord s)"
    and "\<forall>t \<in> set (tasks (coord s)). State t = StateInProgress \<longrightarrow> now - Start_time t > TIMEOUT"
  shows "returns (GetTask (coord s) w now) (\<lambda>(c', r). \<exists>reply. r = Some reply \<and>
    Type_reply reply = phase (coord s) \<and> \<not> reported (coord s) (TaskID reply) \<and> TaskID reply < length (tasks (coord s)))"
proof -
  let ?c = "coord s"
  have wf: "coord_wf J ?c" using mr_reach_inv [OF assms(1)] by (simp add: mr_inv_def)
  obtain i where i: "i < length (tasks ?c)" "\<not> reported ?c i"
    using mr_reach_open [OF assms(1-3)] assms(4) by (auto simp: has_open_task_def Done_def)
  then have "tasks ?c ! i \<in> set (tasks ?c)" "State (tasks ?c ! i) \<noteq> StateDone" by (auto simp: reported_def)
  then have no_wait: "\<not> (\<forall>t \<in> set (tasks ?c). State t = StateDone \<or> State t = StateInProgress \<and> now - Start_time t \<le> TIMEOUT)"
    using assms(5) by (metis linorder_not_le)
  have "Type_reply reply = phase ?c \<and> \<not> reported ?c (TaskID reply) \<and> TaskID reply < length (tasks ?c)"
    if "task_reply_ok ?c now reply" for reply
    using that no_wait assms(4) by (cases "Type_reply reply") (auto simp: task_reply_ok_def Done_def)
  then show ?thesis by (intro returns_mono [OF GetTask_ok [OF wf]]) auto
qed

theorem coordinator_never_stalls_witness:
  "returns (GetTask (MakeCoordinator [''f''] 1) 7 0) (\<lambda>(c', r). \<exists>reply. r = Some reply \<and> Type_reply reply = TaskMap)"
proof -
  have "mr_reach demo_job (mr_init demo_job)" by (simp add: mr_reach_def)
  moreover have "coord (mr_init demo_job) = MakeCoordinator [''f''] 1" "j_files demo_job \<noteq> []" "0 < j_n demo_job"
    by (simp_all add: mr_init_def demo_job_def)
  ultimately have "returns (GetTask (MakeCoordinator [''f''] 1) 7 0) (\<lambda>(c', r). \<exists>reply. r = Some reply \<and>
      Type_reply reply = phase (MakeCoordinator [''f''] 1) \<and> \<not> reported (MakeCoordinator [''f''] 1) (TaskID reply) \<and>
      TaskID reply < length (tasks (MakeCoordinator [''f''] 1)))"
    using coordinator_never_stalls [of demo_job "mr_init demo_job" 0 7]
    by (simp add: Done_def MakeCoordinator_def zeroTask_def)
  then show ?thesis by (rule returns_mono) (auto simp: MakeCoordinator_def)
qed

end
