(* ===== verification/MrWorker.thy ===== *)
theory MrWorker
  imports Coordinator
begin

text \<open>
  The worker process (mr/worker.go) step by step, with the files it works on under the names it gives them
  (mr/rpc.go). Where theory \<open>Coordinator\<close> lets a result appear at once, here a worker creates a temporary file,
  writes it piece by piece and renames it, reads the intermediate files one after the other, calls the coordinator
  over a connection that may fail before or after the call was served, counts failures, and may end at any point.
  Any number of workers run at the same time.

  The theory shows that every run is one of theory \<open>Coordinator\<close>, with the files under their final
  names as its files: no two workers share a temporary file, so that what is renamed is complete. File operations
  succeed unless a file does not exist; \<^verbatim>\<open>log.Fatal\<close> and panics end the worker.
\<close>

section \<open>Files\<close>

type_synonym dir = "string \<rightharpoonup> string"

definition os_Create :: "dir \<Rightarrow> string \<Rightarrow> dir" where
  "os_Create d f = d(f \<mapsto> '''')"

definition os_Append :: "dir \<Rightarrow> string \<Rightarrow> string \<Rightarrow> dir" where
  "os_Append d f s = (case d f of None \<Rightarrow> d | Some c \<Rightarrow> d(f \<mapsto> c @ s))"

definition os_Rename :: "dir \<Rightarrow> string \<Rightarrow> string \<Rightarrow> dir" where
  "os_Rename d f g = (case d f of None \<Rightarrow> d | Some c \<Rightarrow> (d(f := None))(g \<mapsto> c))"

definition INTERMEDIATE_FILENAME_PREFIX :: string where "INTERMEDIATE_FILENAME_PREFIX = ''mr-intermediate''"
definition INTERMEDIATE_TEMP_FILENAME_PREFIX :: string where "INTERMEDIATE_TEMP_FILENAME_PREFIX = ''mr-intermediate-temp''"
definition OUTPUT_TEMP_FILENAME_PREFIX :: string where "OUTPUT_TEMP_FILENAME_PREFIX = ''mr-out-temp''"
definition OUTPUT_FILENAME_PREFIX :: string where "OUTPUT_FILENAME_PREFIX = ''mr-out''"

lemmas prefix_defs = INTERMEDIATE_FILENAME_PREFIX_def INTERMEDIATE_TEMP_FILENAME_PREFIX_def
  OUTPUT_TEMP_FILENAME_PREFIX_def OUTPUT_FILENAME_PREFIX_def

text \<open>A Go \<^verbatim>\<open>int\<close> printed with \<^verbatim>\<open>%v\<close>.\<close>

definition fmt_int :: "int \<Rightarrow> string" where
  "fmt_int i = (if i < 0 then CHR ''-'' # itoa (nat (- i)) else itoa (nat i))"

definition temp_filename :: "nat \<Rightarrow> nat \<Rightarrow> int \<Rightarrow> string" where
  "temp_filename task index worker =
     INTERMEDIATE_TEMP_FILENAME_PREFIX @ ''-'' @ itoa task @ ''-'' @ itoa index @ ''-'' @ fmt_int worker"

definition finalFilename :: "nat \<Rightarrow> nat \<Rightarrow> string" where
  "finalFilename task index = INTERMEDIATE_FILENAME_PREFIX @ ''-'' @ itoa task @ ''-'' @ itoa index"

definition temp_output_filename :: "nat \<Rightarrow> int \<Rightarrow> string" where
  "temp_output_filename task worker = OUTPUT_TEMP_FILENAME_PREFIX @ ''-'' @ itoa task @ ''-'' @ fmt_int worker"

definition output_filename :: "nat \<Rightarrow> string" where
  "output_filename task = OUTPUT_FILENAME_PREFIX @ ''-'' @ itoa task"

lemmas name_defs = temp_filename_def finalFilename_def temp_output_filename_def output_filename_def prefix_defs

section \<open>The worker\<close>

text \<open>
  Where the worker is: the registration loop, the call for a task, in a map task (before the input is read, at the top of
  the loop over the partitions, printing one), in a reduce task (reading, printing), the report, and the end: \<open>Finished\<close>
  when the coordinator said so, \<open>Stopped\<close> otherwise. \<open>todo\<close> is what is still to be printed.
\<close>

datatype wpc =
    Registering
  | Asking
  | MapOpen GetTaskReply
  | MapLoop GetTaskReply "string list" nat
  | MapPrint GetTaskReply "string list" nat string
  | ReduceRead GetTaskReply "string list"
  | ReducePrint GetTaskReply "string list" string
  | Reporting GetTaskReply
  | Finished
  | Stopped

record worker =
  pc :: wpc
  worker_id :: int
  failed_times :: nat

definition new_worker :: worker where
  "new_worker = \<lparr>pc = Registering, worker_id = -1, failed_times = 0\<rparr>"

text \<open>A failed call: the worker gives up at the third in a row, and else goes on at \<open>next_pc\<close>.\<close>

definition connect_failed :: "worker \<Rightarrow> wpc \<Rightarrow> worker" where
  "connect_failed w next_pc =
     (let n = failed_times w + 1 in w\<lparr>failed_times := n, pc := if n = 3 then Stopped else next_pc\<rparr>)"

text \<open>After a successful call: of \<open>Register\<close>, of \<open>GetTask\<close>, of \<open>ReportTaskDone\<close>.\<close>

definition registered :: "worker \<Rightarrow> int \<Rightarrow> worker" where
  "registered w ident =
     (if ident < 0 then w\<lparr>failed_times := 0\<rparr> else w\<lparr>failed_times := 0, worker_id := ident, pc := Asking\<rparr>)"

definition got_task :: "worker \<Rightarrow> GetTaskReply \<Rightarrow> worker" where
  "got_task w reply = w\<lparr>failed_times := 0, pc :=
     (case Type_reply reply of TaskExit \<Rightarrow> Finished | TaskWait \<Rightarrow> Asking | TaskMap \<Rightarrow> MapOpen reply | TaskReduce \<Rightarrow> ReduceRead reply [])\<rparr>"

definition acknowledged :: "worker \<Rightarrow> worker" where
  "acknowledged w = w\<lparr>failed_times := 0, pc := Asking\<rparr>"

text \<open>The work between calls, one operation on the files at a time; a write prints the next \<open>n + 1\<close> characters.\<close>

definition work :: "mr_job \<Rightarrow> nat \<Rightarrow> dir \<Rightarrow> worker \<Rightarrow> dir \<times> worker" where
  "work J n d w =
     (case pc w of
        MapOpen reply \<Rightarrow>
          (d, w\<lparr>pc := (case worker_map (j_srt J) (j_mapf J) (NumSlices reply) (FileName reply) (j_content J (FileName reply)) of
                        Inl _ \<Rightarrow> Stopped | Inr fs \<Rightarrow> MapLoop reply fs 0)\<rparr>)
      | MapLoop reply fs index \<Rightarrow>
          if index < length fs
          then (os_Create d (temp_filename (TaskID reply) index (worker_id w)), w\<lparr>pc := MapPrint reply fs index (fs ! index)\<rparr>)
          else (d, w\<lparr>pc := Reporting reply\<rparr>)
      | MapPrint reply fs index todo \<Rightarrow>
          if todo = []
          then (os_Rename d (temp_filename (TaskID reply) index (worker_id w)) (finalFilename (TaskID reply) index),
                w\<lparr>pc := MapLoop reply fs (index + 1)\<rparr>)
          else (os_Append d (temp_filename (TaskID reply) index (worker_id w)) (take (n + 1) todo),
                w\<lparr>pc := MapPrint reply fs index (drop (n + 1) todo)\<rparr>)
      | ReduceRead reply contents \<Rightarrow>
          if length contents < NumSlices reply
          then (d, w\<lparr>pc := (case d (finalFilename (length contents) (TaskID reply)) of
                             None \<Rightarrow> Stopped | Some c \<Rightarrow> ReduceRead reply (contents @ [c]))\<rparr>)
          else (case worker_reduce (j_srt J) (j_reducef J) contents of
                  Inl _ \<Rightarrow> (d, w\<lparr>pc := Stopped\<rparr>)
                | Inr ls \<Rightarrow> (os_Create d (temp_output_filename (TaskID reply) (worker_id w)), w\<lparr>pc := ReducePrint reply ls (concat ls)\<rparr>))
      | ReducePrint reply ls todo \<Rightarrow>
          if todo = []
          then (os_Rename d (temp_output_filename (TaskID reply) (worker_id w)) (output_filename (TaskID reply)),
                w\<lparr>pc := Reporting reply\<rparr>)
          else (os_Append d (temp_output_filename (TaskID reply) (worker_id w)) (take (n + 1) todo),
                w\<lparr>pc := ReducePrint reply ls (drop (n + 1) todo)\<rparr>)
      | _ \<Rightarrow> (d, w))"

section \<open>The system\<close>

record mr_world =
  wcoord :: Coordinator
  wdir :: dir
  procs :: "nat \<rightharpoonup> worker"

definition world_init :: "mr_job \<Rightarrow> dir \<Rightarrow> mr_world" where
  "world_init J d = \<lparr>wcoord = MakeCoordinator (j_files J) (j_n J), wdir = d, procs = Map.empty\<rparr>"

abbreviation put_proc :: "nat \<Rightarrow> worker \<Rightarrow> mr_world \<Rightarrow> mr_world" where
  "put_proc p w d \<equiv> d\<lparr>procs := (procs d)(p \<mapsto> w)\<rparr>"

text \<open>
  Steps: a worker is started; one ends (a crash, a fatal error, a coordinator that cannot be dialled); one works;
  a call is served and answered or not; a call is not served. A handler that returns an error makes the call fail.
  A report that fails is not repeated.
\<close>

inductive world_step :: "mr_job \<Rightarrow> mr_world \<Rightarrow> mr_world \<Rightarrow> bool" for J where
  start: "procs d p = None \<Longrightarrow> world_step J d (put_proc p new_worker d)"
| stop: "procs d p = Some w \<Longrightarrow> world_step J d (put_proc p (w\<lparr>pc := Stopped\<rparr>) d)"
| work: "procs d p = Some w \<Longrightarrow> work J n (wdir d) w = (dir', w') \<Longrightarrow> world_step J d (put_proc p w' (d\<lparr>wdir := dir'\<rparr>))"
| unserved: "procs d p = Some w \<Longrightarrow> pc w = Registering \<or> pc w = Asking \<or> pc w = Reporting reply \<Longrightarrow>
     world_step J d (put_proc p (connect_failed w (if pc w = Registering then Registering else Asking)) d)"
| register: "procs d p = Some w \<Longrightarrow> pc w = Registering \<Longrightarrow> Register (wcoord d) = (c, ident) \<Longrightarrow>
     w' = (if answered then registered w ident else connect_failed w Registering) \<Longrightarrow>
     world_step J d (put_proc p w' (d\<lparr>wcoord := c\<rparr>))"
| get: "procs d p = Some w \<Longrightarrow> pc w = Asking \<Longrightarrow> GetTask (wcoord d) (worker_id w) now = Inr (c, r) \<Longrightarrow>
     w' = (case r of Some reply \<Rightarrow> if answered then got_task w reply else connect_failed w Asking
           | None \<Rightarrow> connect_failed w Asking) \<Longrightarrow>
     world_step J d (put_proc p w' (d\<lparr>wcoord := c\<rparr>))"
| report: "procs d p = Some w \<Longrightarrow> pc w = Reporting reply \<Longrightarrow>
     ReportTaskDone (wcoord d) \<lparr>rt_WorkerID = worker_id w, rt_Type = Type_reply reply, rt_TaskID = int (TaskID reply)\<rparr> = Inr (c, ok) \<Longrightarrow>
     w' = (if answered \<and> ok then acknowledged w else connect_failed w Asking) \<Longrightarrow>
     world_step J d (put_proc p w' (d\<lparr>wcoord := c\<rparr>))"

definition world_reach :: "mr_job \<Rightarrow> dir \<Rightarrow> mr_world \<Rightarrow> bool" where
  "world_reach J dir0 d \<longleftrightarrow> (world_step J)\<^sup>*\<^sup>* (world_init J dir0) d"

section \<open>Names of files\<close>

lemma split_at_sep: "c \<notin> set a \<Longrightarrow> c \<notin> set b \<Longrightarrow> a @ c # x = b @ c # y \<longleftrightarrow> a = b \<and> x = y"
proof (induction a arbitrary: b)
  case Nil
  then show ?case by (cases b) auto
next
  case (Cons k a)
  then show ?case by (cases b) auto
qed

lemma itoa_no_dash [simp]: "CHR ''-'' \<notin> set (itoa n)"
  using itoa_digits [of "CHR ''-''" n] by (auto simp: is_digit_def)

lemma itoa_dash [simp]: "itoa m @ CHR ''-'' # x = itoa n @ CHR ''-'' # y \<longleftrightarrow> m = n \<and> x = y"
  by (simp add: split_at_sep)

lemma itoa_not_Nil [simp]: "itoa n \<noteq> []"
  by (subst itoa.simps) simp

lemma itoa_first:
  assumes "\<not> is_digit c"
  shows "itoa n @ x \<noteq> c # y" and "c # y \<noteq> itoa n @ x" and "itoa n \<noteq> c # y" and "c # y \<noteq> itoa n"
  using assms itoa_digits [of "hd (itoa n)" n] by (cases "itoa n"; auto)+

lemma not_digits [simp]: "\<not> is_digit (CHR ''t'')" "\<not> is_digit (CHR ''-'')"
  by (simp_all add: is_digit_def)

lemmas itoa_firsts [simp] = itoa_first [OF not_digits(1)] itoa_first [OF not_digits(2)]

lemma fmt_int_inj [simp]: "fmt_int v = fmt_int w \<longleftrightarrow> v = w"
  by (auto simp: fmt_int_def split: if_splits)

lemma name_eqs [simp]:
  "temp_filename i r v = temp_filename j q w \<longleftrightarrow> i = j \<and> r = q \<and> v = w"
  "finalFilename i r = finalFilename j q \<longleftrightarrow> i = j \<and> r = q"
  "temp_output_filename r v = temp_output_filename q w \<longleftrightarrow> r = q \<and> v = w"
  "output_filename r = output_filename q \<longleftrightarrow> r = q"
  by (simp_all add: name_defs)

lemma name_neqs [simp]:
  "temp_filename i r v \<noteq> finalFilename j q" "temp_filename i r v \<noteq> temp_output_filename q w" "temp_filename i r v \<noteq> output_filename q"
  "finalFilename j q \<noteq> temp_filename i r v" "finalFilename i r \<noteq> temp_output_filename q w" "finalFilename i r \<noteq> output_filename q"
  "temp_output_filename r v \<noteq> temp_filename j q w" "temp_output_filename r v \<noteq> finalFilename j q" "temp_output_filename r v \<noteq> output_filename q"
  "output_filename r \<noteq> temp_filename j q w" "output_filename r \<noteq> finalFilename j q" "output_filename r \<noteq> temp_output_filename q w"
  by (simp_all add: name_defs)

section \<open>Every run is one of the abstract system\<close>

text \<open>The temporary file of a worker holds what it has printed so far.\<close>

definition printed :: "dir \<Rightarrow> string \<Rightarrow> string \<Rightarrow> string \<Rightarrow> bool" where
  "printed d f todo full \<longleftrightarrow> (\<exists>pre. d f = Some pre \<and> pre @ todo = full)"

lemma printed_steps:
  "printed (os_Create d f) f full full"
  "printed d f todo full \<Longrightarrow> printed (os_Append d f (take n todo)) f (drop n todo) full"
  "printed d f [] full \<Longrightarrow> os_Rename d f g = (d(f := None))(g \<mapsto> full)"
  by (auto simp: printed_def os_Create_def os_Append_def os_Rename_def)

definition map_task :: "mr_job \<Rightarrow> mr_sys \<Rightarrow> int \<Rightarrow> GetTaskReply \<Rightarrow> string list \<Rightarrow> nat \<Rightarrow> bool" where
  "map_task J s ident reply fs k \<longleftrightarrow> (ident, reply, k) \<in> progress s \<and> Type_reply reply = TaskMap \<and> k \<le> length fs \<and>
     worker_map (j_srt J) (j_mapf J) (NumSlices reply) (FileName reply) (j_content J (FileName reply)) = Inr fs"

definition reduce_task :: "mr_sys \<Rightarrow> int \<Rightarrow> GetTaskReply \<Rightarrow> bool" where
  "reduce_task s ident reply \<longleftrightarrow> (ident, reply, 0) \<in> progress s \<and> Type_reply reply = TaskReduce"

definition pc_ok :: "mr_job \<Rightarrow> mr_sys \<Rightarrow> dir \<Rightarrow> int \<Rightarrow> wpc \<Rightarrow> bool" where
  "pc_ok J s d ident p =
     (case p of
        MapOpen reply \<Rightarrow> (ident, reply, 0) \<in> progress s \<and> Type_reply reply = TaskMap
      | MapLoop reply fs index \<Rightarrow> map_task J s ident reply fs index
      | MapPrint reply fs index todo \<Rightarrow> map_task J s ident reply fs index \<and> index < length fs \<and>
          printed d (temp_filename (TaskID reply) index ident) todo (fs ! index)
      | ReduceRead reply contents \<Rightarrow> reduce_task s ident reply \<and> length contents \<le> NumSlices reply \<and>
          (\<forall>i < length contents. fs_inter s (i, TaskID reply) = Some (contents ! i))
      | ReducePrint reply ls todo \<Rightarrow> reduce_task s ident reply \<and>
          (\<exists>inputs. read_inputs s reply = Some inputs \<and> worker_reduce (j_srt J) (j_reducef J) inputs = Inr ls) \<and>
          printed d (temp_output_filename (TaskID reply) ident) todo (concat ls)
      | Reporting reply \<Rightarrow> Type_reply reply = TaskMap \<and> (ident, reply, NumSlices reply) \<in> progress s \<or>
          Type_reply reply = TaskReduce \<and> (ident, reply, 1) \<in> progress s
      | Finished \<Rightarrow> phase (coord s) = TaskExit
      | _ \<Rightarrow> True)"

text \<open>Registered workers have numbers of their own, which the coordinator has passed.\<close>

definition ids_ok :: "(nat \<rightharpoonup> worker) \<Rightarrow> int \<Rightarrow> bool" where
  "ids_ok ps n \<longleftrightarrow> 0 \<le> n \<and>
     (\<forall>p w. ps p = Some w \<longrightarrow> worker_id w < n \<and> (pc w \<in> {Registering, Stopped} \<or> 0 \<le> worker_id w)) \<and>
     (\<forall>p q w v. ps p = Some w \<longrightarrow> ps q = Some v \<longrightarrow> worker_id w = worker_id v \<longrightarrow> 0 \<le> worker_id w \<longrightarrow> p = q)"

definition same_files :: "mr_sys \<Rightarrow> dir \<Rightarrow> bool" where
  "same_files s d \<longleftrightarrow> (\<forall>i r. fs_inter s (i, r) = d (finalFilename i r)) \<and>
     (\<forall>r. map_option concat (fs_out s r) = d (output_filename r))"

definition simulates :: "mr_job \<Rightarrow> mr_sys \<Rightarrow> mr_world \<Rightarrow> bool" where
  "simulates J s d \<longleftrightarrow> coord s = wcoord d \<and> same_files s (wdir d) \<and> ids_ok (procs d) (worker_register (wcoord d)) \<and>
     (\<forall>p w. procs d p = Some w \<longrightarrow> pc_ok J s (wdir d) (worker_id w) (pc w))"

text \<open>What the other workers do leaves a worker's claims alone.\<close>

definition undisturbed :: "mr_sys \<Rightarrow> dir \<Rightarrow> mr_sys \<Rightarrow> dir \<Rightarrow> int \<Rightarrow> bool" where
  "undisturbed s d s' d' ident \<longleftrightarrow> progress s \<subseteq> progress s' \<and> fs_inter s \<subseteq>\<^sub>m fs_inter s' \<and>
     (phase (coord s) = TaskExit \<longrightarrow> phase (coord s') = TaskExit) \<and>
     (\<forall>i r. d' (temp_filename i r ident) = d (temp_filename i r ident)) \<and>
     (\<forall>r. d' (temp_output_filename r ident) = d (temp_output_filename r ident))"

lemma read_inputs_mono: "fs_inter s \<subseteq>\<^sub>m fs_inter s' \<Longrightarrow> read_inputs s reply = Some inputs \<Longrightarrow> read_inputs s' reply = Some inputs"
  unfolding read_inputs_def those_Some map_le_def dom_def by fastforce

lemma pc_ok_undisturbed:
  assumes "undisturbed s d s' d' ident" and "pc_ok J s d ident p"
  shows "pc_ok J s' d' ident p"
proof -
  have mono: "(x, y, k) \<in> progress s \<Longrightarrow> (x, y, k) \<in> progress s'" for x y k
    using assms(1) by (auto simp: undisturbed_def)
  have le: "fs_inter s \<subseteq>\<^sub>m fs_inter s'" using assms(1) by (simp add: undisturbed_def)
  have keep: "fs_inter s q = Some c \<Longrightarrow> fs_inter s' q = Some c" for q c
    using le by (metis domI map_le_def)
  note reads = read_inputs_mono [OF le]
  have prt: "printed d' (temp_filename i r ident) todo full = printed d (temp_filename i r ident) todo full"
    "printed d' (temp_output_filename r ident) todo full = printed d (temp_output_filename r ident) todo full" for i r todo full
    using assms(1) by (simp_all add: undisturbed_def printed_def)
  show ?thesis
  proof (cases p)
    case (ReducePrint reply ls todo)
    then show ?thesis using assms(2) mono reads prt by (auto simp: pc_ok_def reduce_task_def)
  next
    case Finished
    then show ?thesis using assms by (simp add: pc_ok_def undisturbed_def)
  qed (use assms(2) mono keep prt in \<open>auto simp: pc_ok_def map_task_def reduce_task_def\<close>)
qed

lemma ids_ok_update:
  assumes "ids_ok ps n" and "ps p = Some w" and "worker_id w' = worker_id w"
    and "pc w' \<in> {Registering, Stopped} \<or> pc w \<notin> {Registering, Stopped}" and "n \<le> n'"
  shows "ids_ok (ps(p \<mapsto> w')) n'"
  using assms unfolding ids_ok_def by (auto, force+)

lemma ids_ok_register:
  assumes "ids_ok ps n" and "worker_id w' = n"
  shows "ids_ok (ps(p \<mapsto> w')) (n + 1)"
proof -
  have less: "worker_id v < n" "pc v \<in> {Registering, Stopped} \<or> 0 \<le> worker_id v" if "ps q = Some v" for q v
    using assms(1) that unfolding ids_ok_def by blast+
  have "0 \<le> n" using assms(1) by (simp add: ids_ok_def)
  then have "0 \<le> n + 1" by simp
  moreover have "worker_id v < n + 1 \<and> (pc v \<in> {Registering, Stopped} \<or> 0 \<le> worker_id v)" if "(ps(p \<mapsto> w')) q = Some v" for q v
    using that less [of q v] assms(2) \<open>0 \<le> n\<close> by (auto split: if_splits)
  moreover have "q = r" if "(ps(p \<mapsto> w')) q = Some u" "(ps(p \<mapsto> w')) r = Some v" "worker_id u = worker_id v" "0 \<le> worker_id u" for q r u v
  proof (cases "q = p \<or> r = p")
    case True
    then show ?thesis using that assms(2) less(1) [of q u] less(1) [of r v] by (auto split: if_splits)
  next
    case False
    then show ?thesis using that assms(1) unfolding ids_ok_def by auto
  qed
  ultimately show ?thesis unfolding ids_ok_def by blast
qed

lemma simulatesI:
  assumes "simulates J s d" and "ids_ok ((procs d)(p \<mapsto> w')) (worker_register c')" and "coord s' = c'" and "same_files s' dir'"
    and "pc_ok J s' dir' (worker_id w') (pc w')"
    and "\<And>q v. q \<noteq> p \<Longrightarrow> procs d q = Some v \<Longrightarrow> pc v \<in> {Registering, Stopped} \<or> undisturbed s (wdir d) s' dir' (worker_id v)"
  shows "simulates J s' (put_proc p w' (d\<lparr>wdir := dir', wcoord := c'\<rparr>))"
proof -
  have "pc_ok J s' dir' (worker_id v) (pc v)" if "q \<noteq> p" "procs d q = Some v" for q v
    using assms(6) [OF that]
  proof
    assume "undisturbed s (wdir d) s' dir' (worker_id v)"
    then show ?thesis using pc_ok_undisturbed assms(1) that(2) unfolding simulates_def by blast
  qed (auto simp: pc_ok_def)
  then show ?thesis using assms(2-5) by (simp add: simulates_def)
qed

text \<open>Only the fate of a call changes.\<close>

lemma undisturbed_coord:
  "phase (coord s) = TaskExit \<longrightarrow> phase c = TaskExit \<Longrightarrow> progress s \<subseteq> P \<Longrightarrow>
     undisturbed s d (s\<lparr>coord := c, progress := P\<rparr>) d i"
  by (simp add: undisturbed_def)

lemma fs_inter_mono:
  assumes "mr_inv J s" and "mr_inv J s'" and "grows s s'"
  shows "fs_inter s \<subseteq>\<^sub>m fs_inter s'"
  unfolding map_le_def
proof
  fix q assume q: "q \<in> dom (fs_inter s)"
  obtain i r where ir: "q = (i, r)" by (cases q)
  have "\<forall>f. fs_inter s (i, r) = Some f \<longrightarrow> f = right_inter J i r" "\<forall>f. fs_inter s' (i, r) = Some f \<longrightarrow> f = right_inter J i r"
    using assms(1,2) by (simp_all add: mr_inv_def files_ok_def)
  moreover have "q \<in> dom (fs_inter s')" using q assms(3) by (auto simp: grows_def)
  ultimately show "fs_inter s q = fs_inter s' q" using q ir by auto
qed

lemma worker_map_length:
  assumes "worker_map srt mapf n f c = Inr fs"
  shows "length fs = n"
proof (cases "n = 0")
  case True
  then show ?thesis using assms by (cases "mapf f c") (auto simp: worker_map_def)
next
  case False
  then show ?thesis using assms by (auto simp: worker_map_eq)
qed

text \<open>One operation of a worker: the abstract system does nothing, or the corresponding write.\<close>

definition sim_work :: "mr_job \<Rightarrow> mr_sys \<Rightarrow> dir \<Rightarrow> worker \<Rightarrow> dir \<Rightarrow> worker \<Rightarrow> bool" where
  "sim_work J s d w d' w' \<longleftrightarrow> (\<exists>s'. (mr_step J)\<^sup>=\<^sup>= s s' \<and> coord s' = coord s \<and> same_files s' d' \<and>
     pc_ok J s' d' (worker_id w') (pc w') \<and> (\<forall>i. i \<noteq> worker_id w \<longrightarrow> undisturbed s d s' d' i))"

lemma sim_work_local:
  assumes "same_files s d" and "pc_ok J s d' (worker_id w') (pc w')"
    and "d' = d \<or> d' = d(temp_filename i r (worker_id w) := c) \<or> d' = d(temp_output_filename r (worker_id w) := c)"
  shows "sim_work J s d w d' w'"
  unfolding sim_work_def by (rule exI [of _ s]) (use assms in \<open>auto simp: undisturbed_def same_files_def\<close>)

lemma sim_MapPrint:
  assumes "mr_inv J s" and "same_files s d" and "pc w = MapPrint reply fs index todo"
    and "pc_ok J s d (worker_id w) (pc w)" and "work J n d w = (d', w')"
  shows "sim_work J s d w d' w'"
proof (cases "todo = []")
  case False
  let ?f = "temp_filename (TaskID reply) index (worker_id w)"
  have ok: "map_task J s (worker_id w) reply fs index" "index < length fs" "printed d ?f todo (fs ! index)"
    using assms(3,4) by (simp_all add: pc_ok_def)
  have w': "d' = os_Append d ?f (take (n + 1) todo)" "w' = w\<lparr>pc := MapPrint reply fs index (drop (n + 1) todo)\<rparr>"
    using assms(3,5) False by (simp_all add: work_def)
  obtain pre where "d ?f = Some pre" using ok(3) by (auto simp: printed_def)
  then have "d' = d(?f := Some (pre @ take (n + 1) todo))" using w'(1) by (simp add: os_Append_def)
  moreover have "pc_ok J s d' (worker_id w') (pc w')"
    using ok printed_steps(2) [OF ok(3), of "n + 1"] w' by (simp add: pc_ok_def)
  ultimately show ?thesis using assms(2) by (intro sim_work_local) auto
next
  case True
  let ?f = "temp_filename (TaskID reply) index (worker_id w)" and ?g = "finalFilename (TaskID reply) index"
  let ?s = "s\<lparr>fs_inter := (fs_inter s)((TaskID reply, index) \<mapsto> fs ! index),
              progress := insert (worker_id w, reply, index + 1) (progress s)\<rparr>"
  have ok: "(worker_id w, reply, index) \<in> progress s" "Type_reply reply = TaskMap" "index < length fs"
      "worker_map (j_srt J) (j_mapf J) (NumSlices reply) (FileName reply) (j_content J (FileName reply)) = Inr fs"
      "printed d ?f [] (fs ! index)"
    using assms(3,4) True by (simp_all add: pc_ok_def map_task_def)
  have w': "d' = (d(?f := None))(?g \<mapsto> fs ! index)" "w' = w\<lparr>pc := MapLoop reply fs (index + 1)\<rparr>"
    using assms(3,5) True printed_steps(3) [OF ok(5)] by (simp_all add: work_def)
  have "mr_step J s ?s"
    using ok worker_map_length [OF ok(4)] by (intro mr_step.write_map) simp_all
  moreover have "fs_inter s \<subseteq>\<^sub>m fs_inter ?s"
    using fs_inter_mono [OF assms(1) mr_step_inv [OF calculation assms(1)]] by (auto simp: grows_def)
  moreover have "same_files ?s d'" using assms(2) w'(1) by (auto simp: same_files_def)
  moreover have "pc_ok J ?s d' (worker_id w') (pc w')"
    using ok w'(2) by (simp add: pc_ok_def map_task_def)
  ultimately show ?thesis
    unfolding sim_work_def using w'(1) by (intro exI [of _ ?s]) (auto simp: undisturbed_def)
qed

lemma sim_ReducePrint:
  assumes "mr_inv J s" and "same_files s d" and "pc w = ReducePrint reply ls todo"
    and "pc_ok J s d (worker_id w) (pc w)" and "work J n d w = (d', w')"
  shows "sim_work J s d w d' w'"
proof (cases "todo = []")
  case False
  let ?f = "temp_output_filename (TaskID reply) (worker_id w)"
  have ok: "reduce_task s (worker_id w) reply" "printed d ?f todo (concat ls)"
      "\<exists>inputs. read_inputs s reply = Some inputs \<and> worker_reduce (j_srt J) (j_reducef J) inputs = Inr ls"
    using assms(3,4) by (simp_all add: pc_ok_def)
  have w': "d' = os_Append d ?f (take (n + 1) todo)" "w' = w\<lparr>pc := ReducePrint reply ls (drop (n + 1) todo)\<rparr>"
    using assms(3,5) False by (simp_all add: work_def)
  obtain pre where "d ?f = Some pre" using ok(2) by (auto simp: printed_def)
  then have "d' = d(?f := Some (pre @ take (n + 1) todo))" using w'(1) by (simp add: os_Append_def)
  moreover have "pc_ok J s d' (worker_id w') (pc w')"
    using ok printed_steps(2) [OF ok(2), of "n + 1"] w' by (simp add: pc_ok_def)
  ultimately show ?thesis using assms(2) by (intro sim_work_local) auto
next
  case True
  let ?f = "temp_output_filename (TaskID reply) (worker_id w)" and ?g = "output_filename (TaskID reply)"
  let ?s = "s\<lparr>fs_out := (fs_out s)(TaskID reply \<mapsto> ls), progress := insert (worker_id w, reply, 1) (progress s)\<rparr>"
  obtain inputs where ok: "(worker_id w, reply, 0) \<in> progress s" "Type_reply reply = TaskReduce"
      "read_inputs s reply = Some inputs" "worker_reduce (j_srt J) (j_reducef J) inputs = Inr ls" "printed d ?f [] (concat ls)"
    using assms(3,4) True by (auto simp: pc_ok_def reduce_task_def)
  have w': "d' = (d(?f := None))(?g \<mapsto> concat ls)" "w' = w\<lparr>pc := Reporting reply\<rparr>"
    using assms(3,5) True printed_steps(3) [OF ok(5)] by (simp_all add: work_def)
  have "mr_step J s ?s" using ok by (intro mr_step.write_reduce)
  moreover have "same_files ?s d'" using assms(2) w'(1) by (auto simp: same_files_def)
  moreover have "pc_ok J ?s d' (worker_id w') (pc w')" using ok w'(2) by (simp add: pc_ok_def)
  ultimately show ?thesis
    unfolding sim_work_def using w'(1) by (intro exI [of _ ?s]) (auto simp: undisturbed_def)
qed

lemma sim_ReduceRead:
  assumes "same_files s d" and "pc w = ReduceRead reply contents"
    and "pc_ok J s d (worker_id w) (pc w)" and "work J n d w = (d', w')"
  shows "pc_ok J s d' (worker_id w') (pc w') \<and> (d' = d \<or> d' = d(temp_output_filename (TaskID reply) (worker_id w) := Some ''''))"
proof -
  have ok: "reduce_task s (worker_id w) reply" "length contents \<le> NumSlices reply"
      "\<forall>i < length contents. fs_inter s (i, TaskID reply) = Some (contents ! i)"
    using assms(2,3) by (simp_all add: pc_ok_def)
  show ?thesis
  proof (cases "length contents < NumSlices reply")
    case True
    have "fs_inter s (length contents, TaskID reply) = d (finalFilename (length contents) (TaskID reply))"
      using assms(1) by (simp add: same_files_def)
    then show ?thesis
      using True assms(2,4) ok by (auto simp: work_def pc_ok_def nth_append less_Suc_eq split: option.splits)
  next
    case False
    then have len: "length contents = NumSlices reply" using ok(2) by simp
    have "contents = map (the \<circ> (\<lambda>i. fs_inter s (i, TaskID reply))) [0..<NumSlices reply]"
      by (rule nth_equalityI) (use ok(3) len in auto)
    then have "read_inputs s reply = Some contents"
      using ok(3) len unfolding read_inputs_def those_Some by auto
    then show ?thesis
      using False assms(2,4) ok(1) printed_steps(1)
      by (auto simp: work_def pc_ok_def os_Create_def [symmetric] split: sum.splits)
  qed
qed

lemma sim_work_step:
  assumes "mr_inv J s" and "same_files s d" and "pc_ok J s d (worker_id w) (pc w)" and "work J n d w = (d', w')"
  shows "sim_work J s d w d' w'"
proof (cases "pc w")
  case (MapPrint reply fs index todo)
  then show ?thesis using sim_MapPrint [OF assms(1,2) _ assms(3,4)] by blast
next
  case (ReducePrint reply ls todo)
  then show ?thesis using sim_ReducePrint [OF assms(1,2) _ assms(3,4)] by blast
next
  case (MapOpen reply)
  then show ?thesis
    using assms by (intro sim_work_local) (auto simp: work_def pc_ok_def map_task_def split: sum.splits)
next
  case (MapLoop reply fs index)
  then have "pc_ok J s d' (worker_id w') (pc w') \<and> (d' = d \<or> d' = d(temp_filename (TaskID reply) index (worker_id w) := Some ''''))"
    using assms(3,4) printed_steps(1) worker_map_length
    by (auto simp: work_def pc_ok_def map_task_def os_Create_def split: if_splits)
  then show ?thesis using assms(2) by (intro sim_work_local [where c = "Some ''''"]) auto
next
  case (ReduceRead reply contents)
  then have "pc_ok J s d' (worker_id w') (pc w') \<and> (d' = d \<or> d' = d(temp_output_filename (TaskID reply) (worker_id w) := Some ''''))"
    using sim_ReduceRead [OF assms(2) _ assms(3,4)] by blast
  then show ?thesis using assms(2) by (intro sim_work_local [where c = "Some ''''"]) auto
qed (use assms in \<open>auto simp: work_def intro: sim_work_local\<close>)

lemma simulates_update:
  assumes "simulates J s d" and "procs d p = Some w" and "worker_id w' = worker_id w"
    and "pc w' \<in> {Registering, Stopped} \<or> pc w \<notin> {Registering, Stopped}"
    and "coord s' = c'" and "worker_register (wcoord d) \<le> worker_register c'" and "same_files s' dir'"
    and "pc_ok J s' dir' (worker_id w) (pc w')"
    and "\<And>i. i \<noteq> worker_id w \<or> pc w \<in> {Registering, Stopped} \<Longrightarrow> undisturbed s (wdir d) s' dir' i"
  shows "simulates J s' (put_proc p w' (d\<lparr>wdir := dir', wcoord := c'\<rparr>))"
proof -
  have ids: "ids_ok (procs d) (worker_register (wcoord d))" using assms(1) by (simp add: simulates_def)
  show ?thesis
  proof (rule simulatesI [OF assms(1) ids_ok_update [OF ids assms(2,3,4,6)] assms(5,7)])
    fix q v assume q: "q \<noteq> p" "procs d q = Some v"
    show "pc v \<in> {Registering, Stopped} \<or> undisturbed s (wdir d) s' dir' (worker_id v)"
    proof (cases "worker_id v = worker_id w \<and> pc w \<notin> {Registering, Stopped}")
      case True
      then have "0 \<le> worker_id w" using ids assms(2) by (auto simp: ids_ok_def)
      then show ?thesis using ids assms(2) q True unfolding ids_ok_def by metis
    qed (use assms(9) in auto)
  qed (use assms(3,8) in simp)
qed

lemma simulates_proc:
  assumes "simulates J s d" and "procs d p = Some w" and "worker_id w' = worker_id w"
    and "pc w' \<in> {Registering, Stopped} \<or> pc w \<notin> {Registering, Stopped}" and "pc_ok J s (wdir d) (worker_id w) (pc w')"
  shows "simulates J s (put_proc p w' d)"
proof -
  have "coord s = wcoord d" "same_files s (wdir d)" using assms(1) by (simp_all add: simulates_def)
  then have "simulates J s (put_proc p w' (d\<lparr>wdir := wdir d, wcoord := wcoord d\<rparr>))"
    using assms(5) by (intro simulates_update [OF assms(1-4)]) (auto simp: undisturbed_def)
  then show ?thesis by simp
qed

text \<open>A call that was served: the coordinator has moved on, and perhaps a task is given out.\<close>

lemma simulates_call:
  assumes "simulates J s d" and "procs d p = Some w" and "worker_id w' = worker_id w"
    and "pc w' \<in> {Registering, Stopped} \<or> pc w \<notin> {Registering, Stopped}"
    and "worker_register (wcoord d) \<le> worker_register c" and "phase (wcoord d) = TaskExit \<Longrightarrow> phase c = TaskExit"
    and "progress s \<subseteq> P" and "pc_ok J (s\<lparr>coord := c, progress := P\<rparr>) (wdir d) (worker_id w) (pc w')"
  shows "simulates J (s\<lparr>coord := c, progress := P\<rparr>) (put_proc p w' (d\<lparr>wcoord := c\<rparr>))"
proof -
  have "coord s = wcoord d" "same_files s (wdir d)" using assms(1) by (simp_all add: simulates_def)
  then have "simulates J (s\<lparr>coord := c, progress := P\<rparr>) (put_proc p w' (d\<lparr>wdir := wdir d, wcoord := c\<rparr>))"
    using assms by (intro simulates_update [OF assms(1-4)]) (auto simp: same_files_def undisturbed_def)
  then show ?thesis by simp
qed

lemma phase_exit_kept:
  assumes "coord_wf J c" and "phase c = TaskExit"
  shows "Register c = (c', ident) \<Longrightarrow> phase c' = TaskExit"
    and "GetTask c w now = Inr (c', r) \<Longrightarrow> phase c' = TaskExit"
    and "ReportTaskDone c args = Inr (c', ok) \<Longrightarrow> phase c' = TaskExit"
  using assms ReportTaskDone_ok(2) [OF assms(1), of args c' ok] returnsD [OF GetTask_ok [OF assms(1)], of w now "(c', r)"]
  by (auto simp: Register_def split: if_splits)

lemma worker_register_kept:
  "GetTask c w now = Inr (c', r) \<Longrightarrow> worker_register c' = worker_register c"
  "ReportTaskDone c args = Inr (c', ok) \<Longrightarrow> worker_register c' = worker_register c"
  by (auto simp: GetTask_def ReportTaskDone_def Let_def bindr_eq_Inr split: TaskType.splits option.splits if_splits prod.splits)

lemma connect_failed_ok:
  "pc_ok J s d i (pc (connect_failed w Asking))" "pc_ok J s d i (pc (connect_failed w Registering))"
  "worker_id (connect_failed w p) = worker_id w" "pc (connect_failed w p) \<in> {p, Stopped}"
  by (auto simp: connect_failed_def pc_ok_def Let_def)

lemma simulated_work:
  assumes "mr_inv J s" and "simulates J s d" and "procs d p = Some w" and "work J n (wdir d) w = (dir', w')"
  shows "\<exists>s'. (mr_step J)\<^sup>=\<^sup>= s s' \<and> simulates J s' (put_proc p w' (d\<lparr>wdir := dir'\<rparr>))"
proof (cases "pc w \<in> {Registering, Stopped}")
  case True
  then have "dir' = wdir d" "w' = w" using assms(4) by (auto simp: work_def)
  then have "put_proc p w' (d\<lparr>wdir := dir'\<rparr>) = d" using assms(3) by (simp add: fun_upd_idem)
  then show ?thesis using assms(2) by auto
next
  case False
  have sim: "coord s = wcoord d" "same_files s (wdir d)" "pc_ok J s (wdir d) (worker_id w) (pc w)"
    using assms(2,3) by (auto simp: simulates_def)
  obtain s' where s': "(mr_step J)\<^sup>=\<^sup>= s s'" "coord s' = coord s" "same_files s' dir'"
      "pc_ok J s' dir' (worker_id w') (pc w')" "\<forall>i. i \<noteq> worker_id w \<longrightarrow> undisturbed s (wdir d) s' dir' i"
    using sim_work_step [OF assms(1) sim(2,3) assms(4)] unfolding sim_work_def by blast
  have w': "worker_id w' = worker_id w"
    using assms(4) by (auto simp: work_def split: wpc.splits if_splits sum.splits)
  have "simulates J s' (put_proc p w' (d\<lparr>wdir := dir', wcoord := wcoord d\<rparr>))"
    using s' sim(1) False w' by (intro simulates_update [OF assms(2,3)]) auto
  then show ?thesis using s'(1) by auto
qed

lemma simulated_register:
  assumes "mr_inv J s" and "simulates J s d" and "procs d p = Some w" and "pc w = Registering"
    and "Register (wcoord d) = (c, ident)" and "w' = (if answered then registered w ident else connect_failed w Registering)"
  shows "mr_step J s (s\<lparr>coord := c\<rparr>) \<and> simulates J (s\<lparr>coord := c\<rparr>) (put_proc p w' (d\<lparr>wcoord := c\<rparr>))"
proof
  let ?s = "s\<lparr>coord := c\<rparr>"
  have sim: "coord s = wcoord d" "same_files s (wdir d)" "ids_ok (procs d) (worker_register (wcoord d))"
    using assms(2) by (auto simp: simulates_def)
  then show "mr_step J s ?s" using assms(5) by (intro mr_step.register [where w = ident]) simp
  have wf: "coord_wf J (wcoord d)" using assms(1) sim(1) by (simp add: mr_inv_def)
  note exit = phase_exit_kept(1) [OF wf _ assms(5)]
  have reg: "worker_register (wcoord d) \<le> worker_register c" using assms(5) by (auto simp: Register_def split: if_splits)
  show "simulates J ?s (put_proc p w' (d\<lparr>wcoord := c\<rparr>))"
  proof (cases "answered \<and> 0 \<le> ident")
    case False
    then have "worker_id w' = worker_id w" "pc w' \<in> {Registering, Stopped}"
      using assms(4,6) connect_failed_ok(3,4) [of w Registering] by (auto simp: registered_def)
    then show ?thesis
      using simulates_call [OF assms(2,3), of w' c "progress s"] reg exit by (auto simp: pc_ok_def)
  next
    case True
    then have w': "w' = w\<lparr>failed_times := 0, worker_id := ident, pc := Asking\<rparr>" using assms(6) by (simp add: registered_def)
    have ident: "ident = worker_register (wcoord d)" "worker_register c = worker_register (wcoord d) + 1"
      using True assms(5) by (auto simp: Register_def split: if_splits)
    have "ids_ok ((procs d)(p \<mapsto> w')) (worker_register c)"
      unfolding ident(2) by (rule ids_ok_register [OF sim(3)]) (simp add: w' ident(1))
    then have "simulates J ?s (put_proc p w' (d\<lparr>wdir := wdir d, wcoord := c\<rparr>))"
      using sim exit w' by (intro simulatesI [OF assms(2)]) (auto simp: same_files_def pc_ok_def undisturbed_def)
    then show ?thesis by simp
  qed
qed

lemma simulated_get:
  assumes "mr_inv J s" and "simulates J s d" and "procs d p = Some w" and "pc w = Asking"
    and "GetTask (wcoord d) (worker_id w) now = Inr (c, r)"
    and "w' = (case r of Some reply \<Rightarrow> if answered then got_task w reply else connect_failed w Asking
               | None \<Rightarrow> connect_failed w Asking)"
  shows "\<exists>s'. mr_step J s s' \<and> simulates J s' (put_proc p w' (d\<lparr>wcoord := c\<rparr>))"
proof -
  have sim: "coord s = wcoord d" using assms(2) by (simp add: simulates_def)
  have wf: "coord_wf J (wcoord d)" using assms(1) sim by (simp add: mr_inv_def)
  obtain reply where r: "r = Some reply" "phase c = phase (wcoord d)" "task_reply_ok (wcoord d) now reply"
    using returnsD [OF GetTask_ok [OF wf] assms(5)] by auto
  let ?s = "s\<lparr>coord := c, progress := insert (worker_id w, reply, 0) (progress s)\<rparr>"
  have "mr_step J s ?s" using assms(5) r(1) sim by (intro mr_step.get [where now = now]) simp
  moreover have "worker_id w' = worker_id w" "pc_ok J ?s (wdir d) (worker_id w) (pc w')"
    using assms(6) r connect_failed_ok
    by (auto simp: got_task_def pc_ok_def reduce_task_def task_reply_ok_def split: TaskType.splits)
  ultimately show ?thesis
    using simulates_call [OF assms(2,3), of w' c "progress ?s"] worker_register_kept(1) [OF assms(5)] assms(4) r(2) by auto
qed

lemma simulated_report:
  assumes "mr_inv J s" and "simulates J s d" and "procs d p = Some w" and "pc w = Reporting reply"
    and "ReportTaskDone (wcoord d) \<lparr>rt_WorkerID = worker_id w, rt_Type = Type_reply reply, rt_TaskID = int (TaskID reply)\<rparr> = Inr (c, ok)"
    and "w' = (if answered \<and> ok then acknowledged w else connect_failed w Asking)"
  shows "mr_step J s (s\<lparr>coord := c\<rparr>) \<and> simulates J (s\<lparr>coord := c\<rparr>) (put_proc p w' (d\<lparr>wcoord := c\<rparr>))"
proof
  have "coord s = wcoord d" "pc_ok J s (wdir d) (worker_id w) (pc w)" using assms(2,3) by (auto simp: simulates_def)
  then have sim: "coord s = wcoord d" "pc_ok J s (wdir d) (worker_id w) (Reporting reply)" using assms(4) by simp_all
  then have wf: "coord_wf J (wcoord d)" using assms(1) by (simp add: mr_inv_def)
  show "mr_step J s (s\<lparr>coord := c\<rparr>)"
    using sim assms(5) mr_step.report_map [of "worker_id w" reply s c ok] mr_step.report_reduce [of "worker_id w" reply s c ok]
    by (auto simp: pc_ok_def)
  have "worker_id w' = worker_id w" "pc_ok J (s\<lparr>coord := c\<rparr>) (wdir d) (worker_id w) (pc w')"
    using assms(6) connect_failed_ok by (auto simp: acknowledged_def pc_ok_def)
  then show "simulates J (s\<lparr>coord := c\<rparr>) (put_proc p w' (d\<lparr>wcoord := c\<rparr>))"
    using simulates_call [OF assms(2,3), of w' c "progress s"] worker_register_kept(2) [OF assms(5)] assms(4)
      phase_exit_kept(3) [OF wf _ assms(5)] by auto
qed

text \<open>A step of the system is a step of the abstract one, or none.\<close>

lemma world_step_simulated:
  assumes "world_step J d d'" and "mr_inv J s" and "simulates J s d"
  shows "\<exists>s'. (mr_step J)\<^sup>=\<^sup>= s s' \<and> simulates J s' d'"
  using assms(1)
proof cases
  case (start p)
  have "ids_ok ((procs d)(p \<mapsto> new_worker)) (worker_register (wcoord d))"
    using assms(3) unfolding simulates_def ids_ok_def by (auto simp: new_worker_def)
  then have "simulates J s (put_proc p new_worker d)"
    using assms(3) by (auto simp: simulates_def new_worker_def pc_ok_def)
  then show ?thesis using start by auto
next
  case (stop p w)
  have "simulates J s (put_proc p (w\<lparr>pc := Stopped\<rparr>) d)"
    by (rule simulates_proc [OF assms(3) stop(2)]) (simp_all add: pc_ok_def)
  then show ?thesis using stop(1) by auto
next
  case (unserved p w reply)
  let ?q = "if pc w = Registering then Registering else Asking"
  have "simulates J s (put_proc p (connect_failed w ?q) d)"
  proof (rule simulates_proc [OF assms(3) unserved(2) connect_failed_ok(3)])
    show "pc (connect_failed w ?q) \<in> {Registering, Stopped} \<or> pc w \<notin> {Registering, Stopped}"
      using unserved(3) connect_failed_ok(4) [of w ?q] by auto
  qed (simp add: connect_failed_ok)
  then show ?thesis using unserved(1) by auto
next
  case (work p w n dir' w')
  then show ?thesis using simulated_work [OF assms(2,3)] by blast
next
  case (register p w c ident w' answered)
  then show ?thesis using simulated_register [OF assms(2,3)] by blast
next
  case (get p w now c r w' answered)
  then show ?thesis using simulated_get [OF assms(2,3)] by blast
next
  case (report p w reply c ok w' answered)
  then show ?thesis using simulated_report [OF assms(2,3)] by blast
qed

text \<open>The directory holds no files of an earlier job under the final names.\<close>

definition clean :: "dir \<Rightarrow> bool" where
  "clean d \<longleftrightarrow> (\<forall>i r. d (finalFilename i r) = None) \<and> (\<forall>r. d (output_filename r) = None)"

lemma world_reach_simulated:
  assumes "world_reach J dir0 d" and "clean dir0"
  shows "\<exists>s. mr_reach J s \<and> simulates J s d"
  using assms(1) unfolding world_reach_def
proof (induction rule: rtranclp_induct)
  case base
  have "simulates J (mr_init J) (world_init J dir0)"
    using assms(2) by (simp add: simulates_def mr_init_def world_init_def same_files_def clean_def ids_ok_def MakeCoordinator_def)
  then show ?case by (auto simp: mr_reach_def)
next
  case (step d d')
  then obtain s where s: "mr_reach J s" "simulates J s d" by blast
  then obtain s' where "(mr_step J)\<^sup>=\<^sup>= s s'" "simulates J s' d'"
    using world_step_simulated [OF step(2) mr_reach_inv] by blast
  then show ?case using s(1) unfolding mr_reach_def by (auto intro: rtranclp.rtrancl_into_rtrancl)
qed

lemma fs_out_bound:
  assumes "mr_reach J s" and "fs_out s r \<noteq> None"
  shows "r < j_n J"
  using assms unfolding mr_reach_def
proof (induction rule: rtranclp_induct)
  case (step s s')
  have inv: "mr_inv J s" using step(1) mr_reach_inv by (simp add: mr_reach_def)
  show ?case using step(2)
  proof cases
    case (write_reduce w reply inputs ls)
    then have "TaskID reply < j_n J" using inv by (auto simp: mr_inv_def item_ok_def)
    then show ?thesis using write_reduce(1) step.IH step.prems by (auto split: if_splits)
  qed (use step.IH step.prems in auto)
qed (simp add: mr_init_def)

text \<open>The files of the directory when the job is done.\<close>

lemma done_files:
  assumes "world_reach J dir0 d" and "clean dir0" and "Done (wcoord d)" and "0 < j_n J" and "sorts (j_srt J)"
    and "order_free (j_reducef J)" and "token_kvs (all_kvs (j_mapf J) (j_inputs J))"
  shows "\<exists>out. (\<forall>r < j_n J. wdir d (output_filename r) = Some (concat (out r))) \<and>
    (\<forall>r \<ge> j_n J. wdir d (output_filename r) = None) \<and>
    (\<Sum>r < j_n J. mset (out r)) = mset (mrsequential (j_srt J) (j_mapf J) (j_reducef J) (j_inputs J))"
proof -
  obtain s where s: "mr_reach J s" "coord s = wcoord d" "same_files s (wdir d)"
    using world_reach_simulated [OF assms(1,2)] by (auto simp: simulates_def)
  have out: "\<forall>r < j_n J. fs_out s r \<noteq> None"
      "(\<Sum>r < j_n J. mset (the (fs_out s r))) = mset (mrsequential (j_srt J) (j_mapf J) (j_reducef J) (j_inputs J))"
    using done_outputs [OF s(1)] s(2) assms(3-7) by auto
  have dir: "wdir d (output_filename r) = map_option concat (fs_out s r)" for r
    using s(3) by (simp add: same_files_def)
  have none: "fs_out s r = None" if "j_n J \<le> r" for r
    using fs_out_bound [OF s(1), of r] that by (cases "fs_out s r") auto
  show ?thesis
    by (rule exI [of _ "\<lambda>r. the (fs_out s r)"]) (use out dir none in auto)
qed

text \<open>A worker whose \<^verbatim>\<open>Worker\<close> returns because it was told to ends after the job is done.\<close>

lemma finished_done:
  assumes "world_reach J dir0 d" and "clean dir0" and "procs d p = Some w" and "pc w = Finished"
  shows "Done (wcoord d)"
proof -
  obtain s where s: "simulates J s d" using world_reach_simulated [OF assms(1,2)] by blast
  then have "pc_ok J s (wdir d) (worker_id w) (pc w)" "coord s = wcoord d" using assms(3) by (auto simp: simulates_def)
  then show ?thesis using assms(4) by (simp add: pc_ok_def Done_def)
qed

end
