(* ===== verification/MrTest.thy ===== *)
theory MrTest
  imports MrWorker
begin

text \<open>
  How the MapReduce tests judge a run (mr/util.go, mr/mr_test.go): the sequential program computes the
  correct output, a job runs, the output files are merged with \<^verbatim>\<open>sort\<close>, and \<^verbatim>\<open>cmp\<close> compares the two.
  The names of files are relative to the directory the test works in. \<^verbatim>\<open>find\<close> and \<^verbatim>\<open>sort\<close> are programs: the
  first lists files in an order of its own, an argument; of the second it is used that it puts the lines in an
  order that depends on the lines only.

  The theory shows that the comparison accepts every run of the system of theory \<open>MrWorker\<close>, and that
  the output does not change after a worker or the coordinator has ended regularly.
\<close>

section \<open>Lines\<close>

text \<open>The lines of a file; the last one counts also without a line break.\<close>

fun lines_from :: "string \<Rightarrow> string \<Rightarrow> string list" where
  "lines_from l [] = (if l = [] then [] else [l])"
| "lines_from l (c # cs) = (if c = CHR 0x0A then l # lines_from [] cs else lines_from (l @ [c]) cs)"

definition lines_of :: "string \<Rightarrow> string list" where
  "lines_of = lines_from []"

definition ends_line :: "string \<Rightarrow> bool" where
  "ends_line s \<longleftrightarrow> s = [] \<or> last s = CHR 0x0A"

lemma lines_from_append:
  "s \<noteq> [] \<Longrightarrow> last s = CHR 0x0A \<Longrightarrow> lines_from l (s @ t) = lines_from l s @ lines_of t"
proof (induction s arbitrary: l)
  case (Cons c s)
  then show ?case by (cases "s = []") (auto simp: lines_of_def)
qed simp

lemma lines_of_append: "ends_line s \<Longrightarrow> lines_of (s @ t) = lines_of s @ lines_of t"
  unfolding ends_line_def using lines_from_append [of s "[]" t] by (cases "s = []") (auto simp: lines_of_def)

lemma lines_of_concat: "\<forall>s \<in> set ss. ends_line s \<Longrightarrow> lines_of (concat ss) = concat (map lines_of ss)"
  by (induction ss) (auto simp: lines_of_append, simp add: lines_of_def)

lemma ends_line_line: "ends_line (line k v)"
  by (simp add: ends_line_def line_def)

text \<open>The lines that a list of printed lines has.\<close>

lemma mset_lines:
  "\<forall>s \<in> set ss. ends_line s \<Longrightarrow> mset (lines_of (concat ss)) = (\<Sum>s \<in># mset ss. mset (lines_of s))"
  by (induction ss) (auto simp: lines_of_append, simp add: lines_of_def)

section \<open>The helpers of the tests\<close>

text \<open>\<^verbatim>\<open>sort\<close> on the contents of files, and what is used of its order.\<close>

definition sort_cmd :: "(string list \<Rightarrow> string list) \<Rightarrow> string list \<Rightarrow> string" where
  "sort_cmd srtl contents = concat (map (\<lambda>l. l @ [CHR 0x0A]) (srtl (concat (map lines_of contents))))"

definition sorts_lines :: "(string list \<Rightarrow> string list) \<Rightarrow> bool" where
  "sorts_lines srtl \<longleftrightarrow> (\<forall>ls. mset (srtl ls) = mset ls) \<and> (\<forall>ls ls'. mset ls = mset ls' \<longrightarrow> srtl ls = srtl ls')"

text \<open>
  \<open>findFiles\<close>: \<^verbatim>\<open>find\<close> prints the names that match, one per line; \<open>listing\<close> is the directory in the order in which
  it is visited. The text is trimmed and split.
\<close>

definition find_output :: "(string \<Rightarrow> bool) \<Rightarrow> string list \<Rightarrow> string" where
  "find_output pat listing = concat (map (\<lambda>f. f @ [CHR 0x0A]) (filter pat listing))"

definition trim_space :: "string \<Rightarrow> string" where
  "trim_space s = rev (dropWhile is_space (rev (dropWhile is_space s)))"

fun split_lines :: "string \<Rightarrow> string \<Rightarrow> string list" where
  "split_lines l [] = [l]"
| "split_lines l (c # cs) = (if c = CHR 0x0A then l # split_lines [] cs else split_lines (l @ [c]) cs)"

definition findFiles :: "(string \<Rightarrow> bool) \<Rightarrow> string list \<Rightarrow> string list" where
  "findFiles pat listing =
     (let s1 = trim_space (find_output pat listing) in if s1 = '''' then [] else split_lines [] s1)"

text \<open>The pattern \<^verbatim>\<open>mr-out-[0-9]\<close>.\<close>

definition out_pattern :: "string \<Rightarrow> bool" where
  "out_pattern f \<longleftrightarrow> length f = 8 \<and> take 7 f = ''mr-out-'' \<and> is_digit (last f)"

text \<open>The output of the sequential program, sorted into \<open>out\<close>.\<close>

definition mkCorrectOutput :: "(string list \<Rightarrow> string list) \<Rightarrow> string list \<Rightarrow> string \<Rightarrow> dir \<Rightarrow> dir res" where
  "mkCorrectOutput srtl sequential out d =
     (let d1 = os_Create (d(''mr-out-0'' \<mapsto> concat sequential)) out in
      case d1 ''mr-out-0'' of
        None \<Rightarrow> Inl Fatal
      | Some c \<Rightarrow> Inr ((d1(out \<mapsto> sort_cmd srtl [c]))(''mr-out-0'' := None)))"

definition mergeOutput :: "(string list \<Rightarrow> string list) \<Rightarrow> string list \<Rightarrow> string \<Rightarrow> dir \<Rightarrow> dir res" where
  "mergeOutput srtl listing out d =
     (let files = findFiles out_pattern listing in
      if length files < 1 then Inl Fatal
      else let d1 = os_Create d out in
        case those (map d1 files) of
          None \<Rightarrow> Inl Fatal
        | Some contents \<Rightarrow> Inr (d1(out \<mapsto> sort_cmd srtl contents)))"

text \<open>\<open>False\<close> stops the test.\<close>

definition runCmp :: "dir \<Rightarrow> string \<Rightarrow> string \<Rightarrow> bool" where
  "runCmp d f1 f2 = (case (d f1, d f2) of (Some a, Some b) \<Rightarrow> a = b | _ \<Rightarrow> False)"

section \<open>What the helpers compute\<close>

abbreviation newline :: string where "newline \<equiv> [CHR 0x0A]"

lemma newline_space [simp]: "is_space (CHR 0x0A)"
  by (simp add: is_space_def)

lemma split_lines_word:
  "CHR 0x0A \<notin> set f \<Longrightarrow> split_lines l (f @ CHR 0x0A # cs) = (l @ f) # split_lines [] cs"
  "CHR 0x0A \<notin> set f \<Longrightarrow> split_lines l f = [l @ f]"
  by (induction f arbitrary: l) auto

lemma split_join: "fs \<noteq> [] \<Longrightarrow> \<forall>f \<in> set fs. CHR 0x0A \<notin> set f \<Longrightarrow> split_lines [] (join newline fs) = fs"
  by (induction newline fs rule: join.induct) (simp_all add: split_lines_word)

lemma concat_join: "fs \<noteq> [] \<Longrightarrow> concat (map (\<lambda>f. f @ newline) fs) = join newline fs @ newline"
  by (induction newline fs rule: join.induct) simp_all

lemma join_ends:
  "fs \<noteq> [] \<Longrightarrow> \<forall>f \<in> set fs. token f \<Longrightarrow> join newline fs \<noteq> [] \<and> \<not> is_space (hd (join newline fs)) \<and> \<not> is_space (last (join newline fs))"
  by (induction newline fs rule: join.induct) (auto simp: token_def)

lemma trim_space_keep:
  assumes "s \<noteq> []" and "\<not> is_space (hd s)" and "\<not> is_space (last s)"
  shows "trim_space (s @ newline) = s"
proof -
  have "dropWhile is_space (s @ newline) = s @ newline" using assms(1,2) by (cases s) auto
  moreover have "dropWhile is_space (rev s) = rev s" using assms(1,3) by (cases s rule: rev_cases) auto
  ultimately show ?thesis by (simp add: trim_space_def)
qed

lemma findFiles_eq:
  assumes "\<And>f. pat f \<Longrightarrow> token f"
  shows "findFiles pat listing = filter pat listing"
proof (cases "filter pat listing = []")
  case True
  then show ?thesis by (simp add: findFiles_def find_output_def trim_space_def)
next
  case False
  have tok: "\<forall>f \<in> set (filter pat listing). token f" using assms by simp
  then have "\<forall>f \<in> set (filter pat listing). CHR 0x0A \<notin> set f" using newline_space unfolding token_def by blast
  moreover have "trim_space (find_output pat listing) = join newline (filter pat listing)"
    unfolding find_output_def concat_join [OF False] using join_ends [OF False tok] by (intro trim_space_keep) auto
  ultimately show ?thesis
    unfolding findFiles_def using join_ends [OF False tok] split_join [OF False] by (simp add: Let_def)
qed

text \<open>The pattern finds the output files of the first ten reduce tasks.\<close>

lemma digit_itoa: "is_digit c \<Longrightarrow> \<exists>r < 10. [c] = itoa r"
  by (rule exI [of _ "of_char c - 48"]) (auto simp: is_digit_def itoa.simps)

lemma out_pattern_iff: "out_pattern f \<longleftrightarrow> (\<exists>r < 10. f = output_filename r)"
proof
  assume f: "out_pattern f"
  have "length f = Suc 7" using f by (simp add: out_pattern_def)
  then have "f = take 7 f @ [last f]" by (cases f rule: rev_cases) auto
  moreover obtain r where "r < 10" "[last f] = itoa r" using f digit_itoa by (auto simp: out_pattern_def)
  ultimately show "\<exists>r < 10. f = output_filename r" using f by (auto simp: out_pattern_def name_defs)
next
  assume "\<exists>r < 10. f = output_filename r"
  then obtain r :: nat where "r < 10" "f = ''mr-out-'' @ [char_of (48 + r)]" by (auto simp: name_defs itoa.simps)
  then show "out_pattern f" by (simp add: out_pattern_def is_digit_def)
qed

lemma out_pattern_token: "out_pattern f \<Longrightarrow> token f"
  using itoa_token by (auto simp: out_pattern_iff name_defs token_def is_space_def)

lemma sum_mset_lines:
  assumes "finite A" and "\<forall>r \<in> A. \<forall>s \<in> set (out r). ends_line s"
  shows "(\<Sum>r \<in> A. mset (lines_of (concat (out r)))) = (\<Sum>s \<in># (\<Sum>r \<in> A. mset (out r)). mset (lines_of s))"
  using assms by (induction rule: finite_induct) (simp_all add: mset_lines)

lemma mset_concat_lines: "mset (concat (map lines_of cs)) = (\<Sum>c \<in># mset cs. mset (lines_of c))"
  by (induction cs) simp_all

text \<open>The files that are merged, in the order of the listing.\<close>

lemma merged_files:
  assumes "n \<le> 10" and "\<forall>r < n. d (output_filename r) \<noteq> None" and "\<forall>r \<ge> n. d (output_filename r) = None"
    and "distinct listing" and "set listing = dom d"
  shows "mset (findFiles out_pattern listing) = mset (map output_filename [0..<n])"
proof -
  have "set (filter out_pattern listing) = set (map output_filename [0..<n])"
  proof (rule set_eqI)
    fix f
    have iff: "output_filename r \<in> dom d \<longleftrightarrow> r < n" for r using assms(2,3) by (cases "r < n") (auto simp: domIff)
    have "f \<in> set (filter out_pattern listing) \<longleftrightarrow> (\<exists>r < 10. f = output_filename r \<and> r < n)"
      using assms(5) iff by (auto simp: out_pattern_iff)
    also have "\<dots> \<longleftrightarrow> f \<in> set (map output_filename [0..<n])" using assms(1) by auto
    finally show "f \<in> set (filter out_pattern listing) \<longleftrightarrow> f \<in> set (map output_filename [0..<n])" .
  qed
  moreover have "distinct (map output_filename [0..<n])" by (simp add: distinct_map inj_on_def)
  moreover have "findFiles out_pattern listing = filter out_pattern listing" by (rule findFiles_eq) (rule out_pattern_token)
  ultimately show ?thesis
    using assms(4) set_eq_iff_mset_eq_distinct by (metis distinct_filter)
qed

lemma sum_mset_upt: "(\<Sum>x \<in># mset (map g [0..<n]). h x) = (\<Sum>r<n. h (g r))" for h :: "'b \<Rightarrow> 'a :: comm_monoid_add"
  by (induction n) (simp_all add: add.commute)

lemma part_of_sum: "(\<Sum>r<n. mset (out r)) = mset xs \<Longrightarrow> r < n \<Longrightarrow> set (out r) \<subseteq> set xs" for n :: nat
proof -
  assume a: "(\<Sum>r<n. mset (out r)) = mset xs" "r < n"
  then have "mset xs = mset (out r) + (\<Sum>r \<in> {..<n} - {r}. mset (out r))" by (metis finite_lessThan lessThan_iff sum.remove)
  then have "mset (out r) \<subseteq># mset xs" by simp
  then show ?thesis by (metis mset_subset_eqD set_mset_mset subsetI)
qed

text \<open>The merged lines, however the files are listed, are those of the sequential output.\<close>

lemma merged_lines:
  assumes "mset fs = mset (map output_filename [0..<n])" and "\<forall>r < n. d (output_filename r) = Some (concat (out r))"
    and "(\<Sum>r < n. mset (out r)) = mset sequential" and "\<forall>s \<in> set sequential. ends_line s"
  shows "mset (concat (map lines_of (map (the \<circ> d) fs))) = mset (lines_of (concat sequential))"
proof -
  have ends: "\<forall>r \<in> {..<n}. \<forall>s \<in> set (out r). ends_line s" using part_of_sum [OF assms(3)] assms(4) by auto
  have "mset (concat (map lines_of (map (the \<circ> d) fs))) = (\<Sum>f \<in># mset fs. mset (lines_of (the (d f))))"
    unfolding mset_concat_lines by (simp add: image_mset.compositionality comp_def)
  also have "\<dots> = (\<Sum>r<n. mset (lines_of (the (d (output_filename r)))))"
    unfolding assms(1) by (rule sum_mset_upt)
  also have "\<dots> = (\<Sum>r<n. mset (lines_of (concat (out r))))" using assms(2) by simp
  also have "\<dots> = mset (lines_of (concat sequential))"
    using sum_mset_lines [OF _ ends] assms(3,4) by (simp add: mset_lines)
  finally show ?thesis .
qed

lemma mergeOutput_eq:
  assumes "sorts_lines srtl" and "0 < n" and "n \<le> 10" and "\<forall>r < n. d (output_filename r) = Some (concat (out r))"
    and "\<forall>r \<ge> n. d (output_filename r) = None" and "(\<Sum>r < n. mset (out r)) = mset sequential"
    and "\<forall>s \<in> set sequential. ends_line s" and "distinct listing" and "set listing = dom d" and "\<not> out_pattern f"
  shows "mergeOutput srtl listing f d = Inr (d(f \<mapsto> sort_cmd srtl [concat sequential]))"
proof -
  let ?fs = "findFiles out_pattern listing"
  have ms: "mset ?fs = mset (map output_filename [0..<n])" using assms by (intro merged_files) auto
  have len: "length ?fs = n" using mset_eq_length [OF ms] by simp
  have set: "set ?fs = output_filename ` {..<n}" using mset_eq_setD [OF ms] by (simp add: atLeast0LessThan)
  have files: "f' \<noteq> f \<and> d f' \<noteq> None" if "f' \<in> set ?fs" for f'
    using that assms(3,4,10) unfolding set by (fastforce simp: out_pattern_iff)
  then have "map (os_Create d f) ?fs = map d ?fs" by (auto simp: os_Create_def)
  then have "those (map (os_Create d f) ?fs) = Some (map (the \<circ> d) ?fs)" using files unfolding \<open>map (os_Create d f) ?fs = _\<close> those_Some by auto
  moreover have "srtl (concat (map lines_of (map (the \<circ> d) ?fs))) = srtl (lines_of (concat sequential))"
    using assms(1) merged_lines [OF ms assms(4,6,7)] unfolding sorts_lines_def by blast
  moreover have "\<not> length ?fs < 1" using len assms(2) by simp
  ultimately show ?thesis
    by (simp add: mergeOutput_def Let_def sort_cmd_def os_Create_def)
qed

text \<open>Workers touch no other files than their own.\<close>

definition foreign :: "string \<Rightarrow> bool" where
  "foreign f \<longleftrightarrow> take 7 f \<noteq> ''mr-out-'' \<and> take 16 f \<noteq> ''mr-intermediate-''"

lemma foreign_names:
  "\<not> foreign (temp_filename i r v)" "\<not> foreign (finalFilename i r)" "\<not> foreign (temp_output_filename r v)" "\<not> foreign (output_filename r)"
  by (simp_all add: foreign_def name_defs)

lemma foreign_neq:
  "foreign f \<Longrightarrow> f \<noteq> temp_filename i r v \<and> f \<noteq> finalFilename i r \<and> f \<noteq> temp_output_filename r v \<and> f \<noteq> output_filename r"
  using foreign_names by metis

lemma work_foreign:
  assumes "work J n d w = (d', w')" and "foreign f"
  shows "d' f = d f"
  using assms(1) foreign_neq [OF assms(2)]
  by (auto simp: work_def os_Create_def os_Append_def os_Rename_def split: wpc.splits if_splits option.splits sum.splits)

lemma world_foreign:
  assumes "(world_step J)\<^sup>*\<^sup>* d d'" and "foreign f"
  shows "wdir d' f = wdir d f"
  using assms(1)
proof (induction rule: rtranclp_induct)
  case (step d' d'')
  from step(2) have "wdir d'' f = wdir d' f"
    by cases (use work_foreign [OF _ assms(2)] in auto)
  then show ?case using step.IH by simp
qed simp

lemma foreign_pattern: "foreign f \<Longrightarrow> \<not> out_pattern f"
  by (auto simp: foreign_def out_pattern_def)

lemma sequential_ends: "s \<in> set (mrsequential srt mapf f inputs) \<Longrightarrow> ends_line s"
  by (auto simp: mrsequential_def seq_loop_groups ends_line_line)

lemma mkCorrectOutput_eq:
  assumes "foreign out"
  shows "mkCorrectOutput srtl sequential out Map.empty = Inr [out \<mapsto> sort_cmd srtl [concat sequential]]"
    and "clean [out \<mapsto> c]"
  using assms foreign_neq [OF assms] by (auto simp: mkCorrectOutput_def Let_def os_Create_def foreign_def clean_def fun_eq_iff)

text \<open>A job for which the tests are made: at most ten reduce tasks, and an application as theory \<open>MapReduce\<close> requires it.\<close>

definition test_job :: "mr_job \<Rightarrow> bool" where
  "test_job J \<longleftrightarrow> 0 < j_n J \<and> j_n J \<le> 10 \<and> sorts (j_srt J) \<and> order_free (j_reducef J) \<and>
     token_kvs (all_kvs (j_mapf J) (j_inputs J))"

text \<open>Merging when the job is done gives the sorted lines of the sequential program.\<close>

lemma merge_when_done:
  assumes "test_job J" and "sorts_lines srtl" and "world_reach J dir0 d" and "clean dir0" and "Done (wcoord d)"
    and "distinct listing" and "set listing = dom (wdir d)" and "\<not> out_pattern f"
  shows "mergeOutput srtl listing f (wdir d) =
     Inr ((wdir d)(f \<mapsto> sort_cmd srtl [concat (mrsequential (j_srt J) (j_mapf J) (j_reducef J) (j_inputs J))]))"
proof -
  have J: "0 < j_n J" "j_n J \<le> 10" "sorts (j_srt J)" "order_free (j_reducef J)" "token_kvs (all_kvs (j_mapf J) (j_inputs J))"
    using assms(1) by (simp_all add: test_job_def)
  obtain out where out: "\<forall>r < j_n J. wdir d (output_filename r) = Some (concat (out r))"
      "\<forall>r \<ge> j_n J. wdir d (output_filename r) = None"
      "(\<Sum>r < j_n J. mset (out r)) = mset (mrsequential (j_srt J) (j_mapf J) (j_reducef J) (j_inputs J))"
    using done_files [OF assms(3,4,5) J(1,3,4,5)] by blast
  show ?thesis
    by (rule mergeOutput_eq [OF assms(2) J(1,2) out _ assms(6-8)]) (simp add: sequential_ends)
qed

section \<open>Properties\<close>

text \<open>
  C12. The tests accept every run. Let the sequential program's output be sorted into a file, and let a job with at most ten
  reduce tasks run in that directory: any number of workers that are started, crash and stall at any point, whose calls fail,
  and whose files appear piece by piece. When the coordinator is done, \<open>mergeOutput\<close> succeeds, in whatever order the
  files are listed, and \<open>runCmp\<close> finds the merged output equal to the correct one.
\<close>

theorem mr_test_passes:
  assumes "test_job J" and "sorts_lines srtl"
    and "mkCorrectOutput srtl (mrsequential (j_srt J) (j_mapf J) (j_reducef J) (j_inputs J)) correct Map.empty = Inr dir0"
    and "world_reach J dir0 d" and "Done (wcoord d)" and "distinct listing" and "set listing = dom (wdir d)"
    and "foreign correct" and "foreign out" and "out \<noteq> correct"
  shows "returns (mergeOutput srtl listing out (wdir d)) (\<lambda>dir'. runCmp dir' out correct)"
proof -
  let ?sorted = "sort_cmd srtl [concat (mrsequential (j_srt J) (j_mapf J) (j_reducef J) (j_inputs J))]"
  have dir0: "dir0 = [correct \<mapsto> ?sorted]" using assms(3) mkCorrectOutput_eq(1) [OF assms(8)] by simp
  then have "clean dir0" using mkCorrectOutput_eq(2) [OF assms(8)] by simp
  moreover have "wdir d correct = Some ?sorted"
    using world_foreign [OF assms(4) [unfolded world_reach_def] assms(8)] dir0 by (simp add: world_init_def)
  ultimately show ?thesis
    using merge_when_done [OF assms(1,2,4) _ assms(5,6,7) foreign_pattern [OF assms(9)]] assms(10)
    by (simp add: runCmp_def)
qed

text \<open>
  Nothing ends too early: from the moment a worker has returned because it was told to, or the coordinator is done, the merged
  output stays the same, whatever the other workers still do.
\<close>

theorem output_final:
  assumes "test_job J" and "sorts_lines srtl" and "world_reach J dir0 d" and "clean dir0"
    and "procs d p = Some w \<and> pc w = Finished \<or> Done (wcoord d)" and "(world_step J)\<^sup>*\<^sup>* d d'"
    and "distinct listing" and "set listing = dom (wdir d)" and "distinct listing'" and "set listing' = dom (wdir d')"
    and "\<not> out_pattern f"
  shows "returns (mergeOutput srtl listing f (wdir d)) (\<lambda>a. returns (mergeOutput srtl listing' f (wdir d')) (\<lambda>b. a f = b f))"
proof -
  have ended: "Done (wcoord d)" using assms(5) finished_done [OF assms(3,4)] by blast
  have reach: "world_reach J dir0 d'" using assms(3,6) by (auto simp: world_reach_def)
  have "Done (wcoord d')"
    using assms(6)
  proof (induction rule: rtranclp_induct)
    case (step u v)
    then have "world_reach J dir0 u" using assms(3) by (auto simp: world_reach_def)
    then obtain s where s: "mr_reach J s" "simulates J s u" using world_reach_simulated [OF _ assms(4)] by blast
    then have wf: "coord_wf J (wcoord u)" "phase (wcoord u) = TaskExit"
      using mr_reach_inv [OF s(1)] step.IH by (auto simp: mr_inv_def simulates_def Done_def)
    from step(2) show ?case
      by cases (use wf phase_exit_kept [OF wf] in \<open>auto simp: Done_def\<close>)
  qed (rule ended)
  then show ?thesis
    using merge_when_done [OF assms(1,2,3,4) ended assms(7,8,11)] merge_when_done [OF assms(1,2) reach assms(4) _ assms(9,10,11)] by simp
qed

section \<open>An example\<close>

text \<open>The directory can be listed at any time.\<close>

lemma work_finite: "work J n d w = (d', w') \<Longrightarrow> finite (dom d) \<Longrightarrow> finite (dom d')"
  by (auto simp: work_def os_Create_def os_Append_def os_Rename_def split: wpc.splits if_splits option.splits sum.splits)

lemma world_finite:
  assumes "world_reach J dir0 d" and "finite (dom dir0)"
  shows "finite (dom (wdir d))"
  using assms(1) unfolding world_reach_def
proof (induction rule: rtranclp_induct)
  case (step d d')
  from step(2) show ?case by cases (use step.IH work_finite in auto)
qed (simp add: world_init_def assms(2))

text \<open>A single worker whose calls all succeed.\<close>

definition lone_step :: "mr_job \<Rightarrow> mr_world \<Rightarrow> mr_world" where
  "lone_step J d =
     (case procs d 0 of
        None \<Rightarrow> put_proc 0 new_worker d
      | Some w \<Rightarrow>
          (case pc w of
             Registering \<Rightarrow> (case Register (wcoord d) of (c, ident) \<Rightarrow> put_proc 0 (registered w ident) (d\<lparr>wcoord := c\<rparr>))
           | Asking \<Rightarrow> (case GetTask (wcoord d) (worker_id w) 0 of
               Inr (c, Some reply) \<Rightarrow> put_proc 0 (got_task w reply) (d\<lparr>wcoord := c\<rparr>) | _ \<Rightarrow> d)
           | Reporting reply \<Rightarrow>
               (case ReportTaskDone (wcoord d) \<lparr>rt_WorkerID = worker_id w, rt_Type = Type_reply reply, rt_TaskID = int (TaskID reply)\<rparr> of
                  Inr (c, True) \<Rightarrow> put_proc 0 (acknowledged w) (d\<lparr>wcoord := c\<rparr>) | _ \<Rightarrow> d)
           | _ \<Rightarrow> (case work J 99 (wdir d) w of (dir', w') \<Rightarrow> put_proc 0 w' (d\<lparr>wdir := dir'\<rparr>))))"

lemma lone_step_world: "(world_step J)\<^sup>=\<^sup>= d (lone_step J d)"
proof (cases "procs d 0")
  case None
  then show ?thesis using world_step.start by (auto simp: lone_step_def)
next
  case (Some w)
  show ?thesis
  proof (cases "pc w = Registering \<or> pc w = Asking \<or> (\<exists>reply. pc w = Reporting reply)")
    case True
    then show ?thesis
    proof (elim disjE exE)
      assume "pc w = Registering"
      then show ?thesis
        using world_step.register [OF Some, where answered = True] Some by (auto simp: lone_step_def split: prod.split)
    next
      assume "pc w = Asking"
      then show ?thesis
        using world_step.get [OF Some, where answered = True and now = 0] Some
        by (auto simp: lone_step_def split: prod.split sum.split option.split)
    next
      fix reply assume "pc w = Reporting reply"
      then show ?thesis
        using world_step.report [OF Some, where answered = True and ok = True] Some
        by (auto simp: lone_step_def split: prod.split sum.split bool.split)
    qed
  next
    case False
    then show ?thesis
      using world_step.work [OF Some, where n = 99] Some by (auto simp: lone_step_def split: wpc.split prod.split)
  qed
qed

lemma lone_run: "world_reach J dir0 ((lone_step J ^^ k) (world_init J dir0))"
proof (induction k)
  case (Suc k)
  then show ?case
    using lone_step_world [of J "(lone_step J ^^ k) (world_init J dir0)"] by (auto simp: world_reach_def)
qed (simp add: world_reach_def)

lemma demo_tasks:
  "worker_map (sort_key Key) wc_Map (Suc 0) ''f'' ''a'' = Inr [line ''a'' ''1'']"
  "worker_reduce (sort_key Key) wc_Reduce [line ''a'' ''1''] = Inr [line ''a'' ''1'']"
proof -
  have "wc_Map ''f'' ''a'' = [\<lparr>Key = ''a'', Value = ''1''\<rparr>]" by code_simp
  then show "worker_map (sort_key Key) wc_Map (Suc 0) ''f'' ''a'' = Inr [line ''a'' ''1'']"
    by (simp add: worker_map_eq bucket_def print_kvs_def)
qed code_simp

lemma lone_run_done: "Done (wcoord ((lone_step demo_job ^^ 15) (world_init demo_job dir0)))"
  using demo_tasks
  by (simp add: eval_nat_numeral lone_step_def work_def world_init_def demo_job_def MakeCoordinator_def zeroTask_def new_worker_def Register_def
      registered_def got_task_def acknowledged_def GetTask_def ReportTaskDone_def Done_def os_Create_def os_Append_def os_Rename_def line_def)

lemma demo_test_job: "test_job demo_job" "sorts_lines sort"
proof -
  show "test_job demo_job" by (simp add: test_job_def demo_job_def sorts_sort_key wc_requirements)
  show "sorts_lines sort" unfolding sorts_lines_def by (intro conjI allI impI) (simp, rule sort_mset_cong)
qed

lemma lone_step_other: "procs (lone_step J d) 1 = procs d 1"
  by (simp add: lone_step_def split: option.split wpc.split prod.split sum.split bool.split)

lemma lone_run_other: "procs ((lone_step J ^^ k) d) 1 = procs d 1"
  by (induction k) (simp_all add: lone_step_other del: One_nat_def)

theorem mr_test_passes_witness:
  "\<exists>dir0 d listing. mkCorrectOutput sort (mrsequential (sort_key Key) wc_Map wc_Reduce [(''f'', ''a'')]) ''mr-wc-correct.txt'' Map.empty = Inr dir0 \<and>
     world_reach demo_job dir0 d \<and> Done (wcoord d) \<and>
     returns (mergeOutput sort listing ''mr-wc-all.txt'' (wdir d)) (\<lambda>dir'. runCmp dir' ''mr-wc-all.txt'' ''mr-wc-correct.txt'')"
proof -
  let ?seq = "mrsequential (j_srt demo_job) (j_mapf demo_job) (j_reducef demo_job) (j_inputs demo_job)"
  have names: "foreign ''mr-wc-correct.txt''" "foreign ''mr-wc-all.txt''" by (simp_all add: foreign_def)
  define dir0 where "dir0 = [''mr-wc-correct.txt'' \<mapsto> sort_cmd sort [concat ?seq]]"
  define d where "d = (lone_step demo_job ^^ 15) (world_init demo_job dir0)"
  have correct: "mkCorrectOutput sort ?seq ''mr-wc-correct.txt'' Map.empty = Inr dir0"
    unfolding dir0_def by (rule mkCorrectOutput_eq(1) [OF names(1)])
  have reach: "world_reach demo_job dir0 d" unfolding d_def by (rule lone_run)
  have ended: "Done (wcoord d)" unfolding d_def by (rule lone_run_done)
  obtain listing where l: "set listing = dom (wdir d)" "distinct listing"
    using finite_distinct_list [OF world_finite [OF reach]] by (auto simp: dir0_def)
  have "returns (mergeOutput sort listing ''mr-wc-all.txt'' (wdir d)) (\<lambda>dir'. runCmp dir' ''mr-wc-all.txt'' ''mr-wc-correct.txt'')"
    by (rule mr_test_passes [OF demo_test_job correct reach ended l(2,1) names]) simp
  moreover have "?seq = mrsequential (sort_key Key) wc_Map wc_Reduce [(''f'', ''a'')]" by (simp add: demo_job_def j_inputs_def)
  ultimately show ?thesis using correct reach ended by auto
qed

theorem output_final_witness:
  "\<exists>d d' listing listing'. Done (wcoord d) \<and> (world_step demo_job)\<^sup>*\<^sup>* d d' \<and> d' \<noteq> d \<and>
     returns (mergeOutput sort listing ''mr-wc-initial.txt'' (wdir d))
       (\<lambda>a. returns (mergeOutput sort listing' ''mr-wc-initial.txt'' (wdir d')) (\<lambda>b. a ''mr-wc-initial.txt'' = b ''mr-wc-initial.txt''))"
proof -
  define d where "d = (lone_step demo_job ^^ 15) (world_init demo_job Map.empty)"
  define d' where "d' = put_proc 1 new_worker d"
  have reach: "world_reach demo_job Map.empty d" unfolding d_def by (rule lone_run)
  have ended: "Done (wcoord d)" unfolding d_def by (rule lone_run_done)
  have none: "procs d 1 = None" unfolding d_def lone_run_other by (simp add: world_init_def)
  then have step: "(world_step demo_job)\<^sup>*\<^sup>* d d'" unfolding d'_def using world_step.start by blast
  have "wdir d' = wdir d" by (simp add: d'_def)
  obtain listing where l: "set listing = dom (wdir d)" "distinct listing"
    using finite_distinct_list [OF world_finite [OF reach]] by auto
  have neq: "d' \<noteq> d" using none unfolding d'_def by (metis fun_upd_same mr_world.select_convs(3) mr_world.surjective mr_world.update_convs(3) option.distinct(1))
  have "returns (mergeOutput sort listing ''mr-wc-initial.txt'' (wdir d))
       (\<lambda>a. returns (mergeOutput sort listing ''mr-wc-initial.txt'' (wdir d')) (\<lambda>b. a ''mr-wc-initial.txt'' = b ''mr-wc-initial.txt''))"
    by (rule output_final [OF demo_test_job reach _ _ step l(2,1) l(2)])
      (use ended l(1) in \<open>simp_all add: clean_def d'_def out_pattern_def\<close>)
  then show ?thesis using ended step neq by blast
qed

end
