(* ===== verification/Shardcfg.thy ===== *)
theory Shardcfg
  imports Hash
begin

text \<open>
  Shard configurations (shardkv1/shardcfg/shardcfg.go): the assignment of shards to groups,
  joining and leaving groups, and the rebalancing of the shards. A Go map of groups is an
  association list with distinct keys; its order stands for the unspecified order in which Go
  iterates. Fatal exits are \<open>Inl Fatal\<close>. The loop that moves shards has no bound in the
  code: it is a \<open>partial_function\<close>, and that it ends is a theorem.
\<close>

section \<open>Configurations\<close>

type_synonym Tgid = int

definition NShards :: nat where "NShards = 12"

record ShardConfig =
  Num :: int
  Shards :: "Tgid list"
  Groups :: "(Tgid \<times> string list) list"

definition Key2Shard :: "string \<Rightarrow> nat" where
  "Key2Shard key = unat (fnv32a (utf8 key)) mod NShards"

definition MakeShardConfig :: ShardConfig where
  "MakeShardConfig = \<lparr>Num = 0, Shards = replicate NShards 0, Groups = []\<rparr>"

definition ShardConfig_Copy :: "ShardConfig \<Rightarrow> ShardConfig" where
  "ShardConfig_Copy cfg = MakeShardConfig\<lparr>Num := Num cfg, Shards := Shards cfg, Groups := Groups cfg\<rparr>"

definition has_group :: "ShardConfig \<Rightarrow> Tgid \<Rightarrow> bool" where
  "has_group cfg g \<longleftrightarrow> map_of (Groups cfg) g \<noteq> None"

section \<open>Analysis\<close>

text \<open>\<^verbatim>\<open>counts[g]\<close>; a missing entry of the map reads 0.\<close>

definition counts :: "ShardConfig \<Rightarrow> Tgid \<Rightarrow> int" where
  "counts c g = int (count_list (Shards c) g)"

text \<open>The loop of \<open>analyze\<close>; the state is \<open>(mg, mn, lg, ln)\<close>.\<close>

fun analyze_loop :: "ShardConfig \<Rightarrow> Tgid list \<Rightarrow> Tgid \<times> int \<times> Tgid \<times> int \<Rightarrow> Tgid \<times> int \<times> Tgid \<times> int" where
  "analyze_loop c [] st = st"
| "analyze_loop c (g # gs) (mg, mn, lg, ln) =
     (let (lg', ln') = (if counts c g < ln then (g, counts c g) else (lg, ln));
          (mg', mn') = (if counts c g > mn then (g, counts c g) else (mg, mn))
      in analyze_loop c gs (mg', mn', lg', ln'))"

definition analyze :: "ShardConfig \<Rightarrow> Tgid \<times> int \<times> Tgid \<times> int" where
  "analyze c = analyze_loop c (sort (map fst (Groups c))) (-1, -1, -1, 257)"

definition least :: "ShardConfig \<Rightarrow> Tgid" where
  "least c = (case analyze c of (mg, mn, lg, ln) \<Rightarrow> lg)"

section \<open>Rebalancing\<close>

text \<open>The loop that assigns shards of groups that are gone; it ranges over a copy of the array.\<close>

fun assign_loop :: "(nat \<times> Tgid) list \<Rightarrow> ShardConfig \<Rightarrow> ShardConfig" where
  "assign_loop [] c = c"
| "assign_loop ((s, g) # rest) c =
     (if has_group c g then assign_loop rest c
      else assign_loop rest (c\<lparr>Shards := (Shards c)[s := least c]\<rparr>))"

text \<open>Move the first shard of \<open>mg\<close> to \<open>lg\<close>.\<close>

fun move_first :: "Tgid \<Rightarrow> Tgid \<Rightarrow> Tgid list \<Rightarrow> Tgid list" where
  "move_first mg lg [] = []"
| "move_first mg lg (g # gs) = (if g = mg then lg # gs else g # move_first mg lg gs)"

partial_function (option) move_loop :: "ShardConfig \<Rightarrow> ShardConfig option" where
  "move_loop c =
     (case analyze c of (mg, mn, lg, ln) \<Rightarrow>
        if mn < ln + 2 then Some c
        else move_loop (c\<lparr>Shards := move_first mg lg (Shards c)\<rparr>))"

declare move_loop.simps [code]

definition Rebalance :: "ShardConfig \<Rightarrow> ShardConfig option" where
  "Rebalance c =
     (if length (Groups c) < 1 then Some (c\<lparr>Shards := map (\<lambda>_. 0) (Shards c)\<rparr>)
      else move_loop (assign_loop (zip [0..<length (Shards c)] (Shards c)) c))"

section \<open>Joining and leaving\<close>

text \<open>The loop of \<open>Join\<close>: \<open>Some cfg\<close> to go on, \<open>None\<close> for the return of false with the changes so far.\<close>

definition shares_server :: "string list \<Rightarrow> ShardConfig \<Rightarrow> bool" where
  "shares_server srvs cfg \<longleftrightarrow> list_ex (\<lambda>(xgid, xservers). list_ex (\<lambda>s1. list_ex (\<lambda>s2. s1 = s2) srvs) xservers) (Groups cfg)"

fun Join_loop :: "(Tgid \<times> string list) list \<Rightarrow> ShardConfig \<Rightarrow> (bool \<times> ShardConfig) res" where
  "Join_loop [] cfg = Inr (True, cfg)"
| "Join_loop ((gid, srvs) # rest) cfg =
     (if has_group cfg gid then Inr (False, cfg)
      else if shares_server srvs cfg then Inl Fatal
      else Join_loop rest (cfg\<lparr>Groups := Groups cfg @ [(gid, srvs)]\<rparr>))"

definition Join :: "ShardConfig \<Rightarrow> (Tgid \<times> string list) list \<Rightarrow> (bool \<times> ShardConfig) res" where
  "Join cfg srvs =
     bindr (Join_loop srvs cfg) (\<lambda>(ok, cfg').
       if \<not> ok then Inr (False, cfg')
       else if srvs = [] then Inl Fatal
       else Inr (True, cfg'\<lparr>Num := Num cfg' + 1\<rparr>))"

fun Leave_loop :: "Tgid list \<Rightarrow> ShardConfig \<Rightarrow> bool \<times> ShardConfig" where
  "Leave_loop [] cfg = (True, cfg)"
| "Leave_loop (gid # rest) cfg =
     (if \<not> has_group cfg gid then (False, cfg)
      else Leave_loop rest (cfg\<lparr>Groups := filter (\<lambda>(g, _). g \<noteq> gid) (Groups cfg)\<rparr>))"

definition Leave :: "ShardConfig \<Rightarrow> Tgid list \<Rightarrow> (bool \<times> ShardConfig) res" where
  "Leave cfg gids =
     (case Leave_loop gids cfg of (ok, cfg') \<Rightarrow>
        if \<not> ok then Inr (False, cfg')
        else if gids = [] then Inl Fatal
        else Inr (True, cfg'\<lparr>Num := Num cfg' + 1\<rparr>))"

text \<open>The inner \<open>None\<close> is a rebalancing that does not end.\<close>

definition JoinBalance :: "ShardConfig \<Rightarrow> (Tgid \<times> string list) list \<Rightarrow> (bool \<times> ShardConfig) option res" where
  "JoinBalance cfg srvs =
     bindr (Join cfg srvs) (\<lambda>(ok, cfg').
       if \<not> ok then Inr (Some (False, cfg')) else Inr (map_option (Pair True) (Rebalance cfg')))"

definition LeaveBalance :: "ShardConfig \<Rightarrow> Tgid list \<Rightarrow> (bool \<times> ShardConfig) option res" where
  "LeaveBalance cfg gids =
     bindr (Leave cfg gids) (\<lambda>(ok, cfg').
       if \<not> ok then Inr (Some (False, cfg')) else Inr (map_option (Pair True) (Rebalance cfg')))"

section \<open>Queries\<close>

definition GidServers :: "ShardConfig \<Rightarrow> nat \<Rightarrow> (Tgid \<times> string list \<times> bool) res" where
  "GidServers cfg sh =
     bindr (idx (Shards cfg) sh) (\<lambda>gid.
       case map_of (Groups cfg) gid of
         None \<Rightarrow> Inr (gid, [], False)
       | Some srvs \<Rightarrow> Inr (gid, srvs, True))"

definition IsMember :: "ShardConfig \<Rightarrow> Tgid \<Rightarrow> bool" where
  "IsMember cfg gid \<longleftrightarrow> list_ex (\<lambda>g. g = gid) (Shards cfg)"

text \<open>\<open>CheckConfig\<close> passes; otherwise it stops the test.\<close>

definition CheckConfig :: "ShardConfig \<Rightarrow> Tgid list \<Rightarrow> bool" where
  "CheckConfig cfg gs \<longleftrightarrow>
     length (Groups cfg) = length gs \<and> list_all (has_group cfg) gs \<and>
     (0 < length gs \<longrightarrow> list_all (has_group cfg) (Shards cfg)) \<and>
     (let mx = foldl (\<lambda>m x. if counts cfg (fst x) > m then counts cfg (fst x) else m) 0 (Groups cfg);
          mn = foldl (\<lambda>m x. if counts cfg (fst x) < m then counts cfg (fst x) else m) 257 (Groups cfg)
      in \<not> mx > mn + 1)"

section \<open>What the analysis finds\<close>

definition gids :: "ShardConfig \<Rightarrow> Tgid set" where
  "gids c = fst ` set (Groups c)"

lemma has_group_gids: "has_group c g \<longleftrightarrow> g \<in> gids c"
  by (force simp: has_group_def gids_def map_of_eq_None_iff)

lemma analyze_loop_spec:
  assumes "analyze_loop c gs (mg, mn, lg, ln) = (mg', mn', lg', ln')"
  shows "mn \<le> mn' \<and> ln' \<le> ln \<and> (\<forall>g \<in> set gs. counts c g \<le> mn' \<and> ln' \<le> counts c g) \<and>
     ((mg', mn') = (mg, mn) \<or> mg' \<in> set gs \<and> mn' = counts c mg') \<and>
     ((lg', ln') = (lg, ln) \<or> lg' \<in> set gs \<and> ln' = counts c lg')"
  using assms
proof (induction gs arbitrary: mg mn lg ln)
  case (Cons g gs)
  have "analyze_loop c gs (if counts c g > mn then g else mg, if counts c g > mn then counts c g else mn,
      if counts c g < ln then g else lg, if counts c g < ln then counts c g else ln) = (mg', mn', lg', ln')"
    using Cons.prems by (simp split: if_splits)
  from Cons.IH [OF this] show ?case by (auto split: if_splits)
qed simp

definition cfg_wf :: "ShardConfig \<Rightarrow> bool" where
  "cfg_wf c \<longleftrightarrow> length (Shards c) = NShards \<and> distinct (map fst (Groups c))"

lemma counts_bounds: "cfg_wf c \<Longrightarrow> 0 \<le> counts c g \<and> counts c g \<le> 12"
  using count_le_length [of "Shards c" g] by (simp add: counts_def cfg_wf_def NShards_def)

text \<open>With at least one group, the most and the least loaded group are found.\<close>

lemma analyze_spec:
  assumes "cfg_wf c" and "Groups c \<noteq> []" and "analyze c = (mg, mn, lg, ln)"
  shows "mg \<in> gids c" "mn = counts c mg" "lg \<in> gids c" "ln = counts c lg"
    "\<And>g. g \<in> gids c \<Longrightarrow> counts c g \<le> mn \<and> ln \<le> counts c g"
proof -
  note spec = analyze_loop_spec [OF assms(3) [unfolded analyze_def]]
  have set: "set (sort (map fst (Groups c))) = gids c" by (simp add: gids_def)
  obtain g where g: "g \<in> gids c" using assms(2) by (cases "Groups c") (auto simp: gids_def)
  have "0 \<le> counts c g" "counts c g < 257" using counts_bounds [OF assms(1), of g] by auto
  then have "(mg, mn) \<noteq> (-1, -1)" "(lg, ln) \<noteq> (-1, 257)"
    using spec g unfolding set by fastforce+
  then show "mg \<in> gids c" "mn = counts c mg" "lg \<in> gids c" "ln = counts c lg"
    "\<And>g. g \<in> gids c \<Longrightarrow> counts c g \<le> mn \<and> ln \<le> counts c g"
    using spec unfolding set by blast+
qed

section \<open>Moving shards\<close>

lemma move_first_count:
  assumes "mg \<in> set xs" and "mg \<noteq> lg"
  shows "int (count_list (move_first mg lg xs) g) =
     int (count_list xs g) + (if g = lg then 1 else 0) - (if g = mg then 1 else 0)"
  using assms by (induction xs) auto

lemma move_first_length [simp]: "length (move_first mg lg xs) = length xs"
  by (induction xs) auto

lemma move_first_set: "set (move_first mg lg xs) \<subseteq> insert lg (set xs)"
  by (induction xs) auto

text \<open>The sum of the squared loads, which every move decreases.\<close>

definition imbalance :: "ShardConfig \<Rightarrow> nat" where
  "imbalance c = (\<Sum>g \<in> gids c. nat (counts c g) ^ 2)"

lemma squares_decrease:
  fixes m l :: nat
  assumes "l + 2 \<le> m"
  shows "(m - 1) ^ 2 + (l + 1) ^ 2 < m ^ 2 + l ^ 2"
proof -
  obtain d where m: "m = l + 2 + d" using assms le_Suc_ex by blast
  show ?thesis unfolding m by (simp add: power2_eq_square algebra_simps)
qed

lemma imbalance_move:
  assumes "mg \<in> gids c" and "lg \<in> gids c" and "counts c lg + 2 \<le> counts c mg"
  shows "imbalance (c\<lparr>Shards := move_first mg lg (Shards c)\<rparr>) < imbalance c"
proof -
  let ?c = "c\<lparr>Shards := move_first mg lg (Shards c)\<rparr>"
  let ?rest = "gids c - {mg} - {lg}"
  have fin: "finite (gids c)" by (simp add: gids_def)
  have ne: "mg \<noteq> lg" using assms(3) by auto
  have "0 < counts c mg" using assms(3) by (simp add: counts_def)
  then have "mg \<in> set (Shards c)" using count_notin [of mg "Shards c"] by (cases "mg \<in> set (Shards c)") (auto simp: counts_def)
  then have count: "counts ?c g = counts c g + (if g = lg then 1 else 0) - (if g = mg then 1 else 0)" for g
    using move_first_count ne by (simp add: counts_def)
  have split: "(\<Sum>g \<in> gids c. f g) = f mg + (f lg + (\<Sum>g \<in> ?rest. f g))" for f :: "Tgid \<Rightarrow> nat"
    using assms(1,2) ne fin by (simp add: sum.remove [of "gids c" mg] sum.remove [of "gids c - {mg}" lg])
  have rest: "(\<Sum>g \<in> ?rest. nat (counts ?c g) ^ 2) = (\<Sum>g \<in> ?rest. nat (counts c g) ^ 2)"
    by (rule sum.cong) (auto simp: count)
  have "counts ?c mg = counts c mg - 1" "counts ?c lg = counts c lg + 1" "0 \<le> counts c lg"
    using ne by (simp_all only: count) (simp_all add: counts_def)
  then have "nat (counts ?c mg) = nat (counts c mg) - 1" "nat (counts ?c lg) = nat (counts c lg) + 1"
    by linarith+
  moreover have "nat (counts c lg) + 2 \<le> nat (counts c mg)" using assms(3) by (simp add: counts_def)
  ultimately have "nat (counts ?c mg) ^ 2 + nat (counts ?c lg) ^ 2 < nat (counts c mg) ^ 2 + nat (counts c lg) ^ 2"
    using squares_decrease by simp
  moreover have "gids ?c = gids c" by (simp add: gids_def)
  ultimately show ?thesis unfolding imbalance_def \<open>gids ?c = gids c\<close> split rest by linarith
qed

definition balanced :: "ShardConfig \<Rightarrow> bool" where
  "balanced c \<longleftrightarrow> (\<forall>g \<in> gids c. \<forall>g' \<in> gids c. counts c g \<le> counts c g' + 1)"

definition assigned :: "ShardConfig \<Rightarrow> bool" where
  "assigned c \<longleftrightarrow> set (Shards c) \<subseteq> gids c"

text \<open>The loop ends, and it ends balanced.\<close>

lemma move_loop_ok:
  assumes "cfg_wf c" and "Groups c \<noteq> []" and "assigned c"
  shows "\<exists>c'. move_loop c = Some c' \<and> cfg_wf c' \<and> Groups c' = Groups c \<and> Num c' = Num c \<and> assigned c' \<and> balanced c'"
  using assms
proof (induction "imbalance c" arbitrary: c rule: less_induct)
  case less
  obtain mg mn lg ln where a: "analyze c = (mg, mn, lg, ln)" by (metis prod_cases4)
  note spec = analyze_spec [OF less.prems(1,2) a]
  show ?case
  proof (cases "mn < ln + 2")
    case True
    then have "move_loop c = Some c" using a by (simp add: move_loop.simps)
    moreover have "counts c g \<le> counts c g' + 1" if "g \<in> gids c" "g' \<in> gids c" for g g'
      using spec(5) [OF that(1)] spec(5) [OF that(2)] True by linarith
    then have "balanced c" by (simp add: balanced_def)
    ultimately show ?thesis using less.prems by blast
  next
    case False
    let ?c = "c\<lparr>Shards := move_first mg lg (Shards c)\<rparr>"
    have "imbalance ?c < imbalance c" using imbalance_move spec False by simp
    moreover have "cfg_wf ?c" "Groups ?c \<noteq> []" using less.prems by (simp_all add: cfg_wf_def)
    moreover have "assigned ?c"
      using less.prems(3) spec(3) move_first_set [of mg lg "Shards c"] by (auto simp: assigned_def gids_def)
    ultimately have "\<exists>c'. move_loop ?c = Some c' \<and> cfg_wf c' \<and> Groups c' = Groups ?c \<and> Num c' = Num ?c \<and> assigned c' \<and> balanced c'"
      using less.hyps by blast
    moreover have "move_loop c = move_loop ?c" using a False by (subst move_loop.simps) simp
    ultimately show ?thesis by simp
  qed
qed

section \<open>Assigning and rebalancing\<close>

text \<open>After the first loop every shard it has visited belongs to a group.\<close>

lemma assign_loop_ok:
  assumes "cfg_wf c" and "Groups c \<noteq> []" and "n \<le> length (Shards c)"
    and "xs = drop n (zip [0..<length (Shards c)] (Shards c))" and "\<forall>i < n. Shards c ! i \<in> gids c"
  shows "cfg_wf (assign_loop xs c) \<and> Groups (assign_loop xs c) = Groups c \<and> Num (assign_loop xs c) = Num c \<and>
     assigned (assign_loop xs c)"
  using assms
proof (induction xs arbitrary: c n)
  case Nil
  then have "length (Shards c) \<le> n" by simp
  then have "assigned c" using Nil by (auto simp: assigned_def in_set_conv_nth)
  then show ?case using Nil by simp
next
  case (Cons x xs)
  then have n: "n < length (Shards c)" by (metis drop_all length_map length_upt length_zip list.distinct(1) linorder_not_less diff_zero min.idem)
  then have x: "x = (n, Shards c ! n)" "xs = drop (Suc n) (zip [0..<length (Shards c)] (Shards c))"
    using Cons.prems(4) by (simp_all add: Cons_nth_drop_Suc [symmetric])
  show ?case
  proof (cases "has_group c (Shards c ! n)")
    case True
    then have "\<forall>i < Suc n. Shards c ! i \<in> gids c" using Cons.prems(5) by (simp add: less_Suc_eq has_group_gids)
    then show ?thesis using Cons.IH [OF Cons.prems(1,2) _ x(2)] n True unfolding x(1) by simp
  next
    case False
    let ?c = "c\<lparr>Shards := (Shards c)[n := least c]\<rparr>"
    obtain mg mn lg ln where a: "analyze c = (mg, mn, lg, ln)" by (metis prod_cases4)
    then have lg: "least c \<in> gids c" using analyze_spec(3) [OF Cons.prems(1,2) a] by (simp add: least_def)
    have "xs = drop (Suc n) (zip [0..<length (Shards ?c)] (Shards ?c))"
      unfolding x(2) by (rule nth_equalityI) auto
    moreover have "\<forall>i < Suc n. Shards ?c ! i \<in> gids ?c"
      using Cons.prems(5) n lg by (auto simp: less_Suc_eq nth_list_update gids_def)
    moreover have "cfg_wf ?c" using Cons.prems(1) by (simp add: cfg_wf_def)
    ultimately have "cfg_wf (assign_loop xs ?c) \<and> Groups (assign_loop xs ?c) = Groups ?c \<and>
        Num (assign_loop xs ?c) = Num ?c \<and> assigned (assign_loop xs ?c)"
      using Cons.prems(2) n by (intro Cons.IH [of ?c "Suc n"]) auto
    then show ?thesis using False unfolding x(1) by simp
  qed
qed

lemma Rebalance_ok:
  assumes "cfg_wf c" and "Groups c \<noteq> []"
  shows "\<exists>c'. Rebalance c = Some c' \<and> cfg_wf c' \<and> Groups c' = Groups c \<and> Num c' = Num c \<and> assigned c' \<and> balanced c'"
proof -
  let ?c = "assign_loop (zip [0..<length (Shards c)] (Shards c)) c"
  have "cfg_wf ?c" "Groups ?c = Groups c" "Num ?c = Num c" "assigned ?c"
    using assign_loop_ok [OF assms, of 0] by auto
  then show ?thesis using move_loop_ok [of ?c] assms(2) by (auto simp: Rebalance_def)
qed

lemma foldl_max_le: "(\<forall>x \<in> set xs. f x \<le> (b::int)) \<Longrightarrow> a \<le> b \<Longrightarrow> foldl (\<lambda>m x. if f x > m then f x else m) a xs \<le> b"
  by (induction xs arbitrary: a) auto

lemma foldl_min_mem: "foldl (\<lambda>m x. if f x < m then f x else m) (a::int) xs = a \<or>
    foldl (\<lambda>m x. if f x < m then f x else m) a xs \<in> f ` set xs"
proof (induction xs arbitrary: a)
  case (Cons x xs)
  show ?case using Cons.IH [of "if f x < a then f x else a"] by (auto split: if_splits)
qed simp

lemma foldl_min_le: "foldl (\<lambda>m x. if f x < m then f x else m) (a::int) xs \<le> a"
proof (induction xs arbitrary: a)
  case (Cons x xs)
  show ?case using Cons.IH [of "if f x < a then f x else a"] by (auto split: if_splits)
qed simp

text \<open>A balanced configuration passes \<open>CheckConfig\<close>.\<close>

lemma CheckConfig_balanced:
  assumes "cfg_wf c" and "Groups c \<noteq> [] \<longrightarrow> assigned c \<and> balanced c"
    and "set gs = gids c" and "distinct gs"
  shows "CheckConfig c gs"
proof -
  have "length (Groups c) = card (gids c)"
    using assms(1) by (metis cfg_wf_def distinct_card gids_def length_map list.set_map)
  then have len: "length (Groups c) = length gs" using assms(3,4) distinct_card by metis
  let ?mn = "foldl (\<lambda>m x. if counts c (fst x) < m then counts c (fst x) else m) 257 (Groups c)"
  have "foldl (\<lambda>m x. if counts c (fst x) > m then counts c (fst x) else m) 0 (Groups c) \<le> ?mn + 1"
  proof (rule foldl_max_le)
    have mem: "?mn = 257 \<or> ?mn \<in> (\<lambda>x. counts c (fst x)) ` set (Groups c)"
      by (rule foldl_min_mem [where f = "\<lambda>x. counts c (fst x)"])
    show "\<forall>x \<in> set (Groups c). counts c (fst x) \<le> ?mn + 1"
    proof
      fix x assume x: "x \<in> set (Groups c)"
      then have "balanced c" using assms(2) by (cases "Groups c") auto
      then have "counts c (fst x) \<le> counts c (fst y) + 1" if "y \<in> set (Groups c)" for y
        using x that by (auto simp: balanced_def gids_def)
      then show "counts c (fst x) \<le> ?mn + 1"
        using mem counts_bounds [OF assms(1), of "fst x"] by auto
    qed
    show "0 \<le> ?mn + 1" using mem counts_bounds [OF assms(1)] by force
  qed
  moreover have "list_all (has_group c) gs" using assms(3) by (simp add: list_all_iff has_group_gids)
  moreover have "list_all (has_group c) (Shards c)" if "0 < length gs"
    using assms(2) that len by (auto simp: list_all_iff has_group_gids assigned_def)
  ultimately show ?thesis using len by (auto simp: CheckConfig_def case_prod_beta)
qed

section \<open>Joining and leaving\<close>

lemma Join_loop_ok:
  "Join_loop srvs c = Inr (True, c') \<Longrightarrow> cfg_wf c \<Longrightarrow>
     cfg_wf c' \<and> Groups c' = Groups c @ srvs \<and> Shards c' = Shards c \<and> Num c' = Num c \<and>
     distinct (map fst srvs) \<and> gids c \<inter> fst ` set srvs = {}"
proof (induction srvs arbitrary: c)
  case (Cons x srvs)
  obtain gid ss where x: "x = (gid, ss)" by (cases x)
  let ?c = "c\<lparr>Groups := Groups c @ [(gid, ss)]\<rparr>"
  have fresh: "gid \<notin> gids c" and step: "Join_loop srvs ?c = Inr (True, c')"
    using Cons.prems(1) x by (auto simp: has_group_gids split: if_splits)
  then have "cfg_wf ?c" using Cons.prems(2) by (auto simp: cfg_wf_def gids_def)
  from Cons.IH [OF step this] fresh show ?case by (auto simp: x gids_def)
qed simp

lemma Leave_loop_ok:
  "Leave_loop gs c = (True, c') \<Longrightarrow> cfg_wf c \<Longrightarrow>
     cfg_wf c' \<and> gids c' = gids c - set gs \<and> Shards c' = Shards c \<and> Num c' = Num c \<and> set gs \<subseteq> gids c"
proof (induction gs arbitrary: c)
  case (Cons g gs)
  let ?c = "c\<lparr>Groups := filter (\<lambda>(h, _). h \<noteq> g) (Groups c)\<rparr>"
  have mem: "g \<in> gids c" and step: "Leave_loop gs ?c = (True, c')"
    using Cons.prems(1) by (auto simp: has_group_gids split: if_splits)
  have g: "gids ?c = gids c - {g}" by (force simp: gids_def)
  have "cfg_wf ?c"
    using Cons.prems(2) by (auto simp: cfg_wf_def distinct_map inj_on_def)
  from Cons.IH [OF step this] g mem show ?case by auto
qed simp

lemma Rebalance_empty:
  assumes "cfg_wf c" and "Groups c = []"
  shows "\<exists>c'. Rebalance c = Some c' \<and> cfg_wf c' \<and> Groups c' = [] \<and> Num c' = Num c"
  using assms by (simp add: Rebalance_def cfg_wf_def)

lemma Rebalance_checks:
  assumes "cfg_wf c"
  shows "\<exists>c'. Rebalance c = Some c' \<and> cfg_wf c' \<and> gids c' = gids c \<and> Num c' = Num c \<and>
     (\<forall>gs. set gs = gids c \<longrightarrow> distinct gs \<longrightarrow> CheckConfig c' gs)"
proof (cases "Groups c = []")
  case True
  then obtain c' where "Rebalance c = Some c'" "cfg_wf c'" "Groups c' = []" "Num c' = Num c"
    using Rebalance_empty [OF assms] by blast
  then show ?thesis using CheckConfig_balanced [of c'] True by (auto simp: gids_def)
next
  case False
  then obtain c' where "Rebalance c = Some c'" "cfg_wf c'" "Groups c' = Groups c" "Num c' = Num c" "assigned c'" "balanced c'"
    using Rebalance_ok [OF assms] by blast
  then show ?thesis using CheckConfig_balanced [of c'] by (auto simp: gids_def)
qed

section \<open>Properties\<close>

text \<open>
  C14. \<open>Rebalance\<close> ends and does its job: for a configuration of the fixed number of shards with
  at least one group, the loop without a bound terminates, every shard is then served by an
  existing group, the loads of any two groups differ by at most one, and neither the groups nor
  the configuration number change.
\<close>

theorem rebalance_balances:
  assumes "length (Shards c) = NShards" and "distinct (map fst (Groups c))" and "Groups c \<noteq> []"
  shows "\<exists>c'. Rebalance c = Some c' \<and> Groups c' = Groups c \<and> Num c' = Num c \<and> length (Shards c') = NShards \<and>
    (\<forall>s < NShards. has_group c' (Shards c' ! s)) \<and>
    (\<forall>g g'. has_group c' g \<longrightarrow> has_group c' g' \<longrightarrow>
       count_list (Shards c') g \<le> count_list (Shards c') g' + 1)"
proof -
  obtain c' where c': "Rebalance c = Some c'" "cfg_wf c'" "Groups c' = Groups c" "Num c' = Num c" "assigned c'" "balanced c'"
    using Rebalance_ok [of c] assms by (auto simp: cfg_wf_def)
  moreover have "count_list (Shards c') g \<le> count_list (Shards c') g' + 1" if "has_group c' g" "has_group c' g'" for g g'
  proof -
    have "counts c' g \<le> counts c' g' + 1" using that c'(6) by (simp add: balanced_def has_group_gids)
    then show ?thesis by (simp add: counts_def)
  qed
  ultimately show ?thesis
    by (intro exI [of _ c']) (auto simp: cfg_wf_def assigned_def has_group_gids)
qed

definition demo_cfg :: ShardConfig where
  "demo_cfg = MakeShardConfig\<lparr>Groups := [(1, [''a'']), (2, [''b'']), (5, [''c''])]\<rparr>"

theorem rebalance_balances_witness:
  "\<exists>c'. Rebalance demo_cfg = Some c' \<and> (\<forall>s < NShards. has_group c' (Shards c' ! s))"
  using rebalance_balances [of demo_cfg] by (auto simp: demo_cfg_def MakeShardConfig_def)

lemma analyze_order:
  assumes "mset (Groups c) = mset (Groups d)" and "Shards c = Shards d"
  shows "analyze c = analyze d"
proof -
  have "mset (map fst (Groups c)) = mset (map fst (Groups d))" using assms(1) by simp
  then have s: "sort (map fst (Groups c)) = sort (map fst (Groups d))" by (metis mset_sort properties_for_sort sorted_sort)
  have "counts c = counts d" using assms(2) by (simp add: counts_def fun_eq_iff)
  then have "analyze_loop c gs st = analyze_loop d gs st" for gs st
    by (induction gs arbitrary: st) (auto simp: split: prod.split)
  then show ?thesis by (simp add: analyze_def s)
qed

definition same_config :: "ShardConfig \<Rightarrow> ShardConfig \<Rightarrow> bool" where
  "same_config c d \<longleftrightarrow> mset (Groups c) = mset (Groups d) \<and> Shards c = Shards d"

lemma same_config_has_group: "same_config c d \<Longrightarrow> has_group c g = has_group d g"
  by (auto simp: same_config_def has_group_gids gids_def dest!: mset_eq_setD)

lemma assign_loop_order: "same_config c d \<Longrightarrow> same_config (assign_loop xs c) (assign_loop xs d)"
proof (induction xs arbitrary: c d)
  case (Cons x xs)
  obtain s g where x: "x = (s, g)" by (cases x)
  have "least c = least d" using analyze_order [of c d] Cons.prems by (simp add: least_def same_config_def)
  then have "same_config (c\<lparr>Shards := (Shards c)[s := least c]\<rparr>) (d\<lparr>Shards := (Shards d)[s := least d]\<rparr>)"
    using Cons.prems by (simp add: same_config_def)
  then show ?case using Cons x same_config_has_group [OF Cons.prems] by simp
qed simp

lemma move_loop_order:
  assumes "cfg_wf c" and "Groups c \<noteq> []" and "same_config c d"
  shows "\<exists>c' d'. move_loop c = Some c' \<and> move_loop d = Some d' \<and> same_config c' d'"
  using assms
proof (induction "imbalance c" arbitrary: c d rule: less_induct)
  case less
  obtain mg mn lg ln where a: "analyze c = (mg, mn, lg, ln)" by (metis prod_cases4)
  have b: "analyze d = (mg, mn, lg, ln)" using a analyze_order [of c d] less.prems(3) by (simp add: same_config_def)
  note spec = analyze_spec [OF less.prems(1,2) a]
  show ?case
  proof (cases "mn < ln + 2")
    case True
    then have "move_loop c = Some c" "move_loop d = Some d" using a b by (simp_all add: move_loop.simps)
    then show ?thesis using less.prems(3) by blast
  next
    case False
    let ?m = "\<lambda>c. c\<lparr>Shards := move_first mg lg (Shards c)\<rparr>"
    have "imbalance (?m c) < imbalance c" using imbalance_move spec False by simp
    moreover have "cfg_wf (?m c)" "Groups (?m c) \<noteq> []" "same_config (?m c) (?m d)"
      using less.prems by (simp_all add: cfg_wf_def same_config_def)
    ultimately have "\<exists>c' d'. move_loop (?m c) = Some c' \<and> move_loop (?m d) = Some d' \<and> same_config c' d'"
      using less.hyps by blast
    moreover have "move_loop c = move_loop (?m c)" "move_loop d = move_loop (?m d)"
      using a b False by (simp_all add: move_loop.simps [of c] move_loop.simps [of d])
    ultimately show ?thesis by simp
  qed
qed

text \<open>
  C26. The new assignment does not depend on the order in which Go iterates over the map of groups:
  all servers that rebalance the same configuration get the same assignment.
\<close>

theorem rebalance_deterministic:
  assumes "length (Shards c) = NShards" and "distinct (map fst (Groups c))"
    and "mset (Groups c) = mset (Groups d)" and "Shards c = Shards d"
  shows "\<exists>c' d'. Rebalance c = Some c' \<and> Rebalance d = Some d' \<and> Shards c' = Shards d'"
proof (cases "Groups c = []")
  case True
  then show ?thesis using assms(3,4) by (simp add: Rebalance_def)
next
  case False
  have wf: "cfg_wf c" using assms(1,2) by (simp add: cfg_wf_def)
  let ?a = "\<lambda>c. assign_loop (zip [0..<length (Shards c)] (Shards c)) c"
  have "same_config c d" using assms(3,4) by (simp add: same_config_def)
  then have "same_config (?a c) (?a d)" using assign_loop_order assms(4) by metis
  moreover have "cfg_wf (?a c)" "Groups (?a c) \<noteq> []" using assign_loop_ok [OF wf False, of 0] False by auto
  ultimately obtain c' d' where "move_loop (?a c) = Some c'" "move_loop (?a d) = Some d'" "same_config c' d'"
    using move_loop_order by blast
  moreover have "Groups d \<noteq> []" using assms(3) False by (metis mset.simps(1) mset_zero_iff)
  ultimately show ?thesis using False by (auto simp: Rebalance_def same_config_def)
qed

theorem rebalance_deterministic_witness:
  "\<exists>c' d'. Rebalance demo_cfg = Some c' \<and>
     Rebalance (demo_cfg\<lparr>Groups := [(5, [''c'']), (1, [''a'']), (2, [''b''])]\<rparr>) = Some d' \<and> Shards c' = Shards d'"
  by (rule rebalance_deterministic) (auto simp: demo_cfg_def MakeShardConfig_def add_mset_commute)


text \<open>
  C27. A successful join or leave gives a valid configuration: the configuration number goes up by
  one, the groups are the old ones with the new ones added or the leaving ones removed, and
  the result passes \<open>CheckConfig\<close> for exactly these groups.
\<close>

theorem join_leave_valid:
  assumes "length (Shards c) = NShards" and "distinct (map fst (Groups c))"
  shows "(JoinBalance c srvs = Inr r \<and> Join c srvs = Inr (True, d) \<longrightarrow>
      (\<exists>c'. r = Some (True, c') \<and> Num c' = Num c + 1 \<and> CheckConfig c' (map fst (Groups c) @ map fst srvs))) \<and>
    (LeaveBalance c gs = Inr r \<and> Leave c gs = Inr (True, d) \<longrightarrow>
      (\<exists>c'. r = Some (True, c') \<and> Num c' = Num c + 1 \<and>
         CheckConfig c' (filter (\<lambda>g. g \<notin> set gs) (map fst (Groups c)))))"
proof (intro conjI impI; elim conjE)
  have wf: "cfg_wf c" using assms by (simp add: cfg_wf_def)
  { assume r: "JoinBalance c srvs = Inr r" and j: "Join c srvs = Inr (True, d)"
    then obtain e where e: "Join_loop srvs c = Inr (True, e)" "d = e\<lparr>Num := Num e + 1\<rparr>"
      by (auto simp: Join_def bindr_eq_Inr split: if_splits)
    note l = Join_loop_ok [OF e(1) wf]
    have "cfg_wf d" using conjunct1 [OF l] e(2) by (simp add: cfg_wf_def)
    moreover have "set (map fst (Groups c) @ map fst srvs) = gids d" "distinct (map fst (Groups c) @ map fst srvs)"
      using l e(2) assms(2) by (auto simp: gids_def)
    moreover have "r = map_option (Pair True) (Rebalance d)" using r j by (simp add: JoinBalance_def)
    ultimately show "\<exists>c'. r = Some (True, c') \<and> Num c' = Num c + 1 \<and> CheckConfig c' (map fst (Groups c) @ map fst srvs)"
      using Rebalance_checks [of d] l e(2) by fastforce }
  { assume r: "LeaveBalance c gs = Inr r" and j: "Leave c gs = Inr (True, d)"
    then obtain e where e: "Leave_loop gs c = (True, e)" "d = e\<lparr>Num := Num e + 1\<rparr>"
      by (auto simp: Leave_def split: prod.splits if_splits)
    note l = Leave_loop_ok [OF e(1) wf]
    have "cfg_wf d" using conjunct1 [OF l] e(2) by (simp add: cfg_wf_def)
    moreover have "set (filter (\<lambda>g. g \<notin> set gs) (map fst (Groups c))) = gids d"
      using l e(2) by (auto simp: gids_def)
    moreover have "distinct (filter (\<lambda>g. g \<notin> set gs) (map fst (Groups c)))" using assms(2) by simp
    moreover have "r = map_option (Pair True) (Rebalance d)" using r j by (simp add: LeaveBalance_def)
    ultimately show "\<exists>c'. r = Some (True, c') \<and> Num c' = Num c + 1 \<and>
        CheckConfig c' (filter (\<lambda>g. g \<notin> set gs) (map fst (Groups c)))"
      using Rebalance_checks [of d] l e(2) by fastforce }
qed

theorem join_leave_valid_witness:
  "\<exists>c'. JoinBalance demo_cfg [(7, [''d''])] = Inr (Some (True, c')) \<and> CheckConfig c' [1, 2, 5, 7]"
proof -
  let ?d = "demo_cfg\<lparr>Groups := Groups demo_cfg @ [(7, [''d''])], Num := 1\<rparr>"
  have j: "Join demo_cfg [(7, [''d''])] = Inr (True, ?d)"
    by (simp add: Join_def demo_cfg_def MakeShardConfig_def has_group_def shares_server_def)
  then have "JoinBalance demo_cfg [(7, [''d''])] = Inr (map_option (Pair True) (Rebalance ?d))"
    by (simp add: JoinBalance_def)
  then show ?thesis
    using join_leave_valid [of demo_cfg "[(7, [''d''])]" "map_option (Pair True) (Rebalance ?d)" ?d] j
    by (auto simp: demo_cfg_def MakeShardConfig_def)
qed

end
