(* ===== verification/Labrpc.thy ===== *)
theory Labrpc
  imports Rpc
begin

text \<open>
  The simulated network (labrpc/labrpc.go): end points, connections, servers and their
  services, and what happens to one request. The values drawn from the random generator, the
  states the network is in when the request arrives, at each poll while the handler runs and
  when the answer is about to be delivered, are arguments: the tester changes the network
  concurrently.

  Names of ends and servers (Go values of any type) are of type \<open>'n\<close>; a pointer to a
  server is a number, \<open>None\<close> the nil pointer, and the record \<open>host\<close> holds
  the objects and the state \<open>'w\<close> of everything behind them. The encoding of Go values
  \<open>'v\<close> (labgob over encoding/gob) is a parameter: \<open>enc\<close> gives the bytes it
  wrote and whether it reported no error, \<open>dec\<close> gives \<open>None\<close> on an error.

  The theorems: a call that reports success has executed its handler exactly once, on a server
  that was still reachable when the answer left, and one that reports failure at most once
  (the three outcomes \<open>delivery\<close> of theory \<open>Rpc\<close> on which the clerks rest, except that
  a handler the network gave up waiting for may still take effect later); a
  call over a reliable network to a server that stays up succeeds; the delays are bounded; a
  service built by \<open>MakeService\<close> cannot make the reflective call panic.
\<close>

type_synonym octets = "8 word list"

section \<open>The network\<close>

definition SHORTDELAY :: nat where "SHORTDELAY = 27"
definition LONGDELAY :: nat where "LONGDELAY = 7000"
definition MAXDELAY :: nat where "MAXDELAY = LONGDELAY + 100"

record 'n Network =
  reliable :: bool
  longDelays :: bool
  longReordering :: bool
  ends :: "'n set"
  enabled :: "'n \<rightharpoonup> bool"
  servers :: "'n \<rightharpoonup> nat"
  connections :: "'n \<rightharpoonup> 'n"
  net_count :: "32 word"
  net_bytes :: "64 word"

definition MakeNetwork :: "'n Network" where
  "MakeNetwork = \<lparr>reliable = True, longDelays = False, longReordering = False, ends = {},
     enabled = Map.empty, servers = Map.empty, connections = Map.empty, net_count = 0, net_bytes = 0\<rparr>"

definition Reliable :: "'n Network \<Rightarrow> bool \<Rightarrow> 'n Network" where
  "Reliable rn yes = rn\<lparr>reliable := yes\<rparr>"

definition IsReliable :: "'n Network \<Rightarrow> bool" where
  "IsReliable rn = reliable rn"

definition LongReordering :: "'n Network \<Rightarrow> bool \<Rightarrow> 'n Network" where
  "LongReordering rn yes = rn\<lparr>longReordering := yes\<rparr>"

definition LongDelays :: "'n Network \<Rightarrow> bool \<Rightarrow> 'n Network" where
  "LongDelays rn yes = rn\<lparr>longDelays := yes\<rparr>"

definition IsLongDelays :: "'n Network \<Rightarrow> bool" where
  "IsLongDelays rn = longDelays rn"

text \<open>Reading a Go map at a missing key gives the zero value.\<close>

definition is_enabled :: "'n Network \<Rightarrow> 'n \<Rightarrow> bool" where
  "is_enabled rn endname \<longleftrightarrow> enabled rn endname = Some True"

definition readEndnameInfo :: "'n Network \<Rightarrow> 'n \<Rightarrow> bool \<times> 'n option \<times> nat option \<times> bool \<times> bool" where
  "readEndnameInfo rn endname =
     (let servername = connections rn endname
      in (is_enabled rn endname, servername, Option.bind servername (servers rn), reliable rn, longReordering rn))"

definition isServerDead :: "'n Network \<Rightarrow> 'n \<Rightarrow> 'n \<Rightarrow> nat \<Rightarrow> bool" where
  "isServerDead rn endname servername server \<longleftrightarrow>
     \<not> is_enabled rn endname \<or> servers rn servername \<noteq> Some server"

definition MakeEnd :: "'n Network \<Rightarrow> 'n \<Rightarrow> 'n Network res" where
  "MakeEnd rn endname =
     (if endname \<in> ends rn then Inl Fatal
      else Inr (rn\<lparr>ends := insert endname (ends rn), enabled := (enabled rn)(endname \<mapsto> False),
                   connections := (connections rn)(endname := None)\<rparr>))"

definition LookupEnd :: "'n Network \<Rightarrow> 'n \<Rightarrow> 'n res" where
  "LookupEnd rn endname = (if endname \<notin> ends rn then Inl Fatal else Inr endname)"

definition DeleteEnd :: "'n Network \<Rightarrow> 'n \<Rightarrow> 'n Network res" where
  "DeleteEnd rn endname =
     (if endname \<notin> ends rn then Inl Fatal
      else Inr (rn\<lparr>ends := ends rn - {endname}, enabled := (enabled rn)(endname := None),
                   connections := (connections rn)(endname := None)\<rparr>))"

definition AddServer :: "'n Network \<Rightarrow> 'n \<Rightarrow> nat \<Rightarrow> 'n Network" where
  "AddServer rn servername rs = rn\<lparr>servers := (servers rn)(servername \<mapsto> rs)\<rparr>"

definition DeleteServer :: "'n Network \<Rightarrow> 'n \<Rightarrow> 'n Network" where
  "DeleteServer rn servername = rn\<lparr>servers := (servers rn)(servername := None)\<rparr>"

definition Connect :: "'n Network \<Rightarrow> 'n \<Rightarrow> 'n \<Rightarrow> 'n Network" where
  "Connect rn endname servername = rn\<lparr>connections := (connections rn)(endname \<mapsto> servername)\<rparr>"

definition Enable :: "'n Network \<Rightarrow> 'n \<Rightarrow> bool \<Rightarrow> 'n Network" where
  "Enable rn endname yes = rn\<lparr>enabled := (enabled rn)(endname \<mapsto> yes)\<rparr>"

definition GetTotalCount :: "'n Network \<Rightarrow> int" where
  "GetTotalCount rn = sint (net_count rn)"

definition GetTotalBytes :: "'n Network \<Rightarrow> int" where
  "GetTotalBytes rn = sint (net_bytes rn)"

section \<open>Messages, services and servers\<close>

record 'n reqMsg =
  endname :: 'n
  svcMeth :: string
  req_args :: octets

record replyMsg =
  msg_ok :: bool
  msg_reply :: octets

definition Marshall :: "('v \<Rightarrow> octets \<times> bool) \<Rightarrow> 'v \<Rightarrow> octets res" where
  "Marshall enc args = (case enc args of (b, ok) \<Rightarrow> if ok then Inr b else Inl Fatal)"

text \<open>
  Decoding goes into a newly allocated object, as in every use in the repository: handlers get
  arguments from \<^verbatim>\<open>reflect.New\<close> and clients pass zeroed replies. What gob does with a destination that
  already holds values (it leaves them where the encoded value is a default) is not modelled; \<open>checkDefault\<close> of theory
  \<open>Labgob\<close> warns of it.
\<close>

definition Unmarshall :: "(octets \<Rightarrow> 'v option) \<Rightarrow> octets \<Rightarrow> 'v res" where
  "Unmarshall dec b = (case dec b of None \<Rightarrow> Inl Fatal | Some v \<Rightarrow> Inr v)"

text \<open>
  Go types as reflection shows them, as far as the dispatcher looks: the kind, and the element type that \<open>Elem\<close> gives,
  which panics on a type without one. A defined type counts as its underlying type; the length of an array and the direction
  of a channel are left out, and \<open>RNamed\<close> is any type without elements.
\<close>

datatype rtype = RPtr rtype | RArray rtype | RChan rtype | RMap rtype rtype | RSlice rtype | RNamed string

datatype kind = KPtr | KArray | KChan | KMap | KSlice | KOther

fun Kind :: "rtype \<Rightarrow> kind" where
  "Kind (RPtr t) = KPtr"
| "Kind (RArray t) = KArray"
| "Kind (RChan t) = KChan"
| "Kind (RMap k t) = KMap"
| "Kind (RSlice t) = KSlice"
| "Kind (RNamed s) = KOther"

fun Elem :: "rtype \<Rightarrow> rtype res" where
  "Elem (RPtr t) = Inr t"
| "Elem (RArray t) = Inr t"
| "Elem (RChan t) = Inr t"
| "Elem (RMap k t) = Inr t"
| "Elem (RSlice t) = Inr t"
| "Elem (RNamed s) = Inl TypeAssertion"

text \<open>
  What reflection tells of a method: the package path (empty when the name is capitalized), the
  types of its parameters, the receiver first, the number of its results, and the function
  itself, which gets the decoded argument and leaves the reply behind the pointer.
\<close>

record ('w, 'v) Method =
  PkgPath :: string
  mname :: string
  In :: "rtype list"
  NumOut :: nat
  Func :: "'w \<Rightarrow> 'v \<Rightarrow> 'w \<times> 'v"

record ('w, 'v) Service =
  svc_name :: string
  svc_methods :: "string \<rightharpoonup> ('w, 'v) Method"

definition suitable :: "('w, 'v) Method \<Rightarrow> bool" where
  "suitable m \<longleftrightarrow> \<not> (PkgPath m \<noteq> '''' \<or> length (In m) \<noteq> 3 \<or> Kind (In m ! 2) \<noteq> KPtr \<or> NumOut m \<noteq> 0)"

fun add_methods :: "('w, 'v) Method list \<Rightarrow> (string \<rightharpoonup> ('w, 'v) Method) \<Rightarrow> (string \<rightharpoonup> ('w, 'v) Method)" where
  "add_methods [] ms = ms"
| "add_methods (m # mtab) ms = add_methods mtab (if suitable m then ms(mname m \<mapsto> m) else ms)"

definition MakeService :: "string \<Rightarrow> ('w, 'v) Method list \<Rightarrow> ('w, 'v) Service" where
  "MakeService name mtab = \<lparr>svc_name = name, svc_methods = add_methods mtab Map.empty\<rparr>"

record ('w, 'v) Server =
  services :: "string \<rightharpoonup> ('w, 'v) Service"
  srv_count :: nat
  dispatchf :: "('w \<Rightarrow> string \<Rightarrow> octets \<Rightarrow> 'w \<times> octets \<times> bool) option"

definition MakeServer :: "('w, 'v) Server" where
  "MakeServer = \<lparr>services = Map.empty, srv_count = 0, dispatchf = None\<rparr>"

definition SetDispatch ::
  "('w, 'v) Server \<Rightarrow> ('w \<Rightarrow> string \<Rightarrow> octets \<Rightarrow> 'w \<times> octets \<times> bool) \<Rightarrow> ('w, 'v) Server" where
  "SetDispatch rs f = rs\<lparr>dispatchf := Some f\<rparr>"

definition AddService :: "('w, 'v) Server \<Rightarrow> ('w, 'v) Service \<Rightarrow> ('w, 'v) Server" where
  "AddService rs svc = rs\<lparr>services := (services rs)(svc_name svc \<mapsto> svc)\<rparr>"

definition Server_GetCount :: "('w, 'v) Server \<Rightarrow> nat" where
  "Server_GetCount rs = srv_count rs"

text \<open>
  \<open>Call\<close> of reflection panics when the number of arguments is not the method's or an
  argument has not the type of its parameter. The arguments are the receiver, whose type is the
  first parameter's, a value of the second parameter's type, and a pointer to a new value of the element
  type of the third. What the method returns is ignored.
\<close>

definition Service_dispatch ::
  "('v \<Rightarrow> octets \<times> bool) \<Rightarrow> (octets \<Rightarrow> 'v option) \<Rightarrow> ('w, 'v) Service \<Rightarrow> 'w \<Rightarrow> string \<Rightarrow> 'n reqMsg \<Rightarrow>
   ('w \<times> replyMsg) res" where
  "Service_dispatch enc dec svc w methname req =
     (case svc_methods svc methname of
        None \<Rightarrow> Inl Fatal
      | Some method \<Rightarrow>
          bindr (idx (In method) 1) (\<lambda>argType.
          bindr (Unmarshall dec (req_args req)) (\<lambda>args.
          bindr (idx (In method) 2) (\<lambda>replyType.
          bindr (Elem replyType) (\<lambda>elem.
            if In method \<noteq> [In method ! 0, argType, RPtr elem] then Inl TypeAssertion
            else case Func method w args of
                   (w', replyv) \<Rightarrow>
                     Inr (w', \<lparr>msg_ok = True, msg_reply = fst (enc replyv)\<rparr>))))))"

text \<open>\<^verbatim>\<open>strings.LastIndex\<close> for a single dot: the text before and after the last one.\<close>

fun split_last_dot :: "string \<Rightarrow> (string \<times> string) option" where
  "split_last_dot [] = None"
| "split_last_dot (c # cs) =
     (case split_last_dot cs of
        Some (a, b) \<Rightarrow> Some (c # a, b)
      | None \<Rightarrow> if c = CHR ''.'' then Some ([], cs) else None)"

definition Server_dispatch ::
  "('v \<Rightarrow> octets \<times> bool) \<Rightarrow> (octets \<Rightarrow> 'v option) \<Rightarrow> ('w, 'v) Server \<Rightarrow> 'w \<Rightarrow> 'n reqMsg \<Rightarrow>
   (('w, 'v) Server \<times> 'w \<times> replyMsg) res" where
  "Server_dispatch enc dec rs w req =
     (let rs1 = rs\<lparr>srv_count := srv_count rs + 1\<rparr> in
      case split_last_dot (svcMeth req) of
        None \<Rightarrow> Inl SliceBounds
      | Some (serviceName, methodName) \<Rightarrow>
          (case dispatchf rs1 of
             Some f \<Rightarrow> (case f w (svcMeth req) (req_args req) of
                          (w', rep, ok) \<Rightarrow> Inr (rs1, w', \<lparr>msg_ok = ok, msg_reply = rep\<rparr>))
           | None \<Rightarrow>
               (case services rs1 serviceName of
                  None \<Rightarrow> Inl Fatal
                | Some service \<Rightarrow>
                    bindr (Service_dispatch enc dec service w methodName req) (\<lambda>(w', rep). Inr (rs1, w', rep)))))"

definition Server_Dispatch ::
  "('v \<Rightarrow> octets \<times> bool) \<Rightarrow> (octets \<Rightarrow> 'v option) \<Rightarrow> ('w, 'v) Server \<Rightarrow> 'w \<Rightarrow> string \<Rightarrow> string \<Rightarrow> octets \<Rightarrow>
   (('w, 'v) Server \<times> 'w \<times> octets \<times> bool) res" where
  "Server_Dispatch enc dec rs w meth clnt args =
     bindr (Server_dispatch enc dec rs w \<lparr>endname = clnt, svcMeth = meth, req_args = args\<rparr>)
       (\<lambda>(rs', w', rep). Inr (rs', w', msg_reply rep, msg_ok rep))"

section \<open>One request\<close>

record ('w, 'v) host =
  objs :: "nat \<Rightarrow> ('w, 'v) Server"
  world :: 'w

text \<open>A request reaches a server object: its goroutine runs \<open>dispatch\<close> to the end.\<close>

definition host_dispatch ::
  "('v \<Rightarrow> octets \<times> bool) \<Rightarrow> (octets \<Rightarrow> 'v option) \<Rightarrow> ('w, 'v) host \<Rightarrow> nat \<Rightarrow> 'n reqMsg \<Rightarrow>
   (('w, 'v) host \<times> replyMsg) res" where
  "host_dispatch enc dec h server req =
     bindr (Server_dispatch enc dec (objs h server) (world h) req)
       (\<lambda>(rs, w, rep). Inr (\<lparr>objs = (objs h)(server := rs), world = w\<rparr>, rep))"

definition Network_GetCount :: "('w, 'v) host \<Rightarrow> 'n Network \<Rightarrow> 'n \<Rightarrow> nat res" where
  "Network_GetCount h rn servername =
     (case servers rn servername of None \<Rightarrow> Inl NilMap | Some s \<Rightarrow> Inr (Server_GetCount (objs h s)))"

text \<open>
  The values drawn while a request is processed. \<^verbatim>\<open>rand.Int() % k\<close> and
  \<^verbatim>\<open>rand.Intn(k)\<close> are the drawn number modulo \<open>k\<close>. \<open>d_late\<close> is not drawn but up to the
  scheduler: whether a handler that the network stops waiting for takes effect only after the call has returned.
\<close>

record draws =
  d_short :: nat
  d_drop :: nat
  d_drop_reply :: nat
  d_reorder :: nat
  d_len :: nat
  d_span :: nat
  d_timeout :: nat
  d_late :: bool

text \<open>
  The loop that waits for the handler: it gets the answer, or polls after 100 milliseconds and
  looks at the network as it is then. \<open>None\<close> means that it is still waiting when the
  events end.
\<close>

datatype 'n wait_event = Answer | Recheck "'n Network"

fun wait_loop :: "('n Network \<Rightarrow> bool) \<Rightarrow> 'n wait_event list \<Rightarrow> bool option" where
  "wait_loop dead [] = None"
| "wait_loop dead (Answer # evs) = Some True"
| "wait_loop dead (Recheck rn # evs) = (if dead rn then Some False else wait_loop dead evs)"

definition failed :: replyMsg where
  "failed = \<lparr>msg_ok = False, msg_reply = []\<rparr>"

text \<open>The goroutine of \<open>MakeNetwork\<close> counts a request before it is processed; a reply that is sent is counted too.\<close>

definition net_receive :: "'n Network \<Rightarrow> 'n reqMsg \<Rightarrow> 'n Network" where
  "net_receive rn req =
     rn\<lparr>net_count := net_count rn + 1, net_bytes := net_bytes rn + word_of_nat (length (req_args req))\<rparr>"

definition net_reply :: "'n Network \<Rightarrow> replyMsg \<Rightarrow> 'n Network" where
  "net_reply rn rep = rn\<lparr>net_bytes := net_bytes rn + word_of_nat (length (msg_reply rep))\<rparr>"

text \<open>
  \<open>rn\<close> is the network when the request arrives, \<open>evs\<close> what the waiting loop sees and
  \<open>rn'\<close> the network when the answer is about to be sent, or when \<open>IsLongDelays\<close> is asked. The result is \<open>None\<close> while
  the request waits; otherwise the state the handler leaves, the network with the reply's bytes
  counted, the message the caller gets, and how long (in milliseconds) the network held the
  request or its answer back, the waiting for the handler apart. A handler that was started
  runs to its end even when nobody waits for it any more: before the call returns, or
  after it (\<open>late_handler\<close>), in whatever state its server is then.
\<close>

definition processReq ::
  "('v \<Rightarrow> octets \<times> bool) \<Rightarrow> (octets \<Rightarrow> 'v option) \<Rightarrow> 'n Network \<Rightarrow> 'n wait_event list \<Rightarrow> 'n Network \<Rightarrow> draws \<Rightarrow>
   'n reqMsg \<Rightarrow> ('w, 'v) host \<Rightarrow> (('w, 'v) host \<times> 'n Network \<times> replyMsg \<times> nat) option res" where
  "processReq enc dec rn evs rn' d req h =
     (case readEndnameInfo rn (endname req) of
        (True, Some servername, Some server, rel, longreordering) \<Rightarrow>
          (let short = (if \<not> rel then d_short d mod SHORTDELAY else 0) in
           if \<not> rel \<and> d_drop d mod 1000 < 100 then Inr (Some (h, rn', failed, short))
           else
             case wait_loop (\<lambda>net. isServerDead net (endname req) servername server) evs of
               None \<Rightarrow> Inr None
             | Some replyOK \<Rightarrow>
                 if \<not> replyOK \<and> d_late d then Inr (Some (h, rn', failed, short))
                 else
                 bindr (host_dispatch enc dec h server req) (\<lambda>(h', reply).
                 let serverDead = isServerDead rn' (endname req) servername server in
                 if \<not> replyOK \<or> serverDead then Inr (Some (h', rn', failed, short))
                 else if \<not> rel \<and> d_drop_reply d mod 1000 < 100 then Inr (Some (h', rn', failed, short))
                 else if longreordering \<and> d_reorder d mod 900 < 600 then
                   Inr (Some (h', net_reply rn' reply, reply, short + (200 + d_span d mod (1 + d_len d mod 2000))))
                 else Inr (Some (h', net_reply rn' reply, reply, short))))
      | _ \<Rightarrow> Inr (Some (h, rn', failed, if IsLongDelays rn' then d_timeout d mod LONGDELAY else d_timeout d mod 100)))"

text \<open>The server whose handler has been started and takes effect only after the call has returned.\<close>

definition late_handler :: "'n Network \<Rightarrow> 'n wait_event list \<Rightarrow> draws \<Rightarrow> 'n reqMsg \<Rightarrow> nat option" where
  "late_handler rn evs d req =
     (case readEndnameInfo rn (endname req) of
        (True, Some servername, Some server, rel, _) \<Rightarrow>
          if (rel \<or> \<not> d_drop d mod 1000 < 100) \<and>
             wait_loop (\<lambda>net. isServerDead net (endname req) servername server) evs = Some False \<and> d_late d
          then Some server else None
      | _ \<Rightarrow> None)"

section \<open>A call\<close>

record 'w ClientEnd =
  end_name :: string
  callf :: "('w \<Rightarrow> string \<Rightarrow> string \<Rightarrow> octets \<Rightarrow> 'w \<times> octets \<times> bool) option"

definition SetCall :: "'w ClientEnd \<Rightarrow> ('w \<Rightarrow> string \<Rightarrow> string \<Rightarrow> octets \<Rightarrow> 'w \<times> octets \<times> bool) \<Rightarrow> 'w ClientEnd" where
  "SetCall e f = e\<lparr>callf := Some f\<rparr>"

text \<open>
  \<open>serve\<close> is what the network does with a request, \<open>closed\<close> tells that the network
  was taken down before the request was sent. The result is the state, whether the call reports
  success, and the reply object.
\<close>

definition ClientEnd_Call ::
  "('v \<Rightarrow> octets \<times> bool) \<Rightarrow> (octets \<Rightarrow> 'v option) \<Rightarrow> (string reqMsg \<Rightarrow> 's \<Rightarrow> ('s \<times> replyMsg) option res) \<Rightarrow>
   's ClientEnd \<Rightarrow> bool \<Rightarrow> string \<Rightarrow> 'v \<Rightarrow> 'v \<Rightarrow> 's \<Rightarrow> ('s \<times> bool \<times> 'v) option res" where
  "ClientEnd_Call enc dec serve e closed meth args reply s =
     (case callf e of
        Some f \<Rightarrow>
          bindr (Marshall enc args) (\<lambda>b.
          case f s (end_name e) meth b of
            (s', rep, ok) \<Rightarrow>
              if \<not> ok then Inr (Some (s', False, reply))
              else bindr (Unmarshall dec rep) (\<lambda>v. Inr (Some (s', True, v))))
      | None \<Rightarrow>
          bindr (Marshall enc args) (\<lambda>b.
          if closed then Inr (Some (s, False, reply))
          else bindr (serve \<lparr>endname = end_name e, svcMeth = meth, req_args = b\<rparr> s) (\<lambda>r.
            case r of
              None \<Rightarrow> Inr None
            | Some (s', rep) \<Rightarrow>
                if msg_ok rep then bindr (Unmarshall dec (msg_reply rep)) (\<lambda>v. Inr (Some (s', True, v)))
                else Inr (Some (s', False, reply)))))"

definition ClientEnd_Forward ::
  "(string reqMsg \<Rightarrow> 's \<Rightarrow> ('s \<times> replyMsg) option res) \<Rightarrow> 's ClientEnd \<Rightarrow> bool \<Rightarrow> string \<Rightarrow> octets \<Rightarrow> 's \<Rightarrow>
   ('s \<times> octets \<times> bool) option res" where
  "ClientEnd_Forward serve e closed meth args s =
     (if closed then Inr (Some (s, [], False))
      else bindr (serve \<lparr>endname = end_name e, svcMeth = meth, req_args = args\<rparr> s) (\<lambda>r.
        Inr (map_option (\<lambda>(s', rep). (s', msg_reply rep, msg_ok rep)) r)))"

text \<open>The network as the call sees it, for a given course of events.\<close>

definition net_serve ::
  "('v \<Rightarrow> octets \<times> bool) \<Rightarrow> (octets \<Rightarrow> 'v option) \<Rightarrow> string Network \<Rightarrow> string wait_event list \<Rightarrow> string Network \<Rightarrow> draws \<Rightarrow>
   string reqMsg \<Rightarrow> ('w, 'v) host \<Rightarrow> (('w, 'v) host \<times> replyMsg) option res" where
  "net_serve enc dec rn evs rn' d req h =
     bindr (processReq enc dec (net_receive rn req) evs rn' d req h) (\<lambda>r. Inr (map_option (\<lambda>(h', _, rep, _). (h', rep)) r))"

section \<open>Lemmas\<close>

lemma net_receive_simps [simp]:
  "ends (net_receive rn req) = ends rn" "enabled (net_receive rn req) = enabled rn"
  "servers (net_receive rn req) = servers rn" "connections (net_receive rn req) = connections rn"
  "reliable (net_receive rn req) = reliable rn" "longDelays (net_receive rn req) = longDelays rn"
  "longReordering (net_receive rn req) = longReordering rn"
  "is_enabled (net_receive rn req) e = is_enabled rn e"
  "isServerDead (net_receive rn req) e sn s = isServerDead rn e sn s"
  by (simp_all add: net_receive_def is_enabled_def isServerDead_def)

text \<open>The end is enabled and leads to a server of the network.\<close>

definition leads_to :: "'n Network \<Rightarrow> 'n \<Rightarrow> 'n \<Rightarrow> nat \<Rightarrow> bool" where
  "leads_to rn e servername server \<longleftrightarrow>
     is_enabled rn e \<and> connections rn e = Some servername \<and> servers rn servername = Some server"

lemma leads_to_receive [simp]: "leads_to (net_receive rn req) e sn s = leads_to rn e sn s"
  by (simp add: leads_to_def)

lemma readEndnameInfo_leads:
  "readEndnameInfo rn e = (True, Some sn, Some s, r, l) \<longleftrightarrow> leads_to rn e sn s \<and> r = reliable rn \<and> l = longReordering rn"
  by (auto simp: readEndnameInfo_def leads_to_def Let_def)

lemma readEndnameInfo_cases:
  obtains (up) sn s where "readEndnameInfo rn e = (True, Some sn, Some s, reliable rn, longReordering rn)" "leads_to rn e sn s"
  | (down) b sn s r l where "readEndnameInfo rn e = (b, sn, s, r, l)" "\<not> b \<or> sn = None \<or> s = None"
      "\<And>sn' s'. \<not> leads_to rn e sn' s'"
proof -
  obtain b sn s r l where i: "readEndnameInfo rn e = (b, sn, s, r, l)" by (metis prod_cases5)
  show ?thesis
  proof (cases "b \<and> sn \<noteq> None \<and> s \<noteq> None")
    case True
    then obtain sn' s' where "sn = Some sn'" "s = Some s'" by auto
    then have "readEndnameInfo rn e = (True, Some sn', Some s', r, l)" using i True by simp
    then show ?thesis using up [of sn' s'] readEndnameInfo_leads [of rn e sn' s' r l] by simp
  next
    case False
    have "\<not> leads_to rn e sn' s'" for sn' s'
      using False i readEndnameInfo_leads [of rn e sn' s'] by auto
    then show ?thesis using down [OF i] False by blast
  qed
qed

text \<open>A request whose end leads nowhere is answered with a failure and reaches no server.\<close>

lemma processReq_down:
  assumes "\<And>sn s. \<not> leads_to rn (endname req) sn s"
  shows "\<exists>t. processReq enc dec rn evs rn' d req h = Inr (Some (h, rn', failed, t)) \<and> t < LONGDELAY"
  using assms
proof (cases rn "endname req" rule: readEndnameInfo_cases)
  case (down b sn s r l)
  have "d_timeout d mod 100 < 100" by simp
  then have t: "d_timeout d mod 100 < 7000" by linarith
  show ?thesis
    using down t by (cases b; cases sn; cases s) (simp_all add: processReq_def LONGDELAY_def)
qed blast

text \<open>The two ways a request can go: it reaches no server, or it is executed once.\<close>

lemma processReq_cases:
  assumes "processReq enc dec rn evs rn' d req h = Inr (Some (h', n, rep, t))"
  obtains (lost) "h' = h" "rep = failed" "t < LONGDELAY"
  | (executed) sn s reply where "leads_to rn (endname req) sn s" "host_dispatch enc dec h s req = Inr (h', reply)"
      "rep = failed \<or> rep = reply \<and> \<not> isServerDead rn' (endname req) sn s" "t < LONGDELAY"
proof (cases rn "endname req" rule: readEndnameInfo_cases)
  case (down b sn s r l)
  then show ?thesis using assms lost processReq_down [of rn req enc dec evs rn' d h] by auto
next
  case (up sn s)
  let ?short = "if \<not> reliable rn then d_short d mod SHORTDELAY else 0"
  have short: "?short < 27" by (simp add: SHORTDELAY_def)
  have "d_span d mod (1 + d_len d mod 2000) < 1 + d_len d mod 2000" "d_len d mod 2000 < 2000" by simp_all
  then have span: "d_span d mod (1 + d_len d mod 2000) < 2000" by linarith
  have times: "?short < LONGDELAY" "?short + (200 + d_span d mod (1 + d_len d mod 2000)) < LONGDELAY"
    using short span unfolding LONGDELAY_def by linarith+
  note eval = assms [unfolded processReq_def up(1) prod.case bool.case option.case Let_def]
  show ?thesis
  proof (cases "\<not> reliable rn \<and> d_drop d mod 1000 < 100")
    case True
    then show ?thesis using eval lost times by simp
  next
    case False
    note eval' = eval [unfolded if_not_P [OF False]]
    then obtain ok where w: "wait_loop (\<lambda>net. isServerDead net (endname req) sn s) evs = Some ok"
      by (auto split: option.split_asm)
    show ?thesis
    proof (cases "\<not> ok \<and> d_late d")
      case True
      then show ?thesis using eval' w lost times by simp
    next
      case now: False
      with eval' w obtain h1 reply where x: "host_dispatch enc dec h s req = Inr (h1, reply)"
        by (auto simp: bindr_eq_Inr split: if_split_asm)
      have "h' = h1" "rep = failed \<or> rep = reply \<and> \<not> isServerDead rn' (endname req) sn s"
        and "t = ?short \<or> t = ?short + (200 + d_span d mod (1 + d_len d mod 2000))"
        using eval' w x now by (simp_all split: if_split_asm)
      then show ?thesis using x up(2) times by (intro executed [of sn s reply]) auto
    qed
  qed
qed

text \<open>The call does not see a handler that is late.\<close>

lemma late_handler_SomeD:
  assumes "late_handler rn evs d req = Some s"
  shows "\<exists>sn. leads_to rn (endname req) sn s"
    and "\<exists>t. processReq enc dec rn evs rn' d req h = Inr (Some (h, rn', failed, t))"
proof -
  show "\<exists>sn. leads_to rn (endname req) sn s"
    using assms by (cases rn "endname req" rule: readEndnameInfo_cases) (auto simp: late_handler_def split: if_splits bool.splits option.splits)
  show "\<exists>t. processReq enc dec rn evs rn' d req h = Inr (Some (h, rn', failed, t))"
    using assms
    by (cases rn "endname req" rule: readEndnameInfo_cases)
      (auto simp: late_handler_def processReq_def Let_def split: if_splits bool.splits option.splits)
qed

lemma split_last_dot_no_dot: "CHR ''.'' \<notin> set s \<Longrightarrow> split_last_dot s = None"
  by (induction s) auto

lemma split_last_dot_append [simp]:
  "CHR ''.'' \<notin> set m \<Longrightarrow> split_last_dot (s @ CHR ''.'' # m) = Some (s, m)"
  by (induction s) (auto simp: split_last_dot_no_dot)

lemma suitable_iff:
  "suitable m \<longleftrightarrow> PkgPath m = '''' \<and> (\<exists>rcvr arg elem. In m = [rcvr, arg, RPtr elem]) \<and> NumOut m = 0"
proof -
  have "Kind t = KPtr \<longleftrightarrow> (\<exists>elem. t = RPtr elem)" for t by (cases t) simp_all
  then show ?thesis by (auto simp: suitable_def length_Suc_conv numeral_3_eq_3 numeral_2_eq_2)
qed

lemma add_methods_Some:
  "add_methods mtab ms k = Some m \<Longrightarrow> m \<in> set mtab \<and> suitable m \<and> mname m = k \<or> ms k = Some m"
  by (induction mtab ms rule: add_methods.induct) (auto split: if_splits)

lemma add_methods_None:
  "add_methods mtab ms k = None \<longleftrightarrow> ms k = None \<and> (\<forall>m \<in> set mtab. suitable m \<longrightarrow> mname m \<noteq> k)"
  by (induction mtab ms rule: add_methods.induct) auto

lemma add_methods_distinct:
  assumes "distinct (map mname mtab)" and "m \<in> set mtab" and "suitable m"
  shows "svc_methods (MakeService name mtab) (mname m) = Some m"
proof -
  obtain m' where m': "add_methods mtab Map.empty (mname m) = Some m'"
    using assms(2,3) add_methods_None [of mtab Map.empty "mname m"] by (cases "add_methods mtab Map.empty (mname m)") auto
  then have "m' \<in> set mtab" "mname m' = mname m" using add_methods_Some [OF m'] by auto
  then have "m' = m" using assms(1,2) by (metis distinct_map inj_onD)
  then show ?thesis using m' by (simp add: MakeService_def)
qed

lemma Service_dispatch_suitable:
  assumes "svc_methods svc meth = Some m" and "suitable m"
  shows "Service_dispatch enc dec svc w meth req =
           (case dec (req_args req) of
              None \<Rightarrow> Inl Fatal
            | Some args \<Rightarrow> (case Func m w args of (w', r) \<Rightarrow> Inr (w', \<lparr>msg_ok = True, msg_reply = fst (enc r)\<rparr>)))"
  using assms by (auto simp: suitable_iff Service_dispatch_def idx_def Unmarshall_def split: option.split)

lemma host_dispatch_once:
  assumes "host_dispatch enc dec h s req = Inr (h', rep)"
  shows "srv_count (objs h' s) = srv_count (objs h s) + 1" and "s' \<noteq> s \<Longrightarrow> objs h' s' = objs h s'"
  using assms
  by (auto simp: host_dispatch_def Server_dispatch_def bindr_eq_Inr Let_def split: option.splits prod.splits)

lemma wait_loop_answer:
  assumes "Answer \<in> set evs" and "\<And>net. Recheck net \<in> set evs \<Longrightarrow> \<not> dead net"
  shows "wait_loop dead evs = Some True"
  using assms by (induction dead evs rule: wait_loop.induct) auto

text \<open>The call over the network, in one equation.\<close>

lemma ClientEnd_Call_net:
  assumes "callf e = None"
  shows "ClientEnd_Call enc dec (net_serve enc dec rn evs rn' d) e closed meth args reply h =
     (let req = \<lparr>endname = end_name e, svcMeth = meth, req_args = fst (enc args)\<rparr> in
      if \<not> snd (enc args) then Inl Fatal
      else if closed then Inr (Some (h, False, reply))
      else (case processReq enc dec (net_receive rn req) evs rn' d req h of
              Inl p \<Rightarrow> Inl p
            | Inr None \<Rightarrow> Inr None
            | Inr (Some (h', n, rep, t)) \<Rightarrow>
                if msg_ok rep then (case dec (msg_reply rep) of None \<Rightarrow> Inl Fatal | Some v \<Rightarrow> Inr (Some (h', True, v)))
                else Inr (Some (h', False, reply))))"
  using assms
  by (cases "enc args")
    (simp add: ClientEnd_Call_def Marshall_def Unmarshall_def net_serve_def Let_def split: sum.split option.split)

lemma call_cases:
  assumes "callf e = None"
    and "ClientEnd_Call enc dec (net_serve enc dec rn evs rn' d) e closed meth args reply h = Inr (Some (h', ok, v))"
  shows "h' = h \<and> \<not> ok \<and> v = reply \<or>
         (\<exists>sn s rep. leads_to rn (end_name e) sn s \<and>
            host_dispatch enc dec h s \<lparr>endname = end_name e, svcMeth = meth, req_args = fst (enc args)\<rparr> = Inr (h', rep) \<and>
            srv_count (objs h' s) = srv_count (objs h s) + 1 \<and> (\<forall>s'. s' = s \<or> objs h' s' = objs h s') \<and>
            (if ok then msg_ok rep \<and> dec (msg_reply rep) = Some v \<and> \<not> isServerDead rn' (end_name e) sn s
             else v = reply))"
proof (cases closed)
  case True
  then show ?thesis using assms by (auto simp: ClientEnd_Call_def bindr_eq_Inr)
next
  case False
  let ?req = "\<lparr>endname = end_name e, svcMeth = meth, req_args = fst (enc args)\<rparr>"
  from assms False obtain n rep t where p:
    "processReq enc dec (net_receive rn ?req) evs rn' d ?req h = Inr (Some (h', n, rep, t))"
    and ok: "ok \<longleftrightarrow> msg_ok rep" "if ok then dec (msg_reply rep) = Some v else v = reply"
    by (auto simp: ClientEnd_Call_net Let_def split: if_split_asm sum.split_asm option.split_asm prod.split_asm)
  from p show ?thesis
  proof (cases rule: processReq_cases)
    case lost
    then show ?thesis using ok by (simp add: failed_def)
  next
    case (executed sn s rep')
    then show ?thesis
      using ok host_dispatch_once [OF executed(2)]
      by (intro disjI2 exI [of _ sn] exI [of _ s] exI [of _ rep']) (auto simp: failed_def)
  qed
qed

lemma late_handler_receive [simp]: "late_handler (net_receive rn req') evs d req = late_handler rn evs d req"
  by (simp add: late_handler_def readEndnameInfo_def)

lemma call_late:
  assumes "callf e = None"
    and "ClientEnd_Call enc dec (net_serve enc dec rn evs rn' d) e closed meth args reply h = Inr (Some (h', ok, v))"
    and "late_handler rn evs d \<lparr>endname = end_name e, svcMeth = meth, req_args = fst (enc args)\<rparr> = Some s"
  shows "h' = h \<and> \<not> ok \<and> (\<exists>sn. leads_to rn (end_name e) sn s)"
proof -
  let ?req = "\<lparr>endname = end_name e, svcMeth = meth, req_args = fst (enc args)\<rparr>"
  obtain t where "processReq enc dec (net_receive rn ?req) evs rn' d ?req h = Inr (Some (h, rn', failed, t))"
    using late_handler_SomeD(2) [of "net_receive rn ?req" evs d ?req s enc dec rn' h] assms(3) by auto
  then show ?thesis
    using assms(1,2) late_handler_SomeD(1) [OF assms(3)]
    by (auto simp: ClientEnd_Call_net Let_def failed_def split: if_split_asm)
qed

section \<open>Properties\<close>

text \<open>
  C28. What a remote call tells its caller. If \<open>ClientEnd.Call\<close> returns, whatever the
  network draws and however the tester changes it meanwhile, then either no server has executed the
  request when the call returns, and it reports failure, or exactly one server, the one the end led
  to, has executed it exactly once; if the call reports success, the reply is that execution's, and the
  end was still enabled and the server still in place when the answer left, so that no answer
  comes from a server that has been deleted; a failure leaves the reply object alone. A handler
  that the network has given up waiting for and that takes effect only later belongs to a call that
  has reported failure and changed nothing, and to the server the end led to.
\<close>

theorem call_outcome:
  assumes "callf e = None"
    and "ClientEnd_Call enc dec (net_serve enc dec rn evs rn' d) e closed meth args reply h = Inr (Some (h', ok, v))"
  shows "(h' = h \<and> \<not> ok \<and> v = reply \<or>
         (\<exists>sn s rep. leads_to rn (end_name e) sn s \<and>
            host_dispatch enc dec h s \<lparr>endname = end_name e, svcMeth = meth, req_args = fst (enc args)\<rparr> = Inr (h', rep) \<and>
            srv_count (objs h' s) = srv_count (objs h s) + 1 \<and> (\<forall>s'. s' = s \<or> objs h' s' = objs h s') \<and>
            (if ok then msg_ok rep \<and> dec (msg_reply rep) = Some v \<and> \<not> isServerDead rn' (end_name e) sn s
             else v = reply))) \<and>
         (\<forall>s. late_handler rn evs d \<lparr>endname = end_name e, svcMeth = meth, req_args = fst (enc args)\<rparr> = Some s \<longrightarrow>
            h' = h \<and> \<not> ok \<and> (\<exists>sn. leads_to rn (end_name e) sn s))"
  using call_cases [OF assms] call_late [OF assms] by blast

text \<open>
  C29. A call over a reliable network arrives. If the network is reliable and the end leads to a
  server, the server stays in place and the end enabled at every poll and when the answer
  leaves, the handler answers, and the encoding is faithful, then the call to a method that
  \<open>MakeService\<close> registered returns true with the reply of the method, executed once on
  the argument, however the network delays and reorders.
\<close>

theorem reliable_call_succeeds:
  assumes "callf e = None" and "reliable rn" and "leads_to rn (end_name e) sn s"
    and "Answer \<in> set evs" and "\<forall>net. Recheck net \<in> set evs \<longrightarrow> \<not> isServerDead net (end_name e) sn s"
    and "\<not> isServerDead rn' (end_name e) sn s"
    and "\<forall>x. snd (enc x) \<and> dec (fst (enc x)) = Some x"
    and "dispatchf (objs h s) = None" and "services (objs h s) S = Some (MakeService S ms)"
    and "m \<in> set ms" and "suitable m" and "distinct (map mname ms)" and "CHR ''.'' \<notin> set (mname m)"
  shows "ClientEnd_Call enc dec (net_serve enc dec rn evs rn' d) e False (S @ ''.'' @ mname m) args reply h =
         (case Func m (world h) args of
            (w, v) \<Rightarrow> Inr (Some (\<lparr>objs = (objs h)(s := (objs h s)\<lparr>srv_count := srv_count (objs h s) + 1\<rparr>), world = w\<rparr>, True, v)))"
proof -
  let ?req = "\<lparr>endname = end_name e, svcMeth = S @ ''.'' @ mname m, req_args = fst (enc args)\<rparr>"
  obtain w v where f: "Func m (world h) args = (w, v)" by fastforce
  let ?h = "\<lparr>objs = (objs h)(s := (objs h s)\<lparr>srv_count := srv_count (objs h s) + 1\<rparr>), world = w\<rparr>"
  have disp: "host_dispatch enc dec h s ?req = Inr (?h, \<lparr>msg_ok = True, msg_reply = fst (enc v)\<rparr>)"
    using assms(7-13) f
    by (simp add: host_dispatch_def Server_dispatch_def Service_dispatch_suitable [OF add_methods_distinct])
  have wait: "wait_loop (\<lambda>net. isServerDead net (end_name e) sn s) evs = Some True"
    using assms(4,5) by (intro wait_loop_answer) auto
  have info: "readEndnameInfo (net_receive rn ?req) (end_name e) = (True, Some sn, Some s, True, longReordering rn)"
    using assms(2,3) by (simp add: readEndnameInfo_leads)
  have "\<exists>n t. processReq enc dec (net_receive rn ?req) evs rn' d ?req h =
      Inr (Some (?h, n, \<lparr>msg_ok = True, msg_reply = fst (enc v)\<rparr>, t))"
    using assms(6) disp wait info by (simp add: processReq_def Let_def)
  then obtain n t where p: "processReq enc dec (net_receive rn ?req) evs rn' d ?req h =
      Inr (Some (?h, n, \<lparr>msg_ok = True, msg_reply = fst (enc v)\<rparr>, t))" by blast
  show ?thesis
    unfolding ClientEnd_Call_net [OF assms(1)] Let_def p f using assms(7) by simp
qed

text \<open>
  C30. The network's own delays are bounded: whenever a request is answered, the short delay of an
  unreliable network, the delay of a reordered reply and the time after which a lost request
  fails add up to less than \<open>LONGDELAY\<close>, hence less than \<open>MAXDELAY\<close>; a request whose end
  leads nowhere fails within 100 milliseconds if long delays are off when that is asked; and a
  reliable network without reordering adds nothing to a request whose end leads to a server.
\<close>

theorem network_delay_bounded:
  assumes "processReq enc dec rn evs rn' d req h = Inr (Some (h', n, rep, t))"
  shows "t < LONGDELAY \<and> t < MAXDELAY \<and>
         (\<not> longDelays rn' \<and> (\<forall>sn s. \<not> leads_to rn (endname req) sn s) \<longrightarrow> t < 100) \<and>
         (reliable rn \<and> \<not> longReordering rn \<and> (\<exists>sn s. leads_to rn (endname req) sn s) \<longrightarrow> t = 0)"
proof -
  have "t < LONGDELAY" using assms by (cases rule: processReq_cases) auto
  moreover have "t < 100" if "\<not> longDelays rn'" and "\<And>sn s. \<not> leads_to rn (endname req) sn s"
  proof (cases rn "endname req" rule: readEndnameInfo_cases)
    case (up sn s)
    then show ?thesis using that by blast
  next
    case (down b sn s r l)
    then have "t = d_timeout d mod 100"
      using assms that(1) by (cases b; cases sn; cases s) (simp_all add: processReq_def IsLongDelays_def)
    then show ?thesis by simp
  qed
  moreover have "t = 0" if "reliable rn" "\<not> longReordering rn" "leads_to rn (endname req) sn s" for sn s
  proof -
    have "readEndnameInfo rn (endname req) = (True, Some sn, Some s, True, False)"
      using that by (simp add: readEndnameInfo_leads)
    then show ?thesis
      using assms by (auto simp: processReq_def bindr_eq_Inr Let_def split: option.split_asm if_split_asm)
  qed
  ultimately show ?thesis by (auto simp: MAXDELAY_def)
qed

text \<open>
  C31. A service built by reflection is well typed: the dispatcher of \<open>MakeService\<close>'s result never
  panics in the reflective call (no parameter is missing, the reply parameter has an element
  type, the arguments have the number and the types of the parameters). It ends the program, with the
  diagnosis the code prints, exactly when no exported method of the name has three parameters, the last a
  pointer, and no result, or the argument does not decode.
\<close>

theorem service_dispatch_well_typed:
  "Service_dispatch enc dec (MakeService name ms) w meth req = Inl p \<longleftrightarrow>
     p = Fatal \<and>
     ((\<forall>m \<in> set ms. \<not> (mname m = meth \<and> PkgPath m = '''' \<and> (\<exists>rcvr arg elem. In m = [rcvr, arg, RPtr elem]) \<and> NumOut m = 0)) \<or>
      dec (req_args req) = None)"
proof (cases "svc_methods (MakeService name ms) meth")
  case None
  then have "\<forall>m \<in> set ms. \<not> (mname m = meth \<and> suitable m)"
    using add_methods_None [of ms Map.empty meth] by (auto simp: MakeService_def)
  then show ?thesis using None by (auto simp: Service_dispatch_def suitable_iff)
next
  case (Some m)
  then have m: "m \<in> set ms" "suitable m" "mname m = meth"
    using add_methods_Some [of ms Map.empty meth m] by (auto simp: MakeService_def)
  then show ?thesis
    unfolding Service_dispatch_suitable [OF Some m(2)] suitable_iff [symmetric]
    by (auto split: option.splits prod.splits)
qed

section \<open>A network with one server\<close>

definition sample_net :: "string Network" where
  "sample_net = Enable (Connect (AddServer (projr (MakeEnd MakeNetwork ''e'')) ''s'' 0) ''e'' ''s'') ''e'' True"

definition sample_method :: "(nat, octets) Method" where
  "sample_method = \<lparr>PkgPath = '''', mname = ''Inc'', In = [RPtr (RNamed ''Counter''), RNamed ''Args'', RPtr (RNamed ''Reply'')], NumOut = 0, Func = (\<lambda>w v. (w + 1, v @ [7]))\<rparr>"

definition sample_host :: "(nat, octets) host" where
  "sample_host = \<lparr>objs = (\<lambda>_. AddService MakeServer (MakeService ''Counter'' [sample_method])), world = 0\<rparr>"

definition sample_end :: "(nat, octets) host ClientEnd" where
  "sample_end = \<lparr>end_name = ''e'', callf = None\<rparr>"

definition sample_draws :: draws where
  "sample_draws = \<lparr>d_short = 5, d_drop = 500, d_drop_reply = 700, d_reorder = 0, d_len = 1999, d_span = 3998, d_timeout = 99, d_late = False\<rparr>"

definition sample_enc :: "octets \<Rightarrow> octets \<times> bool" where
  "sample_enc x = (x, True)"

lemmas sample_defs = sample_net_def sample_method_def sample_host_def sample_end_def sample_draws_def sample_enc_def
  MakeNetwork_def MakeEnd_def AddServer_def Connect_def Enable_def DeleteServer_def
  MakeService_def AddService_def MakeServer_def suitable_def

lemmas call_eval = ClientEnd_Call_def Marshall_def Unmarshall_def net_serve_def net_receive_def processReq_def
  readEndnameInfo_def is_enabled_def isServerDead_def host_dispatch_def Server_dispatch_def Service_dispatch_def
  idx_def SHORTDELAY_def failed_def

lemma sample_leads: "leads_to sample_net ''e'' ''s'' 0"
  by (simp add: leads_to_def is_enabled_def sample_defs)

lemma sample_alive: "\<not> isServerDead sample_net ''e'' ''s'' 0"
  by (simp add: is_enabled_def isServerDead_def sample_defs)

lemma sample_suitable [simp]: "suitable sample_method" "mname sample_method = ''Inc''"
  by (simp_all add: suitable_def sample_method_def)

text \<open>The server is deleted while the handler runs: the call fails although the handler was executed.\<close>

lemma sample_deleted:
  "\<exists>h'. ClientEnd_Call sample_enc Some (net_serve sample_enc Some sample_net [Answer] (DeleteServer sample_net ''s'') sample_draws)
          sample_end False ''Counter.Inc'' [1] [] sample_host = Inr (Some (h', False, [])) \<and> world h' = 1"
  by (simp add: call_eval sample_defs Let_def)

theorem call_outcome_witness:
  "\<exists>h'. ClientEnd_Call sample_enc Some (net_serve sample_enc Some sample_net [Answer] (DeleteServer sample_net ''s'') sample_draws)
          sample_end False ''Counter.Inc'' [1] [] sample_host = Inr (Some (h', False, [])) \<and> world h' = 1 \<and>
        (\<exists>s. srv_count (objs h' s) = srv_count (objs sample_host s) + 1)"
proof -
  obtain h' where h': "ClientEnd_Call sample_enc Some (net_serve sample_enc Some sample_net [Answer] (DeleteServer sample_net ''s'') sample_draws)
      sample_end False ''Counter.Inc'' [1] [] sample_host = Inr (Some (h', False, []))" "world h' = 1"
    using sample_deleted by blast
  have "callf sample_end = None" by (simp add: sample_end_def)
  moreover have "h' \<noteq> sample_host" using h'(2) by (auto simp: sample_host_def)
  ultimately show ?thesis using call_outcome [OF _ h'(1)] h' by blast
qed

theorem reliable_call_succeeds_witness:
  "ClientEnd_Call sample_enc Some (net_serve sample_enc Some sample_net [Recheck sample_net, Answer] sample_net sample_draws)
     sample_end False (''Counter'' @ ''.'' @ mname sample_method) [1] [] sample_host =
   Inr (Some (\<lparr>objs = (objs sample_host)(0 := (objs sample_host 0)\<lparr>srv_count := srv_count (objs sample_host 0) + 1\<rparr>), world = 1\<rparr>,
     True, [1, 7]))"
proof -
  have f: "Func sample_method (world sample_host) [1] = (1, [1, 7])" by (simp add: sample_method_def sample_host_def)
  have n: "end_name sample_end = ''e''" "callf sample_end = None" "reliable sample_net"
    "dispatchf (objs sample_host 0) = None"
    "services (objs sample_host 0) ''Counter'' = Some (MakeService ''Counter'' [sample_method])"
    by (simp_all add: sample_defs)
  show ?thesis
    by (rule reliable_call_succeeds [where m = sample_method and ms = "[sample_method]" and sn = "''s''" and s = 0
          and args = "[1]" and h = sample_host, unfolded f prod.case])
      (use n sample_leads sample_alive in \<open>simp_all add: sample_enc_def\<close>)
qed

theorem network_delay_bounded_witness:
  "\<exists>h' n rep t. processReq sample_enc Some (LongReordering sample_net True) [Answer] sample_net sample_draws
      \<lparr>endname = ''e'', svcMeth = ''Counter.Inc'', req_args = [1]\<rparr> sample_host = Inr (Some (h', n, rep, t)) \<and>
      t = 2198 \<and> t < LONGDELAY"
proof -
  obtain h' n rep t where p: "processReq sample_enc Some (LongReordering sample_net True) [Answer] sample_net sample_draws
      \<lparr>endname = ''e'', svcMeth = ''Counter.Inc'', req_args = [1]\<rparr> sample_host = Inr (Some (h', n, rep, t))" "t = 2198"
    by (simp add: call_eval sample_defs LongReordering_def Let_def)
  then show ?thesis using network_delay_bounded [OF p(1)] by blast
qed

theorem service_dispatch_well_typed_witness:
  "Service_dispatch sample_enc Some (MakeService ''Counter'' [sample_method\<lparr>In := [RPtr (RNamed ''Counter''), RNamed ''Args'', RSlice (RNamed ''Reply'')]\<rparr>]) 0 ''Inc''
     \<lparr>endname = ''e'', svcMeth = ''Counter.Inc'', req_args = [1]\<rparr> = Inl Fatal"
  unfolding service_dispatch_well_typed by (simp add: sample_method_def)

end
