(* ===== verification/Codec.thy ===== *)
theory Codec
  imports Labrpc
begin

text \<open>
  A simple faithful encoding of strings and 64-bit words as bytes, from which the witnesses of the theories
  that take the encoding as a parameter build their instances: strings are terminated, words have 64 bits.
\<close>

fun enc_str :: "string \<Rightarrow> octets" where
  "enc_str [] = [0]"
| "enc_str (c # s) = 1 # word_of_nat (of_char c) # enc_str s"

fun dec_str :: "octets \<Rightarrow> string \<times> octets" where
  "dec_str (t # c # bs) = (if t = 0 then ([], c # bs) else (case dec_str bs of (s, r) \<Rightarrow> (char_of (unat c) # s, r)))"
| "dec_str bs = ([], [])"

definition enc_ver :: "Tversion \<Rightarrow> octets" where
  "enc_ver v = map (\<lambda>i. of_bool (bit v i)) [0..<64]"

definition dec_ver :: "octets \<Rightarrow> Tversion" where
  "dec_ver bs = horner_sum of_bool 2 (map (\<lambda>b. b = 1) (take 64 bs))"

lemma char_octet [simp]: "char_of (unat (word_of_nat (of_char c) :: 8 word)) = c"
proof -
  have "of_char c < (2 ^ 8 :: nat)" using nat_of_char_less_256 [of c] by simp
  then show ?thesis by (simp add: unat_of_nat take_bit_nat_eq_self)
qed

lemma dec_enc_str [simp]: "bs \<noteq> [] \<Longrightarrow> dec_str (enc_str s @ bs) = (s, bs)"
  by (induction s) (auto simp: neq_Nil_conv)

lemma dec_enc_str_end [simp]: "fst (dec_str (enc_str s)) = s"
proof (induction s)
  case (Cons c s)
  then show ?case by (cases "enc_str s") (auto split: prod.splits)
qed simp

lemma enc_str_nonempty [simp]: "enc_str s \<noteq> []"
  by (cases s) auto

lemma enc_ver_simps [simp]: "length (enc_ver v) = 64" "dec_ver (enc_ver v @ bs) = v"
proof -
  show "length (enc_ver v) = 64" by (simp add: enc_ver_def)
  have "take 64 (enc_ver v @ bs) = enc_ver v" by (simp add: enc_ver_def del: upt_rec_numeral)
  moreover have "map (\<lambda>b. b = (1 :: 8 word)) (enc_ver v) = map (bit v) [0..<64]"
    by (simp add: enc_ver_def comp_def del: upt_rec_numeral)
  moreover have "take_bit 64 v = v" by (simp add: take_bit_word_eq_self)
  ultimately show "dec_ver (enc_ver v @ bs) = v"
    by (simp add: dec_ver_def horner_sum_bit_eq_take_bit)
qed

end
