(* ===== verification/Sockrpc.thy ===== *)
theory Sockrpc
  imports Codec
begin

text \<open>
  Calls between the server processes. Every server runs in its own process and has no network of its own:
  the ends it calls forward the request over a socket to the tester (tester1/daemonsrv.go,
  sockrpc, testsrv.go), the tester puts it into the simulated network, and the network's
  server object forwards it over another socket to the process that serves it (daemonclnt.go).

  A connection is the demultiplexer of theory \<open>Demux\<close>: a call over it gets the answer to its own
  request, or fails, and then the other side may or may not have served it (the three outcomes \<open>delivery\<close>).
  A fatal error in a server process ends that process, which closes its connections. The messages
  are encoded by a parameter each.

  The theory shows that a forwarded call is the call over the network, and that the handler of the
  server at the far end is executed at most once, exactly once if the call reports success.
\<close>

section \<open>Remote procedures over a socket\<close>

record RPCArgs =
  rpc_Method :: string
  rpc_Args :: octets

type_synonym 'a codec = "('a \<Rightarrow> octets \<times> bool) \<times> (octets \<Rightarrow> 'a option)"

definition faithful :: "'a codec \<Rightarrow> bool" where
  "faithful c \<longleftrightarrow> (\<forall>x. snd (fst c x) \<and> snd c (fst (fst c x)) = Some x)"

text \<open>Continue with the result of something that may still be waiting.\<close>

definition bindw :: "'a option res \<Rightarrow> ('a \<Rightarrow> 'b option res) \<Rightarrow> 'b option res" where
  "bindw m f = bindr m (\<lambda>r. case r of None \<Rightarrow> Inr None | Some x \<Rightarrow> f x)"

lemma bindw_simps [simp]: "bindw (Inl e) f = Inl e" "bindw (Inr None) f = Inr None" "bindw (Inr (Some x)) f = f x"
  by (simp_all add: bindw_def)

definition RPC ::
  "RPCArgs codec \<Rightarrow> delivery \<Rightarrow> (octets \<Rightarrow> 's \<Rightarrow> ('s \<times> octets \<times> bool) option res) \<Rightarrow> string \<Rightarrow> octets \<Rightarrow> 's \<Rightarrow>
   ('s \<times> octets \<times> bool) option res" where
  "RPC c d serve meth args s =
     bindr (Marshall (fst c) \<lparr>rpc_Method = meth, rpc_Args = args\<rparr>) (\<lambda>b.
       case d of
         LostRequest \<Rightarrow> Inr (Some (s, [], False))
       | LostReply \<Rightarrow> bindw (serve b s) (\<lambda>(s', _, _). Inr (Some (s', [], False)))
       | Delivered \<Rightarrow> serve b s)"

definition ServeRequest ::
  "RPCArgs codec \<Rightarrow> (string \<Rightarrow> octets \<Rightarrow> 's \<Rightarrow> ('s \<times> octets \<times> bool) option res) \<Rightarrow> octets \<Rightarrow> 's \<Rightarrow>
   ('s \<times> octets \<times> bool) option res" where
  "ServeRequest c dispatch b s = bindr (Unmarshall (snd c) b) (\<lambda>req. dispatch (rpc_Method req) (rpc_Args req) s)"

text \<open>\<open>reply\<close> is the object the caller allocated; the result says whether the call succeeded.\<close>

definition RPCMarshall ::
  "'a codec \<Rightarrow> 'r codec \<Rightarrow> RPCArgs codec \<Rightarrow> delivery \<Rightarrow> (octets \<Rightarrow> 's \<Rightarrow> ('s \<times> octets \<times> bool) option res) \<Rightarrow>
   string \<Rightarrow> 'a \<Rightarrow> 'r \<Rightarrow> 's \<Rightarrow> ('s \<times> bool \<times> 'r) option res" where
  "RPCMarshall ca cr c d serve meth args reply s =
     bindr (Marshall (fst ca) args) (\<lambda>a.
     bindw (RPC c d serve meth a s) (\<lambda>(s', rep, ok).
       if \<not> ok then Inr (Some (s', False, reply))
       else bindr (Unmarshall (snd cr) rep) (\<lambda>v. Inr (Some (s', True, v)))))"

lemma RPC_served:
  assumes "faithful c"
  shows "RPC c d (ServeRequest c dispatch) meth args s =
     (case d of LostRequest \<Rightarrow> Inr (Some (s, [], False))
      | LostReply \<Rightarrow> bindw (dispatch meth args s) (\<lambda>(s', _, _). Inr (Some (s', [], False)))
      | Delivered \<Rightarrow> dispatch meth args s)"
proof -
  let ?x = "\<lparr>rpc_Method = meth, rpc_Args = args\<rparr>"
  obtain b where "fst c ?x = (b, True)" "snd c b = Some ?x"
    using assms unfolding faithful_def by (metis prod.collapse)
  then show ?thesis by (simp add: RPC_def ServeRequest_def Marshall_def Unmarshall_def split: delivery.split)
qed

section \<open>Forwarding to the tester\<close>

record ForwardArgs =
  fw_Method :: string
  fw_End :: string
  fw_Args :: octets
  fw_Id :: "64 word"

record ForwardReply =
  fw_Rep :: octets
  fw_Ok :: bool

text \<open>\<open>serve\<close> is what the simulated network does with a request, in which the end must exist.\<close>

definition TesterRPC_Forward ::
  "string Network \<Rightarrow> (string reqMsg \<Rightarrow> 's \<Rightarrow> ('s \<times> replyMsg) option res) \<Rightarrow> bool \<Rightarrow> ForwardArgs \<Rightarrow> 's \<Rightarrow>
   ('s \<times> ForwardReply) option res" where
  "TesterRPC_Forward rn serve closed fa s =
     bindr (LookupEnd rn (fw_End fa)) (\<lambda>e.
     bindw (ClientEnd_Forward serve \<lparr>end_name = e, callf = None\<rparr> closed (fw_Method fa) (fw_Args fa) s)
       (\<lambda>(s', rep, ok). Inr (Some (s', \<lparr>fw_Rep = rep, fw_Ok = ok\<rparr>))))"

text \<open>
  The dispatcher of the tester's server: the service TesterRPC with its method Forward; \<open>other\<close> is what it does with
  other methods. The reply is encoded as the dispatcher of a service encodes it.
\<close>

definition tester_dispatch ::
  "ForwardArgs codec \<Rightarrow> ForwardReply codec \<Rightarrow> (string \<Rightarrow> octets \<Rightarrow> 's \<Rightarrow> ('s \<times> octets \<times> bool) option res) \<Rightarrow>
   string Network \<Rightarrow> (string reqMsg \<Rightarrow> 's \<Rightarrow> ('s \<times> replyMsg) option res) \<Rightarrow> bool \<Rightarrow>
   string \<Rightarrow> octets \<Rightarrow> 's \<Rightarrow> ('s \<times> octets \<times> bool) option res" where
  "tester_dispatch cf cr other rn serve closed meth args s =
     (if meth = ''TesterRPC.Forward'' then
        bindr (Unmarshall (snd cf) args) (\<lambda>fa.
        bindw (TesterRPC_Forward rn serve closed fa s) (\<lambda>(s', reply). Inr (Some (s', fst (fst cr reply), True))))
      else other meth args s)"

text \<open>\<open>forward\<close> of a server process; \<open>ident\<close> is the next value of its counter.\<close>

definition DaemonSrv_forward ::
  "ForwardArgs codec \<Rightarrow> ForwardReply codec \<Rightarrow> RPCArgs codec \<Rightarrow> delivery \<Rightarrow> (octets \<Rightarrow> 's \<Rightarrow> ('s \<times> octets \<times> bool) option res) \<Rightarrow>
   64 word \<Rightarrow> string \<Rightarrow> string \<Rightarrow> octets \<Rightarrow> 's \<Rightarrow> ('s \<times> octets \<times> bool) option res" where
  "DaemonSrv_forward cf cr c d tester ident e meth b s =
     bindw (RPCMarshall cf cr c d tester ''TesterRPC.Forward''
              \<lparr>fw_Method = meth, fw_End = e, fw_Args = b, fw_Id = ident\<rparr> \<lparr>fw_Rep = [], fw_Ok = False\<rparr> s)
       (\<lambda>(s', ok, reply). Inr (Some (s', if \<not> ok then ([], False) else (fw_Rep reply, fw_Ok reply))))"

text \<open>
  A call through an end of a server process: \<open>ClientEnd.Call\<close> with the function that
  \<open>SetCall\<close> has set.
\<close>

definition daemon_Call ::
  "('v \<Rightarrow> octets \<times> bool) \<Rightarrow> (octets \<Rightarrow> 'v option) \<Rightarrow> (string \<Rightarrow> string \<Rightarrow> octets \<Rightarrow> 's \<Rightarrow> ('s \<times> octets \<times> bool) option res) \<Rightarrow>
   string \<Rightarrow> string \<Rightarrow> 'v \<Rightarrow> 'v \<Rightarrow> 's \<Rightarrow> ('s \<times> bool \<times> 'v) option res" where
  "daemon_Call enc dec f e meth args reply s =
     bindr (Marshall enc args) (\<lambda>b.
     bindw (f e meth b s) (\<lambda>(s', rep, ok).
       if \<not> ok then Inr (Some (s', False, reply))
       else bindr (Unmarshall dec rep) (\<lambda>v. Inr (Some (s', True, v)))))"

text \<open>It is that function, except that it may be waiting or end the tester.\<close>

lemma daemon_Call_is_Call:
  assumes "\<And>e meth b s. f e meth b s = Inr (Some (g s e meth b))"
  shows "daemon_Call enc dec f (end_name e) meth args reply s = ClientEnd_Call enc dec serve (SetCall e g) closed meth args reply s"
  by (simp add: daemon_Call_def ClientEnd_Call_def SetCall_def assms)

lemma forward_served:
  assumes "faithful cf" and "faithful cr" and "faithful c" and "e \<in> ends rn"
  shows "DaemonSrv_forward cf cr c d (ServeRequest c (tester_dispatch cf cr other rn serve closed)) ident e meth b s =
     (case d of LostRequest \<Rightarrow> Inr (Some (s, [], False))
      | LostReply \<Rightarrow> bindw (ClientEnd_Forward serve \<lparr>end_name = e, callf = None\<rparr> closed meth b s) (\<lambda>(s', _, _). Inr (Some (s', [], False)))
      | Delivered \<Rightarrow> ClientEnd_Forward serve \<lparr>end_name = e, callf = None\<rparr> closed meth b s)"
proof -
  let ?fa = "\<lparr>fw_Method = meth, fw_End = e, fw_Args = b, fw_Id = ident\<rparr>"
  let ?net = "ClientEnd_Forward serve \<lparr>end_name = e, callf = None\<rparr> closed meth b s"
  obtain a where a: "fst cf ?fa = (a, True)" "snd cf a = Some ?fa"
    using assms(1) unfolding faithful_def by (metis prod.collapse)
  have cr: "snd cr (fst (fst cr x)) = Some x" for x using assms(2) by (simp add: faithful_def)
  have disp: "tester_dispatch cf cr other rn serve closed ''TesterRPC.Forward'' a s =
      bindw ?net (\<lambda>(s', rep, ok). Inr (Some (s', fst (fst cr \<lparr>fw_Rep = rep, fw_Ok = ok\<rparr>), True)))"
    using a assms(4)
    by (cases ?net) (auto simp: tester_dispatch_def TesterRPC_Forward_def Unmarshall_def LookupEnd_def bindw_def split: option.split)
  show ?thesis
    by (cases ?net)
      (auto simp: DaemonSrv_forward_def RPCMarshall_def Marshall_def Unmarshall_def a RPC_served [OF assms(3)] disp cr bindw_def
        split: delivery.split option.split)
qed

section \<open>The server process at the far end\<close>

text \<open>
  The processes that serve: for each the labrpc server that dispatches in it and the state of its services, \<open>None\<close>
  when it has ended. \<open>forward\<close> of the tester's daemon client is the dispatch function of the network's server object.
\<close>

type_synonym ('x, 'v) daemons = "nat \<Rightarrow> (('x, 'v) Server \<times> 'x) option"

definition DaemonClnt_forward ::
  "RPCArgs codec \<Rightarrow> delivery \<Rightarrow> ('v \<Rightarrow> octets \<times> bool) \<Rightarrow> (octets \<Rightarrow> 'v option) \<Rightarrow> nat \<Rightarrow>
   ('x, 'v) daemons \<Rightarrow> string \<Rightarrow> octets \<Rightarrow> ('x, 'v) daemons \<times> octets \<times> bool" where
  "DaemonClnt_forward c d enc dec i w meth b =
     (case w i of
        None \<Rightarrow> (w, [], False)
      | Some ds \<Rightarrow>
          (case RPC c d (ServeRequest c (\<lambda>m a (rs, x).
                  bindr (Server_Dispatch enc dec rs x m ''tester'' a) (\<lambda>(rs', x', rep, ok). Inr (Some ((rs', x'), rep, ok)))))
                meth b ds of
             Inr (Some (ds', rep, ok)) \<Rightarrow> (w(i := Some ds'), rep, ok)
           | _ \<Rightarrow> (w(i := None), [], False)))"

text \<open>The handler of process \<open>i\<close> runs once, and what is reported of it, if anything, is its reply.\<close>

definition runs_once ::
  "('v \<Rightarrow> octets \<times> bool) \<Rightarrow> (octets \<Rightarrow> 'v option) \<Rightarrow> string \<Rightarrow> octets \<Rightarrow> nat \<Rightarrow> ('x, 'v) daemons \<Rightarrow> ('x, 'v) daemons \<Rightarrow>
   octets option \<Rightarrow> bool" where
  "runs_once enc dec meth b i w w' result \<longleftrightarrow>
     (\<exists>rs x. w i = Some (rs, x) \<and>
        (case Server_Dispatch enc dec rs x meth ''tester'' b of
           Inl _ \<Rightarrow> w' = w(i := None) \<and> result = None
         | Inr (rs', x', rep, ok) \<Rightarrow> w' = w(i := Some (rs', x')) \<and> (result = None \<or> ok \<and> result = Some rep)))"

lemma DaemonClnt_forward_once:
  assumes "faithful c" and "DaemonClnt_forward c d enc dec i w meth b = (w', rep, ok)"
  shows "w' = w \<and> \<not> ok \<or> runs_once enc dec meth b i w w' (if ok then Some rep else None)"
proof (cases "w i")
  case None
  then show ?thesis using assms(2) by (simp add: DaemonClnt_forward_def)
next
  case (Some ds)
  obtain rs x where ds: "ds = (rs, x)" by (cases ds)
  show ?thesis
  proof (cases "d = LostRequest")
    case True
    then have "w' = w(i := Some ds)" "\<not> ok" using assms(2) Some by (simp_all add: DaemonClnt_forward_def RPC_served [OF assms(1)])
    then show ?thesis using Some by (simp add: fun_upd_idem)
  next
    case False
    then have "runs_once enc dec meth b i w w' (if ok then Some rep else None)"
      using assms(2) Some ds
      by (cases "Server_Dispatch enc dec rs x meth ''tester'' b"; cases d)
        (auto simp: DaemonClnt_forward_def RPC_served [OF assms(1)] runs_once_def split: prod.splits)
    then show ?thesis ..
  qed
qed

lemma host_dispatch_daemon:
  assumes "faithful c" and "dispatchf (objs h i) = Some (DaemonClnt_forward c d enc dec i)"
    and "host_dispatch enc dec h i req = Inr (h', reply)"
  shows "world h' = world h \<and> \<not> msg_ok reply \<or>
         runs_once enc dec (svcMeth req) (req_args req) i (world h) (world h') (if msg_ok reply then Some (msg_reply reply) else None)"
proof -
  obtain w rep ok where f: "DaemonClnt_forward c d enc dec i (world h) (svcMeth req) (req_args req) = (w, rep, ok)"
    by (metis prod_cases3)
  then have "world h' = w" "reply = \<lparr>msg_ok = ok, msg_reply = rep\<rparr>"
    using assms(2,3) by (auto simp: host_dispatch_def Server_dispatch_def Let_def bindr_eq_Inr split: option.splits prod.splits)
  then show ?thesis using DaemonClnt_forward_once [OF assms(1) f] by (cases ok) simp_all
qed

section \<open>Properties\<close>

text \<open>
  A forwarded call is the call over the network: when the connection to the tester delivers, an end
  of a server process behaves as the tester's own end of that name; when it breaks, the call reports failure and has
  done nothing, or what the network did with it.
\<close>

lemma forwarded_call:
  assumes "faithful cf" and "faithful cr" and "faithful c" and "e \<in> ends rn"
  shows "daemon_Call enc dec (DaemonSrv_forward cf cr c d (ServeRequest c (tester_dispatch cf cr other rn serve closed)) ident) e meth args reply s =
     (case d of
        Delivered \<Rightarrow> ClientEnd_Call enc dec serve \<lparr>end_name = e, callf = None\<rparr> closed meth args reply s
      | LostReply \<Rightarrow> bindr (Marshall enc args) (\<lambda>b.
          bindw (ClientEnd_Forward serve \<lparr>end_name = e, callf = None\<rparr> closed meth b s) (\<lambda>(s', _, _). Inr (Some (s', False, reply))))
      | LostRequest \<Rightarrow> bindr (Marshall enc args) (\<lambda>b. Inr (Some (s, False, reply))))"
  unfolding daemon_Call_def forward_served [OF assms]
  by (cases "Marshall enc args"; cases "serve \<lparr>endname = e, svcMeth = meth, req_args = projr (Marshall enc args)\<rparr> s"; cases d)
    (auto simp: ClientEnd_Call_def ClientEnd_Forward_def bindw_def split: option.split)

text \<open>
  C40. A call from one server process to another runs the handler there at most once. The request goes
  over a socket to the tester, through the simulated network and over a second socket to the server, and each
  of the three may lose it or its answer. If the call returns, either no server process has executed it by then and
  it reports failure; or exactly one has, the one the end led to, its handler has run once on the
  arguments sent, a call that reports success returns that handler's reply, and a handler that ended its process makes the call fail.
\<close>

theorem forwarded_call_outcome:
  assumes "faithful cf" and "faithful cr" and "faithful c" and "e \<in> ends rn"
    and "\<forall>j. dispatchf (objs h j) = Some (DaemonClnt_forward c (dd j) enc dec j)"
    and "daemon_Call enc dec (DaemonSrv_forward cf cr c d
           (ServeRequest c (tester_dispatch cf cr other rn (net_serve enc dec rn evs rn' dr) closed)) ident) e meth args reply h
         = Inr (Some (h', ok, v))"
  shows "world h' = world h \<and> \<not> ok \<and> v = reply \<or>
         (\<exists>sn j result. leads_to rn e sn j \<and> runs_once enc dec meth (fst (enc args)) j (world h) (world h') result \<and>
            (if ok then \<exists>r. result = Some r \<and> dec r = Some v else v = reply))"
proof -
  let ?ce = "\<lparr>end_name = e, callf = None\<rparr>" and ?serve = "net_serve enc dec rn evs rn' dr"
  let ?req = "\<lparr>endname = e, svcMeth = meth, req_args = fst (enc args)\<rparr>"
  note eval = assms(6) [unfolded forwarded_call [OF assms(1-4)]]
  have "h' = h \<and> \<not> ok \<and> v = reply \<or>
      (\<exists>sn j rep. leads_to rn e sn j \<and> host_dispatch enc dec h j ?req = Inr (h', rep) \<and>
         (if ok then msg_ok rep \<and> dec (msg_reply rep) = Some v else v = reply))"
  proof (cases d)
    case Delivered
    then have "ClientEnd_Call enc dec ?serve ?ce closed meth args reply h = Inr (Some (h', ok, v))" using eval by simp
    from call_cases [OF _ this] show ?thesis by (simp split: if_splits) blast+
  next
    case LostReply
    then have v: "\<not> ok" "v = reply" and r: "h' = h \<or> (\<exists>rep. ?serve ?req h = Inr (Some (h', rep)))"
      using eval by (auto simp: Marshall_def ClientEnd_Forward_def bindw_def bindr_eq_Inr split: prod.splits option.splits if_splits)
    show ?thesis
    proof (cases "h' = h")
      case False
      then obtain n rep t where "processReq enc dec (net_receive rn ?req) evs rn' dr ?req h = Inr (Some (h', n, rep, t))"
        using r by (auto simp: net_serve_def bindr_eq_Inr)
      then show ?thesis
        by (cases rule: processReq_cases) (use v False in auto)
    qed (use v in simp)
  next
    case LostRequest
    then show ?thesis using eval by (auto simp: bindr_eq_Inr)
  qed
  then show ?thesis
  proof
    assume "\<exists>sn j rep. leads_to rn e sn j \<and> host_dispatch enc dec h j ?req = Inr (h', rep) \<and>
         (if ok then msg_ok rep \<and> dec (msg_reply rep) = Some v else v = reply)"
    then obtain sn j rep where j: "leads_to rn e sn j" "host_dispatch enc dec h j ?req = Inr (h', rep)"
      "if ok then msg_ok rep \<and> dec (msg_reply rep) = Some v else v = reply" by blast
    have "world h' = world h \<and> \<not> msg_ok rep \<or>
        runs_once enc dec meth (fst (enc args)) j (world h) (world h') (if msg_ok rep then Some (msg_reply rep) else None)"
      using host_dispatch_daemon [OF assms(3) assms(5) [rule_format] j(2)] by simp
    then show ?thesis using j(1,3) by (cases ok) auto
  qed simp
qed

section \<open>An example\<close>

definition rpc_codec :: "RPCArgs codec" where
  "rpc_codec = (\<lambda>x. (enc_str (rpc_Method x) @ 0 # rpc_Args x, True),
     \<lambda>b. case dec_str b of (m, r) \<Rightarrow> Some \<lparr>rpc_Method = m, rpc_Args = tl r\<rparr>)"

definition args_codec :: "ForwardArgs codec" where
  "args_codec = (\<lambda>x. (enc_ver (fw_Id x) @ enc_str (fw_Method x) @ enc_str (fw_End x) @ 0 # fw_Args x, True),
     \<lambda>b. case dec_str (drop 64 b) of (m, r) \<Rightarrow> case dec_str r of (e, r') \<Rightarrow>
       Some \<lparr>fw_Method = m, fw_End = e, fw_Args = tl r', fw_Id = dec_ver b\<rparr>)"

definition reply_codec :: "ForwardReply codec" where
  "reply_codec = (\<lambda>x. (of_bool (fw_Ok x) # fw_Rep x, True), \<lambda>b. Some \<lparr>fw_Rep = tl b, fw_Ok = (hd b = 1)\<rparr>)"

lemma codecs_faithful: "faithful rpc_codec" "faithful args_codec" "faithful reply_codec"
  by (simp_all add: faithful_def rpc_codec_def args_codec_def reply_codec_def)

text \<open>One server process with a counter; the network's server object forwards to it.\<close>

definition counter_host :: "((nat, octets) daemons, octets) host" where
  "counter_host = \<lparr>objs = (\<lambda>j. SetDispatch MakeServer (DaemonClnt_forward rpc_codec Delivered sample_enc Some j)),
     world = [0 \<mapsto> (AddService MakeServer (MakeService ''Counter'' [sample_method]), 0)]\<rparr>"

definition counter_call :: "(((nat, octets) daemons, octets) host \<times> bool \<times> octets) option res" where
  "counter_call = daemon_Call sample_enc Some (DaemonSrv_forward args_codec reply_codec rpc_codec Delivered
      (ServeRequest rpc_codec (tester_dispatch args_codec reply_codec (\<lambda>_ _ _. Inl Fatal) sample_net
        (net_serve sample_enc Some sample_net [Answer] sample_net sample_draws) False)) 1) ''e'' ''Counter.Inc'' [5] [] counter_host"

lemma counter_forward:
  "DaemonClnt_forward rpc_codec Delivered sample_enc Some 0 (world counter_host) ''Counter.Inc'' [5] =
     ((world counter_host)(0 \<mapsto> ((AddService MakeServer (MakeService ''Counter'' [sample_method]))\<lparr>srv_count := 1\<rparr>, 1)), [5, 7], True)"
  unfolding DaemonClnt_forward_def RPC_served [OF codecs_faithful(1)]
  by (simp add: counter_host_def Server_Dispatch_def Server_dispatch_def Service_dispatch_def Unmarshall_def sample_defs idx_def)

lemma counter_call_returns: "\<exists>h'. counter_call = Inr (Some (h', True, [5, 7]))"
proof -
  have e: "''e'' \<in> ends sample_net" by (simp add: sample_defs)
  have d: "dispatchf (objs counter_host 0) = Some (DaemonClnt_forward rpc_codec Delivered sample_enc Some 0)"
    by (simp add: counter_host_def SetDispatch_def)
  show ?thesis
    unfolding counter_call_def forwarded_call [OF codecs_faithful(2,3,1) e]
    using d counter_forward
    by (simp add: ClientEnd_Call_def Marshall_def Unmarshall_def net_serve_def net_receive_def processReq_def readEndnameInfo_def
        is_enabled_def isServerDead_def host_dispatch_def Server_dispatch_def sample_net_def sample_draws_def sample_enc_def
        MakeNetwork_def MakeEnd_def AddServer_def Connect_def Enable_def Let_def)
qed

theorem forwarded_call_outcome_witness:
  "\<exists>h'. counter_call = Inr (Some (h', True, [5, 7])) \<and>
     runs_once sample_enc Some ''Counter.Inc'' [5] 0 (world counter_host) (world h') (Some [5, 7])"
proof -
  obtain h' where h': "counter_call = Inr (Some (h', True, [5, 7]))" using counter_call_returns by blast
  have e: "''e'' \<in> ends sample_net" by (simp add: sample_defs)
  have d: "\<forall>j. dispatchf (objs counter_host j) = Some (DaemonClnt_forward rpc_codec ((\<lambda>_. Delivered) j) sample_enc Some j)"
    by (simp add: counter_host_def SetDispatch_def)
  obtain sn j where j: "leads_to sample_net ''e'' sn j"
    "runs_once sample_enc Some ''Counter.Inc'' (fst (sample_enc [5])) j (world counter_host) (world h') (Some [5, 7])"
    using forwarded_call_outcome [OF codecs_faithful(2,3,1) e d h' [unfolded counter_call_def]] by auto
  then have "j = 0" using sample_leads by (simp add: leads_to_def)
  then show ?thesis using h' j(2) by (intro exI [of _ h']) (simp add: sample_enc_def)
qed

end
