(* ===== verification/KvNetwork.thy ===== *)
theory KvNetwork
  imports KvClerk Sockrpc
begin

text \<open>
  The key/value server behind the simulated network, wired as the tester does it (tester1/group.go): the network's
  server object forwards each request over a socket to the process that serves it. The clerk's remote
  call, made through \<open>ClientEnd.Call\<close> and \<open>processReq\<close>, is one of the three deliveries over
  which the theorems of \<open>KvClerk\<close> quantify, except that a handler the network has given up waiting for may still
  perform its put later.
\<close>

text \<open>The values that travel, before encoding.\<close>

datatype kv_val =
    VPutArgs PutArgs
  | VPutReply PutReply
  | VGetArgs GetArgs
  | VGetReply GetReply

text \<open>The world of the clerk around one call: the server, what the network does, and the history.\<close>

definition call_world :: "KVServer \<Rightarrow> delivery \<Rightarrow> (bool \<times> PutArgs) list \<Rightarrow> KVServer world" where
  "call_world kv d hs = \<lparr>srv = kv, sched = [([], d)], hist = hs\<rparr>"

text \<open>The method \<open>Put\<close> of the service that \<open>MakeService\<close> finds on a key/value server.\<close>

definition Put_method :: "(KVServer, kv_val) Method \<Rightarrow> bool" where
  "Put_method m \<longleftrightarrow> suitable m \<and> mname m = ''Put'' \<and>
     (\<forall>kv a. Func m kv (VPutArgs a) = map_prod id VPutReply (KVServer_Put kv a zeroPutReply))"

text \<open>
  Server object \<open>s\<close> forwards to process \<open>s\<close>, whose labrpc server \<open>rs\<close> has registered the methods \<open>ms\<close> of the
  key/value server in state \<open>kv\<close>; \<open>dd\<close> is what the socket does with the next request.
\<close>

definition serves_kv ::
  "RPCArgs codec \<Rightarrow> (kv_val \<Rightarrow> octets \<times> bool) \<Rightarrow> (octets \<Rightarrow> kv_val option) \<Rightarrow> (KVServer, kv_val) Method list \<Rightarrow> nat \<Rightarrow>
   ((KVServer, kv_val) daemons, kv_val) host \<Rightarrow> delivery \<Rightarrow> (KVServer, kv_val) Server \<Rightarrow> KVServer \<Rightarrow> bool" where
  "serves_kv c enc dec ms s h dd rs kv \<longleftrightarrow>
     dispatchf (objs h s) = Some (DaemonClnt_forward c dd enc dec s) \<and> world h s = Some (rs, kv) \<and>
     dispatchf rs = None \<and> services rs ''KVServer'' = Some (MakeService ''KVServer'' ms)"

definition put_request :: "(kv_val \<Rightarrow> octets \<times> bool) \<Rightarrow> string \<Rightarrow> PutArgs \<Rightarrow> string reqMsg" where
  "put_request enc e a = \<lparr>endname = e, svcMeth = ''KVServer.Put'', req_args = fst (enc (VPutArgs a))\<rparr>"

lemma Server_Dispatch_Put:
  assumes "\<forall>x. snd (enc x) \<and> dec (fst (enc x)) = Some x"
    and "dispatchf rs = None" and "services rs ''KVServer'' = Some (MakeService ''KVServer'' ms)"
    and "m \<in> set ms" and "Put_method m" and "distinct (map mname ms)"
  shows "Server_Dispatch enc dec rs kv ''KVServer.Put'' clnt (fst (enc (VPutArgs a))) =
     (case srv_put kv a of
        (kv', err) \<Rightarrow> Inr (rs\<lparr>srv_count := srv_count rs + 1\<rparr>, kv', fst (enc (VPutReply \<lparr>PutErr = err\<rparr>)), True))"
proof -
  have m: "svc_methods (MakeService ''KVServer'' ms) ''Put'' = Some m" "suitable m"
    "\<And>kv b. Func m kv (VPutArgs b) = map_prod id VPutReply (KVServer_Put kv b zeroPutReply)"
    using add_methods_distinct [OF assms(6,4), of "''KVServer''"] assms(5) by (auto simp: Put_method_def)
  obtain kv' r where f: "KVServer_Put kv a zeroPutReply = (kv', r)" by fastforce
  have "split_last_dot ''KVServer.Put'' = Some (''KVServer'', ''Put'')" by simp
  moreover obtain x where "r = \<lparr>PutErr = x\<rparr>" by (cases r)
  ultimately show ?thesis
    using assms(1,2,3) f
    by (simp add: Server_Dispatch_def Server_dispatch_def Service_dispatch_suitable [OF m(1,2)] m(3) srv_put_def
        del: split_last_dot.simps)
qed

text \<open>What the arrival of the clerk's request at the server object does, for each course of the socket call.\<close>

lemma host_dispatch_Put:
  assumes "\<forall>x. snd (enc x) \<and> dec (fst (enc x)) = Some x" and "faithful c" and "serves_kv c enc dec ms s h dd rs kv"
    and "m \<in> set ms" and "Put_method m" and "distinct (map mname ms)"
  shows "\<exists>h' rep. host_dispatch enc dec h s (put_request enc e a) = Inr (h', rep) \<and>
     (\<forall>j. j \<noteq> s \<longrightarrow> world h' j = world h j) \<and>
     (\<exists>rs'. world h' s = Some (rs', if dd = LostRequest then kv else fst (srv_put kv a))) \<and>
     msg_ok rep = (dd = Delivered) \<and>
     (dd = Delivered \<longrightarrow> dec (msg_reply rep) = Some (VPutReply \<lparr>PutErr = snd (srv_put kv a)\<rparr>))"
proof -
  have w: "dispatchf (objs h s) = Some (DaemonClnt_forward c dd enc dec s)" "world h s = Some (rs, kv)" "dispatchf rs = None"
    "services rs ''KVServer'' = Some (MakeService ''KVServer'' ms)" using assms(3) by (simp_all add: serves_kv_def)
  note disp = Server_Dispatch_Put [OF assms(1) w(3,4) assms(4-6)]
  obtain kv' err where put: "srv_put kv a = (kv', err)" by fastforce
  have "split_last_dot ''KVServer.Put'' = Some (''KVServer'', ''Put'')" by simp
  then show ?thesis
    using w(1,2) disp [of kv "''tester''" a] assms(1) put
    by (cases dd) (simp_all add: put_request_def host_dispatch_def Server_dispatch_def DaemonClnt_forward_def
        RPC_served [OF assms(2)] del: split_last_dot.simps)
qed

text \<open>
  C32. The clerk's call refines the three deliveries. Take a server that is wired as the tester wires it
  and that registered the handlers of kvsrv1, and encodings that give back what was encoded.
  Whenever the call of \<open>Put\<close> through \<open>ClientEnd.Call\<close> and the simulated network returns, the
  state the server has then and the answer are those of one of \<open>LostRequest\<close>, \<open>LostReply\<close> and
  \<open>Delivered\<close>, and no other server has changed. If the network had given up waiting for the handler and it has
  not taken effect yet, the call has reported failure and changed nothing, and what the handler does later, in
  whatever state the server is then, is to perform this put or nothing.
\<close>

theorem put_call_refines_delivery:
  assumes "\<forall>x. snd (enc x) \<and> dec (fst (enc x)) = Some x" and "faithful c" and "callf e = None"
    and "leads_to rn (end_name e) sn s" and "serves_kv c enc dec ms s h dd rs kv"
    and "m \<in> set ms" and "Put_method m" and "distinct (map mname ms)"
    and "ClientEnd_Call enc dec (net_serve enc dec rn evs rn' d) e closed ''KVServer.Put'' (VPutArgs a)
           (VPutReply zeroPutReply) h = Inr (Some (h', ok, v))"
  shows "(\<exists>dl w' r rs'. net_Put srv_put (call_world kv dl hs) a = (w', if ok then Some r else None) \<and>
            v = VPutReply r \<and> world h' s = Some (rs', srv w') \<and> (\<forall>j. j \<noteq> s \<longrightarrow> world h' j = world h j)) \<and>
         (\<forall>s'. late_handler rn evs d (put_request enc (end_name e) a) = Some s' \<longrightarrow>
            s' = s \<and> \<not> ok \<and> h' = h \<and>
            (\<forall>h2 dd2 rs2 kv2. serves_kv c enc dec ms s h2 dd2 rs2 kv2 \<longrightarrow>
               (\<exists>h3 rep rs3 kv3. host_dispatch enc dec h2 s (put_request enc (end_name e) a) = Inr (h3, rep) \<and>
                  world h3 s = Some (rs3, kv3) \<and> kv3 \<in> {kv2, fst (srv_put kv2 a)})))"
proof (rule conjI)
  note net = net_Put_def call_world_def run_puts_def Let_def
  note put = host_dispatch_Put [OF assms(1,2) _ assms(6-8)]
  consider "h' = h" "\<not> ok" "v = VPutReply zeroPutReply"
    | rep sn' s' where "leads_to rn (end_name e) sn' s'" "host_dispatch enc dec h s' (put_request enc (end_name e) a) = Inr (h', rep)"
      "if ok then msg_ok rep \<and> dec (msg_reply rep) = Some v else v = VPutReply zeroPutReply"
    using call_cases [OF assms(3,9)] unfolding put_request_def by metis
  then show "\<exists>dl w' r rs'. net_Put srv_put (call_world kv dl hs) a = (w', if ok then Some r else None) \<and>
            v = VPutReply r \<and> world h' s = Some (rs', srv w') \<and> (\<forall>j. j \<noteq> s \<longrightarrow> world h' j = world h j)"
  proof cases
    case 1
    then show ?thesis using assms(5) by (intro exI [of _ LostRequest]) (simp add: net serves_kv_def)
  next
    case 2
    have s: "s' = s" using 2(1) assms(4) by (simp add: leads_to_def)
    obtain rs' where after: "\<forall>j. j \<noteq> s \<longrightarrow> world h' j = world h j"
      "world h' s = Some (rs', if dd = LostRequest then kv else fst (srv_put kv a))" "msg_ok rep = (dd = Delivered)"
      "dd = Delivered \<longrightarrow> dec (msg_reply rep) = Some (VPutReply \<lparr>PutErr = snd (srv_put kv a)\<rparr>)"
      using put [OF assms(5), of "end_name e" a] 2(2) s by auto
    define dl where "dl = (if dd = Delivered \<and> \<not> ok then LostReply else dd)"
    show ?thesis
      by (rule exI [of _ dl], cases dd; cases ok) (use after 2(3) in \<open>auto simp: net dl_def\<close>)
  qed
next
  show "\<forall>s'. late_handler rn evs d (put_request enc (end_name e) a) = Some s' \<longrightarrow>
            s' = s \<and> \<not> ok \<and> h' = h \<and>
            (\<forall>h2 dd2 rs2 kv2. serves_kv c enc dec ms s h2 dd2 rs2 kv2 \<longrightarrow>
               (\<exists>h3 rep rs3 kv3. host_dispatch enc dec h2 s (put_request enc (end_name e) a) = Inr (h3, rep) \<and>
                  world h3 s = Some (rs3, kv3) \<and> kv3 \<in> {kv2, fst (srv_put kv2 a)}))"
    (is "\<forall>s'. _ \<longrightarrow> _ \<and> _ \<and> _ \<and> ?later")
  proof (intro allI impI)
    fix s'
    assume "late_handler rn evs d (put_request enc (end_name e) a) = Some s'"
    from call_late [OF assms(3,9) this [unfolded put_request_def]] have l: "h' = h" "\<not> ok" "s' = s"
      using assms(4) by (auto simp: leads_to_def)
    have "\<exists>h3 rep rs3 kv3. host_dispatch enc dec h2 s (put_request enc (end_name e) a) = Inr (h3, rep) \<and>
        world h3 s = Some (rs3, kv3) \<and> kv3 \<in> {kv2, fst (srv_put kv2 a)}"
      if "serves_kv c enc dec ms s h2 dd2 rs2 kv2" for h2 dd2 rs2 kv2
      using host_dispatch_Put [OF assms(1,2) that assms(6-8), of "end_name e" a] by (auto split: if_splits)
    with l show "s' = s \<and> \<not> ok \<and> h' = h \<and> ?later" by blast
  qed
qed

section \<open>An encoding\<close>

text \<open>A simple faithful encoding of the messages.\<close>

fun kv_enc :: "kv_val \<Rightarrow> octets \<times> bool" where
  "kv_enc (VPutArgs a) = (0 # enc_ver (PutVersion a) @ enc_str (PutKey a) @ enc_str (PutValue a), True)"
| "kv_enc (VPutReply r) = (1 # enc_str (PutErr r), True)"
| "kv_enc (VGetArgs a) = (2 # enc_str (GetKey a), True)"
| "kv_enc (VGetReply r) = (3 # enc_ver (GetVersion r) @ enc_str (GetValue r) @ enc_str (GetErr r), True)"

definition kv_dec :: "octets \<Rightarrow> kv_val option" where
  "kv_dec b =
     (case b of
        [] \<Rightarrow> None
      | t # bs \<Rightarrow>
          let two = (\<lambda>f. case dec_str (drop 64 bs) of (x, r) \<Rightarrow> f x (fst (dec_str r)) (dec_ver bs))
          in if t = 0 then Some (two (\<lambda>k x v. VPutArgs \<lparr>PutKey = k, PutValue = x, PutVersion = v\<rparr>))
             else if t = 1 then Some (VPutReply \<lparr>PutErr = fst (dec_str bs)\<rparr>)
             else if t = 2 then Some (VGetArgs \<lparr>GetKey = fst (dec_str bs)\<rparr>)
             else if t = 3 then Some (two (\<lambda>x e v. VGetReply \<lparr>GetValue = x, GetVersion = v, GetErr = e\<rparr>))
             else None)"

lemma kv_codec: "\<forall>x. snd (kv_enc x) \<and> kv_dec (fst (kv_enc x)) = Some x"
proof
  fix x
  show "snd (kv_enc x) \<and> kv_dec (fst (kv_enc x)) = Some x" by (cases x) (simp_all add: kv_dec_def)
qed

definition sample_Put :: "(KVServer, kv_val) Method" where
  "sample_Put = \<lparr>PkgPath = '''', mname = ''Put'', In = [RPtr (RNamed ''KVServer''), RPtr (RNamed ''PutArgs''), RPtr (RNamed ''PutReply'')],
     NumOut = 0,
     Func = (\<lambda>kv v. case v of VPutArgs a \<Rightarrow> map_prod id VPutReply (KVServer_Put kv a zeroPutReply) | _ \<Rightarrow> (kv, v))\<rparr>"

definition kv_server :: "(KVServer, kv_val) Server" where
  "kv_server = AddService MakeServer (MakeService ''KVServer'' [sample_Put])"

definition kv_host :: "((KVServer, kv_val) daemons, kv_val) host" where
  "kv_host = \<lparr>objs = (\<lambda>j. SetDispatch MakeServer (DaemonClnt_forward rpc_codec Delivered kv_enc kv_dec j)),
     world = [0 \<mapsto> (kv_server, MakeKVServer)]\<rparr>"

definition kv_end :: "((KVServer, kv_val) daemons, kv_val) host ClientEnd" where
  "kv_end = \<lparr>end_name = ''e'', callf = None\<rparr>"

definition sample_put :: PutArgs where
  "sample_put = \<lparr>PutKey = ''k'', PutValue = ''x'', PutVersion = 0\<rparr>"

lemma kv_host_serves: "serves_kv rpc_codec kv_enc kv_dec [sample_Put] 0 kv_host Delivered kv_server MakeKVServer"
  by (simp add: serves_kv_def kv_host_def kv_server_def SetDispatch_def AddService_def MakeServer_def MakeService_def)

lemma sample_Put_method: "Put_method sample_Put"
  by (simp add: Put_method_def suitable_def sample_Put_def)

lemma kv_info: "readEndnameInfo (net_receive sample_net req) ''e'' = (True, Some ''s'', Some 0, True, False)"
  by (simp add: readEndnameInfo_leads sample_leads) (simp add: sample_defs)

text \<open>The server is deleted while the handler runs: the put is performed and the reply lost.\<close>

lemma kv_call_deleted:
  "\<exists>h'. ClientEnd_Call kv_enc kv_dec (net_serve kv_enc kv_dec sample_net [Answer] (DeleteServer sample_net ''s'') sample_draws)
       kv_end False ''KVServer.Put'' (VPutArgs sample_put) (VPutReply zeroPutReply) kv_host = Inr (Some (h', False, VPutReply zeroPutReply)) \<and>
     (\<exists>rs'. world h' 0 = Some (rs', fst (srv_put MakeKVServer sample_put)))"
proof -
  obtain h' rep rs' where "host_dispatch kv_enc kv_dec kv_host 0 (put_request kv_enc ''e'' sample_put) = Inr (h', rep)"
    and w: "world h' 0 = Some (rs', fst (srv_put MakeKVServer sample_put))"
    using host_dispatch_Put [OF kv_codec codecs_faithful(1) kv_host_serves _ sample_Put_method, of "''e''" sample_put] by auto
  moreover have "isServerDead (DeleteServer sample_net ''s'') ''e'' ''s'' 0" by (simp add: isServerDead_def DeleteServer_def)
  moreover have "callf kv_end = None" "end_name kv_end = ''e''" by (simp_all add: kv_end_def)
  ultimately show ?thesis
    using kv_info kv_codec
    by (simp add: ClientEnd_Call_net Let_def processReq_def put_request_def failed_def del: kv_enc.simps)
qed

text \<open>The server is deleted before a slow handler has done anything: the call fails, and the put is still to come.\<close>

lemma kv_call_late:
  "ClientEnd_Call kv_enc kv_dec (net_serve kv_enc kv_dec sample_net [Recheck (DeleteServer sample_net ''s'')] (DeleteServer sample_net ''s'')
        (sample_draws\<lparr>d_late := True\<rparr>))
       kv_end False ''KVServer.Put'' (VPutArgs sample_put) (VPutReply zeroPutReply) kv_host = Inr (Some (kv_host, False, VPutReply zeroPutReply))"
  "late_handler sample_net [Recheck (DeleteServer sample_net ''s'')] (sample_draws\<lparr>d_late := True\<rparr>) (put_request kv_enc ''e'' sample_put) = Some 0"
proof -
  have "isServerDead (DeleteServer sample_net ''s'') ''e'' ''s'' 0" by (simp add: isServerDead_def DeleteServer_def)
  moreover have "callf kv_end = None" "end_name kv_end = ''e''" by (simp_all add: kv_end_def)
  moreover have "readEndnameInfo sample_net ''e'' = (True, Some ''s'', Some 0, True, False)"
    by (simp add: readEndnameInfo_leads sample_leads) (simp add: sample_defs)
  ultimately show "ClientEnd_Call kv_enc kv_dec (net_serve kv_enc kv_dec sample_net [Recheck (DeleteServer sample_net ''s'')]
        (DeleteServer sample_net ''s'') (sample_draws\<lparr>d_late := True\<rparr>))
       kv_end False ''KVServer.Put'' (VPutArgs sample_put) (VPutReply zeroPutReply) kv_host = Inr (Some (kv_host, False, VPutReply zeroPutReply))"
    "late_handler sample_net [Recheck (DeleteServer sample_net ''s'')] (sample_draws\<lparr>d_late := True\<rparr>) (put_request kv_enc ''e'' sample_put) = Some 0"
    using kv_info kv_codec
    by (simp_all add: ClientEnd_Call_net Let_def processReq_def late_handler_def put_request_def failed_def del: kv_enc.simps)
qed

theorem put_call_refines_delivery_witness:
  "(\<exists>h' dl w' rs'. ClientEnd_Call kv_enc kv_dec (net_serve kv_enc kv_dec sample_net [Answer] (DeleteServer sample_net ''s'') sample_draws)
       kv_end False ''KVServer.Put'' (VPutArgs sample_put) (VPutReply zeroPutReply) kv_host = Inr (Some (h', False, VPutReply zeroPutReply)) \<and>
     net_Put srv_put (call_world MakeKVServer dl []) sample_put = (w', None) \<and>
     world h' 0 = Some (rs', srv w') \<and> srv_lookup (srv w') ''k'' = Some (''x'', 1)) \<and>
   (\<exists>h3 rep rs3 kv3. host_dispatch kv_enc kv_dec kv_host 0 (put_request kv_enc ''e'' sample_put) = Inr (h3, rep) \<and>
     world h3 0 = Some (rs3, kv3) \<and> kv3 \<in> {MakeKVServer, fst (srv_put MakeKVServer sample_put)})"
proof -
  have e: "callf kv_end = None" "end_name kv_end = ''e''" by (simp_all add: kv_end_def)
  have leads: "leads_to sample_net (end_name kv_end) ''s'' 0" using sample_leads e by simp
  obtain h' rs' where call: "ClientEnd_Call kv_enc kv_dec (net_serve kv_enc kv_dec sample_net [Answer] (DeleteServer sample_net ''s'') sample_draws)
       kv_end False ''KVServer.Put'' (VPutArgs sample_put) (VPutReply zeroPutReply) kv_host = Inr (Some (h', False, VPutReply zeroPutReply))"
    and w: "world h' 0 = Some (rs', fst (srv_put MakeKVServer sample_put))"
    using kv_call_deleted by blast
  obtain dl w' where net: "net_Put srv_put (call_world MakeKVServer dl []) sample_put = (w', None)" "world h' 0 = Some (rs', srv w')"
    using put_call_refines_delivery [OF kv_codec codecs_faithful(1) e(1) leads kv_host_serves _ sample_Put_method _ call, of "[]"] w
    by auto
  have "srv_lookup (fst (srv_put MakeKVServer sample_put)) ''k'' = Some (''x'', 1)"
    by (simp add: sample_put_def srv_put_def KVServer_Put_def MakeKVServer_def srv_lookup_def)
  then have "srv_lookup (srv w') ''k'' = Some (''x'', 1)" using w net(2) by simp
  moreover have "\<exists>h3 rep rs3 kv3. host_dispatch kv_enc kv_dec kv_host 0 (put_request kv_enc ''e'' sample_put) = Inr (h3, rep) \<and>
     world h3 0 = Some (rs3, kv3) \<and> kv3 \<in> {MakeKVServer, fst (srv_put MakeKVServer sample_put)}"
    using put_call_refines_delivery [OF kv_codec codecs_faithful(1) e(1) leads kv_host_serves _ sample_Put_method _ kv_call_late(1)]
      kv_call_late(2) kv_host_serves e(2) by auto
  ultimately show ?thesis using call net by blast
qed

end
