(* ===== verification/Tester.thy ===== *)
theory Tester
  imports Labrpc Persister
begin

text \<open>
  The tester's control over the network (tester1/group.go, srv.go, clnts.go): groups of servers
  with an end from each server to each other, connecting, disconnecting, partitioning,
  shutting down and restarting them, and the ends of clients. The random strings that name the
  ends are arguments (\<open>draw\<close>); a name that exists already ends the program in
  \<open>MakeEnd\<close>. A server's process is the persister it works on (daemonsrv.go,
  daemonclnt.go); starting a process and the sockets are not modelled.

  \<open>endNames\<close> is allocated in \<open>makeServer\<close>, so the comparisons with
  \<^verbatim>\<open>nil\<close> in the code never hold. Indices are natural numbers.
\<close>

section \<open>The daemon of a server\<close>

text \<open>The persister of the process, and whether it has stopped talking to the tester.\<close>

record 'r DaemonSrv =
  ds_persister :: "'r Persister"
  ds_closed :: bool

definition DaemonSrv_Init :: "'r list \<Rightarrow> bytes \<Rightarrow> 'r DaemonSrv" where
  "DaemonSrv_Init raftstate snapshot =
     \<lparr>ds_persister = Persister_Save MakePersister raftstate snapshot, ds_closed = False\<rparr>"

definition DaemonSrv_CheckpointPersister :: "'r DaemonSrv \<Rightarrow> 'r DaemonSrv \<times> 'r list \<times> bytes" where
  "DaemonSrv_CheckpointPersister ds =
     (let ds' = ds\<lparr>ds_closed := True\<rparr>; p = Persister_Checkpoint (ds_persister ds')
      in (ds', ReadRaftState p, ReadSnapshot p))"

definition DaemonSrv_StateSize :: "('r list \<Rightarrow> nat) \<Rightarrow> (bytes \<Rightarrow> nat) \<Rightarrow> 'r DaemonSrv \<Rightarrow> nat \<times> nat" where
  "DaemonSrv_StateSize rsz ssz ds = (RaftStateSize rsz (ds_persister ds), SnapshotSize ssz (ds_persister ds))"

definition DaemonClnt_init :: "'r Persister \<Rightarrow> 'r DaemonSrv" where
  "DaemonClnt_init p = DaemonSrv_Init (ReadRaftState p) (ReadSnapshot p)"

text \<open>
  The control calls to a server's process are taken to return. When one fails, because the process has died on its own,
  \<open>checkpointPersister\<close> and \<open>stateSize\<close> end the test program (\<^verbatim>\<open>log.Fatalf\<close>) and \<open>init\<close> only logs it.
\<close>

definition checkpointPersister :: "'r DaemonSrv \<Rightarrow> 'r Persister" where
  "checkpointPersister ds =
     (case DaemonSrv_CheckpointPersister ds of (_, raftstate, snapshot) \<Rightarrow> Persister_Save MakePersister raftstate snapshot)"

section \<open>Servers\<close>

text \<open>\<^verbatim>\<open>saved\<close> and \<^verbatim>\<open>dc\<close> are pointers.\<close>

record 'r tserver =
  saved :: "'r Persister option"
  endNames :: "string list"
  dc :: "'r DaemonSrv option"

definition ServerName :: "nat \<Rightarrow> nat \<Rightarrow> string" where
  "ServerName gid i = ''server-'' @ itoa gid @ ''-'' @ itoa i"

definition make_end :: "nat \<Rightarrow> (nat \<Rightarrow> string) \<Rightarrow> nat \<Rightarrow> string Network \<Rightarrow> string Network res" where
  "make_end gid draw j net = bindr (MakeEnd net (draw j)) (\<lambda>net'. Inr (Connect net' (draw j) (ServerName gid j)))"

definition makeServer :: "string Network \<Rightarrow> nat \<Rightarrow> nat \<Rightarrow> (nat \<Rightarrow> string) \<Rightarrow> (string Network \<times> 'r tserver) res" where
  "makeServer net gid nsrv draw =
     bindr (for_each (make_end gid draw) [0..<nsrv] net) (\<lambda>net'.
       Inr (net', \<lparr>saved = None, endNames = map draw [0..<nsrv], dc = None\<rparr>))"

definition startServer :: "string Network \<Rightarrow> 'r tserver \<Rightarrow> nat \<Rightarrow> (nat \<Rightarrow> string) \<Rightarrow> (string Network \<times> 'r tserver) res" where
  "startServer net s gid draw =
     bindr (makeServer net gid (length (endNames s)) draw) (\<lambda>(net', srv).
       Inr (net', srv\<lparr>saved := (case saved s of None \<Rightarrow> Some MakePersister | Some p \<Rightarrow> Some p)\<rparr>))"

definition shutdownServer :: "'r tserver \<Rightarrow> 'r tserver" where
  "shutdownServer s =
     (case dc s of
        None \<Rightarrow> s
      | Some d \<Rightarrow> s\<lparr>saved := Some (checkpointPersister d), dc := None\<rparr>)"

text \<open>Without a daemon and without a saved persister the size panics (nil pointer).\<close>

definition server_size :: "('r Persister \<Rightarrow> nat) \<Rightarrow> ('r DaemonSrv \<Rightarrow> nat) \<Rightarrow> 'r tserver \<Rightarrow> nat res" where
  "server_size psize dsize s =
     (case dc s of
        Some d \<Rightarrow> Inr (dsize d)
      | None \<Rightarrow> (case saved s of None \<Rightarrow> Inl NilMap | Some p \<Rightarrow> Inr (psize p)))"

definition snapshotSize :: "('r list \<Rightarrow> nat) \<Rightarrow> (bytes \<Rightarrow> nat) \<Rightarrow> 'r tserver \<Rightarrow> nat res" where
  "snapshotSize rsz ssz = server_size (SnapshotSize ssz) (\<lambda>d. snd (DaemonSrv_StateSize rsz ssz d))"

definition raftSize :: "('r list \<Rightarrow> nat) \<Rightarrow> (bytes \<Rightarrow> nat) \<Rightarrow> 'r tserver \<Rightarrow> nat res" where
  "raftSize rsz ssz = server_size (RaftStateSize rsz) (\<lambda>d. fst (DaemonSrv_StateSize rsz ssz d))"

section \<open>Groups of servers\<close>

record 'r ServerGrp =
  srvs :: "'r tserver list"
  servernames :: "string list"
  gid :: nat
  connected :: "bool list"

definition makeSrvGrp :: "string Network \<Rightarrow> nat \<Rightarrow> nat \<Rightarrow> (nat \<Rightarrow> nat \<Rightarrow> string) \<Rightarrow> (string Network \<times> 'r ServerGrp) res" where
  "makeSrvGrp net g n draw =
     bindr (for_each (\<lambda>i (net1, ss). bindr (makeServer net1 g n (draw i)) (\<lambda>(net2, s). Inr (net2, ss @ [s])))
              [0..<n] (net, []))
       (\<lambda>(net', ss). Inr (net', \<lparr>srvs = ss, servernames = map (ServerName g) [0..<n], gid = g, connected = replicate n False\<rparr>))"

definition grp_N :: "'r ServerGrp \<Rightarrow> nat" where
  "grp_N sg = length (srvs sg)"

definition SrvName :: "'r ServerGrp \<Rightarrow> nat \<Rightarrow> string res" where
  "SrvName sg i = idx (servernames sg) i"

definition SrvNamesTo :: "'r ServerGrp \<Rightarrow> nat list \<Rightarrow> string list res" where
  "SrvNamesTo sg to = for_each (\<lambda>i ns. bindr (idx (servernames sg) i) (\<lambda>n. Inr (ns @ [n]))) to []"

definition grp_all :: "'r ServerGrp \<Rightarrow> nat list" where
  "grp_all sg = [0..<length (srvs sg)]"

definition IsConnected :: "'r ServerGrp \<Rightarrow> nat \<Rightarrow> bool res" where
  "IsConnected sg i = idx (connected sg) i"

text \<open>The outgoing ends, then the incoming ones.\<close>

definition Server_connect :: "'r ServerGrp \<Rightarrow> 'r tserver \<Rightarrow> nat list \<Rightarrow> string Network \<Rightarrow> string Network res" where
  "Server_connect sg s to =
     for_each (\<lambda>t net. bindr (IsConnected sg t) (\<lambda>c.
       if c then bindr (idx (endNames s) t) (\<lambda>e. Inr (Enable net e True)) else Inr net)) to"

definition connect_incoming :: "'r ServerGrp \<Rightarrow> nat \<Rightarrow> nat list \<Rightarrow> string Network \<Rightarrow> string Network res" where
  "connect_incoming sg i to =
     for_each (\<lambda>t net. bindr (IsConnected sg t) (\<lambda>c.
       if c then bindr (idx (srvs sg) t) (\<lambda>s. bindr (idx (endNames s) i) (\<lambda>e. Inr (Enable net e True))) else Inr net)) to"

definition connect :: "nat \<Rightarrow> nat list \<Rightarrow> string Network \<times> 'r ServerGrp \<Rightarrow> (string Network \<times> 'r ServerGrp) res" where
  "connect i to st =
     (case st of (net, sg) \<Rightarrow>
        bindr (set_idx (connected sg) i True) (\<lambda>cs.
        let sg1 = sg\<lparr>connected := cs\<rparr> in
        bindr (idx (srvs sg1) i) (\<lambda>s.
        bindr (Server_connect sg1 s to net) (\<lambda>net1.
        bindr (connect_incoming sg1 i to net1) (\<lambda>net2. Inr (net2, sg1))))))"

definition Server_disconnect :: "'r tserver \<Rightarrow> nat list \<Rightarrow> string Network \<Rightarrow> string Network res" where
  "Server_disconnect s from = for_each (\<lambda>t net. bindr (idx (endNames s) t) (\<lambda>e. Inr (Enable net e False))) from"

definition disconnect_incoming :: "'r ServerGrp \<Rightarrow> nat \<Rightarrow> nat list \<Rightarrow> string Network \<Rightarrow> string Network res" where
  "disconnect_incoming sg i from =
     for_each (\<lambda>t net. bindr (idx (srvs sg) t) (\<lambda>s. bindr (idx (endNames s) i) (\<lambda>e. Inr (Enable net e False)))) from"

definition disconnect :: "nat \<Rightarrow> nat list \<Rightarrow> string Network \<times> 'r ServerGrp \<Rightarrow> (string Network \<times> 'r ServerGrp) res" where
  "disconnect i from st =
     (case st of (net, sg) \<Rightarrow>
        bindr (set_idx (connected sg) i False) (\<lambda>cs.
        let sg1 = sg\<lparr>connected := cs\<rparr> in
        bindr (idx (srvs sg1) i) (\<lambda>s.
        bindr (Server_disconnect s from net) (\<lambda>net1.
        bindr (disconnect_incoming sg1 i from net1) (\<lambda>net2. Inr (net2, sg1))))))"

definition ConnectOne :: "nat \<Rightarrow> string Network \<times> 'r ServerGrp \<Rightarrow> (string Network \<times> 'r ServerGrp) res" where
  "ConnectOne i st = connect i (grp_all (snd st)) st"

definition ConnectAll :: "string Network \<times> 'r ServerGrp \<Rightarrow> (string Network \<times> 'r ServerGrp) res" where
  "ConnectAll st = for_each ConnectOne (grp_all (snd st)) st"

definition DisconnectAll :: "nat \<Rightarrow> string Network \<times> 'r ServerGrp \<Rightarrow> (string Network \<times> 'r ServerGrp) res" where
  "DisconnectAll i st = disconnect i (grp_all (snd st)) st"

text \<open>The loops that take the largest size.\<close>

definition max_size :: "('r tserver \<Rightarrow> nat res) \<Rightarrow> 'r ServerGrp \<Rightarrow> nat res" where
  "max_size sz sg = for_each (\<lambda>s m. bindr (sz s) (\<lambda>n. Inr (if n > m then n else m))) (srvs sg) 0"

definition grp_RaftSize :: "('r list \<Rightarrow> nat) \<Rightarrow> (bytes \<Rightarrow> nat) \<Rightarrow> 'r ServerGrp \<Rightarrow> nat res" where
  "grp_RaftSize rsz ssz sg = max_size (raftSize rsz ssz) sg"

definition grp_SnapshotSize :: "('r list \<Rightarrow> nat) \<Rightarrow> (bytes \<Rightarrow> nat) \<Rightarrow> 'r ServerGrp \<Rightarrow> nat res" where
  "grp_SnapshotSize rsz ssz sg = max_size (snapshotSize rsz ssz) sg"

text \<open>\<open>mem\<close> is the heap size that a daemon reports; a server without one panics (nil pointer).\<close>

definition grp_MemSize :: "('r DaemonSrv \<Rightarrow> nat) \<Rightarrow> 'r ServerGrp \<Rightarrow> nat res" where
  "grp_MemSize mem sg = max_size (\<lambda>s. case dc s of None \<Rightarrow> Inl NilMap | Some d \<Rightarrow> Inr (mem d)) sg"

text \<open>
  \<open>StartServer\<close>. \<open>ok\<close> tells whether the process could be started, \<open>obj\<close> is the
  new labrpc server object, whose dispatcher forwards to the daemon. The result says whether
  an error was returned.
\<close>

definition StartServer ::
  "bool \<Rightarrow> nat \<Rightarrow> (nat \<Rightarrow> string) \<Rightarrow> nat \<Rightarrow> string Network \<times> 'r ServerGrp \<Rightarrow> (bool \<times> string Network \<times> 'r ServerGrp) res" where
  "StartServer ok obj draw i st =
     (case st of (net, sg) \<Rightarrow>
        bindr (idx (srvs sg) i) (\<lambda>s.
        bindr (startServer net s (gid sg) draw) (\<lambda>(net1, srv).
        let sg1 = sg\<lparr>srvs := (srvs sg)[i := srv]\<rparr> in
        if \<not> ok then Inr (False, net1, sg1)
        else (case saved srv of
                None \<Rightarrow> Inl NilMap
              | Some p \<Rightarrow>
                  Inr (True, AddServer net1 (ServerName (gid sg) i) obj,
                       sg1\<lparr>srvs := (srvs sg1)[i := srv\<lparr>dc := Some (DaemonClnt_init p)\<rparr>]\<rparr>)))))"

text \<open>\<open>StartSrvs\<close> ignores the error.\<close>

definition StartSrvs ::
  "(nat \<Rightarrow> bool) \<Rightarrow> (nat \<Rightarrow> nat) \<Rightarrow> (nat \<Rightarrow> nat \<Rightarrow> string) \<Rightarrow> nat list \<Rightarrow> string Network \<times> 'r ServerGrp \<Rightarrow>
   (string Network \<times> 'r ServerGrp) res" where
  "StartSrvs ok obj draw =
     for_each (\<lambda>i st. bindr (StartServer (ok i) (obj i) (draw i) i st) (\<lambda>(_, st'). Inr st'))"

definition StartServers ::
  "(nat \<Rightarrow> bool) \<Rightarrow> (nat \<Rightarrow> nat) \<Rightarrow> (nat \<Rightarrow> nat \<Rightarrow> string) \<Rightarrow> string Network \<times> 'r ServerGrp \<Rightarrow>
   (string Network \<times> 'r ServerGrp) res" where
  "StartServers ok obj draw st = bindr (StartSrvs ok obj draw (grp_all (snd st)) st) ConnectAll"

definition ShutdownServer :: "nat \<Rightarrow> string Network \<times> 'r ServerGrp \<Rightarrow> (string Network \<times> 'r ServerGrp) res" where
  "ShutdownServer i st =
     bindr (disconnect i (grp_all (snd st)) st) (\<lambda>(net, sg).
     let net1 = DeleteServer net (ServerName (gid sg) i) in
     bindr (idx (srvs sg) i) (\<lambda>s. Inr (net1, sg\<lparr>srvs := (srvs sg)[i := shutdownServer s]\<rparr>)))"

definition Kill :: "nat list \<Rightarrow> string Network \<times> 'r ServerGrp \<Rightarrow> (string Network \<times> 'r ServerGrp) res" where
  "Kill ss st = for_each ShutdownServer ss st"

definition Shutdown :: "string Network \<times> 'r ServerGrp \<Rightarrow> (string Network \<times> 'r ServerGrp) res" where
  "Shutdown st = Kill (grp_all (snd st)) st"

text \<open>
  \<open>MakePartition\<close>: \<^verbatim>\<open>make\<close> fills both slices with zeros; the loop puts the
  servers other than the leader first into \<open>p1\<close>, then into \<open>p2\<close>, whose last place
  is the leader's.
\<close>

definition mp_step :: "nat \<Rightarrow> nat \<Rightarrow> nat list \<times> nat list \<times> nat \<Rightarrow> (nat list \<times> nat list \<times> nat) res" where
  "mp_step l i st =
     (case st of (p1, p2, j) \<Rightarrow>
        if i \<noteq> l then
          if j < length p1 then bindr (set_idx p1 j i) (\<lambda>p1'. Inr (p1', p2, j + 1))
          else bindr (set_idx p2 (j - length p1) i) (\<lambda>p2'. Inr (p1, p2', j + 1))
        else Inr st)"

definition MakePartition :: "'r ServerGrp \<Rightarrow> nat \<Rightarrow> (nat list \<times> nat list) res" where
  "MakePartition sg l =
     (let n = length (srvs sg) in
      bindr (for_each (mp_step l) [0..<n] (replicate (n div 2 + 1) 0, replicate (n div 2) 0, 0)) (\<lambda>(p1, p2, _).
      if p2 = [] then Inl IndexOutOfRange
      else bindr (set_idx p2 (length p2 - 1) l) (\<lambda>p2'. Inr (p1, p2'))))"

definition part_loop :: "nat list \<Rightarrow> nat list \<Rightarrow> string Network \<times> 'r ServerGrp \<Rightarrow> (string Network \<times> 'r ServerGrp) res" where
  "part_loop p1 p2 = for_each (\<lambda>i st. bindr (disconnect i p2 st) (connect i p1)) p1"

definition Partition :: "nat list \<Rightarrow> nat list \<Rightarrow> string Network \<times> 'r ServerGrp \<Rightarrow> (string Network \<times> 'r ServerGrp) res" where
  "Partition p1 p2 st = bindr (part_loop p1 p2 st) (part_loop p2 p1)"

definition RpcCount :: "('w, 'v) host \<Rightarrow> nat \<Rightarrow> string Network \<times> 'r ServerGrp \<Rightarrow> nat res" where
  "RpcCount h server st = (case st of (net, sg) \<Rightarrow> Network_GetCount h net (ServerName (gid sg) server))"

text \<open>The groups of a test, by their number.\<close>

type_synonym 'r Groups = "nat \<rightharpoonup> 'r ServerGrp"

definition MakeGroup ::
  "nat \<Rightarrow> nat \<Rightarrow> (nat \<Rightarrow> nat \<Rightarrow> string) \<Rightarrow> string Network \<times> 'r Groups \<Rightarrow> (string Network \<times> 'r Groups) res" where
  "MakeGroup g nsrv draw st =
     (case st of (net, gs) \<Rightarrow> bindr (makeSrvGrp net g nsrv draw) (\<lambda>(net', sg). Inr (net', gs(g \<mapsto> sg))))"

definition lookupGroup :: "nat \<Rightarrow> 'r Groups \<Rightarrow> 'r ServerGrp option" where
  "lookupGroup g gs = gs g"

definition deleteGroup :: "nat \<Rightarrow> 'r Groups \<Rightarrow> 'r Groups" where
  "deleteGroup g gs = gs(g := None)"

text \<open>An operation on one group of the test; a group that does not exist is a nil pointer.\<close>

definition on_group ::
  "nat \<Rightarrow> (string Network \<times> 'r ServerGrp \<Rightarrow> (string Network \<times> 'r ServerGrp) res) \<Rightarrow>
   string Network \<times> 'r Groups \<Rightarrow> (string Network \<times> 'r Groups) res" where
  "on_group g f st =
     (case st of (net, gs) \<Rightarrow>
        (case lookupGroup g gs of
           None \<Rightarrow> Inl NilMap
         | Some sg \<Rightarrow> bindr (f (net, sg)) (\<lambda>(net', sg'). Inr (net', gs(g \<mapsto> sg')))))"

text \<open>\<open>order\<close> is the order in which Go iterates over the map of groups.\<close>

definition Groups_cleanup :: "nat list \<Rightarrow> string Network \<times> 'r Groups \<Rightarrow> (string Network \<times> 'r Groups) res" where
  "Groups_cleanup order st = for_each (\<lambda>g. on_group g Shutdown) order st"

definition MakeGroupStart ::
  "nat \<Rightarrow> nat \<Rightarrow> (nat \<Rightarrow> nat \<Rightarrow> string) \<Rightarrow> (nat \<Rightarrow> bool) \<Rightarrow> (nat \<Rightarrow> nat) \<Rightarrow> (nat \<Rightarrow> nat \<Rightarrow> string) \<Rightarrow>
   string Network \<times> 'r Groups \<Rightarrow> (string Network \<times> 'r Groups) res" where
  "MakeGroupStart g nsrv draw ok obj draw' st =
     bindr (MakeGroup g nsrv draw st) (on_group g (StartServers ok obj draw'))"

definition ExitGroup :: "nat \<Rightarrow> string Network \<times> 'r Groups \<Rightarrow> (string Network \<times> 'r Groups) res" where
  "ExitGroup g st = bindr (on_group g Shutdown st) (\<lambda>(net, gs). Inr (net, deleteGroup g gs))"

section \<open>Links\<close>

definition end_of :: "'r ServerGrp \<Rightarrow> nat \<Rightarrow> nat \<Rightarrow> string" where
  "end_of sg a b = endNames (srvs sg ! a) ! b"

text \<open>The end through which server \<open>a\<close> talks to server \<open>b\<close> is enabled.\<close>

definition link :: "string Network \<times> 'r ServerGrp \<Rightarrow> nat \<Rightarrow> nat \<Rightarrow> bool" where
  "link st a b \<longleftrightarrow> is_enabled (fst st) (end_of (snd st) a b)"

definition grp_wf :: "'r ServerGrp \<Rightarrow> bool" where
  "grp_wf sg \<longleftrightarrow> length (connected sg) = length (srvs sg) \<and>
     (\<forall>s \<in> set (srvs sg). length (endNames s) = length (srvs sg)) \<and>
     inj_on (\<lambda>(a, b). end_of sg a b) ({..<length (srvs sg)} \<times> {..<length (srvs sg)})"

lemma end_of_inj:
  assumes "grp_wf sg" and "a < grp_N sg" and "b < grp_N sg" and "a' < grp_N sg" and "b' < grp_N sg"
  shows "end_of sg a b = end_of sg a' b' \<longleftrightarrow> a = a' \<and> b = b'"
  using assms by (auto simp: grp_wf_def grp_N_def inj_on_def)

lemma grp_wf_lengths:
  assumes "grp_wf sg" and "a < grp_N sg"
  shows "a < length (srvs sg)" "a < length (connected sg)" "length (endNames (srvs sg ! a)) = grp_N sg"
  using assms by (auto simp: grp_wf_def grp_N_def)

lemma connected_update_simps [simp]:
  "end_of (sg\<lparr>connected := cs\<rparr>) a b = end_of sg a b" "grp_N (sg\<lparr>connected := cs\<rparr>) = grp_N sg"
  by (simp_all add: end_of_def grp_N_def)

lemma grp_wf_connected [simp]: "grp_wf sg \<Longrightarrow> length cs = length (connected sg) \<Longrightarrow> grp_wf (sg\<lparr>connected := cs\<rparr>)"
  by (simp add: grp_wf_def end_of_def)

text \<open>What enabling and disabling ends leaves of a network.\<close>

definition same_wiring :: "'n Network \<Rightarrow> 'n Network \<Rightarrow> bool" where
  "same_wiring net net' \<longleftrightarrow> ends net' = ends net \<and> connections net' = connections net \<and> servers net' = servers net"

lemma same_wiring_Enable [simp]: "same_wiring net (Enable net' e v) = same_wiring net net'"
  by (simp add: same_wiring_def Enable_def)

lemma same_wiring_refl [simp]: "same_wiring net net"
  by (simp add: same_wiring_def)

lemma is_enabled_Enable [simp]: "is_enabled (Enable net e v) x \<longleftrightarrow> (if x = e then v else is_enabled net x)"
  by (simp add: is_enabled_def Enable_def)

text \<open>A loop that enables or disables the ends \<open>e t\<close> of those \<open>t\<close> that satisfy \<open>c\<close>.\<close>

lemma enable_loop:
  assumes "\<And>t net. t \<in> set to \<Longrightarrow> f t net = Inr (if c t then Enable net (e t) v else net)"
  shows "returns (for_each f to net) (\<lambda>net'. same_wiring net net' \<and>
           (\<forall>x. is_enabled net' x \<longleftrightarrow> (if \<exists>t \<in> set to. c t \<and> e t = x then v else is_enabled net x)))"
proof (rule for_each_invariant)
  show "same_wiring net net \<and>
      (\<forall>x. is_enabled net x \<longleftrightarrow> (if \<exists>t \<in> set []. c t \<and> e t = x then v else is_enabled net x))" by simp
  fix ys x zs t
  assume "to = ys @ x # zs" and "same_wiring net t \<and>
      (\<forall>y. is_enabled t y \<longleftrightarrow> (if \<exists>u \<in> set ys. c u \<and> e u = y then v else is_enabled net y))"
  then show "returns (f x t) (\<lambda>net'. same_wiring net net' \<and>
      (\<forall>y. is_enabled net' y \<longleftrightarrow> (if \<exists>u \<in> set (ys @ [x]). c u \<and> e u = y then v else is_enabled net y)))"
    using assms [of x t] by auto
qed

text \<open>The effect of \<open>connect\<close> and \<open>disconnect\<close> on the links.\<close>

definition part_state :: "string Network \<times> 'r ServerGrp \<Rightarrow> string Network \<times> 'r ServerGrp \<Rightarrow> bool" where
  "part_state st st' \<longleftrightarrow> same_wiring (fst st) (fst st') \<and>
     (\<exists>cs. snd st' = (snd st)\<lparr>connected := cs\<rparr> \<and> length cs = length (connected (snd st)))"

text \<open>One update of the links: first the ends of \<open>i\<close>, then the ends to \<open>i\<close>.\<close>

lemma link_update:
  assumes "grp_wf sg" and "i < grp_N sg" and "\<forall>t \<in> set to. t < grp_N sg"
    and "\<forall>x. is_enabled net1 x \<longleftrightarrow> (if \<exists>t \<in> set to. c t \<and> end_of sg i t = x then v else is_enabled net x)"
    and "\<forall>x. is_enabled net2 x \<longleftrightarrow> (if \<exists>t \<in> set to. c t \<and> end_of sg t i = x then v else is_enabled net1 x)"
    and "a < grp_N sg" and "b < grp_N sg"
  shows "is_enabled net2 (end_of sg a b) \<longleftrightarrow>
     (if a = i \<and> b \<in> set to \<and> c b \<or> b = i \<and> a \<in> set to \<and> c a then v else is_enabled net (end_of sg a b))"
proof -
  have "(\<exists>t \<in> set to. c t \<and> end_of sg i t = end_of sg a b) \<longleftrightarrow> a = i \<and> b \<in> set to \<and> c b"
    "(\<exists>t \<in> set to. c t \<and> end_of sg t i = end_of sg a b) \<longleftrightarrow> b = i \<and> a \<in> set to \<and> c a"
    using end_of_inj [OF assms(1)] assms(2,3,6,7) by auto
  then show ?thesis using assms(4,5) by auto
qed

lemma connect_links:
  assumes wf: "grp_wf (snd st)" and i: "i < grp_N (snd st)" and to: "\<forall>t \<in> set to. t < grp_N (snd st)"
  shows "returns (connect i to st) (\<lambda>st'. part_state st st' \<and> connected (snd st') = (connected (snd st))[i := True] \<and>
     (\<forall>a < grp_N (snd st). \<forall>b < grp_N (snd st). link st' a b \<longleftrightarrow>
        link st a b \<or> a = i \<and> b \<in> set to \<and> connected (snd st') ! b \<or> b = i \<and> a \<in> set to \<and> connected (snd st') ! a))"
proof -
  obtain net sg where st: "st = (net, sg)" by (cases st)
  define sg1 where "sg1 = sg\<lparr>connected := (connected sg)[i := True]\<rparr>"
  have wf1: "grp_wf sg1" and n1: "grp_N sg1 = grp_N sg" and e1: "\<And>a b. end_of sg1 a b = end_of sg a b"
    using wf by (simp_all add: sg1_def st)
  note len = grp_wf_lengths [OF wf1, unfolded n1]
  let ?c = "\<lambda>t. connected sg1 ! t"
  have "returns (Server_connect sg1 (srvs sg1 ! i) to net) (\<lambda>net1. same_wiring net net1 \<and>
      (\<forall>x. is_enabled net1 x \<longleftrightarrow> (if \<exists>t \<in> set to. ?c t \<and> end_of sg1 i t = x then True else is_enabled net x)))"
    unfolding Server_connect_def
    by (rule enable_loop) (use to i len in \<open>auto simp: IsConnected_def st end_of_def\<close>)
  then obtain net1 where o: "Server_connect sg1 (srvs sg1 ! i) to net = Inr net1" "same_wiring net net1"
    "\<forall>x. is_enabled net1 x \<longleftrightarrow> (if \<exists>t \<in> set to. ?c t \<and> end_of sg1 i t = x then True else is_enabled net x)"
    unfolding returns_def by blast
  have "returns (connect_incoming sg1 i to net1) (\<lambda>net2. same_wiring net1 net2 \<and>
      (\<forall>x. is_enabled net2 x \<longleftrightarrow> (if \<exists>t \<in> set to. ?c t \<and> end_of sg1 t i = x then True else is_enabled net1 x)))"
    unfolding connect_incoming_def
    by (rule enable_loop) (use to i len in \<open>auto simp: IsConnected_def st end_of_def\<close>)
  then obtain net2 where p: "connect_incoming sg1 i to net1 = Inr net2" "same_wiring net1 net2"
    "\<forall>x. is_enabled net2 x \<longleftrightarrow> (if \<exists>t \<in> set to. ?c t \<and> end_of sg1 t i = x then True else is_enabled net1 x)"
    unfolding returns_def by blast
  have i': "i < length (srvs sg)" "i < length (connected sg)" using i len(1,2) [of i] st by (simp_all add: sg1_def)
  have "connect i to st = Inr (net2, sg1)"
    using o(1) p(1) i' by (simp add: connect_def st sg1_def)
  moreover have "link (net2, sg1) a b \<longleftrightarrow> link st a b \<or> a = i \<and> b \<in> set to \<and> ?c b \<or> b = i \<and> a \<in> set to \<and> ?c a"
    if "a < grp_N sg" "b < grp_N sg" for a b
    using link_update [OF wf1 _ _ o(3) p(3), of a b] that i to st by (auto simp: link_def n1 e1)
  ultimately show ?thesis using o(2) p(2) st by (auto simp: part_state_def sg1_def same_wiring_def)
qed

lemma disconnect_links:
  assumes wf: "grp_wf (snd st)" and i: "i < grp_N (snd st)" and fr: "\<forall>t \<in> set from. t < grp_N (snd st)"
  shows "returns (disconnect i from st) (\<lambda>st'. part_state st st' \<and> connected (snd st') = (connected (snd st))[i := False] \<and>
     (\<forall>a < grp_N (snd st). \<forall>b < grp_N (snd st). link st' a b \<longleftrightarrow>
        link st a b \<and> \<not> (a = i \<and> b \<in> set from) \<and> \<not> (b = i \<and> a \<in> set from)))"
proof -
  obtain net sg where st: "st = (net, sg)" by (cases st)
  define sg1 where "sg1 = sg\<lparr>connected := (connected sg)[i := False]\<rparr>"
  have wf1: "grp_wf sg1" and n1: "grp_N sg1 = grp_N sg" and e1: "\<And>a b. end_of sg1 a b = end_of sg a b"
    using wf by (simp_all add: sg1_def st)
  note len = grp_wf_lengths [OF wf1, unfolded n1]
  have "returns (Server_disconnect (srvs sg1 ! i) from net) (\<lambda>net1. same_wiring net net1 \<and>
      (\<forall>x. is_enabled net1 x \<longleftrightarrow> (if \<exists>t \<in> set from. True \<and> end_of sg1 i t = x then False else is_enabled net x)))"
    unfolding Server_disconnect_def
    by (rule enable_loop) (use fr i len in \<open>auto simp: st end_of_def\<close>)
  then obtain net1 where o: "Server_disconnect (srvs sg1 ! i) from net = Inr net1" "same_wiring net net1"
    "\<forall>x. is_enabled net1 x \<longleftrightarrow> (if \<exists>t \<in> set from. True \<and> end_of sg1 i t = x then False else is_enabled net x)"
    unfolding returns_def by blast
  have "returns (disconnect_incoming sg1 i from net1) (\<lambda>net2. same_wiring net1 net2 \<and>
      (\<forall>x. is_enabled net2 x \<longleftrightarrow> (if \<exists>t \<in> set from. True \<and> end_of sg1 t i = x then False else is_enabled net1 x)))"
    unfolding disconnect_incoming_def
    by (rule enable_loop) (use fr i len in \<open>auto simp: st end_of_def\<close>)
  then obtain net2 where p: "disconnect_incoming sg1 i from net1 = Inr net2" "same_wiring net1 net2"
    "\<forall>x. is_enabled net2 x \<longleftrightarrow> (if \<exists>t \<in> set from. True \<and> end_of sg1 t i = x then False else is_enabled net1 x)"
    unfolding returns_def by blast
  have i': "i < length (srvs sg)" "i < length (connected sg)" using i len(1,2) [of i] st by (simp_all add: sg1_def)
  have "disconnect i from st = Inr (net2, sg1)"
    using o(1) p(1) i' by (simp add: disconnect_def st sg1_def)
  moreover have "link (net2, sg1) a b \<longleftrightarrow> link st a b \<and> \<not> (a = i \<and> b \<in> set from) \<and> \<not> (b = i \<and> a \<in> set from)"
    if "a < grp_N sg" "b < grp_N sg" for a b
    using link_update [OF wf1 _ _ o(3) p(3), of a b] that i fr st by (auto simp: link_def n1 e1)
  ultimately show ?thesis using o(2) p(2) st by (auto simp: part_state_def sg1_def same_wiring_def)
qed

lemma part_state_refl: "part_state st st"
  by (cases "snd st") (auto simp: part_state_def same_wiring_def intro: exI [of _ "connected (snd st)"])

lemma part_state_trans: "part_state st st' \<Longrightarrow> part_state st' st'' \<Longrightarrow> part_state st st''"
  by (auto simp: part_state_def same_wiring_def)

lemma part_state_grp [simp]:
  assumes "part_state st st'"
  shows "grp_N (snd st') = grp_N (snd st)" "length (connected (snd st')) = length (connected (snd st))"
    "end_of (snd st') a b = end_of (snd st) a b" "srvs (snd st') = srvs (snd st)" "gid (snd st') = gid (snd st)"
    "grp_wf (snd st) \<Longrightarrow> grp_wf (snd st')"
  using assms by (auto simp: part_state_def)

text \<open>
  One round of \<open>Partition\<close> has visited \<open>ys\<close> of \<open>p1\<close>: those are connected to each
  other and cut from \<open>p2\<close>; whatever does not touch \<open>p1\<close> is as before.
\<close>

definition part_inv ::
  "nat list \<Rightarrow> nat list \<Rightarrow> string Network \<times> 'r ServerGrp \<Rightarrow> nat list \<Rightarrow> string Network \<times> 'r ServerGrp \<Rightarrow> bool" where
  "part_inv p1 p2 st0 ys st \<longleftrightarrow> part_state st0 st \<and>
     (\<forall>a \<in> set ys. connected (snd st) ! a) \<and>
     (\<forall>a \<in> set ys. \<forall>b \<in> set p2. \<not> link st a b \<and> \<not> link st b a) \<and>
     (\<forall>a \<in> set ys. \<forall>b \<in> set ys. link st a b) \<and>
     (\<forall>a < grp_N (snd st0). a \<notin> set p1 \<longrightarrow> connected (snd st) ! a = connected (snd st0) ! a) \<and>
     (\<forall>a < grp_N (snd st0). \<forall>b < grp_N (snd st0). a \<notin> set p1 \<and> b \<notin> set p1 \<longrightarrow> link st a b = link st0 a b)"

lemma part_step:
  assumes wf: "grp_wf (snd st0)" and r: "\<forall>t \<in> set p1 \<union> set p2. t < grp_N (snd st0)"
    and disj: "set p1 \<inter> set p2 = {}" and x: "x \<in> set p1" and ys: "set ys \<subseteq> set p1"
    and inv: "part_inv p1 p2 st0 ys st"
  shows "returns (bindr (disconnect x p2 st) (connect x p1)) (part_inv p1 p2 st0 (ys @ [x]))"
proof -
  have ps: "part_state st0 st" using inv by (simp add: part_inv_def)
  note [simp] = part_state_grp [OF ps]
  have "returns (disconnect x p2 st) (\<lambda>st'. part_state st st' \<and> connected (snd st') = (connected (snd st))[x := False] \<and>
     (\<forall>a < grp_N (snd st). \<forall>b < grp_N (snd st). link st' a b \<longleftrightarrow>
        link st a b \<and> \<not> (a = x \<and> b \<in> set p2) \<and> \<not> (b = x \<and> a \<in> set p2)))"
    by (rule disconnect_links) (use wf r x in auto)
  then obtain s1 where s1: "disconnect x p2 st = Inr s1" "part_state st s1"
    "connected (snd s1) = (connected (snd st))[x := False]"
    "\<forall>a < grp_N (snd st0). \<forall>b < grp_N (snd st0). link s1 a b \<longleftrightarrow>
        link st a b \<and> \<not> (a = x \<and> b \<in> set p2) \<and> \<not> (b = x \<and> a \<in> set p2)"
    by (auto simp: returns_def)
  note ps1 = part_state_trans [OF ps s1(2)]
  note [simp] = part_state_grp [OF ps1]
  have "returns (connect x p1 s1) (\<lambda>st'. part_state s1 st' \<and> connected (snd st') = (connected (snd s1))[x := True] \<and>
     (\<forall>a < grp_N (snd s1). \<forall>b < grp_N (snd s1). link st' a b \<longleftrightarrow>
        link s1 a b \<or> a = x \<and> b \<in> set p1 \<and> connected (snd st') ! b \<or> b = x \<and> a \<in> set p1 \<and> connected (snd st') ! a))"
    by (rule connect_links) (use wf r x in auto)
  then obtain s2 where s2: "connect x p1 s1 = Inr s2" "part_state s1 s2"
    "connected (snd s2) = (connected (snd st))[x := True]"
    "\<forall>a < grp_N (snd st0). \<forall>b < grp_N (snd st0). link s2 a b \<longleftrightarrow>
        link s1 a b \<or> a = x \<and> b \<in> set p1 \<and> connected (snd s2) ! b \<or> b = x \<and> a \<in> set p1 \<and> connected (snd s2) ! a"
    using s1(3) by (auto simp: returns_def)
  have xn: "x < grp_N (snd st0)" using r x by auto
  have "length (connected (snd st0)) = grp_N (snd st0)" using wf by (simp add: grp_wf_def grp_N_def)
  then have c2: "connected (snd s2) ! a \<longleftrightarrow> a = x \<or> connected (snd st) ! a" if "a < grp_N (snd st0)" for a
    using that s2(3) xn by (simp add: nth_list_update)
  have l2: "link s2 a b \<longleftrightarrow> link st a b \<and> \<not> (a = x \<and> b \<in> set p2) \<and> \<not> (b = x \<and> a \<in> set p2) \<or>
      a = x \<and> b \<in> set p1 \<and> (b = x \<or> connected (snd st) ! b) \<or> b = x \<and> a \<in> set p1 \<and> (a = x \<or> connected (snd st) ! a)"
    if "a < grp_N (snd st0)" "b < grp_N (snd st0)" for a b
    using s1(4) [rule_format, OF that] s2(4) [rule_format, OF that] c2 [OF that(1)] c2 [OF that(2)] by simp
  have conn: "connected (snd st) ! a" if "a \<in> set ys" for a using inv that unfolding part_inv_def by blast
  have cut: "\<not> link st a b" "\<not> link st b a" if "a \<in> set ys" "b \<in> set p2" for a b
    using inv that unfolding part_inv_def by blast+
  have lin: "link st a b" if "a \<in> set ys" "b \<in> set ys" for a b using inv that unfolding part_inv_def by blast
  have rng: "a < grp_N (snd st0)" "a \<in> set p1" "a \<notin> set p2" if "a \<in> set (ys @ [x])" for a
    using that r ys x disj by auto
  have rng2: "a < grp_N (snd st0)" "a \<notin> set p1" "a \<noteq> x" if "a \<in> set p2" for a using that r disj x by auto
  have "part_inv p1 p2 st0 (ys @ [x]) s2"
    unfolding part_inv_def
  proof (intro conjI ballI)
    show "part_state st0 s2" by (rule part_state_trans [OF ps1 s2(2)])
    show "connected (snd s2) ! a" if "a \<in> set (ys @ [x])" for a
      using c2 [OF rng(1) [OF that]] conn that by auto
    show "\<not> link s2 a b" "\<not> link s2 b a" if ab: "a \<in> set (ys @ [x])" "b \<in> set p2" for a b
      using l2 [OF rng(1) [OF ab(1)] rng2(1) [OF ab(2)]] l2 [OF rng2(1) [OF ab(2)] rng(1) [OF ab(1)]]
        cut [OF _ ab(2)] rng2 [OF ab(2)] ab by auto
    show "link s2 a b" if ab: "a \<in> set (ys @ [x])" "b \<in> set (ys @ [x])" for a b
      using l2 [OF rng(1) [OF ab(1)] rng(1) [OF ab(2)]] rng(2,3) [OF ab(1)] rng(2,3) [OF ab(2)] conn lin ab by auto
    show "\<forall>a < grp_N (snd st0). a \<notin> set p1 \<longrightarrow> connected (snd s2) ! a = connected (snd st0) ! a"
      using inv c2 x unfolding part_inv_def by metis
    show "\<forall>a < grp_N (snd st0). \<forall>b < grp_N (snd st0). a \<notin> set p1 \<and> b \<notin> set p1 \<longrightarrow> link s2 a b = link st0 a b"
      using inv l2 x unfolding part_inv_def by metis
  qed
  then show ?thesis using s1(1) s2(1) by simp
qed

lemma part_loop_inv:
  assumes "grp_wf (snd st)" and "\<forall>t \<in> set p1 \<union> set p2. t < grp_N (snd st)" and "set p1 \<inter> set p2 = {}"
  shows "returns (part_loop p1 p2 st) (part_inv p1 p2 st p1)"
  unfolding part_loop_def
proof (rule for_each_invariant [where I = "part_inv p1 p2 st"])
  show "part_inv p1 p2 st [] st" by (simp add: part_inv_def part_state_refl)
next
  fix ys x zs t
  assume p1: "p1 = ys @ x # zs" and inv: "part_inv p1 p2 st ys t"
  show "returns (bindr (disconnect x p2 t) (connect x p1)) (part_inv p1 p2 st (ys @ [x]))"
    by (rule part_step [OF assms]) (use p1 inv in auto)
qed

text \<open>\<open>MakePartition\<close> in closed form: the servers other than the leader in order, cut after the majority.\<close>

lemma mp_loop:
  assumes "n = 2 * h \<or> n = 2 * h + 1" and "k \<le> n"
  shows "for_each (mp_step l) [0..<k] (replicate (h + 1) 0, replicate h 0, 0) =
    (let os = filter (\<lambda>i. i \<noteq> l) [0..<k] in
     Inr (take (h + 1) os @ replicate (h + 1 - length os) 0,
          drop (h + 1) os @ replicate (h - (length os - (h + 1))) 0, length os))"
  using assms(2)
proof (induction k)
  case (Suc k)
  define os where "os = filter (\<lambda>i. i \<noteq> l) [0..<k]"
  have "length os \<le> length [0..<k]" unfolding os_def by (rule length_filter_le)
  then have len: "length os \<le> k" by simp
  let ?p1 = "take (h + 1) os @ replicate (h + 1 - length os) 0"
  let ?p2 = "drop (h + 1) os @ replicate (h - (length os - (h + 1))) 0"
  have IH: "for_each (mp_step l) [0..<k] (replicate (h + 1) 0, replicate h 0, 0) = Inr (?p1, ?p2, length os)"
    using Suc by (simp add: os_def Let_def)
  have step: "mp_step l k (?p1, ?p2, length os) =
    Inr (let os' = (if k \<noteq> l then os @ [k] else os) in
      (take (h + 1) os' @ replicate (h + 1 - length os') 0,
       drop (h + 1) os' @ replicate (h - (length os' - (h + 1))) 0, length os'))"
  proof (cases "k \<noteq> l")
    case True
    show ?thesis
    proof (cases "length os < h + 1")
      case True
      then obtain r where r: "h + 1 - length os = Suc r" by (cases "h + 1 - length os") auto
      then have "?p1[length os := k] = take (h + 1) (os @ [k]) @ replicate r 0"
        using True by (simp add: list_update_append)
      then show ?thesis using True \<open>k \<noteq> l\<close> r by (simp add: mp_step_def Let_def)
    next
      case False
      then obtain q where q: "length os = h + 1 + q" using le_Suc_ex by (metis not_less)
      have "q < h" using q len assms(1) Suc.prems by auto
      then obtain r where r: "h - q = Suc r" by (cases "h - q") auto
      have "?p2[q := k] = drop (h + 1) (os @ [k]) @ replicate (h - Suc q) 0"
        using q r by (simp add: list_update_append)
      then show ?thesis using False \<open>k \<noteq> l\<close> q \<open>q < h\<close> by (simp add: mp_step_def Let_def)
    qed
  qed (simp add: mp_step_def Let_def)
  show ?case using IH step by (simp add: os_def Let_def)
qed simp

lemma MakePartition_eq:
  assumes "n = 2 * h \<or> n = 2 * h + 1" and "grp_N sg = n" and "0 < h"
  shows "MakePartition sg l =
    (let os = filter (\<lambda>i. i \<noteq> l) [0..<n];
         p2 = drop (h + 1) os @ replicate (h - (length os - (h + 1))) 0
     in Inr (take (h + 1) os @ replicate (h + 1 - length os) 0, p2[h - 1 := l]))"
proof -
  have h: "n div 2 = h" using assms(1) by auto
  have "length (filter (\<lambda>i. i \<noteq> l) [0..<n]) \<le> length [0..<n]" by (rule length_filter_le)
  then have "length (filter (\<lambda>i. i \<noteq> l) [0..<n]) - (h + 1) \<le> h" using assms(1) by auto
  then have "length (drop (h + 1) (filter (\<lambda>i. i \<noteq> l) [0..<n]) @
      replicate (h - (length (filter (\<lambda>i. i \<noteq> l) [0..<n]) - (h + 1))) 0) = h" by simp
  then show ?thesis
    using mp_loop [OF assms(1), of n l] assms(2,3) h
    by (auto simp: MakePartition_def grp_N_def Let_def set_idx_def simp del: upt_Suc)
qed

lemma others_length: "l < n \<Longrightarrow> length (filter (\<lambda>i. i \<noteq> l) [0..<n]) = n - 1"
proof -
  assume "l < n"
  then have "[0..<n] = [0..<l] @ l # [Suc l..<n]" using upt_add_eq_append [of 0 l "n - l"] by (simp add: upt_conv_Cons)
  moreover have "filter (\<lambda>i. i \<noteq> l) [0..<l] = [0..<l]" "filter (\<lambda>i. i \<noteq> l) [Suc l..<n] = [Suc l..<n]"
    by (auto simp: filter_id_conv)
  ultimately show ?thesis using \<open>l < n\<close> by simp
qed

text \<open>With an odd number of servers the two parts split the group and the leader is in the smaller one.\<close>

lemma make_partition_odd:
  assumes n: "grp_N sg = 2 * h + 1" and h: "0 < h" and l: "l < grp_N sg"
  shows "returns (MakePartition sg l) (\<lambda>(p1, p2). length p1 = h + 1 \<and> length p2 = h \<and> l \<in> set p2 \<and>
           set p1 \<inter> set p2 = {} \<and> set p1 \<union> set p2 = {..<grp_N sg})"
proof -
  define os where "os = filter (\<lambda>i. i \<noteq> l) [0..<grp_N sg]"
  have len: "length os = 2 * h" using others_length [OF l] n by (simp add: os_def)
  have "(drop (h + 1) os @ replicate (h - (length os - (h + 1))) 0)[h - 1 := l] = drop (h + 1) os @ [l]"
    using len h by (cases h) (simp_all add: list_update_append)
  then have eq: "MakePartition sg l = Inr (take (h + 1) os, drop (h + 1) os @ [l])"
    using MakePartition_eq [of "grp_N sg" h sg l] n h len by (simp add: os_def Let_def)
  have split: "set (take (h + 1) os) \<union> set (drop (h + 1) os) = set os" by (metis append_take_drop_id set_append)
  have "set (take (h + 1) os) \<inter> set (drop (h + 1) os) = {}"
    by (rule set_take_disj_set_drop_if_distinct) (simp_all add: os_def)
  moreover have "l \<notin> set (take (h + 1) os)" using split by (auto simp: os_def)
  moreover have "set os = {..<grp_N sg} - {l}" by (auto simp: os_def)
  ultimately show ?thesis unfolding eq returns_simps prod.case using split len h l by auto
qed

lemma Partition_links:
  assumes "grp_wf (snd st)" and "\<forall>t \<in> set p1 \<union> set p2. t < grp_N (snd st)" and "set p1 \<inter> set p2 = {}"
  shows "returns (Partition p1 p2 st) (\<lambda>st'. part_state st st' \<and> (\<forall>a \<in> set p1 \<union> set p2. connected (snd st') ! a) \<and>
           (\<forall>a \<in> set p1 \<union> set p2. \<forall>b \<in> set p1 \<union> set p2. link st' a b \<longleftrightarrow> (a \<in> set p1 \<longleftrightarrow> b \<in> set p1)))"
proof -
  obtain s1 where s1: "part_loop p1 p2 st = Inr s1" "part_inv p1 p2 st p1 s1"
    using part_loop_inv [OF assms] by (auto simp: returns_def)
  have ps: "part_state st s1" using s1(2) by (simp add: part_inv_def)
  note g = part_state_grp [OF ps]
  obtain s2 where s2: "part_loop p2 p1 s1 = Inr s2" "part_inv p2 p1 s1 p2 s2"
    using part_loop_inv [of s1 p2 p1] g(1,6) assms unfolding returns_def by (metis Un_commute inf_commute)
  have ps2: "part_state st s2" using part_state_trans [OF ps] s2(2) by (simp add: part_inv_def)
  have c: "connected (snd s2) ! a" if "a \<in> set p1 \<union> set p2" for a
  proof (cases "a \<in> set p2")
    case False
    then have "a \<in> set p1" "a < grp_N (snd s1)" using that assms(2) g by auto
    then show ?thesis using False s1(2) s2(2) unfolding part_inv_def by metis
  qed (use s2(2) in \<open>auto simp: part_inv_def\<close>)
  have l: "link s2 a b \<longleftrightarrow> (a \<in> set p1 \<longleftrightarrow> b \<in> set p1)" if "a \<in> set p1 \<union> set p2" "b \<in> set p1 \<union> set p2" for a b
  proof (cases "a \<in> set p1 \<and> b \<in> set p1")
    case True
    then have "a \<notin> set p2" "b \<notin> set p2" "a < grp_N (snd s1)" "b < grp_N (snd s1)" using assms(2,3) g by auto
    then have "link s2 a b = link s1 a b" using s2(2) unfolding part_inv_def by blast
    moreover have "link s1 a b" using s1(2) True unfolding part_inv_def by blast
    ultimately show ?thesis using True by simp
  next
    case False
    then show ?thesis using that s2(2) assms(3) unfolding part_inv_def by blast
  qed
  show ?thesis using s1(1) s2(1) ps2 c l by (simp add: Partition_def)
qed

section \<open>New groups, shutdown and restart\<close>

text \<open>The network \<open>net'\<close> has the new ends \<open>es\<close>, not enabled, each leading to the server \<open>to e\<close>.\<close>

definition new_ends :: "'n Network \<Rightarrow> 'n set \<Rightarrow> ('n \<Rightarrow> 'n) \<Rightarrow> 'n Network \<Rightarrow> bool" where
  "new_ends net es to net' \<longleftrightarrow> ends net' = ends net \<union> es \<and> servers net' = servers net \<and>
     (\<forall>e. e \<in> es \<longrightarrow> connections net' e = Some (to e) \<and> \<not> is_enabled net' e) \<and>
     (\<forall>e. e \<notin> es \<longrightarrow> connections net' e = connections net e \<and> is_enabled net' e = is_enabled net e)"

lemma make_end_new:
  assumes "draw j \<notin> ends net"
  shows "returns (make_end g draw j net) (\<lambda>net'. ends net' = insert (draw j) (ends net) \<and> servers net' = servers net \<and>
     connections net' = (connections net)(draw j \<mapsto> ServerName g j) \<and>
     (\<forall>e. is_enabled net' e \<longleftrightarrow> e \<noteq> draw j \<and> is_enabled net e))"
  using assms by (simp add: make_end_def MakeEnd_def Connect_def is_enabled_def)

text \<open>The server that a drawn name leads to.\<close>

definition leads :: "nat \<Rightarrow> nat \<Rightarrow> (nat \<Rightarrow> string) \<Rightarrow> string \<Rightarrow> string" where
  "leads g n draw e = ServerName g (the_inv_into {..<n} draw e)"

lemma leads_draw [simp]: "inj_on draw {..<n} \<Longrightarrow> j < n \<Longrightarrow> leads g n draw (draw j) = ServerName g j"
  by (simp add: leads_def the_inv_into_f_f)

lemma make_ends_new:
  assumes "inj_on draw {..<n}" and "draw ` {..<n} \<inter> ends net = {}"
  shows "returns (for_each (make_end g draw) [0..<n] net) (new_ends net (draw ` {..<n}) (leads g n draw))"
proof -
  have "returns (for_each (make_end g draw) [0..<n] net) (\<lambda>net'. new_ends net (draw ` set [0..<n]) (leads g n draw) net')"
  proof (rule for_each_invariant [where I = "\<lambda>ys. new_ends net (draw ` set ys) (leads g n draw)"])
    show "new_ends net (draw ` set []) (leads g n draw) net" by (simp add: new_ends_def)
    fix ys x zs t
    assume e: "[0..<n] = ys @ x # zs" and inv: "new_ends net (draw ` set ys) (leads g n draw) t"
    have "set [0..<n] = set (ys @ x # zs)" using e by simp
    then have "set ys \<union> {x} \<subseteq> {..<n}" by auto
    moreover have "x \<notin> set ys" using distinct_upt [of 0 n] unfolding e by auto
    ultimately have fresh: "draw x \<notin> draw ` set ys" "x < n" using assms(1) by (auto simp: inj_on_def)
    then have "draw x \<notin> ends t" using inv assms(2) by (auto simp: new_ends_def)
    from make_end_new [of draw x t g, OF this] show "returns (make_end g draw x t) (new_ends net (draw ` set (ys @ [x])) (leads g n draw))"
      by (rule returns_mono) (use inv fresh assms(1) in \<open>auto simp: new_ends_def\<close>)
  qed
  then show ?thesis by (simp add: atLeast0LessThan)
qed

definition fresh_server :: "nat \<Rightarrow> (nat \<Rightarrow> string) \<Rightarrow> 'r tserver" where
  "fresh_server n draw = \<lparr>saved = None, endNames = map draw [0..<n], dc = None\<rparr>"

lemma makeServer_new:
  assumes "inj_on draw {..<n}" and "draw ` {..<n} \<inter> ends net = {}"
  shows "returns (makeServer net g n draw) (\<lambda>(net', s). s = fresh_server n draw \<and>
     new_ends net (draw ` {..<n}) (leads g n draw) net')"
  using make_ends_new [OF assms, of g] by (auto simp: makeServer_def fresh_server_def returns_def)

lemma new_ends_trans:
  assumes "new_ends net es to net1" and "new_ends net1 fs to' net2" and "es \<inter> fs = {}"
    and "\<And>e. e \<in> es \<Longrightarrow> to'' e = to e" and "\<And>e. e \<in> fs \<Longrightarrow> to'' e = to' e"
  shows "new_ends net (es \<union> fs) to'' net2"
  using assms unfolding new_ends_def by (auto simp: disjoint_iff)

text \<open>
  A group made with names that are drawn fresh is well formed: every server has its own ends, the
  \<open>b\<close>-th leads to the \<open>b\<close>-th server, and none is enabled.
\<close>

lemma makeSrvGrp_new:
  assumes inj: "inj_on (\<lambda>(i, j). draw i j) ({..<n} \<times> {..<n})"
    and new: "\<And>i j. i < n \<Longrightarrow> j < n \<Longrightarrow> draw i j \<notin> ends net"
  shows "returns (makeSrvGrp net g n draw :: (string Network \<times> 'r ServerGrp) res) (\<lambda>(net', sg). grp_wf sg \<and> grp_N sg = n \<and> gid sg = g \<and>
     (\<forall>a < n. \<forall>b < n. end_of sg a b = draw a b \<and> connections net' (draw a b) = Some (ServerName g b) \<and> \<not> is_enabled net' (draw a b)))"
proof -
  define I :: "nat list \<Rightarrow> string Network \<times> 'r tserver list \<Rightarrow> bool" where "I = (\<lambda>ys (net1, ss). ss = map (\<lambda>i. fresh_server n (draw i)) ys \<and>
      ends net1 = ends net \<union> {draw i j |i j. i \<in> set ys \<and> j < n} \<and>
      (\<forall>i \<in> set ys. \<forall>j < n. connections net1 (draw i j) = Some (ServerName g j) \<and> \<not> is_enabled net1 (draw i j)))"
  let ?f = "\<lambda>i (net1, ss). bindr (makeServer net1 g n (draw i)) (\<lambda>(net2, s). Inr (net2, ss @ [s]))"
  have D: "draw i j = draw i' j' \<longleftrightarrow> i = i' \<and> j = j'" if "i < n" "j < n" "i' < n" "j' < n" for i j i' j'
    using inj that by (auto simp: inj_on_def)
  have "returns (for_each ?f [0..<n] (net, [])) (I [0..<n])"
  proof (rule for_each_invariant [where I = I])
    show "I [] (net, [])" by (simp add: I_def)
    fix ys x zs t
    assume e: "[0..<n] = ys @ x # zs" and inv: "I ys t"
    obtain net1 ss where t: "t = (net1, ss)" by (cases t)
    have "set [0..<n] = set (ys @ x # zs)" using e by simp
    then have rng: "\<And>i. i \<in> set ys \<Longrightarrow> i < n" "x < n" by auto
    have x: "x \<notin> set ys" using distinct_upt [of 0 n] unfolding e by auto
    have "inj_on (draw x) {..<n}" using D rng(2) by (auto simp: inj_on_def)
    moreover have "draw x ` {..<n} \<inter> ends net1 = {}" using inv t new rng x D by (auto simp: I_def)
    ultimately have m: "returns (makeServer net1 g n (draw x) :: (string Network \<times> 'r tserver) res) (\<lambda>(net', s). s = fresh_server n (draw x) \<and>
        new_ends net1 (draw x ` {..<n}) (leads g n (draw x)) net')" by (rule makeServer_new)
    from m obtain net2 where m: "makeServer net1 g n (draw x) = Inr (net2, fresh_server n (draw x) :: 'r tserver)"
      "new_ends net1 (draw x ` {..<n}) (leads g n (draw x)) net2" by (auto simp: returns_def)
    have x2: "connections net2 (draw x j) = Some (ServerName g j)" "\<not> is_enabled net2 (draw x j)" if "j < n" for j
      using m(2) that \<open>inj_on (draw x) {..<n}\<close> by (auto simp: new_ends_def)
    have y2: "connections net2 (draw i j) = Some (ServerName g j)" "\<not> is_enabled net2 (draw i j)" if "i \<in> set ys" "j < n" for i j
    proof -
      have "draw i j \<notin> draw x ` {..<n}" using D rng that x by auto
      then show "connections net2 (draw i j) = Some (ServerName g j)" "\<not> is_enabled net2 (draw i j)"
        using m(2) inv t that by (auto simp: new_ends_def I_def)
    qed
    have "ends net2 = ends net \<union> {draw i j |i j. i \<in> set (ys @ [x]) \<and> j < n}"
      using m(2) inv t by (auto simp: new_ends_def I_def)
    then have "I (ys @ [x]) (net2, ss @ [fresh_server n (draw x)])"
      using inv t x2 y2 by (auto simp: I_def)
    then show "returns (?f x t) (I (ys @ [x]))" using m(1) t by simp
  qed
  then obtain net' where net': "for_each ?f [0..<n] (net, []) = Inr (net', map (\<lambda>i. fresh_server n (draw i) :: 'r tserver) [0..<n])"
    "\<forall>i < n. \<forall>j < n. connections net' (draw i j) = Some (ServerName g j) \<and> \<not> is_enabled net' (draw i j)"
    by (auto simp: returns_def I_def)
  define sg :: "'r ServerGrp" where "sg = \<lparr>srvs = map (\<lambda>i. fresh_server n (draw i)) [0..<n], servernames = map (ServerName g) [0..<n],
    gid = g, connected = replicate n False\<rparr>"
  have en: "end_of sg a b = draw a b" if "a < n" "b < n" for a b using that by (simp add: end_of_def sg_def fresh_server_def)
  have "inj_on (\<lambda>(a, b). end_of sg a b) ({..<n} \<times> {..<n})"
    using inj en by (auto simp: inj_on_def)
  then have "grp_wf sg" by (auto simp: grp_wf_def sg_def fresh_server_def)
  moreover have "makeSrvGrp net g n draw = Inr (net', sg)" using net'(1) by (simp add: makeSrvGrp_def sg_def)
  ultimately show ?thesis using en net'(2) by (simp add: grp_N_def sg_def)
qed

text \<open>A group whose ends are all known to the network.\<close>

definition grp_inv :: "string Network \<times> 'r ServerGrp \<Rightarrow> bool" where
  "grp_inv st \<longleftrightarrow> grp_wf (snd st) \<and> (\<forall>a < grp_N (snd st). \<forall>b < grp_N (snd st). end_of (snd st) a b \<in> ends (fst st))"

lemma checkpoint_handover [simp]: "checkpointPersister d = ds_persister d"
  by (cases "ds_persister d")
    (simp add: checkpointPersister_def DaemonSrv_CheckpointPersister_def Persister_Save_def MakePersister_def
      ReadRaftState_def ReadSnapshot_def)

lemma init_handover [simp]: "DaemonClnt_init p = \<lparr>ds_persister = p, ds_closed = False\<rparr>"
  by (cases p) (simp add: DaemonClnt_init_def DaemonSrv_Init_def Persister_Save_def MakePersister_def ReadRaftState_def ReadSnapshot_def)

lemma ServerName_inj [simp]: "ServerName g i = ServerName g' i' \<longleftrightarrow> g = g' \<and> i = i'"
proof
  assume "ServerName g i = ServerName g' i'"
  then have eq: "itoa g @ CHR ''-'' # itoa i = itoa g' @ CHR ''-'' # itoa i'" by (simp add: ServerName_def)
  have no: "takeWhile (\<lambda>c. c \<noteq> CHR ''-'') (itoa m @ CHR ''-'' # itoa k) = itoa m"
    "dropWhile (\<lambda>c. c \<noteq> CHR ''-'') (itoa m @ CHR ''-'' # itoa k) = CHR ''-'' # itoa k" for m k
  proof -
    have "c \<noteq> CHR ''-''" if "c \<in> set (itoa m)" for c using itoa_digits [OF that] by (auto simp: is_digit_def)
    then show "takeWhile (\<lambda>c. c \<noteq> CHR ''-'') (itoa m @ CHR ''-'' # itoa k) = itoa m"
      "dropWhile (\<lambda>c. c \<noteq> CHR ''-'') (itoa m @ CHR ''-'' # itoa k) = CHR ''-'' # itoa k"
      by (simp_all add: takeWhile_append2 dropWhile_append2)
  qed
  from eq have "itoa g = itoa g'" "CHR ''-'' # itoa i = CHR ''-'' # itoa i'" using no by metis+
  then show "g = g' \<and> i = i'" by simp
qed simp

lemma ShutdownServer_links:
  assumes "grp_inv st" and "i < grp_N (snd st)"
  shows "returns (ShutdownServer i st) (\<lambda>st'. grp_inv st' \<and> grp_N (snd st') = grp_N (snd st) \<and> gid (snd st') = gid (snd st) \<and>
     ends (fst st') = ends (fst st) \<and> (\<forall>a b. end_of (snd st') a b = end_of (snd st) a b) \<and>
     srvs (snd st') = (srvs (snd st))[i := shutdownServer (srvs (snd st) ! i)] \<and>
     servers (fst st') = (servers (fst st))(ServerName (gid (snd st)) i := None) \<and>
     (\<forall>a < grp_N (snd st). \<not> link st' i a \<and> \<not> link st' a i))"
proof -
  have wf: "grp_wf (snd st)" and i: "i < length (srvs (snd st))" using assms by (auto simp: grp_inv_def grp_N_def)
  have "returns (disconnect i (grp_all (snd st)) st) (\<lambda>st'. part_state st st' \<and> connected (snd st') = (connected (snd st))[i := False] \<and>
     (\<forall>a < grp_N (snd st). \<forall>b < grp_N (snd st). link st' a b \<longleftrightarrow>
        link st a b \<and> \<not> (a = i \<and> b \<in> set (grp_all (snd st))) \<and> \<not> (b = i \<and> a \<in> set (grp_all (snd st)))))"
    by (rule disconnect_links) (use assms wf in \<open>auto simp: grp_all_def grp_N_def\<close>)
  then obtain net1 sg1 where d: "disconnect i (grp_all (snd st)) st = Inr (net1, sg1)" "part_state st (net1, sg1)"
    "\<forall>a < grp_N (snd st). \<not> link (net1, sg1) i a \<and> \<not> link (net1, sg1) a i"
    using assms(2) by (auto simp: returns_def grp_all_def grp_N_def)
  define st' where "st' = (DeleteServer net1 (ServerName (gid sg1) i), sg1\<lparr>srvs := (srvs sg1)[i := shutdownServer (srvs sg1 ! i)]\<rparr>)"
  note g = part_state_grp [OF d(2), simplified]
  have ends': "endNames (shutdownServer s) = endNames s" for s :: "'a tserver"
    by (simp add: shutdownServer_def split: option.split)
  have e: "end_of (snd st') a b = end_of (snd st) a b" for a b
    using g(4) ends' i by (cases "i = a") (simp_all add: st'_def end_of_def)
  have n: "grp_N (snd st') = grp_N (snd st)" using g(4) by (simp add: st'_def grp_N_def)
  have w: "ends net1 = ends (fst st)" "servers net1 = servers (fst st)" using d(2) unfolding part_state_def same_wiring_def by simp_all
  have "length (endNames s) = grp_N (snd st)" if "s \<in> set (srvs (snd st'))" for s
  proof -
    obtain a where "a < grp_N (snd st)" "s = srvs (snd st') ! a" using \<open>s \<in> _\<close> n by (auto simp: in_set_conv_nth grp_N_def)
    then show ?thesis using wf g(4) ends' i by (cases "i = a") (auto simp: st'_def grp_N_def grp_wf_def)
  qed
  then have "grp_wf (snd st')"
    using wf g(1,2,4) n unfolding grp_wf_def e by (auto simp: grp_N_def st'_def)
  moreover have "link st' a b = link (net1, sg1) a b" for a b
    using e g(3) by (simp add: link_def) (simp add: st'_def DeleteServer_def is_enabled_def)
  moreover have "ShutdownServer i st = Inr st'"
    using d(1) i g(4) by (simp add: ShutdownServer_def st'_def)
  ultimately show ?thesis
    using assms(1) d(3) e n w g(4,5) by (simp add: grp_inv_def) (simp add: st'_def DeleteServer_def)
qed

text \<open>Starting a server with fresh names: it gets its saved state and new ends, none of them enabled.\<close>

lemma StartServer_fresh:
  assumes inv: "grp_inv st" and i: "i < grp_N (snd st)" and inj: "inj_on draw {..<grp_N (snd st)}"
    and new: "draw ` {..<grp_N (snd st)} \<inter> ends (fst st) = {}"
  shows "returns (StartServer True obj draw i st) (\<lambda>(ok, net', sg'). ok \<and> grp_inv (net', sg') \<and> grp_N sg' = grp_N (snd st) \<and>
     dc (srvs sg' ! i) = Some \<lparr>ds_persister = (case saved (srvs (snd st) ! i) of None \<Rightarrow> MakePersister | Some p \<Rightarrow> p), ds_closed = False\<rparr> \<and>
     servers net' = (servers (fst st))(ServerName (gid (snd st)) i \<mapsto> obj) \<and>
     (\<forall>a < grp_N sg'. end_of sg' i a = draw a \<and> \<not> is_enabled net' (draw a) \<and> connections net' (draw a) = Some (ServerName (gid sg') a)) \<and>
     (\<forall>a < grp_N sg'. \<forall>b. a \<noteq> i \<longrightarrow> end_of sg' a b = end_of (snd st) a b))"
proof -
  obtain net sg where st: "st = (net, sg)" by (cases st)
  let ?n = "grp_N sg" and ?s = "srvs sg ! i"
  let ?p = "case saved ?s of None \<Rightarrow> MakePersister | Some p \<Rightarrow> p"
  have wf: "grp_wf sg" and known: "\<And>a b. a < ?n \<Longrightarrow> b < ?n \<Longrightarrow> end_of sg a b \<in> ends net" and i': "i < length (srvs sg)"
    using inv i st by (auto simp: grp_inv_def grp_N_def)
  have len: "length (endNames ?s) = ?n" using grp_wf_lengths(3) [OF wf] i st by simp
  have "returns (makeServer net (gid sg) ?n draw :: (string Network \<times> 'a tserver) res) (\<lambda>(net', s). s = fresh_server ?n draw \<and>
     new_ends net (draw ` {..<?n}) (leads (gid sg) ?n draw) net')"
    by (rule makeServer_new) (use inj new st in auto)
  then obtain net1 where m: "makeServer net (gid sg) ?n draw = Inr (net1, fresh_server ?n draw :: 'a tserver)"
    "new_ends net (draw ` {..<?n}) (leads (gid sg) ?n draw) net1" by (auto simp: returns_def)
  define srv where "srv = (fresh_server ?n draw)\<lparr>saved := Some ?p, dc := Some \<lparr>ds_persister = ?p, ds_closed = False\<rparr>\<rparr>"
  define sg' where "sg' = sg\<lparr>srvs := (srvs sg)[i := srv]\<rparr>"
  have run: "StartServer True obj draw i st = Inr (True, AddServer net1 (ServerName (gid sg) i) obj, sg')"
    using m(1) i' len by (cases "saved ?s") (simp_all add: StartServer_def startServer_def st sg'_def srv_def)
  have n: "grp_N sg' = ?n" by (simp add: sg'_def grp_N_def)
  have e: "a \<noteq> i \<Longrightarrow> end_of sg' a b = end_of sg a b" "b < ?n \<Longrightarrow> end_of sg' i b = draw b" for a b
    using i' by (simp_all add: end_of_def sg'_def srv_def fresh_server_def)
  have new': "draw b \<noteq> end_of sg a c" if "a < ?n" "b < ?n" "c < ?n" for a b c using known [OF that(1,3)] new that(2) st by auto
  have "(a, b) = (a', b')" if "end_of sg' a b = end_of sg' a' b'" "a < ?n" "b < ?n" "a' < ?n" "b' < ?n" for a b a' b'
    using that e new' new' [symmetric] end_of_inj [OF wf] inj st by (cases "a = i"; cases "a' = i") (auto simp: inj_on_def)
  then have "inj_on (\<lambda>(a, b). end_of sg' a b) ({..<?n} \<times> {..<?n})" by (auto simp: inj_on_def)
  moreover have "length (endNames s) = ?n" if "s \<in> set (srvs sg')" for s
    using that wf set_update_subset_insert [of "srvs sg" i srv]
    by (auto simp: sg'_def srv_def fresh_server_def grp_wf_def grp_N_def)
  ultimately have wf': "grp_wf sg'" using wf n by (simp add: grp_wf_def grp_N_def sg'_def)
  have "end_of sg' a b \<in> ends net1" if "a < ?n" "b < ?n" for a b
    using m(2) e known that by (cases "a = i") (auto simp: new_ends_def)
  then have "grp_inv (AddServer net1 (ServerName (gid sg) i) obj, sg')"
    using wf' n by (simp add: grp_inv_def AddServer_def)
  moreover have "dc (srvs sg' ! i) = Some \<lparr>ds_persister = ?p, ds_closed = False\<rparr>" using i' by (simp add: sg'_def srv_def)
  moreover have "connections net1 (draw a) = Some (ServerName (gid sg) a)" "\<not> is_enabled net1 (draw a)" if "a < ?n" for a
    using m(2) inj that st by (auto simp: new_ends_def)
  moreover have "servers net1 = servers net" using m(2) by (simp add: new_ends_def)
  ultimately show ?thesis
    using run n e st by (simp add: AddServer_def is_enabled_def) (simp add: sg'_def)
qed

section \<open>Clients\<close>

text \<open>
  The client of a clerk (clnts.go): its end to each server it has talked to, in the order in
  which Go's map iterates (which is arbitrary, so the theorems hold for every order), and the
  servers it may reach, all of them for \<^verbatim>\<open>nil\<close>.
\<close>

record Clnt =
  clnt_ends :: "(string \<times> string) list"
  clnt_srvs :: "string list option"

definition makeClntTo :: "string list option \<Rightarrow> Clnt" where
  "makeClntTo ss = \<lparr>clnt_ends = [], clnt_srvs = ss\<rparr>"

definition allowedL :: "Clnt \<Rightarrow> string \<Rightarrow> bool" where
  "allowedL clnt server = (case clnt_srvs clnt of None \<Rightarrow> True | Some ss \<Rightarrow> list_ex (\<lambda>n. n = server) ss)"

definition Clnt_makeEnd :: "string \<Rightarrow> string \<Rightarrow> string Network \<times> Clnt \<Rightarrow> (string Network \<times> Clnt \<times> string) res" where
  "Clnt_makeEnd name server st =
     (case st of (net, clnt) \<Rightarrow>
        (case map_of (clnt_ends clnt) server of
           Some e \<Rightarrow> Inr (net, clnt, e)
         | None \<Rightarrow>
             bindr (MakeEnd net name) (\<lambda>net1.
             let net2 = Connect net1 name server;
                 net3 = (if allowedL clnt server then Enable net2 name True else Enable net2 name False)
             in Inr (net3, clnt\<lparr>clnt_ends := clnt_ends clnt @ [(server, name)]\<rparr>, name))))"

definition Clnt_ConnectAll :: "string Network \<times> Clnt \<Rightarrow> string Network \<times> Clnt" where
  "Clnt_ConnectAll st =
     (case st of (net, clnt) \<Rightarrow>
        (fold (\<lambda>(srv, e) net. Enable net e True) (clnt_ends clnt) net, clnt\<lparr>clnt_srvs := None\<rparr>))"

definition Clnt_ConnectTo :: "string list option \<Rightarrow> string Network \<times> Clnt \<Rightarrow> string Network \<times> Clnt" where
  "Clnt_ConnectTo ss st =
     (case st of (net, clnt) \<Rightarrow>
        let clnt1 = clnt\<lparr>clnt_srvs := ss\<rparr>
        in (fold (\<lambda>(srv, e) net. if allowedL clnt1 srv then Enable net e True else net) (clnt_ends clnt1) net, clnt1))"

definition Clnt_Disconnect :: "string \<Rightarrow> string Network \<times> Clnt \<Rightarrow> string Network \<times> Clnt" where
  "Clnt_Disconnect srv st =
     (case st of (net, clnt) \<Rightarrow>
        (fold (\<lambda>(s, e) net. if s = srv then Enable net e False else net) (clnt_ends clnt) net, clnt))"

definition Clnt_DisconnectAll :: "string Network \<times> Clnt \<Rightarrow> string Network \<times> Clnt" where
  "Clnt_DisconnectAll st =
     (case st of (net, clnt) \<Rightarrow>
        (fold (\<lambda>(srv, e) net. Enable net e False) (clnt_ends clnt) net, clnt\<lparr>clnt_srvs := Some []\<rparr>))"

definition Clnt_remove :: "string Network \<times> Clnt \<Rightarrow> string Network res" where
  "Clnt_remove st = (case st of (net, clnt) \<Rightarrow> for_each (\<lambda>(srv, e) net. DeleteEnd net e) (clnt_ends clnt) net)"

text \<open>All clients of a test (\<open>Clnts\<close>): the objects by reference, in the order of iteration.\<close>

definition Clnts_makeEnd :: "string \<Rightarrow> string \<Rightarrow> string Network \<Rightarrow> string Network res" where
  "Clnts_makeEnd name servername net =
     bindr (MakeEnd net name) (\<lambda>net1. Inr (Enable (Connect net1 name servername) name True))"

definition MakeClientTo :: "nat \<Rightarrow> string list option \<Rightarrow> (nat \<times> Clnt) list \<Rightarrow> (nat \<times> Clnt) list" where
  "MakeClientTo ref ss clerks = clerks @ [(ref, makeClntTo ss)]"

definition MakeClient :: "nat \<Rightarrow> (nat \<times> Clnt) list \<Rightarrow> (nat \<times> Clnt) list" where
  "MakeClient ref clerks = MakeClientTo ref None clerks"

definition Clnts_cleanup :: "string Network \<Rightarrow> (nat \<times> Clnt) list \<Rightarrow> string Network res" where
  "Clnts_cleanup net clerks = for_each (\<lambda>(r, clnt) net. Clnt_remove (net, clnt)) clerks net"

definition DeleteClient :: "nat \<Rightarrow> string Network \<times> (nat \<times> Clnt) list \<Rightarrow> (string Network \<times> (nat \<times> Clnt) list) res" where
  "DeleteClient ref st =
     (case st of (net, clerks) \<Rightarrow>
        (case map_of clerks ref of
           None \<Rightarrow> Inr st
         | Some clnt \<Rightarrow> bindr (Clnt_remove (net, clnt)) (\<lambda>net'. Inr (net', filter (\<lambda>(r, c). r \<noteq> ref) clerks))))"

text \<open>A call of a clerk: through the end to the server, made when it does not exist yet.\<close>

definition Clnt_Call ::
  "('v \<Rightarrow> octets \<times> bool) \<Rightarrow> (octets \<Rightarrow> 'v option) \<Rightarrow> string wait_event list \<Rightarrow> string Network \<Rightarrow> draws \<Rightarrow> string \<Rightarrow>
   string \<Rightarrow> string \<Rightarrow> 'v \<Rightarrow> 'v \<Rightarrow> string Network \<times> Clnt \<Rightarrow> ('w, 'v) host \<Rightarrow>
   (string Network \<times> Clnt \<times> (('w, 'v) host \<times> bool \<times> 'v) option) res" where
  "Clnt_Call enc dec evs rn' d name server meth args reply st h =
     bindr (Clnt_makeEnd name server st) (\<lambda>(net, clnt, e).
     bindr (ClientEnd_Call enc dec (net_serve enc dec net evs rn' d) \<lparr>end_name = e, callf = None\<rparr> False meth args reply h)
       (\<lambda>r. Inr (net, clnt, r)))"

text \<open>
  What holds of a client at all times: one end per server, all different and known to the
  network, each leading to its server.
\<close>

definition clnt_inv :: "string Network \<times> Clnt \<Rightarrow> bool" where
  "clnt_inv st \<longleftrightarrow>
     (case st of (net, clnt) \<Rightarrow>
        distinct (map fst (clnt_ends clnt)) \<and> distinct (map snd (clnt_ends clnt)) \<and>
        (\<forall>(s, e) \<in> set (clnt_ends clnt). e \<in> ends net \<and> connections net e = Some s))"

text \<open>The client can reach the server: the end it has, or would make, is enabled.\<close>

definition can_reach :: "string Network \<times> Clnt \<Rightarrow> string \<Rightarrow> bool" where
  "can_reach st s \<longleftrightarrow>
     (case st of (net, clnt) \<Rightarrow>
        (case map_of (clnt_ends clnt) s of Some e \<Rightarrow> is_enabled net e | None \<Rightarrow> allowedL clnt s))"

lemma enable_fold:
  assumes "distinct (map snd es)"
  shows "same_wiring net (fold (\<lambda>(s, e) net. if c s then Enable net e v else net) es net)"
    and "(s, e) \<in> set es \<Longrightarrow>
      is_enabled (fold (\<lambda>(s, e) net. if c s then Enable net e v else net) es net) e = (if c s then v else is_enabled net e)"
proof -
  let ?f = "\<lambda>(s, e) net. if c s then Enable net e v else net"
  have "same_wiring net1 (fold ?f es net)" if "same_wiring net1 net" for net1
    using that by (induction es arbitrary: net) auto
  then show "same_wiring net (fold ?f es net)" by simp
  have "is_enabled (fold ?f es net) e = (if \<exists>s. (s, e) \<in> set es \<and> c s then v else is_enabled net e)" for e
    by (induction es arbitrary: net) (auto split: prod.splits)
  moreover have "s' = s" if "(s, e) \<in> set es" "(s', e) \<in> set es" for s'
    using that assms by (induction es) (auto simp: image_iff)
  ultimately show "(s, e) \<in> set es \<Longrightarrow> is_enabled (fold ?f es net) e = (if c s then v else is_enabled net e)"
    by (metis (mono_tags, lifting))
qed

lemma clnt_ends_simps [simp]:
  "clnt_ends (snd (Clnt_ConnectAll st)) = clnt_ends (snd st)" "clnt_srvs (snd (Clnt_ConnectAll st)) = None"
  "clnt_ends (snd (Clnt_DisconnectAll st)) = clnt_ends (snd st)" "clnt_srvs (snd (Clnt_DisconnectAll st)) = Some []"
  "clnt_ends (snd (Clnt_ConnectTo ss st)) = clnt_ends (snd st)" "clnt_srvs (snd (Clnt_ConnectTo ss st)) = ss"
  "snd (Clnt_Disconnect srv st) = snd st"
  by (simp_all add: Clnt_ConnectAll_def Clnt_DisconnectAll_def Clnt_ConnectTo_def Clnt_Disconnect_def Let_def split: prod.split)

lemma clnt_inv_wiring:
  "clnt_inv st \<Longrightarrow> same_wiring (fst st) (fst st') \<Longrightarrow> clnt_ends (snd st') = clnt_ends (snd st) \<Longrightarrow> clnt_inv st'"
  by (cases st; cases st') (simp add: clnt_inv_def same_wiring_def)

text \<open>The four operations that change which ends are enabled are instances of one loop.\<close>

lemma clnt_switch:
  assumes inv: "clnt_inv st"
    and net': "fst st' = fold (\<lambda>(s, e) net. if c s then Enable net e v else net) (clnt_ends (snd st)) (fst st)"
    and ends': "clnt_ends (snd st') = clnt_ends (snd st)"
  shows "clnt_inv st'"
    and "can_reach st' s = (if map_of (clnt_ends (snd st)) s = None then allowedL (snd st') s
                            else if c s then v else can_reach st s)"
proof -
  obtain net clnt where st: "st = (net, clnt)" by (cases st)
  obtain net1 clnt1 where st': "st' = (net1, clnt1)" by (cases st')
  have d: "distinct (map snd (clnt_ends clnt))" using inv st by (simp add: clnt_inv_def)
  note f = enable_fold [OF d, where net = net and c = c and v = v]
  show "clnt_inv st'" by (rule clnt_inv_wiring [OF inv]) (use f(1) net' ends' st in simp_all)
  show "can_reach st' s = (if map_of (clnt_ends (snd st)) s = None then allowedL (snd st') s
      else if c s then v else can_reach st s)"
  proof (cases "map_of (clnt_ends clnt) s")
    case None
    then show ?thesis using st st' ends' by (simp add: can_reach_def)
  next
    case (Some e)
    then show ?thesis using st st' ends' net' f(2) [OF map_of_SomeD [OF Some]] by (simp add: can_reach_def)
  qed
qed

lemma clnt_connect_all:
  assumes "clnt_inv st"
  shows "clnt_inv (Clnt_ConnectAll st)" and "can_reach (Clnt_ConnectAll st) s"
  using clnt_switch [OF assms, of "Clnt_ConnectAll st" "\<lambda>_. True" True]
  by (auto simp: allowedL_def Clnt_ConnectAll_def split: prod.splits)

lemma clnt_disconnect_all:
  assumes "clnt_inv st"
  shows "clnt_inv (Clnt_DisconnectAll st)" and "\<not> can_reach (Clnt_DisconnectAll st) s"
  using clnt_switch [OF assms, of "Clnt_DisconnectAll st" "\<lambda>_. True" False]
  by (auto simp: allowedL_def Clnt_DisconnectAll_def split: prod.splits)

lemma clnt_connect_to:
  assumes "clnt_inv st"
  shows "clnt_inv (Clnt_ConnectTo (Some ss) st)"
    and "can_reach (Clnt_ConnectTo (Some ss) st) s \<longleftrightarrow> s \<in> set ss \<or> map_of (clnt_ends (snd st)) s \<noteq> None \<and> can_reach st s"
proof -
  have allowed: "allowedL (snd (Clnt_ConnectTo (Some ss) st)) s \<longleftrightarrow> s \<in> set ss" for s
    by (simp add: allowedL_def list_ex_iff)
  have "fst (Clnt_ConnectTo (Some ss) st) =
      fold (\<lambda>(s, e) net. if allowedL (snd (Clnt_ConnectTo (Some ss) st)) s then Enable net e True else net) (clnt_ends (snd st)) (fst st)"
    by (simp add: Clnt_ConnectTo_def Let_def split: prod.split)
  note sw = clnt_switch [OF assms this]
  show "clnt_inv (Clnt_ConnectTo (Some ss) st)" by (rule sw) simp
  show "can_reach (Clnt_ConnectTo (Some ss) st) s \<longleftrightarrow> s \<in> set ss \<or> map_of (clnt_ends (snd st)) s \<noteq> None \<and> can_reach st s"
    using sw(2) [of s] allowed [of s] by auto
qed

lemma clnt_disconnect:
  assumes "clnt_inv st"
  shows "clnt_inv (Clnt_Disconnect srv st)"
    and "can_reach (Clnt_Disconnect srv st) s \<longleftrightarrow> can_reach st s \<and> (s = srv \<longrightarrow> map_of (clnt_ends (snd st)) srv = None)"
proof -
  have net': "fst (Clnt_Disconnect srv st) = fold (\<lambda>(s, e) net. if s = srv then Enable net e False else net) (clnt_ends (snd st)) (fst st)"
    by (simp add: Clnt_Disconnect_def split: prod.split)
  note sw = clnt_switch [OF assms net']
  show "clnt_inv (Clnt_Disconnect srv st)" by (rule sw) simp
  have "map_of (clnt_ends (snd st)) s = None \<Longrightarrow> allowedL (snd st) s = can_reach st s"
    by (cases st) (simp add: can_reach_def)
  then show "can_reach (Clnt_Disconnect srv st) s \<longleftrightarrow> can_reach st s \<and> (s = srv \<longrightarrow> map_of (clnt_ends (snd st)) srv = None)"
    using sw(2) [of s] by auto
qed

text \<open>The end a client uses for a call is its only one to the server, and it is enabled exactly when the client can reach it.\<close>

lemma clnt_make_end:
  assumes inv: "clnt_inv st" and fresh: "name \<notin> ends (fst st)"
  shows "returns (Clnt_makeEnd name server st) (\<lambda>(net', clnt', e). clnt_inv (net', clnt') \<and>
     connections net' e = Some server \<and> is_enabled net' e = can_reach st server \<and>
     (\<forall>s. can_reach (net', clnt') s = can_reach st s))"
proof -
  obtain net clnt where st: "st = (net, clnt)" by (cases st)
  show ?thesis
  proof (cases "map_of (clnt_ends clnt) server")
    case (Some e)
    then have "connections net e = Some server" using inv st map_of_SomeD [OF Some] by (auto simp: clnt_inv_def)
    then show ?thesis using Some inv st by (simp add: Clnt_makeEnd_def can_reach_def)
  next
    case None
    define net1 where "net1 = net\<lparr>ends := insert name (ends net), enabled := (enabled net)(name \<mapsto> allowedL clnt server),
      connections := (connections net)(name \<mapsto> server)\<rparr>"
    define clnt1 where "clnt1 = clnt\<lparr>clnt_ends := clnt_ends clnt @ [(server, name)]\<rparr>"
    have run: "Clnt_makeEnd name server st = Inr (net1, clnt1, name)"
      using None fresh st by (simp add: Clnt_makeEnd_def MakeEnd_def Connect_def Enable_def net1_def clnt1_def Let_def)
    have new: "e \<noteq> name" if "(s, e) \<in> set (clnt_ends clnt)" for s e using that inv st fresh by (auto simp: clnt_inv_def)
    have "server \<notin> fst ` set (clnt_ends clnt)" "name \<notin> snd ` set (clnt_ends clnt)"
      using None new by (auto simp: map_of_eq_None_iff) blast
    then have "clnt_inv (net1, clnt1)"
      using inv st new by (auto simp: clnt_inv_def clnt1_def net1_def)
    moreover have "can_reach (net1, clnt1) s = can_reach st s" for s
      using None new st map_of_SomeD [of "clnt_ends clnt" s]
      by (auto simp: can_reach_def clnt1_def net1_def map_add_def is_enabled_def allowedL_def split: option.splits)
    ultimately show ?thesis
      using run None st by (simp add: net1_def is_enabled_def can_reach_def)
  qed
qed

lemma Clnt_Call_unreachable:
  assumes "clnt_inv st" and "name \<notin> ends (fst st)" and "\<not> can_reach st server" and "snd (enc args)"
  shows "returns (Clnt_Call enc dec evs rn' d name server meth args reply st h) (\<lambda>(_, _, r). r = Some (h, False, reply))"
proof -
  obtain net clnt e where e: "Clnt_makeEnd name server st = Inr (net, clnt, e)" "\<not> is_enabled net e"
    using clnt_make_end [OF assms(1,2), of server] assms(3) by (auto simp: returns_def)
  let ?req = "\<lparr>endname = e, svcMeth = meth, req_args = fst (enc args)\<rparr>"
  have "\<And>sn s. \<not> leads_to (net_receive net ?req) (endname ?req) sn s" using e(2) by (simp add: leads_to_def)
  from processReq_down [OF this, where enc = enc and dec = dec] obtain t where
    "processReq enc dec (net_receive net ?req) evs rn' d ?req h = Inr (Some (h, rn', failed, t))" by blast
  then have "ClientEnd_Call enc dec (net_serve enc dec net evs rn' d) \<lparr>end_name = e, callf = None\<rparr> False meth args reply h
      = Inr (Some (h, False, reply))"
    using assms(4) by (simp add: ClientEnd_Call_net Let_def failed_def)
  then show ?thesis using e(1) by (simp add: Clnt_Call_def)
qed

section \<open>Properties\<close>

text \<open>
  C33. \<open>Partition\<close> does what it says, whatever the links were before: it does not panic, all
  servers named are marked connected, a server can talk to another one exactly when both are in
  the same part, and a request sent through an end that crosses the parts reaches no server
  and fails.
\<close>

theorem partition_isolates:
  assumes "grp_wf (snd st)" and "\<forall>t \<in> set p1 \<union> set p2. t < grp_N (snd st)" and "set p1 \<inter> set p2 = {}"
  shows "returns (Partition p1 p2 st) (\<lambda>st'. (\<forall>a \<in> set p1 \<union> set p2. connected (snd st') ! a) \<and>
     (\<forall>a \<in> set p1 \<union> set p2. \<forall>b \<in> set p1 \<union> set p2. link st' a b \<longleftrightarrow> (a \<in> set p1 \<longleftrightarrow> b \<in> set p1)) \<and>
     (\<forall>a \<in> set p1 \<union> set p2. \<forall>b \<in> set p1 \<union> set p2. (a \<in> set p1) \<noteq> (b \<in> set p1) \<longrightarrow>
        (\<exists>t. processReq enc dec (fst st') evs rn' d \<lparr>endname = end_of (snd st') a b, svcMeth = m, req_args = args\<rparr> h
           = Inr (Some (h, rn', failed, t)))))"
  using Partition_links [OF assms]
proof (rule returns_mono)
  fix st' :: "string Network \<times> 'a ServerGrp"
  assume st': "part_state st st' \<and> (\<forall>a \<in> set p1 \<union> set p2. connected (snd st') ! a) \<and>
    (\<forall>a \<in> set p1 \<union> set p2. \<forall>b \<in> set p1 \<union> set p2. link st' a b \<longleftrightarrow> (a \<in> set p1 \<longleftrightarrow> b \<in> set p1))"
  have "\<exists>t. processReq enc dec (fst st') evs rn' d \<lparr>endname = end_of (snd st') a b, svcMeth = m, req_args = args\<rparr> h
      = Inr (Some (h, rn', failed, t))"
    if "a \<in> set p1 \<union> set p2" "b \<in> set p1 \<union> set p2" "(a \<in> set p1) \<noteq> (b \<in> set p1)" for a b
  proof -
    have "\<not> link st' a b" using st' that by blast
    then have "\<not> leads_to (fst st') (end_of (snd st') a b) sn s" for sn s by (simp add: link_def leads_to_def)
    then show ?thesis
      using processReq_down [of "fst st'" "\<lparr>endname = end_of (snd st') a b, svcMeth = m, req_args = args\<rparr>" enc dec evs rn' d h]
      by auto
  qed
  with st' show "(\<forall>a \<in> set p1 \<union> set p2. connected (snd st') ! a) \<and>
     (\<forall>a \<in> set p1 \<union> set p2. \<forall>b \<in> set p1 \<union> set p2. link st' a b \<longleftrightarrow> (a \<in> set p1 \<longleftrightarrow> b \<in> set p1)) \<and>
     (\<forall>a \<in> set p1 \<union> set p2. \<forall>b \<in> set p1 \<union> set p2. (a \<in> set p1) \<noteq> (b \<in> set p1) \<longrightarrow>
        (\<exists>t. processReq enc dec (fst st') evs rn' d \<lparr>endname = end_of (snd st') a b, svcMeth = m, req_args = args\<rparr> h
           = Inr (Some (h, rn', failed, t))))" by blast
qed

text \<open>
  \<open>MakePartition\<close> followed by \<open>Partition\<close> puts the leader of a group with an odd number
  of servers into the minority: the two parts have \<open>h + 1\<close> and \<open>h\<close> members, together they
  are the whole group, the leader is in the smaller one, and afterwards it can talk to no
  server of the majority, nor a server of the majority to it, while the majority is complete.
\<close>

theorem leader_partitioned_off:
  assumes "grp_wf (snd st)" and "grp_N (snd st) = 2 * h + 1" and "0 < h" and "l < grp_N (snd st)"
  shows "returns (bindr (MakePartition (snd st) l) (\<lambda>(p1, p2). bindr (Partition p1 p2 st) (\<lambda>st'. Inr (p1, p2, st'))))
     (\<lambda>(p1, p2, st'). length p1 = h + 1 \<and> length p2 = h \<and> l \<in> set p2 \<and> set p1 \<union> set p2 = {..<grp_N (snd st)} \<and>
        (\<forall>a \<in> set p1. \<not> link st' l a \<and> \<not> link st' a l) \<and> (\<forall>a \<in> set p1. \<forall>b \<in> set p1. link st' a b))"
proof -
  obtain p1 p2 where p: "MakePartition (snd st) l = Inr (p1, p2)" "length p1 = h + 1" "length p2 = h" "l \<in> set p2"
    "set p1 \<inter> set p2 = {}" "set p1 \<union> set p2 = {..<grp_N (snd st)}"
    using make_partition_odd [OF assms(2-4)] by (auto simp: returns_def)
  have "\<forall>t \<in> set p1 \<union> set p2. t < grp_N (snd st)" using p(6) by auto
  from Partition_links [OF assms(1) this p(5)] obtain st' where st': "Partition p1 p2 st = Inr st'"
    "\<And>a b. a \<in> set p1 \<union> set p2 \<Longrightarrow> b \<in> set p1 \<union> set p2 \<Longrightarrow> link st' a b \<longleftrightarrow> (a \<in> set p1 \<longleftrightarrow> b \<in> set p1)"
    by (auto simp: returns_def)
  have "\<not> link st' l a" "\<not> link st' a l" if "a \<in> set p1" for a
    using that st'(2) [of l a] st'(2) [of a l] p(4,5) by auto
  moreover have "link st' a b" if "a \<in> set p1" "b \<in> set p1" for a b using that st'(2) by blast
  ultimately show ?thesis using p st'(1) by auto
qed

text \<open>
  C34. A server that is shut down and started again comes back with the persistent state it had,
  and nothing of its former life is answered. Shutting it down checkpoints the persister of its
  process; the new process starts with a copy of it, on new ends that are not enabled yet. In
  between and afterwards, no request that was waiting for the old server object gets a positive
  answer, and the group stays well formed.
\<close>

theorem restart_keeps_state:
  assumes "grp_inv st" and "i < grp_N (snd st)" and "dc (srvs (snd st) ! i) = Some ds"
    and "inj_on draw {..<grp_N (snd st)}" and "draw ` {..<grp_N (snd st)} \<inter> ends (fst st) = {}"
  shows "returns (ShutdownServer i st) (\<lambda>st1.
     (\<forall>e s. isServerDead (fst st1) e (ServerName (gid (snd st)) i) s) \<and>
     (\<forall>a < grp_N (snd st). \<not> link st1 i a \<and> \<not> link st1 a i) \<and>
     returns (StartServer True obj draw i st1) (\<lambda>(ok, net2, sg2). ok \<and> grp_inv (net2, sg2) \<and>
       dc (srvs sg2 ! i) = Some \<lparr>ds_persister = ds_persister ds, ds_closed = False\<rparr> \<and>
       (\<forall>e s. s \<noteq> obj \<longrightarrow> isServerDead net2 e (ServerName (gid (snd st)) i) s) \<and>
       (\<forall>a < grp_N sg2. end_of sg2 i a = draw a \<and> \<not> link (net2, sg2) i a)))"
  using ShutdownServer_links [OF assms(1,2)]
proof (rule returns_mono)
  fix st1
  assume st1: "grp_inv st1 \<and> grp_N (snd st1) = grp_N (snd st) \<and> gid (snd st1) = gid (snd st) \<and>
     ends (fst st1) = ends (fst st) \<and> (\<forall>a b. end_of (snd st1) a b = end_of (snd st) a b) \<and>
     srvs (snd st1) = (srvs (snd st))[i := shutdownServer (srvs (snd st) ! i)] \<and>
     servers (fst st1) = (servers (fst st))(ServerName (gid (snd st)) i := None) \<and>
     (\<forall>a < grp_N (snd st). \<not> link st1 i a \<and> \<not> link st1 a i)"
  have "saved (srvs (snd st1) ! i) = Some (ds_persister ds)"
    using st1 assms(2,3) by (simp add: shutdownServer_def grp_N_def)
  then have "returns (StartServer True obj draw i st1) (\<lambda>(ok, net2, sg2). ok \<and> grp_inv (net2, sg2) \<and>
     grp_N sg2 = grp_N (snd st1) \<and> dc (srvs sg2 ! i) = Some \<lparr>ds_persister = ds_persister ds, ds_closed = False\<rparr> \<and>
     servers net2 = (servers (fst st1))(ServerName (gid (snd st1)) i \<mapsto> obj) \<and>
     (\<forall>a < grp_N sg2. end_of sg2 i a = draw a \<and> \<not> is_enabled net2 (draw a) \<and> connections net2 (draw a) = Some (ServerName (gid sg2) a)) \<and>
     (\<forall>a < grp_N sg2. \<forall>b. a \<noteq> i \<longrightarrow> end_of sg2 a b = end_of (snd st1) a b))"
    using StartServer_fresh [of st1 i draw obj] st1 assms(2,4,5) by simp
  then have "returns (StartServer True obj draw i st1) (\<lambda>(ok, net2, sg2). ok \<and> grp_inv (net2, sg2) \<and>
       dc (srvs sg2 ! i) = Some \<lparr>ds_persister = ds_persister ds, ds_closed = False\<rparr> \<and>
       (\<forall>e s. s \<noteq> obj \<longrightarrow> isServerDead net2 e (ServerName (gid (snd st)) i) s) \<and>
       (\<forall>a < grp_N sg2. end_of sg2 i a = draw a \<and> \<not> link (net2, sg2) i a))"
    by (rule returns_mono) (use st1 in \<open>auto simp: isServerDead_def link_def\<close>)
  then show "(\<forall>e s. isServerDead (fst st1) e (ServerName (gid (snd st)) i) s) \<and>
     (\<forall>a < grp_N (snd st). \<not> link st1 i a \<and> \<not> link st1 a i) \<and>
     returns (StartServer True obj draw i st1) (\<lambda>(ok, net2, sg2). ok \<and> grp_inv (net2, sg2) \<and>
       dc (srvs sg2 ! i) = Some \<lparr>ds_persister = ds_persister ds, ds_closed = False\<rparr> \<and>
       (\<forall>e s. s \<noteq> obj \<longrightarrow> isServerDead net2 e (ServerName (gid (snd st)) i) s) \<and>
       (\<forall>a < grp_N sg2. end_of sg2 i a = draw a \<and> \<not> link (net2, sg2) i a))"
    using st1 by (auto simp: isServerDead_def)
qed

text \<open>
  What a client can reach. \<open>ConnectAll\<close> lets it reach every server and
  \<open>DisconnectAll\<close> none, also those it has no end to yet; \<open>Disconnect\<close> cuts the end it
  has; \<open>ConnectTo\<close> adds the listed servers but does not cut the ends it already has to
  others. A call uses the client's only end to the server, which is enabled exactly when the
  client can reach it.
\<close>

theorem client_reach:
  assumes "clnt_inv st" and "name \<notin> ends (fst st)"
  shows "can_reach (Clnt_ConnectAll st) s \<and> \<not> can_reach (Clnt_DisconnectAll st) s \<and>
     (can_reach (Clnt_Disconnect srv st) s \<longleftrightarrow> can_reach st s \<and> (s = srv \<longrightarrow> map_of (clnt_ends (snd st)) srv = None)) \<and>
     (can_reach (Clnt_ConnectTo (Some ss) st) s \<longleftrightarrow> s \<in> set ss \<or> map_of (clnt_ends (snd st)) s \<noteq> None \<and> can_reach st s) \<and>
     clnt_inv (Clnt_ConnectAll st) \<and> clnt_inv (Clnt_DisconnectAll st) \<and> clnt_inv (Clnt_Disconnect srv st) \<and>
     clnt_inv (Clnt_ConnectTo (Some ss) st) \<and>
     returns (Clnt_makeEnd name s st) (\<lambda>(net', clnt', e). clnt_inv (net', clnt') \<and>
       connections net' e = Some s \<and> is_enabled net' e = can_reach st s \<and> (\<forall>s'. can_reach (net', clnt') s' = can_reach st s'))"
  using clnt_connect_all [OF assms(1)] clnt_disconnect_all [OF assms(1)] clnt_disconnect [OF assms(1)]
    clnt_connect_to [OF assms(1)] clnt_make_end [OF assms] by blast

section \<open>A group of three servers, and a client\<close>

definition sample_grp :: "(string Network \<times> nat ServerGrp) res" where
  "sample_grp = makeSrvGrp MakeNetwork 0 3 ServerName"

lemma sample_grp_wf:
  obtains net sg where "sample_grp = Inr (net, sg)" "grp_wf sg" "grp_N sg = 3"
proof -
  have "returns sample_grp (\<lambda>(net', sg). grp_wf sg \<and> grp_N sg = 3 \<and> gid sg = 0 \<and>
     (\<forall>a < 3. \<forall>b < 3. end_of sg a b = ServerName a b \<and> connections net' (ServerName a b) = Some (ServerName 0 b) \<and>
        \<not> is_enabled net' (ServerName a b)))"
    unfolding sample_grp_def by (rule makeSrvGrp_new) (auto simp: inj_on_def MakeNetwork_def)
  then show ?thesis using that by (auto simp: returns_def)
qed

theorem partition_isolates_witness:
  "\<exists>net sg. sample_grp = Inr (net, sg) \<and>
     returns (Partition [0, 2] [1] (net, sg)) (\<lambda>st'. link st' 0 2 \<and> \<not> link st' 0 1 \<and> \<not> link st' 1 2)"
proof -
  obtain net sg where g: "sample_grp = Inr (net, sg)" "grp_wf sg" "grp_N sg = 3" by (rule sample_grp_wf)
  have "returns (Partition [0, 2] [1] (net, sg)) (\<lambda>st'. link st' 0 2 \<and> \<not> link st' 0 1 \<and> \<not> link st' 1 2)"
    by (rule returns_mono [OF partition_isolates [of "(net, sg)" "[0, 2]" "[1]"]]) (use g in auto)
  then show ?thesis using g(1) by blast
qed

theorem leader_partitioned_off_witness:
  "\<exists>net sg. sample_grp = Inr (net, sg) \<and>
     returns (bindr (MakePartition sg 0) (\<lambda>(p1, p2). bindr (Partition p1 p2 (net, sg)) (\<lambda>st'. Inr (p1, p2, st'))))
       (\<lambda>(p1, p2, st'). length p1 = 2 \<and> 0 \<in> set p2 \<and> (\<forall>a \<in> set p1. \<not> link st' 0 a))"
proof -
  obtain net sg where g: "sample_grp = Inr (net, sg)" "grp_wf sg" "grp_N sg = 3" by (rule sample_grp_wf)
  have "returns (bindr (MakePartition sg 0) (\<lambda>(p1, p2). bindr (Partition p1 p2 (net, sg)) (\<lambda>st'. Inr (p1, p2, st'))))
       (\<lambda>(p1, p2, st'). length p1 = 2 \<and> 0 \<in> set p2 \<and> (\<forall>a \<in> set p1. \<not> link st' 0 a))"
    by (rule returns_mono [OF leader_partitioned_off [of "(net, sg)" 1 0, unfolded snd_conv]]) (use g in auto)
  then show ?thesis using g(1) by blast
qed

definition sample_st :: "string Network \<times> nat ServerGrp" where
  "sample_st = (MakeNetwork\<lparr>ends := {''e''}, enabled := [''e'' \<mapsto> True], servers := [ServerName 0 0 \<mapsto> 4]\<rparr>,
     \<lparr>srvs = [\<lparr>saved = None, endNames = [''e''], dc = Some (DaemonSrv_Init [1, 2] [])\<rparr>], servernames = [ServerName 0 0],
      gid = 0, connected = [True]\<rparr>)"

theorem restart_keeps_state_witness:
  "returns (bindr (ShutdownServer 0 sample_st) (StartServer True 5 (\<lambda>_. ''f'') 0)) (\<lambda>(ok, net2, sg2). ok \<and>
     map_option (\<lambda>d. p_raftstate (ds_persister d)) (dc (srvs sg2 ! 0)) = Some [1, 2] \<and> isServerDead net2 ''e'' (ServerName 0 0) 4)"
proof -
  have a: "grp_inv sample_st" "0 < grp_N (snd sample_st)" and g: "gid (snd sample_st) = 0"
    by (simp_all add: grp_inv_def grp_wf_def grp_N_def sample_st_def end_of_def lessThan_Suc inj_on_def)
  have d: "dc (srvs (snd sample_st) ! 0) = Some (DaemonSrv_Init [1, 2] [])" by (simp add: sample_st_def)
  have f: "inj_on (\<lambda>_. ''f'') {..<grp_N (snd sample_st)}" "(\<lambda>_. ''f'') ` {..<grp_N (snd sample_st)} \<inter> ends (fst sample_st) = {}"
    by (auto simp: sample_st_def grp_N_def inj_on_def)
  obtain st1 where st1: "ShutdownServer 0 sample_st = Inr st1"
    "returns (StartServer True 5 (\<lambda>_. ''f'') 0 st1) (\<lambda>(ok, net2, sg2). ok \<and> grp_inv (net2, sg2) \<and>
       dc (srvs sg2 ! 0) = Some \<lparr>ds_persister = ds_persister (DaemonSrv_Init [1, 2] []), ds_closed = False\<rparr> \<and>
       (\<forall>e s. s \<noteq> 5 \<longrightarrow> isServerDead net2 e (ServerName (gid (snd sample_st)) 0) s) \<and>
       (\<forall>a < grp_N sg2. end_of sg2 0 a = ''f'' \<and> \<not> link (net2, sg2) 0 a))"
    using restart_keeps_state [OF a d f, of 5] unfolding returns_def by blast
  have "returns (StartServer True 5 (\<lambda>_. ''f'') 0 st1) (\<lambda>(ok, net2, sg2). ok \<and>
     map_option (\<lambda>d. p_raftstate (ds_persister d)) (dc (srvs sg2 ! 0)) = Some [1, 2] \<and> isServerDead net2 ''e'' (ServerName 0 0) 4)"
    by (rule returns_mono [OF st1(2)]) (clarsimp simp: g DaemonSrv_Init_def Persister_Save_def)
  then show ?thesis using st1(1) by simp
qed

text \<open>A client that may reach every server and has an end to one of them; then it is told to talk to another one only.\<close>

definition sample_clnt :: "string Network \<times> Clnt" where
  "sample_clnt = (MakeNetwork\<lparr>ends := {''x''}, enabled := [''x'' \<mapsto> True], connections := [''x'' \<mapsto> ''s1'']\<rparr>,
     \<lparr>clnt_ends = [(''s1'', ''x'')], clnt_srvs = None\<rparr>)"

theorem client_reach_witness:
  "clnt_inv sample_clnt \<and> can_reach (Clnt_ConnectTo (Some []) sample_clnt) ''s1'' \<and>
   \<not> can_reach (Clnt_DisconnectAll sample_clnt) ''s1''"
proof -
  have i: "clnt_inv sample_clnt" "''y'' \<notin> ends (fst sample_clnt)" by (simp_all add: clnt_inv_def sample_clnt_def)
  have "map_of (clnt_ends (snd sample_clnt)) ''s1'' \<noteq> None" "can_reach sample_clnt ''s1''"
    by (simp_all add: sample_clnt_def can_reach_def is_enabled_def)
  with client_reach [OF i, of "''s1''" "''s1''" "[]"] i(1) show ?thesis by simp
qed

text \<open>
  With an even number of servers \<open>MakePartition\<close> leaves one place of the second part at its
  initial zero, so that server 0 is in both parts or twice in one.
\<close>

lemma make_partition_even:
  assumes "grp_N sg = 4"
  shows "MakePartition sg 2 = Inr ([0, 1, 3], [0, 2])"
proof -
  have "[0..<4] = [0, 1, 2, 3 :: nat]" by (simp add: upt_rec)
  then show ?thesis using MakePartition_eq [of 4 2 sg 2] assms by (simp add: numeral_2_eq_2 numeral_3_eq_3)
qed

end
