(* ===== verification/RsmTest.thy ===== *)
theory RsmTest
  imports Rsm Tester
begin

text \<open>
  The tester of the replicated state machine (kvraft1/rsm/test.go, proxy.go): it submits operations of the counter service to
  whichever server leads, and waits until the servers have the expected counter. The servers are an argument: \<open>submit i req w\<close>
  is what server \<open>i\<close> does with a request when the world is \<open>w\<close>, with the fate of the call and the answer;
  \<open>grp w\<close> is the tester's group then. What happens while the tester sleeps is an argument too, one function for each
  round; the list ends when ten seconds are over. Annotations are modelled in theory \<open>Annotation\<close>.

  The theory shows that a request never stops the test, is submitted to connected servers of the partition only,
  finds a server that leads in one round, and what the counters of the servers are.
\<close>

section \<open>The tester\<close>

definition NSRV :: nat where "NSRV = 3"

text \<open>A server is its proxy, here the number of its process; \<open>None\<close> is \<^verbatim>\<open>nil\<close>.\<close>

record rsmServer =
  rs_rsm :: "nat option"

definition newRSMServer :: "nat \<Rightarrow> rsmServer" where
  "newRSMServer proxy = \<lparr>rs_rsm = Some proxy\<rparr>"

definition getRSM :: "rsmServer \<Rightarrow> nat option" where
  "getRSM rs = rs_rsm rs"

definition rsmServer_Kill :: "rsmServer \<Rightarrow> rsmServer" where
  "rsmServer_Kill rs = rs\<lparr>rs_rsm := None\<rparr>"

record rsmTest =
  rt_srvs :: "rsmServer list"
  rt_leader :: nat

definition mksrv :: "nat \<Rightarrow> rsmTest \<Rightarrow> rsmTest res" where
  "mksrv srv ts = bindr (set_idx (rt_srvs ts) srv (newRSMServer srv)) (\<lambda>ss. Inr (ts\<lparr>rt_srvs := ss\<rparr>))"

definition rsm_makeTest :: "rsmTest res" where
  "rsm_makeTest = for_each mksrv [0..<NSRV] \<lparr>rt_srvs = replicate NSRV \<lparr>rs_rsm = None\<rparr>, rt_leader = 0\<rparr>"

definition rsm_kill :: "nat list \<Rightarrow> string Network \<times> 'r ServerGrp \<Rightarrow> (string Network \<times> 'r ServerGrp) res" where
  "rsm_kill ss st = Kill ss st"

definition rsm_restart ::
  "(nat \<Rightarrow> bool) \<Rightarrow> (nat \<Rightarrow> nat) \<Rightarrow> (nat \<Rightarrow> nat \<Rightarrow> string) \<Rightarrow> nat list \<Rightarrow> rsmTest \<times> string Network \<times> 'r ServerGrp \<Rightarrow>
   (rsmTest \<times> string Network \<times> 'r ServerGrp) res" where
  "rsm_restart ok obj draw ss x =
     (case x of (ts, st) \<Rightarrow>
        bindr (StartSrvs ok obj draw ss st) (\<lambda>st1.
        bindr (ConnectAll st1) (\<lambda>st2.
        bindr (for_each mksrv ss ts) (\<lambda>ts'. Inr (ts', st2)))))"

definition disconnectLeader :: "rsmTest \<Rightarrow> string Network \<times> 'r ServerGrp \<Rightarrow> (nat \<times> string Network \<times> 'r ServerGrp) res" where
  "disconnectLeader ts st = bindr (DisconnectAll (rt_leader ts) st) (\<lambda>st'. Inr (rt_leader ts, st'))"

definition rsm_connect :: "nat \<Rightarrow> string Network \<times> 'r ServerGrp \<Rightarrow> (string Network \<times> 'r ServerGrp) res" where
  "rsm_connect i st = ConnectOne i st"

definition inPartition :: "nat \<Rightarrow> nat list option \<Rightarrow> bool" where
  "inPartition s p = (case p of None \<Rightarrow> True | Some is \<Rightarrow> s \<in> set is)"

section \<open>Requests\<close>

text \<open>The proxy: a call that fails leaves the reply at its zero value.\<close>

type_synonym 'w submitter = "nat \<Rightarrow> rsm_req \<Rightarrow> 'w \<Rightarrow> 'w \<times> delivery \<times> Err \<times> rsm_rep option"

definition RSMproxy_Submit :: "'w submitter \<Rightarrow> nat \<Rightarrow> rsm_req \<Rightarrow> 'w \<Rightarrow> 'w \<times> Err \<times> rsm_rep option" where
  "RSMproxy_Submit submit proxy req w =
     (case submit proxy req w of (w', d, r) \<Rightarrow> (w', if d = Delivered then r else ('''', None)))"

definition RSMproxy_GetCounter :: "delivery \<Rightarrow> int \<Rightarrow> int" where
  "RSMproxy_GetCounter d c = (if d = Delivered then c else 0)"

text \<open>
  One round of \<open>onePartition\<close>: the loop over the servers, from the one that led last. The index is never -1, since \<open>leader\<close>
  is 0 at first and then holds indices of servers.
\<close>

fun try_submit ::
  "('w \<Rightarrow> 'r ServerGrp) \<Rightarrow> 'w submitter \<Rightarrow> nat list option \<Rightarrow> rsm_req \<Rightarrow> nat \<Rightarrow> nat \<Rightarrow> rsmTest \<Rightarrow> 'w \<Rightarrow>
   (rsmTest \<times> 'w \<times> rsm_rep option option) res" where
  "try_submit grp submit p req 0 index ts w = Inr (ts, w, None)"
| "try_submit grp submit p req (Suc k) index ts w =
     (if index \<ge> NSRV then Inl Fatal
      else bindr (IsConnected (grp w) index) (\<lambda>up.
        let next = try_submit grp submit p req k ((index + 1) mod length (rt_srvs ts)) ts in
        if \<not> up then next w
        else bindr (idx (rt_srvs ts) index) (\<lambda>s.
          case getRSM s of
            None \<Rightarrow> next w
          | Some rsm \<Rightarrow>
              if \<not> inPartition index p then next w
              else case RSMproxy_Submit submit rsm req w of (w', err, rep) \<Rightarrow>
                if err = OK then Inr (ts\<lparr>rt_leader := index\<rparr>, w', Some rep) else next w')))"

fun onePartition ::
  "('w \<Rightarrow> 'r ServerGrp) \<Rightarrow> 'w submitter \<Rightarrow> nat list option \<Rightarrow> rsm_req \<Rightarrow> ('w \<Rightarrow> 'w) list \<Rightarrow> rsmTest \<Rightarrow> 'w \<Rightarrow>
   (rsmTest \<times> 'w \<times> rsm_rep option) res" where
  "onePartition grp submit p req [] ts w = Inr (ts, w, None)"
| "onePartition grp submit p req (sleep # rounds) ts w =
     bindr (try_submit grp submit p req (length (rt_srvs ts)) (rt_leader ts) ts w) (\<lambda>(ts', w', r).
       case r of
         Some rep \<Rightarrow> Inr (ts', w', rep)
       | None \<Rightarrow> onePartition grp submit p req rounds ts' (sleep w'))"

definition oneInc ::
  "('w \<Rightarrow> 'r ServerGrp) \<Rightarrow> 'w submitter \<Rightarrow> ('w \<Rightarrow> 'w) list \<Rightarrow> rsmTest \<Rightarrow> 'w \<Rightarrow> (rsmTest \<times> 'w \<times> int) res" where
  "oneInc grp submit rounds ts w =
     bindr (onePartition grp submit None Inc rounds ts w) (\<lambda>(ts', w', rep).
       case rep of
         None \<Rightarrow> Inr (ts', w', 0)
       | Some (IncRep n) \<Rightarrow> Inr (ts', w', n)
       | Some NullRep \<Rightarrow> Inl TypeAssertion)"

definition oneNull ::
  "('w \<Rightarrow> 'r ServerGrp) \<Rightarrow> 'w submitter \<Rightarrow> ('w \<Rightarrow> 'w) list \<Rightarrow> rsmTest \<Rightarrow> 'w \<Rightarrow> (rsmTest \<times> 'w) res" where
  "oneNull grp submit rounds ts w =
     bindr (onePartition grp submit None Null rounds ts w) (\<lambda>(ts', w', rep).
       case rep of
         None \<Rightarrow> Inr (ts', w')
       | Some NullRep \<Rightarrow> Inr (ts', w')
       | Some (IncRep n) \<Rightarrow> Inl TypeAssertion)"

section \<open>Counters\<close>

text \<open>\<open>get i\<close> is what the proxy of server \<open>i\<close> returns as its counter.\<close>

definition countValue :: "(nat \<Rightarrow> int) \<Rightarrow> int \<Rightarrow> rsmTest \<Rightarrow> nat res" where
  "countValue get v ts =
     for_each (\<lambda>s i. case rs_rsm s of
        None \<Rightarrow> Inl NilMap
      | Some rsm \<Rightarrow> Inr (if get rsm = v then i + 1 else i)) (rt_srvs ts) 0"

text \<open>
  At most thirty polls; \<open>poll i\<close> is what poll number \<open>i\<close> counts. The result is the time slept, in milliseconds.
\<close>

fun checkCounter_loop :: "(nat \<Rightarrow> nat res) \<Rightarrow> nat \<Rightarrow> nat \<Rightarrow> nat \<Rightarrow> nat \<Rightarrow> nat \<Rightarrow> nat res" where
  "checkCounter_loop poll nsrv 0 i to slept = Inl Fatal"
| "checkCounter_loop poll nsrv (Suc k) i to slept =
     bindr (poll i) (\<lambda>n.
       if n \<ge> nsrv then Inr slept
       else checkCounter_loop poll nsrv k (Suc i) (if to < 1000 then to * 2 else to) (slept + to))"

definition checkCounter :: "(nat \<Rightarrow> nat res) \<Rightarrow> nat \<Rightarrow> nat res" where
  "checkCounter poll nsrv = checkCounter_loop poll nsrv 30 0 10 0"

section \<open>Correctness\<close>

text \<open>What the tester keeps: one place per server and an index of one of them.\<close>

definition rt_inv :: "rsmTest \<Rightarrow> bool" where
  "rt_inv ts \<longleftrightarrow> length (rt_srvs ts) = NSRV \<and> rt_leader ts < NSRV"

definition grp_fits :: "('w \<Rightarrow> 'r ServerGrp) \<Rightarrow> bool" where
  "grp_fits grp \<longleftrightarrow> (\<forall>w. length (connected (grp w)) = NSRV)"

lemma makeTest_inv: "returns rsm_makeTest (\<lambda>ts. rt_inv ts \<and> rt_srvs ts = map newRSMServer [0..<NSRV])"
  by (simp add: rsm_makeTest_def mksrv_def NSRV_def rt_inv_def upt_rec numeral_eq_Suc)

text \<open>A reply is the answer of a connected server of the partition, which is then the leader.\<close>

definition answered ::
  "('w \<Rightarrow> 'r ServerGrp) \<Rightarrow> 'w submitter \<Rightarrow> nat list option \<Rightarrow> rsm_req \<Rightarrow> rsmTest \<Rightarrow> rsmTest \<Rightarrow> 'w \<Rightarrow> rsm_rep option \<Rightarrow> bool" where
  "answered grp submit p req ts ts' w' rep \<longleftrightarrow>
     (\<exists>u rsm. connected (grp u) ! rt_leader ts' \<and> inPartition (rt_leader ts') p \<and>
        rs_rsm (rt_srvs ts ! rt_leader ts') = Some rsm \<and> RSMproxy_Submit submit rsm req u = (w', OK, rep))"

text \<open>One iteration: the server is asked and answers \<open>OK\<close>, or the next one comes.\<close>

definition leads_now ::
  "('w \<Rightarrow> 'r ServerGrp) \<Rightarrow> 'w submitter \<Rightarrow> nat list option \<Rightarrow> rsm_req \<Rightarrow> rsmTest \<Rightarrow> 'w \<Rightarrow> nat \<Rightarrow> 'w \<Rightarrow> rsm_rep option \<Rightarrow> bool" where
  "leads_now grp submit p req ts w index w' rep \<longleftrightarrow>
     connected (grp w) ! index \<and> inPartition index p \<and>
     (\<exists>rsm. rs_rsm (rt_srvs ts ! index) = Some rsm \<and> RSMproxy_Submit submit rsm req w = (w', OK, rep))"

lemma try_submit_step:
  assumes "grp_fits grp" and "rt_inv ts" and "index < NSRV"
  obtains w' rep where "leads_now grp submit p req ts w index w' rep"
      "try_submit grp submit p req (Suc k) index ts w = Inr (ts\<lparr>rt_leader := index\<rparr>, w', Some rep)"
  | w' where "\<nexists>u rep. leads_now grp submit p req ts w index u rep"
      "try_submit grp submit p req (Suc k) index ts w = try_submit grp submit p req k ((index + 1) mod NSRV) ts w'"
proof -
  have len: "length (rt_srvs ts) = NSRV" "length (connected (grp w)) = NSRV"
    using assms(1,2) by (simp_all add: rt_inv_def grp_fits_def)
  show thesis
  proof (cases "connected (grp w) ! index \<and> inPartition index p \<and> rs_rsm (rt_srvs ts ! index) \<noteq> None")
    case False
    then have "try_submit grp submit p req (Suc k) index ts w = try_submit grp submit p req k ((index + 1) mod NSRV) ts w"
      using assms(3) len by (auto simp: IsConnected_def getRSM_def Let_def split: option.split)
    moreover have "\<nexists>u rep. leads_now grp submit p req ts w index u rep" using False by (auto simp: leads_now_def)
    ultimately show thesis using that(2) by blast
  next
    case True
    then obtain rsm where rsm: "rs_rsm (rt_srvs ts ! index) = Some rsm" by auto
    obtain w' e rep where r: "RSMproxy_Submit submit rsm req w = (w', e, rep)" by (metis prod_cases3)
    have eq: "try_submit grp submit p req (Suc k) index ts w =
        (if e = OK then Inr (ts\<lparr>rt_leader := index\<rparr>, w', Some rep) else try_submit grp submit p req k ((index + 1) mod NSRV) ts w')"
      using True rsm r assms(3) len by (simp add: IsConnected_def getRSM_def Let_def)
    show thesis
    proof (cases "e = OK")
      case True
      then show thesis using that(1) [of w' rep] \<open>connected _ ! _ \<and> _\<close> rsm r eq by (auto simp: leads_now_def)
    next
      case False
      then show thesis using that(2) [of w'] rsm r eq by (auto simp: leads_now_def)
    qed
  qed
qed

lemma NSRV_mod [simp]: "i mod NSRV < NSRV"
  by (simp add: NSRV_def)

lemma try_submit_outcome:
  assumes "grp_fits grp" and "rt_inv ts" and "index < NSRV"
  shows "returns (try_submit grp submit p req k index ts w)
     (\<lambda>(ts', w', r). rt_inv ts' \<and> rt_srvs ts' = rt_srvs ts \<and>
        (case r of None \<Rightarrow> ts' = ts | Some rep \<Rightarrow> answered grp submit p req ts ts' w' rep))"
  using assms(3)
proof (induction k arbitrary: index w)
  case (Suc k)
  show ?case
  proof (rule try_submit_step [OF assms(1,2) Suc.prems, of submit p req w k])
    fix w' rep
    assume "leads_now grp submit p req ts w index w' rep"
      "try_submit grp submit p req (Suc k) index ts w = Inr (ts\<lparr>rt_leader := index\<rparr>, w', Some rep)"
    then show ?thesis using assms(2) Suc.prems by (auto simp: leads_now_def answered_def rt_inv_def)
  qed (use Suc.IH in simp)
qed (use assms(2) in simp)

text \<open>
  The round visits every server once. If one of them leads, whatever the others do, a reply comes.
\<close>

lemma try_submit_finds:
  assumes "grp_fits grp" and "rt_inv ts" and "\<And>w. \<exists>w' rep. leads_now grp submit p req ts w i w' rep"
    and "index < NSRV" and "i = (index + j) mod NSRV" and "j < k"
  shows "returns (try_submit grp submit p req k index ts w) (\<lambda>(_, _, r). r \<noteq> None)"
  using assms(4-6)
proof (induction k arbitrary: index j w)
  case (Suc k)
  show ?case
  proof (rule try_submit_step [OF assms(1,2) Suc.prems(1), of submit p req w k])
    fix w' assume none: "\<nexists>u rep. leads_now grp submit p req ts w index u rep"
      and eq: "try_submit grp submit p req (Suc k) index ts w = try_submit grp submit p req k ((index + 1) mod NSRV) ts w'"
    have "i \<noteq> index" using none assms(3) by blast
    then obtain j' where j: "j = Suc j'" using Suc.prems(1,2) by (cases j) auto
    have "i = ((index + 1) mod NSRV + j') mod NSRV" using Suc.prems(2) by (simp add: j mod_simps)
    then show ?thesis unfolding eq by (rule Suc.IH [OF NSRV_mod]) (use Suc.prems(3) j in simp)
  qed simp
qed simp

lemma reach_index:
  assumes "i < NSRV" and "index < NSRV"
  obtains j where "i = (index + j) mod NSRV" and "j < NSRV"
proof
  show "i = (index + (i + NSRV - index) mod NSRV) mod NSRV" using assms by (simp add: mod_simps)
qed simp

lemma onePartition_returns:
  assumes "grp_fits grp" and "rt_inv ts"
  shows "returns (onePartition grp submit p req rounds ts w)
     (\<lambda>(ts', w', rep). rt_inv ts' \<and> rt_srvs ts' = rt_srvs ts \<and>
        (rep \<noteq> None \<longrightarrow> answered grp submit p req ts ts' w' rep))"
  using assms(2)
proof (induction rounds arbitrary: ts w)
  case (Cons sleep rounds)
  have "rt_leader ts < NSRV" using Cons.prems by (simp add: rt_inv_def)
  from try_submit_outcome [OF assms(1) Cons.prems this] obtain ts1 w1 r
    where r: "try_submit grp submit p req (length (rt_srvs ts)) (rt_leader ts) ts w = Inr (ts1, w1, r)"
      "rt_inv ts1" "rt_srvs ts1 = rt_srvs ts" "case r of None \<Rightarrow> ts1 = ts | Some rep \<Rightarrow> answered grp submit p req ts ts1 w1 rep"
    unfolding returns_def by fastforce
  show ?case
  proof (cases r)
    case None
    then show ?thesis using r Cons.IH [OF Cons.prems] by simp
  next
    case (Some rep)
    then show ?thesis using r by simp
  qed
qed simp

text \<open>
  A request ends with a reply in its first round when a server of the partition leads, whoever led before.
\<close>

theorem request_finds_leader:
  assumes "grp_fits grp" and "rt_inv ts" and "rounds \<noteq> []" and "i < NSRV"
    and "\<forall>w. \<exists>w' x. leads_now grp submit p req ts w i w' (Some x)" and "\<forall>w j w' rep. leads_now grp submit p req ts w j w' rep \<longrightarrow> rep \<noteq> None"
  shows "\<exists>ts' w' x. onePartition grp submit p req rounds ts w = Inr (ts', w', Some x) \<and> rt_leader ts' < NSRV"
proof -
  obtain sleep rest where rounds: "rounds = sleep # rest" using assms(3) by (cases rounds) auto
  have lead: "rt_leader ts < NSRV" "length (rt_srvs ts) = NSRV" using assms(2) by (simp_all add: rt_inv_def)
  obtain j where j: "i = (rt_leader ts + j) mod NSRV" "j < NSRV" using reach_index [OF assms(4) lead(1)] .
  have "\<exists>w' rep. leads_now grp submit p req ts w i w' rep" for w using assms(5) by blast
  from try_submit_finds [OF assms(1,2) this lead(1) j] obtain ts' w' rep
    where r: "try_submit grp submit p req NSRV (rt_leader ts) ts w = Inr (ts', w', Some rep)"
    unfolding returns_def by fastforce
  have out: "rt_inv ts'" "answered grp submit p req ts ts' w' rep"
    using try_submit_outcome [OF assms(1,2) lead(1), of submit p req NSRV w] r by (simp_all add: returns_def)
  then obtain u where "leads_now grp submit p req ts u (rt_leader ts') w' rep"
    unfolding answered_def leads_now_def by blast
  then obtain x where "rep = Some x" using assms(6) by (cases rep) blast+
  then show ?thesis using r rounds lead(2) out(1) by (simp add: rt_inv_def)
qed

text \<open>
  After \<open>disconnectLeader\<close> a reply comes from another server, as long as the group stays as it is.
\<close>

theorem reply_from_new_leader:
  assumes "disconnectLeader ts st = Inr (l, net', sg')" and "\<forall>w. grp w = sg'" and "length (connected sg') = NSRV" and "rt_inv ts"
    and "onePartition grp submit p req rounds ts w = Inr (ts', w', Some x)"
  shows "rt_leader ts' \<noteq> l"
proof -
  have "grp_fits grp" using assms(2,3) by (simp add: grp_fits_def)
  from onePartition_returns [OF this assms(4), of submit p req rounds w] assms(5)
  have "answered grp submit p req ts ts' w' (Some x)" by (simp add: returns_def)
  then have up: "connected sg' ! rt_leader ts'" using assms(2) by (auto simp: answered_def)
  have "l = rt_leader ts" "connected sg' = (connected (snd st))[rt_leader ts := False]" "rt_leader ts < length (connected (snd st))"
    using assms(1) by (auto simp: disconnectLeader_def DisconnectAll_def disconnect_def bindr_eq_Inr Let_def split: prod.splits)
  then show ?thesis using up by auto
qed

text \<open>The counter of a replica is the number of increments it has executed.\<close>

lemma counter_exec:
  "counter.exec c log = Inr c' \<Longrightarrow> c' = c + int (length (filter (\<lambda>x. op_Command x = Inc) log))"
proof (induction log arbitrary: c)
  case (Cons x log)
  show ?case
  proof (cases "op_Command x")
    case Inc
    then have "counter.exec (c + 1) log = Inr c'" using Cons.prems by simp
    from Cons.IH [OF this] show ?thesis using Inc by simp
  qed (use Cons in auto)
qed simp

lemma countValue_all:
  assumes "\<forall>s \<in> set ss. \<exists>i. rs_rsm s = Some i \<and> get i = v"
  shows "for_each (\<lambda>s i. case rs_rsm s of None \<Rightarrow> Inl NilMap | Some rsm \<Rightarrow> Inr (if get rsm = v then i + 1 else i)) ss n =
     Inr (n + length ss)"
  using assms
proof (induction ss arbitrary: n)
  case (Cons s ss)
  then obtain i where "rs_rsm s = Some i" "get i = v" by auto
  then show ?case using Cons.IH [of "n + 1"] Cons.prems by simp
qed simp

theorem counter_check_passes:
  assumes "\<forall>s \<in> set (rt_srvs ts). rs_rsm s \<noteq> None"
    and "\<forall>i. counter.exec newRSMSrv (log i) = Inr (c i) \<and> length (filter (\<lambda>x. op_Command x = Inc) (log i)) = v"
    and "nsrv \<le> length (rt_srvs ts)"
  shows "checkCounter (\<lambda>_. countValue (\<lambda>i. RSMproxy_GetCounter Delivered (c i)) (int v) ts) nsrv = Inr 0"
proof -
  have "c i = int v" for i using counter_exec [of newRSMSrv "log i" "c i"] assms(2) by (simp add: newRSMSrv_def)
  then have "countValue (\<lambda>i. RSMproxy_GetCounter Delivered (c i)) (int v) ts = Inr (length (rt_srvs ts))"
    unfolding countValue_def using assms(1) by (subst countValue_all) (auto simp: RSMproxy_GetCounter_def)
  then show ?thesis using assms(3) by (simp add: checkCounter_def numeral_eq_Suc)
qed

text \<open>The check gives up exactly if no poll counts enough, and sleeps at most half a minute.\<close>

lemma checkCounter_loop_returns:
  assumes "\<forall>i. \<exists>n. poll i = Inr n"
  shows "(\<exists>t. checkCounter_loop poll nsrv k i to slept = Inr t) \<longleftrightarrow> (\<exists>j<k. \<exists>n \<ge> nsrv. poll (i + j) = Inr n)"
proof (induction k arbitrary: i to slept)
  case (Suc k)
  obtain n where n: "poll i = Inr n" using assms by blast
  have "(\<exists>j < Suc k. \<exists>n \<ge> nsrv. poll (i + j) = Inr n) \<longleftrightarrow> nsrv \<le> n \<or> (\<exists>j < k. \<exists>n \<ge> nsrv. poll (Suc i + j) = Inr n)"
    using n unfolding Ex_less_Suc2 by auto
  then show ?case using n Suc.IH by simp
qed simp

fun longest_sleep :: "nat \<Rightarrow> nat \<Rightarrow> nat" where
  "longest_sleep 0 to = 0"
| "longest_sleep (Suc k) to = to + longest_sleep k (if to < 1000 then to * 2 else to)"

lemma longest_sleep_numeral:
  "longest_sleep (numeral n) to = to + longest_sleep (pred_numeral n) (if to < 1000 then to * 2 else to)"
  by (simp add: numeral_eq_Suc)

lemma checkCounter_loop_sleeps:
  "checkCounter_loop poll nsrv (Suc k) i to slept = Inr t \<Longrightarrow> t \<le> slept + longest_sleep k to"
proof (induction k arbitrary: i to slept)
  case 0
  then show ?case by (auto simp: bindr_eq_Inr split: if_splits)
next
  case (Suc k)
  show ?case
  proof (cases "t = slept")
    case False
    then have "checkCounter_loop poll nsrv (Suc k) (Suc i) (if to < 1000 then to * 2 else to) (slept + to) = Inr t"
      using Suc.prems by (subst (asm) checkCounter_loop.simps(2)) (auto simp: bindr_eq_Inr simp del: checkCounter_loop.simps split: if_splits)
    from Suc.IH [OF this] show ?thesis by simp
  qed simp
qed

theorem counter_check_outcome:
  assumes "\<forall>i. \<exists>n. poll i = Inr n"
  shows "((\<exists>t. checkCounter poll nsrv = Inr t) \<longleftrightarrow> (\<exists>i < 30. \<exists>n \<ge> nsrv. poll i = Inr n)) \<and>
     (\<forall>t. checkCounter poll nsrv = Inr t \<longrightarrow> t < 30000)"
proof
  show "(\<exists>t. checkCounter poll nsrv = Inr t) \<longleftrightarrow> (\<exists>i < 30. \<exists>n \<ge> nsrv. poll i = Inr n)"
    unfolding checkCounter_def checkCounter_loop_returns [OF assms] by simp
  show "\<forall>t. checkCounter poll nsrv = Inr t \<longrightarrow> t < 30000"
  proof (intro allI impI)
    fix t assume "checkCounter poll nsrv = Inr t"
    then have "checkCounter_loop poll nsrv (Suc 29) 0 10 0 = Inr t" by (simp add: checkCounter_def del: checkCounter_loop.simps)
    from checkCounter_loop_sleeps [OF this] show "t < 30000" by (simp add: longest_sleep_numeral)
  qed
qed

text \<open>Three connected servers, the last of which leads.\<close>

definition demo_submit :: "int submitter" where
  "demo_submit i req w =
     (if i = 2 then (w + 1, Delivered, OK, Some (IncRep (w + 1))) else (w, Delivered, ErrWrongLeader, None))"

definition demo_test :: rsmTest where
  "demo_test = \<lparr>rt_srvs = map newRSMServer [0, 1, 2], rt_leader = 0\<rparr>"

theorem request_finds_leader_witness:
  "\<exists>ts' w' x. onePartition (\<lambda>_. \<lparr>srvs = [], servernames = [], gid = 0, connected = [True, True, True]\<rparr>) demo_submit None Inc
     [id] demo_test 7 = Inr (ts', w', Some x) \<and> rt_leader ts' < NSRV"
proof (rule request_finds_leader [where i = 2])
  show "grp_fits (\<lambda>_. \<lparr>srvs = [], servernames = [], gid = 0, connected = [True, True, True]\<rparr>)"
    by (simp add: grp_fits_def NSRV_def)
  show "rt_inv demo_test" by (simp add: rt_inv_def demo_test_def NSRV_def)
qed (auto simp: leads_now_def inPartition_def RSMproxy_Submit_def demo_submit_def demo_test_def newRSMServer_def NSRV_def err_defs
    split: if_splits)

end
