(* ===== verification/Partitioner.thy ===== *)
theory Partitioner
  imports Tester
begin

text \<open>
  The background task of the key/value tests that repartitions the servers (\<open>Partitioner\<close> in kvtest1/kvtest.go). A round draws 0 or 1
  for every server and separates the two sets; the draws of each round are an argument, the rounds end when the test
  signals the channel. The two sets cover the group, so that after every round the links are given by the
  last draws alone and a quorum is cut off exactly if the draws split it.
\<close>

text \<open>\<open>draw j\<close> is \<^verbatim>\<open>rand.Int()\<close> for server \<open>j\<close>.\<close>

definition draw_sides :: "(nat \<Rightarrow> nat) \<Rightarrow> nat \<Rightarrow> nat list" where
  "draw_sides draw n = map (\<lambda>i. draw i mod 2) [0..<n]"

definition side :: "nat list \<Rightarrow> nat \<Rightarrow> nat list" where
  "side a i = filter (\<lambda>j. a ! j = i) [0..<length a]"

definition Partitioner_round :: "(nat \<Rightarrow> nat) \<Rightarrow> string Network \<times> 'r ServerGrp \<Rightarrow> (string Network \<times> 'r ServerGrp) res" where
  "Partitioner_round draw st =
     (let a = draw_sides draw (grp_N (snd st)) in Partition (side a 0) (side a 1) st)"

definition run_Partitioner :: "(nat \<Rightarrow> nat) list \<Rightarrow> string Network \<times> 'r ServerGrp \<Rightarrow> (string Network \<times> 'r ServerGrp) res" where
  "run_Partitioner draws = for_each Partitioner_round draws"

lemma set_side: "set (side (draw_sides draw n) i) = {j. j < n \<and> draw j mod 2 = i}"
  by (auto simp: side_def draw_sides_def)

text \<open>After a round any two servers can talk exactly if they drew the same side.\<close>

definition split_by :: "(nat \<Rightarrow> nat) \<Rightarrow> string Network \<times> 'r ServerGrp \<Rightarrow> bool" where
  "split_by draw st \<longleftrightarrow>
     (\<forall>a < grp_N (snd st). connected (snd st) ! a) \<and>
     (\<forall>a < grp_N (snd st). \<forall>b < grp_N (snd st). link st a b \<longleftrightarrow> draw a mod 2 = draw b mod 2)"

lemma Partitioner_round_splits:
  assumes "grp_wf (snd st)"
  shows "returns (Partitioner_round draw st) (\<lambda>st'. part_state st st' \<and> split_by draw st')"
proof -
  let ?n = "grp_N (snd st)"
  let ?p = "\<lambda>i. side (draw_sides draw ?n) i"
  have all: "set (?p 0) \<union> set (?p 1) = {..<?n}" unfolding set_side by auto
  have disj: "set (?p 0) \<inter> set (?p 1) = {}" unfolding set_side by auto
  have "returns (Partition (?p 0) (?p 1) st) (\<lambda>st'. part_state st st' \<and> (\<forall>a \<in> {..<?n}. connected (snd st') ! a) \<and>
     (\<forall>a \<in> {..<?n}. \<forall>b \<in> {..<?n}. link st' a b \<longleftrightarrow> (a \<in> set (?p 0) \<longleftrightarrow> b \<in> set (?p 0))))"
    using Partition_links [of st "?p 0" "?p 1"] assms disj all by auto
  then show ?thesis unfolding Partitioner_round_def Let_def
  proof (rule returns_mono)
    fix st' :: "string Network \<times> 'a ServerGrp"
    assume st': "part_state st st' \<and> (\<forall>a \<in> {..<?n}. connected (snd st') ! a) \<and>
      (\<forall>a \<in> {..<?n}. \<forall>b \<in> {..<?n}. link st' a b \<longleftrightarrow> (a \<in> set (?p 0) \<longleftrightarrow> b \<in> set (?p 0)))"
    have eq: "(draw a mod 2 = 0 \<longleftrightarrow> draw b mod 2 = 0) \<longleftrightarrow> draw a mod 2 = draw b mod 2" for a b by presburger
    have N: "grp_N (snd st') = ?n" using st' part_state_grp(1) by blast
    show "part_state st st' \<and> split_by draw st'" unfolding split_by_def N using st' by (simp add: set_side eq)
  qed
qed

text \<open>
  However often the servers are repartitioned, nothing panics and the links are those of the last round.
\<close>

theorem partitioner_follows_last_draw:
  assumes "grp_wf (snd st)"
  shows "returns (run_Partitioner (draws @ [draw]) st) (\<lambda>st'. grp_N (snd st') = grp_N (snd st) \<and> split_by draw st')"
proof -
  have "returns (run_Partitioner draws st) (\<lambda>st1. part_state st st1)"
    unfolding run_Partitioner_def
  proof (rule for_each_returns)
    fix x t assume t: "part_state st t"
    then have "grp_wf (snd t)" using assms by simp
    from Partitioner_round_splits [OF this, of x] show "returns (Partitioner_round x t) (\<lambda>st1. part_state st st1)"
      by (rule returns_mono) (use part_state_trans [OF t] in blast)
  qed (rule part_state_refl)
  then obtain st1 where st1: "run_Partitioner draws st = Inr st1" "part_state st st1" by (auto simp: returns_def)
  then have "grp_wf (snd st1)" using assms by simp
  from Partitioner_round_splits [OF this, of draw] have "returns (Partitioner_round draw st1) (\<lambda>st'. grp_N (snd st') = grp_N (snd st) \<and> split_by draw st')"
    by (rule returns_mono) (use part_state_grp(1) [OF st1(2)] part_state_grp(1) in metis)
  then show ?thesis using st1(1) by (simp add: run_Partitioner_def)
qed

theorem partitioner_follows_last_draw_witness:
  "\<exists>net sg. sample_grp = Inr (net, sg) \<and>
     returns (run_Partitioner [\<lambda>j. j, \<lambda>j. if j = 2 then 7 else 4] (net, sg)) (\<lambda>st'. link st' 0 1 \<and> \<not> link st' 0 2 \<and> \<not> link st' 2 1)"
proof -
  obtain net sg where g: "sample_grp = Inr (net, sg)" "grp_wf sg" "grp_N sg = 3" by (rule sample_grp_wf)
  have "returns (run_Partitioner ([\<lambda>j. j] @ [\<lambda>j. if j = 2 then 7 else 4]) (net, sg)) (\<lambda>st'. link st' 0 1 \<and> \<not> link st' 0 2 \<and> \<not> link st' 2 1)"
    by (rule returns_mono [OF partitioner_follows_last_draw]) (use g in \<open>auto simp: split_by_def\<close>)
  then show ?thesis using g(1) by auto
qed

end
