(* ===== verification/RaftTest.thy ===== *)
theory RaftTest
  imports RaftSafety Rpc
begin

text \<open>
  The service that the Raft tests run on top of each peer (raft1/server.go), and the tester's
  book-keeping and checks (raft1/test.go): every command a peer delivers is reported to the
  tester, which compares it with what every other server has reported for the same index. The
  remote calls from a server to the tester (proxy.go) may fail, with the three outcomes of
  \<open>delivery\<close>. An error message is a value of \<open>apply_err\<close>, \<open>NoErr\<close> the empty string.

  The root theory shows that over a run of the Raft group these checks never fail.
\<close>

section \<open>The tester\<close>

datatype apply_err =
    NoErr
  | Differs nat nat nat
  | OutOfOrder nat nat
  | ErrRPC
  | NilSnapshot
  | BadSnapshot
  | SnapshotIndexDiffers nat

record 'c raftServer =
  applyErr :: apply_err
  rs_logs :: "nat \<rightharpoonup> 'c option"

record 'c Test =
  ts_srvs :: "'c raftServer list"
  maxIndex :: nat

definition newRaftServer :: "'c raftServer" where
  "newRaftServer = \<lparr>applyErr = NoErr, rs_logs = Map.empty\<rparr>"

definition makeTest :: "nat \<Rightarrow> 'c Test" where
  "makeTest n = \<lparr>ts_srvs = replicate n newRaftServer, maxIndex = 0\<rparr>"

text \<open>The last server whose entry differs gives the message. No entry has the index -1.\<close>

fun find_conflict :: "nat \<Rightarrow> nat \<Rightarrow> 'c option \<Rightarrow> nat \<Rightarrow> 'c raftServer list \<Rightarrow> apply_err \<Rightarrow> apply_err" where
  "find_conflict k i v j [] err = err"
| "find_conflict k i v j (rs # rss) err =
     find_conflict k i v (j + 1) rss
       (case rs_logs rs k of Some old \<Rightarrow> if old \<noteq> v then Differs k i j else err | None \<Rightarrow> err)"

definition prev_entry :: "'c raftServer \<Rightarrow> nat \<Rightarrow> bool" where
  "prev_entry rs k = (case k of 0 \<Rightarrow> False | Suc p \<Rightarrow> rs_logs rs p \<noteq> None)"

definition CheckLogs :: "'c Test \<Rightarrow> nat \<Rightarrow> 'c ApplyMsg \<Rightarrow> ('c Test \<times> apply_err \<times> bool) res" where
  "CheckLogs ts i m =
     bindr (idx (ts_srvs ts) i) (\<lambda>me.
       let v = MsgCommand m; k = CommandIndex m;
           err = find_conflict k i v 0 (ts_srvs ts) NoErr;
           prevok = prev_entry me k;
           me' = me\<lparr>rs_logs := (rs_logs me)(k \<mapsto> v)\<rparr>
       in Inr (ts\<lparr>ts_srvs := (ts_srvs ts)[i := me'], maxIndex := (if k > maxIndex ts then k else maxIndex ts)\<rparr>, err, prevok))"

definition IngestLog :: "'c Test \<Rightarrow> nat \<Rightarrow> (nat \<rightharpoonup> 'c option) \<Rightarrow> 'c Test res" where
  "IngestLog ts i xlog =
     bindr (idx (ts_srvs ts) i) (\<lambda>me. Inr (ts\<lparr>ts_srvs := (ts_srvs ts)[i := me\<lparr>rs_logs := xlog\<rparr>]\<rparr>))"

definition ApplyErr :: "'c Test \<Rightarrow> nat \<Rightarrow> apply_err \<Rightarrow> 'c Test res" where
  "ApplyErr ts i err =
     bindr (idx (ts_srvs ts) i) (\<lambda>me. Inr (ts\<lparr>ts_srvs := (ts_srvs ts)[i := me\<lparr>applyErr := err\<rparr>]\<rparr>))"

text \<open>How many servers have committed an index, and what; the test fails on an error or a difference.\<close>

fun nCommitted_loop :: "nat \<Rightarrow> 'c raftServer list \<Rightarrow> nat \<Rightarrow> 'c option \<Rightarrow> (nat \<times> 'c option) res" where
  "nCommitted_loop index [] n cmd = Inr (n, cmd)"
| "nCommitted_loop index (rs # rss) n cmd =
     (if applyErr rs \<noteq> NoErr then Inl Fatal
      else case rs_logs rs index of
             None \<Rightarrow> nCommitted_loop index rss n cmd
           | Some cmd1 \<Rightarrow>
               if n > 0 \<and> cmd \<noteq> cmd1 then Inl Fatal
               else nCommitted_loop index rss (n + 1) cmd1)"

definition nCommitted :: "'c Test \<Rightarrow> nat \<Rightarrow> (nat \<times> 'c option) res" where
  "nCommitted ts index = nCommitted_loop index (ts_srvs ts) 0 None"

definition checkNoAgreement :: "'c Test \<Rightarrow> nat \<Rightarrow> unit res" where
  "checkNoAgreement ts index = bindr (nCommitted ts index) (\<lambda>(n, _). if n > 0 then Inl Fatal else Inr ())"

text \<open>
  The checks on leaders and terms look at what the connected servers answer: \<open>obs\<close> has the
  result of \<open>GetState\<close> for each server, \<open>None\<close> for one that is not connected. A round
  of \<open>checkOneLeader\<close> collects the leaders by term.
\<close>

definition claims :: "(nat \<times> bool) option list \<Rightarrow> (nat \<times> nat) list" where
  "claims obs = concat (map (\<lambda>(i, r). case r of Some (t, True) \<Rightarrow> [(t, i)] | _ \<Rightarrow> []) (enumerate 0 obs))"

definition leaders_of :: "(nat \<times> nat) list \<Rightarrow> nat \<Rightarrow> nat list" where
  "leaders_of cs t = map snd (filter (\<lambda>c. fst c = t) cs)"

definition leader_round :: "(nat \<times> bool) option list \<Rightarrow> nat option res" where
  "leader_round obs =
     (let cs = claims obs in
      if list_ex (\<lambda>c. length (leaders_of cs (fst c)) > 1) cs then Inl Fatal
      else if cs = [] then Inr None
      else Inr (Some (hd (leaders_of cs (fold (\<lambda>c t. if fst c > t then fst c else t) cs 0)))))"

text \<open>At most ten rounds; the list has the observations of each.\<close>

fun checkOneLeader :: "(nat \<times> bool) option list list \<Rightarrow> nat res" where
  "checkOneLeader [] = Inl Fatal"
| "checkOneLeader (obs # rounds) =
     bindr (leader_round obs) (\<lambda>r. case r of Some l \<Rightarrow> Inr l | None \<Rightarrow> checkOneLeader rounds)"

fun checkTerms_loop :: "(nat \<times> bool) option list \<Rightarrow> nat option \<Rightarrow> nat option res" where
  "checkTerms_loop [] t = Inr t"
| "checkTerms_loop (None # obs) t = checkTerms_loop obs t"
| "checkTerms_loop (Some (x, l) # obs) t =
     (case t of None \<Rightarrow> checkTerms_loop obs (Some x)
      | Some t' \<Rightarrow> if t' \<noteq> x then Inl Fatal else checkTerms_loop obs t)"

definition checkTerms :: "(nat \<times> bool) option list \<Rightarrow> nat option res" where
  "checkTerms obs = checkTerms_loop obs None"

definition checkNoLeader :: "(nat \<times> bool) option list \<Rightarrow> unit res" where
  "checkNoLeader obs = (if list_ex (\<lambda>r. case r of Some (t, l) \<Rightarrow> l | None \<Rightarrow> False) obs then Inl Fatal else Inr ())"

section \<open>The service on top of a peer\<close>

text \<open>The calls to the tester: the request may be lost, or executed and the reply lost.\<close>

definition proxy_CheckLogs :: "delivery \<Rightarrow> 'c Test \<Rightarrow> nat \<Rightarrow> 'c ApplyMsg \<Rightarrow> ('c Test \<times> apply_err \<times> bool) res" where
  "proxy_CheckLogs d ts i m =
     (case d of
        LostRequest \<Rightarrow> Inr (ts, ErrRPC, False)
      | LostReply \<Rightarrow> bindr (CheckLogs ts i m) (\<lambda>(ts', _). Inr (ts', ErrRPC, False))
      | Delivered \<Rightarrow> CheckLogs ts i m)"

definition proxy_IngestLog :: "delivery \<Rightarrow> 'c Test \<Rightarrow> nat \<Rightarrow> (nat \<rightharpoonup> 'c option) \<Rightarrow> 'c Test res" where
  "proxy_IngestLog d ts i xlog = (if d = LostRequest then Inr ts else IngestLog ts i xlog)"

definition proxy_ApplyErr :: "delivery \<Rightarrow> 'c Test \<Rightarrow> nat \<Rightarrow> apply_err \<Rightarrow> 'c Test res" where
  "proxy_ApplyErr d ts i err = (if d = LostRequest then Inr ts else ApplyErr ts i err)"

text \<open>One message of the apply channel, without snapshots; \<open>d1\<close> and \<open>d2\<close> are the fates of the two calls.\<close>

definition applier_msg :: "delivery \<Rightarrow> delivery \<Rightarrow> nat \<Rightarrow> 'c ApplyMsg \<Rightarrow> 'c Test \<Rightarrow> 'c Test res" where
  "applier_msg d1 d2 i m ts =
     (if \<not> CommandValid m then Inr ts
      else bindr (proxy_CheckLogs d1 ts i m) (\<lambda>(ts1, err, prevok).
           let err_msg = (if CommandIndex m > 1 \<and> \<not> prevok then OutOfOrder i (CommandIndex m) else err)
           in if err_msg \<noteq> NoErr then proxy_ApplyErr d2 ts1 i err_msg else Inr ts1))"

definition SnapShotInterval :: nat where "SnapShotInterval = 10"

text \<open>With snapshots the service keeps the commands itself. Commands are encoded values.\<close>

record rfsrv =
  rfs_me :: nat
  lastApplied :: nat
  rfs_log :: "nat \<rightharpoonup> gval option"

definition new_rfsrv :: "nat \<Rightarrow> rfsrv" where
  "new_rfsrv srv = \<lparr>rfs_me = srv, lastApplied = 0, rfs_log = Map.empty\<rparr>"

text \<open>
  A snapshot is the last index and the commands from index 0 on (\<^verbatim>\<open>nil\<close> where there is
  none). \<open>sn = None\<close> is the nil slice, \<open>index = None\<close> the value -1.
\<close>

definition encode_snap :: "rfsrv \<Rightarrow> nat \<Rightarrow> bytes" where
  "encode_snap rs k =
     [GvInt (int k), GvList (map (\<lambda>j. case rfs_log rs j of Some c \<Rightarrow> c | None \<Rightarrow> None) [0..<Suc k])]"

definition ingestSnap :: "rfsrv \<Rightarrow> bytes option \<Rightarrow> nat option \<Rightarrow> rfsrv \<times> apply_err" where
  "ingestSnap rs sn index =
     (case sn of
        None \<Rightarrow> (rs, NilSnapshot)
      | Some b \<Rightarrow>
          (case b of
             GvInt lastIncludedIndex # GvList xlog # _ \<Rightarrow>
               if (case index of None \<Rightarrow> False | Some x \<Rightarrow> int x \<noteq> lastIncludedIndex)
               then (rs, SnapshotIndexDiffers (rfs_me rs))
               else (rs\<lparr>rfs_log := (\<lambda>j. if j < length xlog then Some (xlog ! j) else None),
                        lastApplied := nat lastIncludedIndex\<rparr>, NoErr)
           | _ \<Rightarrow> (rs, BadSnapshot)))"

text \<open>One message with snapshots; the result carries the snapshot handed to Raft, if any.\<close>

definition applierSnap_msg ::
  "delivery \<Rightarrow> delivery \<Rightarrow> gval ApplyMsg \<Rightarrow> rfsrv \<times> gval Test \<Rightarrow> (rfsrv \<times> gval Test \<times> (nat \<times> bytes) option) res" where
  "applierSnap_msg d1 d2 m st =
     (case st of (rs, ts) \<Rightarrow>
        let finish = (\<lambda>rs' ts' snap err.
              if err \<noteq> NoErr then bindr (proxy_ApplyErr d2 ts' (rfs_me rs) err) (\<lambda>ts''. Inr (rs', ts'', snap))
              else Inr (rs', ts', snap))
        in if SnapshotValid m then
             (case ingestSnap rs (Some (MsgSnapshot m)) (Some (SnapshotIndex m)) of
                (rs', err) \<Rightarrow> bindr (proxy_IngestLog d1 ts (rfs_me rs) (rfs_log rs')) (\<lambda>ts'. finish rs' ts' None err))
           else if CommandValid m then
             bindr (if CommandIndex m \<noteq> lastApplied rs + 1 then Inr (ts, OutOfOrder (rfs_me rs) (CommandIndex m))
                    else bindr (proxy_CheckLogs d1 ts (rfs_me rs) m) (\<lambda>(ts', err, prevok).
                           Inr (ts', if err \<noteq> ErrRPC \<and> CommandIndex m > 1 \<and> \<not> prevok
                                     then OutOfOrder (rfs_me rs) (CommandIndex m) else err)))
               (\<lambda>(ts', err).
                  let rs' = rs\<lparr>rfs_log := (rfs_log rs)(CommandIndex m \<mapsto> MsgCommand m), lastApplied := CommandIndex m\<rparr>;
                      snap = (if (CommandIndex m + 1) mod SnapShotInterval = 0
                              then Some (CommandIndex m, encode_snap rs' (CommandIndex m)) else None)
                  in finish rs' ts' snap err)
           else finish rs ts None NoErr)"

text \<open>
  The tester's calls to a server; a call that fails leaves the reply at its zero value. The
  service forwards them to its peer, also as remote procedures.
\<close>

definition Rfproxy_GetState :: "delivery \<Rightarrow> 'c Raft \<Rightarrow> nat \<times> bool" where
  "Rfproxy_GetState d rf = (if d = Delivered then GetState rf else (0, False))"

definition Rfproxy_Start :: "delivery \<Rightarrow> 'c \<Rightarrow> 'c Raft \<Rightarrow> 'c Raft \<times> (nat \<times> nat \<times> bool) \<times> 'c spawn list" where
  "Rfproxy_Start d command rf =
     (case d of
        LostRequest \<Rightarrow> (rf, (0, 0, False), [])
      | LostReply \<Rightarrow> (case Start rf command of (rf', _, sp) \<Rightarrow> (rf', (0, 0, False), sp))
      | Delivered \<Rightarrow> Start rf command)"

text \<open>
  \<open>one\<close> submits a command and waits for agreement. A round of its outer loop has the answers
  of the servers to \<open>Start\<close> (\<open>None\<close> for a server that is not connected or is down) and
  the tester's books at each poll; the lists end where the time is over, \<open>finished\<close> is what
  \<open>checkFinished\<close> says then. The loop over the servers starts after the one that was asked last.
\<close>

fun try_servers :: "nat \<Rightarrow> (nat \<Rightarrow> (nat \<times> nat \<times> bool) option) \<Rightarrow> nat \<Rightarrow> nat \<Rightarrow> nat \<times> nat option" where
  "try_servers n ask 0 starts = (starts, None)"
| "try_servers n ask (Suc k) starts =
     (let starts' = (starts + 1) mod n in
      case ask starts' of
        Some (index1, _, True) \<Rightarrow> (starts', Some index1)
      | _ \<Rightarrow> try_servers n ask k starts')"

fun poll_agreement :: "'c option \<Rightarrow> nat \<Rightarrow> nat \<Rightarrow> 'c Test list \<Rightarrow> bool res" where
  "poll_agreement cmd expectedServers index [] = Inr False"
| "poll_agreement cmd expectedServers index (ts # tss) =
     bindr (nCommitted ts index) (\<lambda>(nd, cmd1).
       if nd > 0 \<and> nd \<ge> expectedServers \<and> cmd1 = cmd then Inr True
       else poll_agreement cmd expectedServers index tss)"

fun one ::
  "nat \<Rightarrow> 'c option \<Rightarrow> nat \<Rightarrow> bool \<Rightarrow> bool \<Rightarrow> ((nat \<Rightarrow> (nat \<times> nat \<times> bool) option) \<times> 'c Test list) list \<Rightarrow> nat \<Rightarrow> nat option res" where
  "one n cmd expectedServers retry finished [] starts = (if finished then Inr None else Inl Fatal)"
| "one n cmd expectedServers retry finished ((ask, tss) # rounds) starts =
     (case try_servers n ask n starts of
        (starts', None) \<Rightarrow> one n cmd expectedServers retry finished rounds starts'
      | (starts', Some index) \<Rightarrow>
          bindr (poll_agreement cmd expectedServers index tss) (\<lambda>agreed.
            if agreed then Inr (Some index)
            else if \<not> retry then Inl Fatal
            else one n cmd expectedServers retry finished rounds starts'))"

text \<open>
  \<open>wait\<close> polls at most thirty times; each iteration has the books and the terms the servers
  report. \<open>startTerm = None\<close> is the value -1, the result \<open>None\<close> the value -1.
\<close>

fun wait_polls :: "nat \<Rightarrow> nat \<Rightarrow> nat option \<Rightarrow> ('c Test \<times> nat list) list \<Rightarrow> bool res" where
  "wait_polls index n startTerm [] = Inr True"
| "wait_polls index n startTerm ((ts, terms) # its) =
     bindr (nCommitted ts index) (\<lambda>(nd, _).
       if nd \<ge> n then Inr True
       else if (case startTerm of Some t0 \<Rightarrow> list_ex (\<lambda>t. t > t0) terms | None \<Rightarrow> False) then Inr False
       else wait_polls index n startTerm its)"

definition wait :: "nat \<Rightarrow> nat \<Rightarrow> nat option \<Rightarrow> ('c Test \<times> nat list) list \<Rightarrow> 'c Test \<Rightarrow> 'c option option res" where
  "wait index n startTerm its ts =
     bindr (wait_polls index n startTerm (take 30 its)) (\<lambda>go_on.
       if \<not> go_on then Inr None
       else bindr (nCommitted ts index) (\<lambda>(nd, cmd). if nd < n then Inl Fatal else Inr (Some cmd)))"

section \<open>The log checks pass when the servers agree\<close>

lemma find_conflict_none:
  "(\<And>rs old. rs \<in> set rss \<Longrightarrow> rs_logs rs k = Some old \<Longrightarrow> old = v) \<Longrightarrow> find_conflict k i v j rss err = err"
  by (induction rss arbitrary: j err) (auto split: option.split)

text \<open>
  The tester's books after the reports \<open>ys\<close> of servers that all deliver \<open>V k\<close> at index
  \<open>k\<close>: no error, and each server's log has what that server reported.
\<close>

definition reported :: "(nat \<times> 'c ApplyMsg) list \<Rightarrow> nat \<Rightarrow> nat \<Rightarrow> bool" where
  "reported ys i k \<longleftrightarrow> (\<exists>m. (i, m) \<in> set ys \<and> CommandIndex m = k)"

definition books_ok :: "nat \<Rightarrow> (nat \<Rightarrow> 'c option) \<Rightarrow> (nat \<times> 'c ApplyMsg) list \<Rightarrow> 'c Test \<Rightarrow> bool" where
  "books_ok n V ys ts \<longleftrightarrow> length (ts_srvs ts) = n \<and>
     (\<forall>i < n. applyErr (ts_srvs ts ! i) = NoErr \<and>
        (\<forall>k. rs_logs (ts_srvs ts ! i) k = (if reported ys i k then Some (V k) else None)))"

lemma reported_append [simp]: "reported (ys @ [(j, m)]) i k \<longleftrightarrow> reported ys i k \<or> i = j \<and> k = CommandIndex m"
  by (auto simp: reported_def)

lemma books_okD:
  assumes "books_ok n V ys ts" and "rs \<in> set (ts_srvs ts)"
  shows "applyErr rs = NoErr" and "rs_logs rs k = Some c \<Longrightarrow> c = V k"
proof -
  obtain i where i: "i < n" "rs = ts_srvs ts ! i" using assms by (auto simp: in_set_conv_nth books_ok_def)
  have "rs_logs rs k = (if reported ys i k then Some (V k) else None)" using assms(1) i by (simp add: books_ok_def)
  then show "rs_logs rs k = Some c \<Longrightarrow> c = V k" by (auto split: if_splits)
  show "applyErr rs = NoErr" using assms(1) i by (simp add: books_ok_def)
qed

lemma books_new: "books_ok n V [] (makeTest n)"
  by (simp add: books_ok_def makeTest_def newRaftServer_def reported_def)

lemma applier_msg_ok:
  assumes books: "books_ok n V ys ts" and i: "i < n" and v: "CommandValid m" "MsgCommand m = V (CommandIndex m)"
    and prev: "CommandIndex m \<le> 1 \<or> reported ys i (CommandIndex m - 1)"
  shows "returns (applier_msg Delivered d i m ts) (books_ok n V (ys @ [(i, m)]))"
proof -
  let ?k = "CommandIndex m"
  have len: "length (ts_srvs ts) = n" using books by (simp add: books_ok_def)
  have "old = V ?k" if "rs \<in> set (ts_srvs ts)" "rs_logs rs ?k = Some old" for rs old
    using books_okD(2) [OF books that] .
  then have err: "find_conflict ?k i (V ?k) 0 (ts_srvs ts) NoErr = NoErr" by (rule find_conflict_none)
  have prevok: "\<not> (?k > 1 \<and> \<not> prev_entry (ts_srvs ts ! i) ?k)"
    using prev books i by (auto simp: prev_entry_def books_ok_def split: nat.splits)
  define ts' where "ts' = ts\<lparr>ts_srvs := (ts_srvs ts)[i := (ts_srvs ts ! i)\<lparr>rs_logs := (rs_logs (ts_srvs ts ! i))(?k \<mapsto> V ?k)\<rparr>],
    maxIndex := (if ?k > maxIndex ts then ?k else maxIndex ts)\<rparr>"
  have "CheckLogs ts i m = Inr (ts', NoErr, prev_entry (ts_srvs ts ! i) ?k)"
    using i len err v(2) by (simp add: CheckLogs_def ts'_def Let_def)
  then have "applier_msg Delivered d i m ts = Inr ts'"
    using v(1) prevok by (auto simp: applier_msg_def proxy_CheckLogs_def Let_def)
  moreover have "books_ok n V (ys @ [(i, m)]) ts'"
    using books len i by (auto simp: books_ok_def ts'_def nth_list_update)
  ultimately show ?thesis by simp
qed

text \<open>Every server reports in order: before index \<open>k > 1\<close> it has reported \<open>k - 1\<close>.\<close>

definition reports_in_order :: "(nat \<times> 'c ApplyMsg) list \<Rightarrow> bool" where
  "reports_in_order evs \<longleftrightarrow>
     (\<forall>p < length evs. CommandIndex (snd (evs ! p)) \<le> 1 \<or>
        (\<exists>q < p. fst (evs ! q) = fst (evs ! p) \<and> CommandIndex (snd (evs ! q)) + 1 = CommandIndex (snd (evs ! p))))"

text \<open>
  That is so when each of its lives, from one start to the next crash, reports what an applier without snapshots delivers:
  the indices from 1 on, in order.
\<close>

definition lives_in_order :: "nat \<Rightarrow> (nat \<times> 'c ApplyMsg) list \<Rightarrow> bool" where
  "lives_in_order i evs \<longleftrightarrow>
     (\<exists>lives. map snd (filter (\<lambda>x. fst x = i) evs) = concat lives \<and> (\<forall>ms \<in> set lives. in_order 0 ms \<noteq> None))"

lemma in_order_commands:
  "in_order la ms = Some k \<Longrightarrow> \<forall>m \<in> set ms. CommandValid m \<Longrightarrow>
     k = la + length ms \<and> (\<forall>p < length ms. CommandIndex (ms ! p) = la + Suc p)"
proof (induction ms arbitrary: la)
  case (Cons m ms)
  then have "CommandIndex m = la + 1" "in_order (la + 1) ms = Some k" by (auto split: if_splits)
  then show ?case using Cons.IH [of "la + 1"] Cons.prems(2) by (auto simp: nth_Cons split: nat.split)
qed simp

lemma lives_predecessor:
  assumes "\<forall>ms \<in> set lives. in_order 0 ms \<noteq> None" and "\<forall>m \<in> set (concat lives). CommandValid m"
    and "r < length (concat lives)" and "1 < CommandIndex (concat lives ! r)"
  shows "0 < r \<and> CommandIndex (concat lives ! (r - 1)) + 1 = CommandIndex (concat lives ! r)"
  using assms
proof (induction lives arbitrary: r)
  case (Cons l lives)
  obtain k where "in_order 0 l = Some k" using Cons.prems(1) by auto
  then have idx: "\<And>p. p < length l \<Longrightarrow> CommandIndex (l ! p) = Suc p" using in_order_commands [of 0 l k] Cons.prems(2) by simp
  show ?case
  proof (cases "r < length l")
    case True
    then show ?thesis using Cons.prems(4) idx [of r] idx [of "r - 1"] by (auto simp: nth_append)
  next
    case False
    then have "0 < r - length l \<and> CommandIndex (concat lives ! (r - length l - 1)) + 1 = CommandIndex (concat lives ! (r - length l))"
      using Cons.prems by (intro Cons.IH) (auto simp: nth_append)
    moreover from this have "r - 1 - length l = r - length l - 1" "\<not> r - 1 < length l" by auto
    ultimately show ?thesis using False by (simp add: nth_append)
  qed
qed simp

lemma lives_reports_in_order:
  assumes "\<And>i m. (i, m) \<in> set evs \<Longrightarrow> lives_in_order i evs \<and> CommandValid m"
  shows "reports_in_order evs"
  unfolding reports_in_order_def
proof (intro allI impI)
  fix p
  assume p: "p < length evs"
  obtain i m where x: "evs ! p = (i, m)" by fastforce
  let ?P = "\<lambda>x. fst x = i" and ?r = "length (filter (\<lambda>x. fst x = i) (take p evs))"
  have "filter ?P evs = filter ?P (take p evs @ evs ! p # drop (Suc p) evs)"
    by (rule arg_cong [OF id_take_nth_drop [OF p]])
  then have split: "filter ?P evs = filter ?P (take p evs) @ (i, m) # filter ?P (drop (Suc p) evs)" by (simp add: x)
  obtain lives where l: "map snd (filter ?P evs) = concat lives" "\<forall>ms \<in> set lives. in_order 0 ms \<noteq> None"
    using assms [of i m] p x nth_mem [OF p] by (auto simp: lives_in_order_def)
  have "\<forall>m \<in> set (concat lives). CommandValid m"
    unfolding l(1) [symmetric] using assms by fastforce
  moreover have len: "?r < length (concat lives)" "concat lives ! ?r = m"
    unfolding l(1) [symmetric] split by (simp_all add: nth_append)
  ultimately have prev: "0 < ?r \<and> CommandIndex (concat lives ! (?r - 1)) + 1 = CommandIndex m" if "1 < CommandIndex m"
    using lives_predecessor [OF l(2), of ?r] that by simp
  have "\<exists>q < p. fst (evs ! q) = i \<and> CommandIndex (snd (evs ! q)) + 1 = CommandIndex m" if "1 < CommandIndex m"
  proof -
    let ?F = "filter ?P (take p evs)"
    have "concat lives ! (?r - 1) = snd (?F ! (?r - 1))"
      unfolding l(1) [symmetric] split using prev [OF that] by (simp add: nth_append)
    moreover have "?F ! (?r - 1) \<in> set ?F" using prev [OF that] by (intro nth_mem) simp
    then obtain q where "q < p" "?F ! (?r - 1) = evs ! q" "fst (evs ! q) = i" by (auto simp: in_set_conv_nth)
    ultimately show ?thesis using prev [OF that] by auto
  qed
  then show "CommandIndex (snd (evs ! p)) \<le> 1 \<or>
      (\<exists>q < p. fst (evs ! q) = fst (evs ! p) \<and> CommandIndex (snd (evs ! q)) + 1 = CommandIndex (snd (evs ! p)))"
    using x by force
qed

lemma applier_run_ok:
  assumes "\<forall>(i, m) \<in> set evs. i < n \<and> CommandValid m \<and> MsgCommand m = V (CommandIndex m)" and "reports_in_order evs"
  shows "returns (for_each (\<lambda>(i, m). applier_msg Delivered Delivered i m) evs (makeTest n)) (books_ok n V evs)"
proof (rule for_each_invariant [where I = "books_ok n V"])
  show "books_ok n V [] (makeTest n)" by (rule books_new)
  fix ys x zs t
  assume evs: "evs = ys @ x # zs" and books: "books_ok n V ys t"
  obtain i m where x: "x = (i, m)" by (cases x)
  have "evs ! length ys = (i, m)" "length ys < length evs" "\<And>q. q < length ys \<Longrightarrow> evs ! q = ys ! q"
    using evs x by (simp_all add: nth_append)
  then have "CommandIndex m \<le> 1 \<or> (\<exists>q < length ys. fst (ys ! q) = i \<and> CommandIndex (snd (ys ! q)) + 1 = CommandIndex m)"
    using assms(2) unfolding reports_in_order_def by (metis fst_conv snd_conv)
  then have "CommandIndex m \<le> 1 \<or> reported ys i (CommandIndex m - 1)"
    unfolding reported_def by (metis add_diff_cancel_right' nth_mem prod.collapse)
  then show "returns ((\<lambda>(i, m). applier_msg Delivered Delivered i m) x t) (books_ok n V (ys @ [x]))"
    using applier_msg_ok [OF books, of i m Delivered] assms(1) evs x by auto
qed

lemma nCommitted_loop_ok:
  assumes "\<forall>rs \<in> set rss. applyErr rs = NoErr \<and> (\<forall>c. rs_logs rs k = Some c \<longrightarrow> c = v)" and "0 < n \<Longrightarrow> cmd = v"
  shows "\<exists>cmd'. nCommitted_loop k rss n cmd = Inr (n + length (filter (\<lambda>rs. rs_logs rs k \<noteq> None) rss), cmd') \<and>
           (0 < n + length (filter (\<lambda>rs. rs_logs rs k \<noteq> None) rss) \<longrightarrow> cmd' = v)"
  using assms
proof (induction rss arbitrary: n cmd)
  case (Cons rs rss)
  show ?case
  proof (cases "rs_logs rs k")
    case None
    then show ?thesis using Cons.IH [of n cmd] Cons.prems by simp
  next
    case (Some c)
    then have "c = v" using Cons.prems(1) by simp
    then show ?thesis using Some Cons.IH [of "n + 1" c] Cons.prems by auto
  qed
qed simp

lemma nCommitted_ok:
  assumes "books_ok n V evs ts"
  shows "returns (nCommitted ts k) (\<lambda>(c, cmd). c = card {i. i < n \<and> reported evs i k} \<and> (0 < c \<longrightarrow> cmd = V k))"
proof -
  have len: "length (ts_srvs ts) = n" using assms by (simp add: books_ok_def)
  have "\<forall>rs \<in> set (ts_srvs ts). applyErr rs = NoErr \<and> (\<forall>c. rs_logs rs k = Some c \<longrightarrow> c = V k)"
    using books_okD [OF assms] by blast
  from nCommitted_loop_ok [OF this, of 0 None] obtain cmd' where
    "nCommitted ts k = Inr (length (filter (\<lambda>rs. rs_logs rs k \<noteq> None) (ts_srvs ts)), cmd')"
    "0 < length (filter (\<lambda>rs. rs_logs rs k \<noteq> None) (ts_srvs ts)) \<longrightarrow> cmd' = V k" by (auto simp: nCommitted_def)
  moreover have "{i. i < length (ts_srvs ts) \<and> rs_logs (ts_srvs ts ! i) k \<noteq> None} = {i. i < n \<and> reported evs i k}"
  proof (rule Collect_cong)
    fix i
    show "i < length (ts_srvs ts) \<and> rs_logs (ts_srvs ts ! i) k \<noteq> None \<longleftrightarrow> i < n \<and> reported evs i k"
      using assms len by (cases "i < n") (simp_all add: books_ok_def)
  qed
  then have "length (filter (\<lambda>rs. rs_logs rs k \<noteq> None) (ts_srvs ts)) = card {i. i < n \<and> reported evs i k}"
    by (simp only: length_filter_conv_card)
  ultimately show ?thesis by (simp del: length_greater_0_conv)
qed

section \<open>The leader check passes when terms have one leader\<close>

lemma claims_iff: "(t, i) \<in> set (claims obs) \<longleftrightarrow> i < length obs \<and> obs ! i = Some (t, True)"
proof -
  have "(t, i) \<in> set (claims obs) \<longleftrightarrow> (\<exists>r. (i, r) \<in> set (enumerate 0 obs) \<and> r = Some (t, True))"
    unfolding claims_def by (auto split: option.splits bool.splits)
  also have "\<dots> \<longleftrightarrow> i < length obs \<and> obs ! i = Some (t, True)"
    by (auto simp: in_set_enumerate_eq)
  finally show ?thesis .
qed

lemma claims_distinct: "distinct (claims obs)"
proof -
  have "distinct (map snd (concat (map (\<lambda>(i, r). case r of Some (t, True) \<Rightarrow> [(t, i)] | _ \<Rightarrow> []) (enumerate k obs)))) \<and>
      (\<forall>c \<in> set (concat (map (\<lambda>(i, r). case r of Some (t, True) \<Rightarrow> [(t, i)] | _ \<Rightarrow> []) (enumerate k obs))). k \<le> snd c)" for k
  proof (induction obs arbitrary: k)
    case (Cons r obs)
    show ?case using Cons [of "Suc k"] by (fastforce split: option.splits bool.splits prod.splits)
  qed simp
  then show ?thesis unfolding claims_def using distinct_map by blast
qed

lemma max_term: "fold (\<lambda>c t. if fst c > t then fst c else t) cs t0 = Max (insert t0 (fst ` set cs))" for t0 :: nat
proof -
  have "(\<lambda>c t. if fst c > t then fst c else t) = (\<lambda>c :: nat \<times> 'a. max (fst c))" by (auto simp: fun_eq_iff max_def)
  then have "fold (\<lambda>c t. if fst c > t then fst c else t) cs t0 = fold max (map fst cs) t0"
    by (simp add: fold_map comp_def)
  also have "\<dots> = Max (insert t0 (fst ` set cs))" using Max.set_eq_fold [of t0 "map fst cs"] by simp
  finally show ?thesis .
qed

lemma leader_round_ok:
  assumes "\<And>t i j. (t, i) \<in> set (claims obs) \<Longrightarrow> (t, j) \<in> set (claims obs) \<Longrightarrow> i = j"
  shows "returns (leader_round obs) (\<lambda>r. case r of
      None \<Rightarrow> (\<forall>i < length obs. \<forall>t. obs ! i \<noteq> Some (t, True))
    | Some l \<Rightarrow> l < length obs \<and> (\<exists>t. obs ! l = Some (t, True) \<and> (\<forall>i < length obs. \<forall>t'. obs ! i = Some (t', True) \<longrightarrow> t' \<le> t)))"
proof -
  let ?cs = "claims obs"
  have one: "length (leaders_of ?cs t) \<le> 1" for t
  proof (rule ccontr)
    assume "\<not> length (leaders_of ?cs t) \<le> 1"
    then have l: "0 < length (filter (\<lambda>c. fst c = t) ?cs)" "1 < length (filter (\<lambda>c. fst c = t) ?cs)" by (auto simp: leaders_of_def)
    let ?f = "filter (\<lambda>c. fst c = t) ?cs"
    have "?f ! 0 \<in> set ?f" "?f ! 1 \<in> set ?f" using l nth_mem by blast+
    then have f: "?f ! 0 \<in> set ?cs" "fst (?f ! 0) = t" "?f ! 1 \<in> set ?cs" "fst (?f ! 1) = t" by auto
    have "(t, snd (?f ! 0)) \<in> set ?cs" using f(1,2) by (metis prod.collapse)
    moreover have "(t, snd (?f ! 1)) \<in> set ?cs" using f(3,4) by (metis prod.collapse)
    ultimately have "snd (?f ! 0) = snd (?f ! 1)" by (rule assms)
    then have "?f ! 0 = ?f ! 1" using f(2,4) by (intro prod_eqI) auto
    moreover have "distinct ?f" using claims_distinct by simp
    ultimately show False using l nth_eq_iff_index_eq by (metis zero_neq_one)
  qed
  have no: "\<not> list_ex (\<lambda>c. length (leaders_of ?cs (fst c)) > 1) ?cs" using one by (auto simp: list_ex_iff not_less)
  show ?thesis
  proof (cases "?cs = []")
    case True
    then have "\<forall>i < length obs. \<forall>t. obs ! i \<noteq> Some (t, True)" using claims_iff [of _ _ obs] by auto
    then show ?thesis using True no by (simp add: leader_round_def Let_def)
  next
    case False
    define t where "t = fold (\<lambda>c t. if fst c > t then fst c else t) ?cs 0"
    have t: "t = Max (fst ` set ?cs)" unfolding t_def max_term using False by (subst Max_insert) auto
    have "t \<in> fst ` set ?cs" unfolding t by (rule Max_in) (use False in auto)
    then have "leaders_of ?cs t \<noteq> []" by (auto simp: leaders_of_def filter_empty_conv)
    then have "hd (leaders_of ?cs t) \<in> set (leaders_of ?cs t)" by simp
    then have l: "(t, hd (leaders_of ?cs t)) \<in> set ?cs" by (auto simp: leaders_of_def)
    then have "hd (leaders_of ?cs t) < length obs" "obs ! hd (leaders_of ?cs t) = Some (t, True)" using claims_iff by auto
    moreover have "t' \<le> t" if "i < length obs" "obs ! i = Some (t', True)" for i t'
      unfolding t using claims_iff [of t' i obs] that by (intro Max_ge) (auto simp: image_iff intro: bexI [of _ "(t', i)"])
    ultimately show ?thesis using False no by (auto simp: leader_round_def Let_def t_def [symmetric])
  qed
qed

section \<open>Snapshots of the service\<close>

text \<open>What is ingested is what was encoded, up to the index; the entries beyond it are dropped.\<close>

lemma ingest_encoded:
  "ingestSnap rs (Some (encode_snap rs' k)) (Some k) =
     (rs\<lparr>rfs_log := (\<lambda>j. if j \<le> k then Some (case rfs_log rs' j of Some c \<Rightarrow> c | None \<Rightarrow> None) else None), lastApplied := k\<rparr>, NoErr)"
proof -
  let ?xs = "map (\<lambda>j. case rfs_log rs' j of Some c \<Rightarrow> c | None \<Rightarrow> None) [0..<Suc k]"
  have "(\<lambda>j. if j < length ?xs then Some (?xs ! j) else None) =
      (\<lambda>j. if j \<le> k then Some (case rfs_log rs' j of Some c \<Rightarrow> c | None \<Rightarrow> None) else None)"
    by (rule ext) (simp add: less_Suc_eq_le del: upt_Suc)
  then show ?thesis by (simp add: ingestSnap_def encode_snap_def del: upt_Suc)
qed

section \<open>Agreement\<close>

lemma nCommitted_loop_sound:
  assumes "nCommitted_loop k rss n cmd = Inr (nd, cmd')"
  shows "(\<forall>rs \<in> set rss. applyErr rs = NoErr) \<and> nd = n + length (filter (\<lambda>rs. rs_logs rs k \<noteq> None) rss) \<and>
    (0 < n \<longrightarrow> cmd' = cmd) \<and> (\<forall>rs \<in> set rss. rs_logs rs k \<noteq> None \<longrightarrow> rs_logs rs k = Some cmd')"
  using assms
proof (induction rss arbitrary: n cmd)
  case (Cons rs rss)
  have e: "applyErr rs = NoErr" using Cons.prems by (auto split: if_splits)
  show ?case
  proof (cases "rs_logs rs k")
    case None
    then show ?thesis using Cons.IH [of n cmd] Cons.prems e by simp
  next
    case (Some c)
    then have "nCommitted_loop k rss (n + 1) c = Inr (nd, cmd')" "0 < n \<longrightarrow> cmd = c"
      using Cons.prems e by (auto split: if_splits)
    then show ?thesis using Cons.IH [of "n + 1" c] Some e by auto
  qed
qed simp

definition agreed_on :: "'c Test \<Rightarrow> nat \<Rightarrow> 'c option \<Rightarrow> nat \<Rightarrow> bool" where
  "agreed_on ts index cmd n \<longleftrightarrow>
     (\<forall>rs \<in> set (ts_srvs ts). applyErr rs = NoErr \<and> (rs_logs rs index = None \<or> rs_logs rs index = Some cmd)) \<and>
     length (filter (\<lambda>rs. rs_logs rs index = Some cmd) (ts_srvs ts)) \<ge> n"

lemma nCommitted_agreed:
  assumes "nCommitted ts index = Inr (nd, cmd)"
  shows "agreed_on ts index cmd nd"
proof -
  have s: "\<forall>rs \<in> set (ts_srvs ts). applyErr rs = NoErr" "nd = length (filter (\<lambda>rs. rs_logs rs index \<noteq> None) (ts_srvs ts))"
    "\<forall>rs \<in> set (ts_srvs ts). rs_logs rs index \<noteq> None \<longrightarrow> rs_logs rs index = Some cmd"
    using nCommitted_loop_sound assms unfolding nCommitted_def by fastforce+
  have "filter (\<lambda>rs. rs_logs rs index \<noteq> None) (ts_srvs ts) = filter (\<lambda>rs. rs_logs rs index = Some cmd) (ts_srvs ts)"
    using s(3) by (intro filter_cong) auto
  then show ?thesis using s by (auto simp: agreed_on_def)
qed

lemma agreed_on_mono: "agreed_on ts k cmd n \<Longrightarrow> m \<le> n \<Longrightarrow> agreed_on ts k cmd m"
  by (simp add: agreed_on_def)

lemma poll_agreement_sound:
  "poll_agreement cmd m k tss = Inr True \<Longrightarrow> \<exists>ts \<in> set tss. agreed_on ts k cmd (max 1 m)"
proof (induction tss)
  case (Cons ts tss)
  obtain nd cmd1 where nd: "nCommitted ts k = Inr (nd, cmd1)" using Cons.prems by (auto simp: bindr_def split: sum.splits)
  show ?case
  proof (cases "nd > 0 \<and> nd \<ge> m \<and> cmd1 = cmd")
    case True
    then have "agreed_on ts k cmd (max 1 m)" using agreed_on_mono [OF nCommitted_agreed [OF nd]] by simp
    then show ?thesis by simp
  next
    case False
    then show ?thesis using Cons nd by auto
  qed
qed simp

lemma try_servers_sound:
  "0 < n \<Longrightarrow> starts < n \<Longrightarrow> try_servers n ask k starts = (starts', r) \<Longrightarrow>
     starts' < n \<and> (case r of None \<Rightarrow> True | Some index \<Rightarrow> \<exists>t. ask starts' = Some (index, t, True))"
  by (induction n ask k starts rule: try_servers.induct) (auto simp: Let_def split: option.splits prod.splits bool.splits)

text \<open>With as many attempts as there are servers, all of them are asked.\<close>

lemma try_servers_none:
  "starts < n \<Longrightarrow> try_servers n ask k starts = (starts', None) \<Longrightarrow>
     \<forall>j. 0 < j \<and> j \<le> k \<longrightarrow> (\<forall>x t. ask ((starts + j) mod n) \<noteq> Some (x, t, True))"
proof (induction k arbitrary: starts)
  case (Suc k)
  let ?s = "(starts + 1) mod n"
  have s: "?s < n" using Suc.prems(1) by (cases n) auto
  have no: "\<forall>x t. ask ?s \<noteq> Some (x, t, True)" and rest: "try_servers n ask k ?s = (starts', None)"
    using Suc.prems(2) by (auto simp: Let_def split: option.splits prod.splits bool.splits)
  show ?case
  proof (intro allI impI)
    fix j x t
    assume j: "0 < j \<and> j \<le> Suc k"
    show "ask ((starts + j) mod n) \<noteq> Some (x, t, True)"
    proof (cases "j = 1")
      case True
      then show ?thesis using no by simp
    next
      case False
      then have "0 < j - 1 \<and> j - 1 \<le> k" using j by auto
      then have "ask ((?s + (j - 1)) mod n) \<noteq> Some (x, t, True)" using Suc.IH [OF s rest] by blast
      moreover have "(?s + (j - 1)) mod n = (starts + 1 + (j - 1)) mod n" by (rule mod_add_left_eq)
      ultimately show ?thesis using j by simp
    qed
  qed
qed simp

lemma try_servers_all:
  assumes "starts < n" and "try_servers n ask n starts = (starts', None)" and "i < n"
  shows "ask i \<noteq> Some (x, t, True)"
proof -
  obtain j where "0 < j" "j \<le> n" "(starts + j) mod n = i"
  proof (cases "starts < i")
    case True
    then show ?thesis using that [of "i - starts"] assms by simp
  next
    case False
    then show ?thesis using that [of "n - starts + i"] assms by simp
  qed
  then show ?thesis using try_servers_none [OF assms(1,2)] by blast
qed

text \<open>
  The Raft tests' \<open>one\<close> returns an index only after agreement: in the round that ends it,
  a server of the group claimed to be the leader and to have put the command at that index, and at
  some later poll no server had reported an error, at least as many servers as
  expected (and at least one) had reported this command at this index, and none had reported another one there.
\<close>

theorem one_reaches_agreement:
  assumes "starts < n" and "one n cmd expectedServers retry finished rounds starts = Inr (Some index)"
  shows "\<exists>(ask, tss) \<in> set rounds. (\<exists>i < n. \<exists>t. ask i = Some (index, t, True)) \<and>
           (\<exists>ts \<in> set tss. agreed_on ts index cmd (max 1 expectedServers))"
  using assms
proof (induction rounds arbitrary: starts)
  case (Cons r rounds)
  obtain ask tss where r: "r = (ask, tss)" by (cases r)
  obtain starts' res where tr: "try_servers n ask n starts = (starts', res)" by fastforce
  have s: "starts' < n" "res = Some k \<Longrightarrow> \<exists>t. ask starts' = Some (k, t, True)" for k
    using try_servers_sound [OF _ Cons.prems(1) tr] Cons.prems(1) by auto
  show ?case
  proof (cases "\<exists>k. res = Some k \<and> poll_agreement cmd expectedServers k tss = Inr True")
    case True
    then obtain k where k: "res = Some k" "poll_agreement cmd expectedServers k tss = Inr True" by blast
    then have "k = index" using Cons.prems(2) r tr by simp
    then show ?thesis using r s k poll_agreement_sound [OF k(2)] by auto
  next
    case False
    then have "one n cmd expectedServers retry finished rounds starts' = Inr (Some index)"
      using Cons.prems(2) r tr by (auto simp: bindr_def split: option.splits sum.splits if_splits)
    then show ?thesis using Cons.IH [OF s(1)] by auto
  qed
qed (simp split: if_splits)

text \<open>Three servers, of which the second is the leader; two have reported the command when the second poll is made.\<close>

definition one_polls :: "nat Test list" where
  "one_polls =
     (let m = \<lparr>CommandValid = True, MsgCommand = Some 7, CommandIndex = 1, SnapshotValid = False,
               MsgSnapshot = [], SnapshotTerm = 0, SnapshotIndex = 0\<rparr>;
          report = (\<lambda>i ts. case applier_msg Delivered Delivered i m ts of Inr ts' \<Rightarrow> ts' | Inl _ \<Rightarrow> ts);
          ts1 = report 1 (makeTest 3)
      in [ts1, report 0 ts1])"

definition one_ask :: "nat \<Rightarrow> (nat \<times> nat \<times> bool) option" where
  "one_ask i = (if i = 0 then None else Some (1, 2, i = 1))"

theorem one_reaches_agreement_witness:
  "one 3 (Some 7) 2 True False [(one_ask, one_polls)] 0 = Inr (Some 1) \<and>
   (\<exists>ts \<in> set one_polls. agreed_on ts 1 (Some 7) 2)"
proof -
  have o: "one 3 (Some 7) 2 True False [(one_ask, one_polls)] 0 = Inr (Some 1)" by code_simp
  have "(0 :: nat) < 3" by simp
  from one_reaches_agreement [OF this o]
  have "\<exists>ts \<in> set one_polls. agreed_on ts 1 (Some 7) 2" by (simp add: max_def)
  then show ?thesis using o by blast
qed

end
