(* ===== verification/Demux.thy ===== *)
theory Demux
  imports Labrpc
begin

text \<open>
  The demultiplexer over which the tester and the server processes talk (tester1/demux): many
  calls share one connection; each request carries a tag, and the reader hands each reply to the
  channel registered under its tag. The theory models the frames on the connection
  (transport.go), the table of outstanding calls (callmap.go), the client and the server
  (dmxclnt.go, dmxsrv.go) and their interleavings as a step relation.

  It shows that frames are read back as they were written, that a call gets the reply to its
  own request exactly once or a failure, that the reader never meets a reply it does not
  expect, and that no call is left waiting when the connection breaks, as long as the
  32-bit tags have not wrapped around.
\<close>

unbundle bit_operations_syntax

section \<open>Frames\<close>

type_synonym Ttag = "32 word"

record msg =
  Tag :: Ttag
  Data :: octets
  Ok :: bool

text \<open>A length as four bytes, the lowest first; \<^verbatim>\<open>uint32(len(b))\<close> keeps 32 bits.\<close>

definition le32 :: "32 word \<Rightarrow> octets" where
  "le32 w = [ucast w, ucast (drop_bit 8 w), ucast (drop_bit 16 w), ucast (drop_bit 24 w)]"

definition un_le32 :: "octets \<Rightarrow> 32 word" where
  "un_le32 bs = ucast (bs ! 0) + push_bit 8 (ucast (bs ! 1)) + push_bit 16 (ucast (bs ! 2)) + push_bit 24 (ucast (bs ! 3))"

text \<open>
  What \<open>WriteCall\<close> appends to the stream, and what \<open>ReadCall\<close> takes from it.
  \<open>Inr None\<close> is a read error (the stream ends too early); the encoding of \<open>msg\<close> is a
  parameter, and a message that does not decode ends the program.
\<close>

definition WriteCall :: "(msg \<Rightarrow> octets \<times> bool) \<Rightarrow> Ttag \<Rightarrow> octets \<Rightarrow> bool \<Rightarrow> octets res" where
  "WriteCall enc tag d ok =
     bindr (Marshall enc \<lparr>Tag = tag, Data = d, Ok = ok\<rparr>) (\<lambda>b. Inr (le32 (word_of_nat (length b)) @ b))"

definition ReadCall :: "(octets \<Rightarrow> msg option) \<Rightarrow> octets \<Rightarrow> (msg \<times> octets) option res" where
  "ReadCall dec bs =
     (if length bs < 4 then Inr None
      else let nbyte = unat (un_le32 (take 4 bs)); rest = drop 4 bs
           in if length rest < nbyte then Inr None
              else bindr (Unmarshall dec (take nbyte rest)) (\<lambda>m. Inr (Some (m, drop nbyte rest))))"

section \<open>The table of outstanding calls\<close>

text \<open>Channels are numbered. The table is listed in the order in which Go's map iterates.\<close>

record callMap =
  cm_closed :: bool
  cm_calls :: "(Ttag \<times> nat) list"

definition newCallMap :: callMap where
  "newCallMap = \<lparr>cm_closed = False, cm_calls = []\<rparr>"

definition cm_close :: "callMap \<Rightarrow> callMap" where
  "cm_close cm = cm\<lparr>cm_closed := True\<rparr>"

definition cm_put :: "callMap \<Rightarrow> Ttag \<Rightarrow> nat \<Rightarrow> callMap option" where
  "cm_put cm tag ch =
     (if cm_closed cm then None
      else Some (cm\<lparr>cm_calls := (tag, ch) # filter (\<lambda>c. fst c \<noteq> tag) (cm_calls cm)\<rparr>))"

definition cm_remove :: "callMap \<Rightarrow> Ttag \<Rightarrow> callMap \<times> nat option" where
  "cm_remove cm tag =
     (case map_of (cm_calls cm) tag of
        Some ch \<Rightarrow> (cm\<lparr>cm_calls := filter (\<lambda>c. fst c \<noteq> tag) (cm_calls cm)\<rparr>, Some ch)
      | None \<Rightarrow> (cm, None))"

definition outstanding :: "callMap \<Rightarrow> Ttag list" where
  "outstanding cm = map fst (cm_calls cm)"

section \<open>The client\<close>

text \<open>A reply with its error: \<open>rep_err\<close> tells that there is one.\<close>

record reply =
  rep :: octets
  rep_ok :: bool
  rep_err :: bool

text \<open>\<open>answers\<close> has what was sent on each channel.\<close>

record DemuxClnt =
  callmap :: callMap
  nextTag :: Ttag
  answers :: "nat \<Rightarrow> reply list"

text \<open>The tag of the initial message is 0; the server answers it with nothing.\<close>

definition NewDemuxClnt :: DemuxClnt where
  "NewDemuxClnt = \<lparr>callmap = newCallMap, nextTag = 1, answers = (\<lambda>_. [])\<rparr>"

definition dmx_tag :: "DemuxClnt \<Rightarrow> DemuxClnt \<times> Ttag" where
  "dmx_tag dmx = (dmx\<lparr>nextTag := nextTag dmx + 1\<rparr>, nextTag dmx)"

definition dmx_reply :: "Ttag \<Rightarrow> octets \<Rightarrow> bool \<Rightarrow> bool \<Rightarrow> DemuxClnt \<Rightarrow> DemuxClnt res" where
  "dmx_reply tag b oks err dmx =
     (case cm_remove (callmap dmx) tag of
        (cm, Some ch) \<Rightarrow>
          Inr (dmx\<lparr>callmap := cm, answers := (answers dmx)(ch := answers dmx ch @ [\<lparr>rep = b, rep_ok = oks, rep_err = err\<rparr>])\<rparr>)
      | (cm, None) \<Rightarrow> Inl Fatal)"

text \<open>One round of the reader after a frame was read, and what it does when reading fails.\<close>

definition reader_frame :: "msg \<Rightarrow> DemuxClnt \<Rightarrow> DemuxClnt res" where
  "reader_frame m dmx = dmx_reply (Tag m) (Data m) (Ok m) False dmx"

definition reader_failed :: "DemuxClnt \<Rightarrow> DemuxClnt res" where
  "reader_failed dmx =
     (let dmx1 = dmx\<lparr>callmap := cm_close (callmap dmx)\<rparr>
      in for_each (\<lambda>t. dmx_reply t [] False True) (outstanding (callmap dmx1)) dmx1)"

text \<open>
  \<open>SendReceive\<close> up to the wait for the channel: the new tag, or \<open>None\<close> when the
  connection is closed and the call returns an error at once.
\<close>

definition SendReceive :: "nat \<Rightarrow> DemuxClnt \<Rightarrow> DemuxClnt \<times> Ttag option" where
  "SendReceive ch dmx =
     (case dmx_tag dmx of (dmx1, t) \<Rightarrow>
        (case cm_put (callmap dmx1) t ch of
           None \<Rightarrow> (dmx1, None)
         | Some cm \<Rightarrow> (dmx1\<lparr>callmap := cm\<rparr>, Some t)))"

definition dmx_Close :: "DemuxClnt \<Rightarrow> DemuxClnt" where
  "dmx_Close dmx = (if cm_closed (callmap dmx) then dmx else dmx\<lparr>callmap := cm_close (callmap dmx)\<rparr>)"

section \<open>Both sides\<close>

text \<open>
  The client, the requests on their way (\<open>reqs\<close>, served concurrently and so in any order)
  and the replies written (\<open>reps\<close>), whether the client's reader still runs, the number of
  channels made, and for the theorems what was asked on each channel and which calls were
  refused. \<open>serve\<close> is the server's \<open>ServeRequest\<close>.
\<close>

text \<open>
  The server is a function \<open>serve\<close> from the bytes of a request to the bytes of its answer. What the services keep
  between requests is left out: the theorem is about which request a reply belongs to.
\<close>

record dmx_sys =
  clnt :: DemuxClnt
  reqs :: "(Ttag \<times> octets) set"
  reps :: "msg set"
  reading :: bool
  chans :: nat
  asked :: "nat \<Rightarrow> octets"
  refused :: "nat set"

definition dmx_init :: dmx_sys where
  "dmx_init = \<lparr>clnt = NewDemuxClnt, reqs = {}, reps = {}, reading = True, chans = 0, asked = (\<lambda>_. []), refused = {}\<rparr>"

inductive dmx_step :: "(octets \<Rightarrow> octets \<times> bool) \<Rightarrow> dmx_sys \<Rightarrow> dmx_sys \<Rightarrow> bool" for serve where
  send: "SendReceive (chans s) (clnt s) = (c, Some t) \<Longrightarrow>
    dmx_step serve s (s\<lparr>clnt := c, reqs := insert (t, b) (reqs s), chans := chans s + 1, asked := (asked s)(chans s := b)\<rparr>)"
| send_unwritten: "SendReceive (chans s) (clnt s) = (c, Some t) \<Longrightarrow>
    dmx_step serve s (s\<lparr>clnt := c, chans := chans s + 1, asked := (asked s)(chans s := b)\<rparr>)"
| refuse: "SendReceive (chans s) (clnt s) = (c, None) \<Longrightarrow>
    dmx_step serve s (s\<lparr>clnt := c, chans := chans s + 1, asked := (asked s)(chans s := b), refused := insert (chans s) (refused s)\<rparr>)"
| served: "(t, b) \<in> reqs s \<Longrightarrow> serve b = (r, ok) \<Longrightarrow>
    dmx_step serve s (s\<lparr>reqs := reqs s - {(t, b)}, reps := insert \<lparr>Tag = t, Data = r, Ok = ok\<rparr> (reps s)\<rparr>)"
| received: "reading s \<Longrightarrow> m \<in> reps s \<Longrightarrow> reader_frame m (clnt s) = Inr c \<Longrightarrow>
    dmx_step serve s (s\<lparr>clnt := c, reps := reps s - {m}\<rparr>)"
| broken: "reading s \<Longrightarrow> reader_failed (clnt s) = Inr c \<Longrightarrow>
    dmx_step serve s (s\<lparr>clnt := c, reading := False\<rparr>)"
| close: "dmx_step serve s (s\<lparr>clnt := dmx_Close (clnt s)\<rparr>)"

definition dmx_run :: "(octets \<Rightarrow> octets \<times> bool) \<Rightarrow> dmx_sys \<Rightarrow> bool" where
  "dmx_run serve s \<longleftrightarrow> (dmx_step serve)\<^sup>*\<^sup>* dmx_init s"

section \<open>Frames are read back\<close>

lemma un_le32_le32 [simp]: "un_le32 (le32 w @ bs) = w"
proof (rule bit_word_eqI)
  fix n
  assume "n < LENGTH(32)"
  then have n: "n < 32" by simp
  have d: "(ucast (ucast w :: 8 word) :: 32 word) = take_bit 8 w"
    "(ucast (ucast (drop_bit k w) :: 8 word) :: 32 word) = take_bit 8 (drop_bit k w)" for k
    by (rule bit_word_eqI, auto simp: bit_simps)+
  have eq: "un_le32 (le32 w @ bs) = ((take_bit 8 w OR push_bit 8 (take_bit 8 (drop_bit 8 w))) OR
      push_bit 16 (take_bit 8 (drop_bit 16 w))) OR push_bit 24 (take_bit 8 (drop_bit 24 w))"
  proof -
    have "take_bit 8 w AND push_bit 8 (take_bit 8 (drop_bit 8 w)) = 0"
      "(take_bit 8 w OR push_bit 8 (take_bit 8 (drop_bit 8 w))) AND push_bit 16 (take_bit 8 (drop_bit 16 w)) = 0"
      "((take_bit 8 w OR push_bit 8 (take_bit 8 (drop_bit 8 w))) OR push_bit 16 (take_bit 8 (drop_bit 16 w))) AND
         push_bit 24 (take_bit 8 (drop_bit 24 w)) = 0"
      by (rule bit_word_eqI, auto simp: bit_simps)+
    then show ?thesis by (simp add: un_le32_def le32_def d disjunctive_add_eq_or)
  qed
  show "bit (un_le32 (le32 w @ bs)) n = bit w n" unfolding eq using n
    by (cases "n < 8"; cases "n < 16"; cases "n < 24") (auto simp: bit_simps not_less)
qed

lemma length_le32 [simp]: "length (le32 w) = 4"
  by (simp add: le32_def)

lemma read_written:
  assumes "\<forall>m. snd (enc m) \<and> dec (fst (enc m)) = Some m" and "length (fst (enc \<lparr>Tag = t, Data = d, Ok = ok\<rparr>)) < 2 ^ 32"
  shows "returns (WriteCall enc t d ok) (\<lambda>f. ReadCall dec (f @ bs) = Inr (Some (\<lparr>Tag = t, Data = d, Ok = ok\<rparr>, bs)))"
proof -
  let ?b = "fst (enc \<lparr>Tag = t, Data = d, Ok = ok\<rparr>)"
  have w: "WriteCall enc t d ok = Inr (le32 (word_of_nat (length ?b)) @ ?b)"
    using assms(1) by (simp add: WriteCall_def Marshall_def split: prod.split) (metis fst_conv snd_conv)
  have u: "unat (word_of_nat (length ?b) :: 32 word) = length ?b"
    using assms(2) by (simp add: unat_of_nat take_bit_nat_eq_self)
  have h: "un_le32 (take 4 (le32 x @ ?b @ bs)) = x" for x using un_le32_le32 [of x "[]"] by simp
  show ?thesis
    unfolding w returns_simps ReadCall_def append_assoc Let_def h u using assms(1) by (simp add: Unmarshall_def)
qed

section \<open>The table of calls\<close>

text \<open>The tag of a channel, and the channels that wait for a reply.\<close>

definition tg :: "nat \<Rightarrow> Ttag" where
  "tg ch = word_of_nat (Suc ch)"

lemma tg_inj: "ch < 2 ^ 32 - 1 \<Longrightarrow> ch' < 2 ^ 32 - 1 \<Longrightarrow> tg ch = tg ch' \<longleftrightarrow> ch = ch'"
proof
  have u: "unat (tg k) = Suc k" if "k < 2 ^ 32 - 1" for k
  proof -
    have "Suc k < 2 ^ 32" using that by simp
    then show ?thesis unfolding tg_def by (simp add: unat_of_nat take_bit_nat_eq_self del: of_nat_Suc)
  qed
  assume "ch < 2 ^ 32 - 1" "ch' < 2 ^ 32 - 1" "tg ch = tg ch'"
  then have "Suc ch = Suc ch'" using u [of ch] u [of ch'] by (simp only:)
  then show "ch = ch'" by simp
qed simp

definition waiting :: "DemuxClnt \<Rightarrow> nat set" where
  "waiting c = snd ` set (cm_calls (callmap c))"

definition tags_ok :: "nat \<Rightarrow> DemuxClnt \<Rightarrow> bool" where
  "tags_ok n c \<longleftrightarrow> distinct (map snd (cm_calls (callmap c))) \<and> (\<forall>(t, ch) \<in> set (cm_calls (callmap c)). ch < n \<and> t = tg ch)"

lemma tags_okD: "tags_ok n c \<Longrightarrow> (t, ch) \<in> set (cm_calls (callmap c)) \<longleftrightarrow> ch \<in> waiting c \<and> t = tg ch"
  by (force simp: tags_ok_def waiting_def)

lemma waiting_less: "tags_ok n c \<Longrightarrow> ch \<in> waiting c \<Longrightarrow> ch < n"
  by (force simp: tags_ok_def waiting_def)

lemma lookup_tag:
  assumes "tags_ok n c" and "n < 2 ^ 32" and "ch \<in> waiting c"
  shows "map_of (cm_calls (callmap c)) (tg ch) = Some ch"
proof -
  obtain ch' where m: "map_of (cm_calls (callmap c)) (tg ch) = Some ch'"
    using assms(3) tags_okD [OF assms(1), of "tg ch" ch] by (metis map_of_eq_None_iff not_None_eq fst_conv image_eqI)
  then have "ch' \<in> waiting c" "tg ch = tg ch'" using map_of_SomeD [OF m] tags_okD [OF assms(1)] by auto
  then have "ch = ch'" using tg_inj [of ch ch'] waiting_less [OF assms(1)] assms(2,3) by fastforce
  then show ?thesis using m by simp
qed

text \<open>A reply under the tag of a waiting channel goes to that channel, which then waits no more.\<close>

lemma dmx_reply_waiting:
  assumes ok: "tags_ok n c" and n: "n < 2 ^ 32" and ch: "ch \<in> waiting c"
  shows "returns (dmx_reply (tg ch) b oks err c) (\<lambda>c'. tags_ok n c' \<and> waiting c' = waiting c - {ch} \<and>
     nextTag c' = nextTag c \<and> cm_closed (callmap c') = cm_closed (callmap c) \<and>
     answers c' = (answers c)(ch := answers c ch @ [\<lparr>rep = b, rep_ok = oks, rep_err = err\<rparr>]))"
proof -
  define calls' where "calls' = filter (\<lambda>x. fst x \<noteq> tg ch) (cm_calls (callmap c))"
  have tg: "tg ch' \<noteq> tg ch \<longleftrightarrow> ch' \<noteq> ch" if "ch' \<in> waiting c" for ch'
    using tg_inj [of ch' ch] waiting_less [OF ok] ch that n by fastforce
  have calls': "(t, x) \<in> set calls' \<longleftrightarrow> x \<in> waiting c - {ch} \<and> t = tg x" for t x
    using tags_okD [OF ok, of t x] tg by (auto simp: calls'_def)
  have "dmx_reply (tg ch) b oks err c = Inr (c\<lparr>callmap := (callmap c)\<lparr>cm_calls := calls'\<rparr>,
      answers := (answers c)(ch := answers c ch @ [\<lparr>rep = b, rep_ok = oks, rep_err = err\<rparr>])\<rparr>)" (is "_ = Inr ?c")
    by (simp add: dmx_reply_def cm_remove_def lookup_tag [OF ok n ch] calls'_def)
  moreover have "waiting ?c = waiting c - {ch}" using calls' by (force simp: waiting_def [of ?c])
  moreover have "distinct (map snd calls')" using ok by (simp add: calls'_def tags_ok_def distinct_map_filter)
  then have "tags_ok n ?c" using calls' waiting_less [OF ok] by (auto simp: tags_ok_def)
  ultimately show ?thesis by simp
qed

lemma outstanding_waiting: "tags_ok n c \<Longrightarrow> outstanding (callmap c) = map tg (map snd (cm_calls (callmap c)))"
  by (auto simp: outstanding_def tags_ok_def)

text \<open>When reading fails every waiting call gets a failure, and none waits afterwards.\<close>

definition failure :: reply where
  "failure = \<lparr>rep = [], rep_ok = False, rep_err = True\<rparr>"

lemma reader_failed_drains:
  assumes ok: "tags_ok n c" and n: "n < 2 ^ 32"
  shows "returns (reader_failed c) (\<lambda>c'. tags_ok n c' \<and> waiting c' = {} \<and> nextTag c' = nextTag c \<and> cm_closed (callmap c') \<and>
     (\<forall>ch. answers c' ch = answers c ch @ (if ch \<in> waiting c then [failure] else [])))"
proof -
  define c1 where "c1 = c\<lparr>callmap := cm_close (callmap c)\<rparr>"
  define chs where "chs = map snd (cm_calls (callmap c))"
  have ok1: "tags_ok n c1" and w1: "waiting c1 = waiting c" and chs: "set chs = waiting c" "distinct chs"
    using ok by (simp_all add: c1_def chs_def tags_ok_def waiting_def cm_close_def)
  have out: "outstanding (callmap c1) = map tg chs"
    using outstanding_waiting [OF ok1] by (simp add: c1_def chs_def cm_close_def)
  have "returns (for_each (\<lambda>ch. dmx_reply (tg ch) [] False True) chs c1) (\<lambda>c'. tags_ok n c' \<and> waiting c' = waiting c - set chs \<and>
      nextTag c' = nextTag c \<and> cm_closed (callmap c') \<and>
      (\<forall>ch. answers c' ch = answers c ch @ (if ch \<in> set chs then [failure] else [])))"
  proof (rule for_each_invariant [where I = "\<lambda>ys c'. tags_ok n c' \<and> waiting c' = waiting c - set ys \<and>
      nextTag c' = nextTag c \<and> cm_closed (callmap c') \<and> (\<forall>ch. answers c' ch = answers c ch @ (if ch \<in> set ys then [failure] else []))"])
    show "tags_ok n c1 \<and> waiting c1 = waiting c - set [] \<and> nextTag c1 = nextTag c \<and> cm_closed (callmap c1) \<and>
        (\<forall>ch. answers c1 ch = answers c ch @ (if ch \<in> set [] then [failure] else []))"
      using ok1 w1 by (simp add: c1_def cm_close_def)
    fix ys ch zs t
    assume chs': "chs = ys @ ch # zs" and inv: "tags_ok n t \<and> waiting t = waiting c - set ys \<and> nextTag t = nextTag c \<and>
        cm_closed (callmap t) \<and> (\<forall>ch. answers t ch = answers c ch @ (if ch \<in> set ys then [failure] else []))"
    have "ch \<in> waiting t" "ch \<notin> set ys" using chs chs' inv by auto
    then show "returns (dmx_reply (tg ch) [] False True t) (\<lambda>c'. tags_ok n c' \<and> waiting c' = waiting c - set (ys @ [ch]) \<and>
        nextTag c' = nextTag c \<and> cm_closed (callmap c') \<and>
        (\<forall>x. answers c' x = answers c x @ (if x \<in> set (ys @ [ch]) then [failure] else [])))"
      using inv n by (intro returns_mono [OF dmx_reply_waiting [of n t ch "[]" False True]]) (auto simp: failure_def)
  qed
  moreover have "for_each (\<lambda>t. dmx_reply t [] False True) (map tg xs) s = for_each (\<lambda>ch. dmx_reply (tg ch) [] False True) xs s" for xs s
    by (induction xs arbitrary: s) (auto simp: bindr_def split: sum.split)
  ultimately show ?thesis
    using chs(1) by (simp add: reader_failed_def Let_def c1_def [symmetric] out)
qed

lemma tags_ok_mono: "tags_ok n c \<Longrightarrow> n \<le> n' \<Longrightarrow> tags_ok n' c"
  by (auto simp: tags_ok_def)

lemma tg_Suc: "tg n + 1 = tg (Suc n)"
  by (simp add: tg_def)

lemma SendReceive_cases:
  assumes ok: "tags_ok n c" and nt: "nextTag c = tg n" and n: "n < 2 ^ 32 - 1" and sr: "SendReceive n c = (c', t)"
  shows "nextTag c' = tg (Suc n) \<and> answers c' = answers c \<and> tags_ok (Suc n) c' \<and> cm_closed (callmap c') = cm_closed (callmap c) \<and>
     (if cm_closed (callmap c) then t = None \<and> waiting c' = waiting c else t = Some (tg n) \<and> waiting c' = insert n (waiting c))"
proof (cases "cm_closed (callmap c)")
  case True
  then have "c' = c\<lparr>nextTag := tg (Suc n)\<rparr>" "t = None"
    using sr nt by (auto simp: SendReceive_def dmx_tag_def cm_put_def tg_Suc)
  then show ?thesis using True tags_ok_mono [OF ok, of "Suc n"] by (simp add: tags_ok_def waiting_def)
next
  case False
  have "n \<notin> waiting c" using waiting_less [OF ok] by auto
  have "tg ch \<noteq> tg n" if "ch \<in> waiting c" for ch
    using tg_inj [of ch n] waiting_less [OF ok that] n by auto
  then have "x \<in> set (cm_calls (callmap c)) \<Longrightarrow> fst x \<noteq> tg n" for x using tags_okD [OF ok] by (cases x) auto
  then have "filter (\<lambda>x. fst x \<noteq> tg n) (cm_calls (callmap c)) = cm_calls (callmap c)" by (simp add: filter_id_conv)
  then have c': "c' = c\<lparr>nextTag := tg (Suc n), callmap := (callmap c)\<lparr>cm_calls := (tg n, n) # cm_calls (callmap c)\<rparr>\<rparr>" "t = Some (tg n)"
    using sr nt False by (auto simp: SendReceive_def dmx_tag_def cm_put_def tg_Suc)
  have "tags_ok (Suc n) c'"
    using tags_ok_mono [OF ok, of "Suc n"] \<open>n \<notin> waiting c\<close> by (auto simp: c'(1) tags_ok_def waiting_def)
  then show ?thesis using False c' by (simp add: waiting_def)
qed

section \<open>The invariant of both sides\<close>

definition own_reply :: "(octets \<Rightarrow> octets \<times> bool) \<Rightarrow> octets \<Rightarrow> reply" where
  "own_reply serve b = \<lparr>rep = fst (serve b), rep_ok = snd (serve b), rep_err = False\<rparr>"

definition answer_ok :: "(octets \<Rightarrow> octets \<times> bool) \<Rightarrow> dmx_sys \<Rightarrow> nat \<Rightarrow> bool" where
  "answer_ok serve s ch \<longleftrightarrow>
     (if ch < chans s \<and> ch \<notin> refused s
      then if ch \<in> waiting (clnt s) then answers (clnt s) ch = []
           else answers (clnt s) ch = [own_reply serve (asked s ch)] \<or> answers (clnt s) ch = [failure] \<and> \<not> reading s
      else ch \<notin> waiting (clnt s) \<and> answers (clnt s) ch = [])"

definition calls_inv :: "dmx_sys \<Rightarrow> bool" where
  "calls_inv s \<longleftrightarrow> nextTag (clnt s) = tg (chans s) \<and> tags_ok (chans s) (clnt s) \<and> refused s \<subseteq> {..<chans s} \<and>
     (\<not> reading s \<longrightarrow> waiting (clnt s) = {} \<and> cm_closed (callmap (clnt s)))"

definition wire_inv :: "(octets \<Rightarrow> octets \<times> bool) \<Rightarrow> dmx_sys \<Rightarrow> bool" where
  "wire_inv serve s \<longleftrightarrow>
     (\<forall>t b. (t, b) \<in> reqs s \<longrightarrow> (\<exists>ch < chans s. t = tg ch \<and> b = asked s ch \<and> (reading s \<longrightarrow> ch \<in> waiting (clnt s)))) \<and>
     (\<forall>m \<in> reps s. \<exists>ch < chans s. Tag m = tg ch \<and> serve (asked s ch) = (Data m, Ok m) \<and> (reading s \<longrightarrow> ch \<in> waiting (clnt s))) \<and>
     (\<forall>t b m. (t, b) \<in> reqs s \<longrightarrow> m \<in> reps s \<longrightarrow> Tag m \<noteq> t)"

definition dmx_inv :: "(octets \<Rightarrow> octets \<times> bool) \<Rightarrow> dmx_sys \<Rightarrow> bool" where
  "dmx_inv serve s \<longleftrightarrow> calls_inv s \<and> wire_inv serve s \<and> (\<forall>ch. answer_ok serve s ch)"

lemma dmx_inv_init: "dmx_inv serve dmx_init"
  by (simp add: dmx_inv_def calls_inv_def wire_inv_def answer_ok_def dmx_init_def NewDemuxClnt_def newCallMap_def tg_def
      tags_ok_def waiting_def)

text \<open>The wire loses messages and the channels of those left keep waiting: the invariant of the wire stays.\<close>

lemma wire_inv_frame:
  assumes wi: "wire_inv serve s" and sub: "reqs s' \<subseteq> reqs s" "reps s' \<subseteq> reps s"
    and more: "chans s \<le> chans s'" "reading s' \<Longrightarrow> reading s" "\<And>ch. ch < chans s \<Longrightarrow> asked s' ch = asked s ch"
    and wait: "\<And>ch. reading s' \<Longrightarrow> ch < chans s \<Longrightarrow> ch \<in> waiting (clnt s) \<Longrightarrow> tg ch \<in> fst ` reqs s' \<union> Tag ` reps s' \<Longrightarrow>
      ch \<in> waiting (clnt s')"
  shows "wire_inv serve s'"
  unfolding wire_inv_def
proof (intro conjI allI impI ballI)
  fix t b
  assume r: "(t, b) \<in> reqs s'"
  then obtain ch where ch: "ch < chans s" "t = tg ch" "b = asked s ch" "reading s \<longrightarrow> ch \<in> waiting (clnt s)"
    using wi sub(1) unfolding wire_inv_def by blast
  have "tg ch \<in> fst ` reqs s'" using r ch(2) by force
  then show "\<exists>ch < chans s'. t = tg ch \<and> b = asked s' ch \<and> (reading s' \<longrightarrow> ch \<in> waiting (clnt s'))"
    using ch more wait [of ch] by (intro exI [of _ ch]) auto
next
  fix m
  assume m: "m \<in> reps s'"
  then obtain ch where ch: "ch < chans s" "Tag m = tg ch" "serve (asked s ch) = (Data m, Ok m)" "reading s \<longrightarrow> ch \<in> waiting (clnt s)"
    using wi sub(2) unfolding wire_inv_def by blast
  have "tg ch \<in> Tag ` reps s'" using m ch(2) by force
  then show "\<exists>ch < chans s'. Tag m = tg ch \<and> serve (asked s' ch) = (Data m, Ok m) \<and> (reading s' \<longrightarrow> ch \<in> waiting (clnt s'))"
    using ch more wait [of ch] by (intro exI [of _ ch]) auto
next
  fix t b m
  assume "(t, b) \<in> reqs s'" "m \<in> reps s'"
  then show "Tag m \<noteq> t" using wi sub unfolding wire_inv_def by blast
qed

text \<open>A new call, whether its request was written or not.\<close>

lemma send_inv:
  assumes inv: "dmx_inv serve s" and n: "chans s < 2 ^ 32 - 1" and sr: "SendReceive (chans s) (clnt s) = (c, Some t)"
    and s': "s' = s\<lparr>clnt := c, chans := chans s + 1, asked := (asked s)(chans s := b)\<rparr> \<or>
      s' = s\<lparr>clnt := c, reqs := insert (t, b) (reqs s), chans := chans s + 1, asked := (asked s)(chans s := b)\<rparr>"
  shows "dmx_inv serve s'"
proof -
  have ci: "calls_inv s" and wi: "wire_inv serve s" and an: "\<And>ch. answer_ok serve s ch" using inv by (auto simp: dmx_inv_def)
  have c: "nextTag c = tg (Suc (chans s))" "answers c = answers (clnt s)" "tags_ok (Suc (chans s)) c"
    "cm_closed (callmap c) = cm_closed (callmap (clnt s))" "t = tg (chans s)" "waiting c = insert (chans s) (waiting (clnt s))"
    "\<not> cm_closed (callmap (clnt s))"
    using SendReceive_cases [OF _ _ n sr] ci by (auto simp: calls_inv_def split: if_splits)
  have f: "clnt s' = c" "reps s' = reps s" "reading s' = reading s" "chans s' = Suc (chans s)" "asked s' = (asked s)(chans s := b)"
    "refused s' = refused s" "\<And>x. x \<in> reqs s' \<Longrightarrow> x \<in> reqs s \<or> x = (t, b)"
    using s' by auto
  have "calls_inv s'" using ci c f by (auto simp: calls_inv_def)
  moreover have "wire_inv serve s'"
    unfolding wire_inv_def
  proof (intro conjI allI impI ballI)
    fix t' b'
    assume "(t', b') \<in> reqs s'"
    then consider "(t', b') \<in> reqs s" | "t' = t" "b' = b" using f(7) by blast
    then show "\<exists>ch < chans s'. t' = tg ch \<and> b' = asked s' ch \<and> (reading s' \<longrightarrow> ch \<in> waiting (clnt s'))"
    proof cases
      case 1
      then obtain ch where "ch < chans s" "t' = tg ch" "b' = asked s ch" "reading s \<longrightarrow> ch \<in> waiting (clnt s)"
        using wi unfolding wire_inv_def by blast
      then show ?thesis using f c by (intro exI [of _ ch]) auto
    next
      case 2
      then show ?thesis using f c by (intro exI [of _ "chans s"]) auto
    qed
  next
    fix m
    assume "m \<in> reps s'"
    then obtain ch where "ch < chans s" "Tag m = tg ch" "serve (asked s ch) = (Data m, Ok m)" "reading s \<longrightarrow> ch \<in> waiting (clnt s)"
      using wi f(2) unfolding wire_inv_def by metis
    then show "\<exists>ch < chans s'. Tag m = tg ch \<and> serve (asked s' ch) = (Data m, Ok m) \<and> (reading s' \<longrightarrow> ch \<in> waiting (clnt s'))"
      using f c by (intro exI [of _ ch]) auto
  next
    fix t' b' m
    assume r: "(t', b') \<in> reqs s'" and m: "m \<in> reps s'"
    obtain ch where ch: "ch < chans s" "Tag m = tg ch" using wi m f(2) unfolding wire_inv_def by metis
    then have "tg ch \<noteq> tg (chans s)" using tg_inj [of ch "chans s"] n by auto
    then show "Tag m \<noteq> t'" using f(7) [OF r] wi m f(2) ch c(5) unfolding wire_inv_def by auto
  qed
  moreover have "answer_ok serve s' ch" for ch
    using an [of ch] f(1,3,4,5,6) c(2,6) ci waiting_less [of "chans s" "clnt s" ch]
    by (cases "ch < chans s"; cases "ch = chans s") (auto simp: answer_ok_def calls_inv_def split: if_split_asm)
  ultimately show ?thesis by (simp add: dmx_inv_def)
qed

lemma refuse_inv:
  assumes inv: "dmx_inv serve s" and n: "chans s < 2 ^ 32 - 1" and sr: "SendReceive (chans s) (clnt s) = (c, None)"
  shows "dmx_inv serve (s\<lparr>clnt := c, chans := chans s + 1, asked := (asked s)(chans s := b), refused := insert (chans s) (refused s)\<rparr>)"
    (is "dmx_inv serve ?s")
proof -
  have ci: "calls_inv s" and wi: "wire_inv serve s" and an: "\<And>ch. answer_ok serve s ch" using inv by (auto simp: dmx_inv_def)
  have c: "nextTag c = tg (Suc (chans s))" "answers c = answers (clnt s)" "tags_ok (Suc (chans s)) c"
    "cm_closed (callmap c)" "waiting c = waiting (clnt s)"
    using SendReceive_cases [OF _ _ n sr] ci by (auto simp: calls_inv_def split: if_splits)
  have "calls_inv ?s" using ci c by (auto simp: calls_inv_def)
  moreover have "wire_inv serve ?s"
    by (rule wire_inv_frame [OF wi]) (use c(5) in auto)
  moreover have "answer_ok serve ?s ch" for ch
    using an [of ch] c(2,5) ci waiting_less [of "chans s" "clnt s" ch]
    by (cases "ch < chans s"; cases "ch = chans s") (auto simp: answer_ok_def calls_inv_def split: if_split_asm)
  ultimately show ?thesis by (simp add: dmx_inv_def)
qed

lemma served_inv:
  assumes inv: "dmx_inv serve s" and r: "(t, b) \<in> reqs s" and f: "serve b = (r, ok)" and n: "chans s < 2 ^ 32"
  shows "dmx_inv serve (s\<lparr>reqs := reqs s - {(t, b)}, reps := insert \<lparr>Tag = t, Data = r, Ok = ok\<rparr> (reps s)\<rparr>)"
    (is "dmx_inv serve ?s")
proof -
  have ci: "calls_inv s" and wi: "wire_inv serve s" and an: "\<And>ch. answer_ok serve s ch" using inv by (auto simp: dmx_inv_def)
  obtain ch where ch: "ch < chans s" "t = tg ch" "b = asked s ch" "reading s \<longrightarrow> ch \<in> waiting (clnt s)"
    using wi r unfolding wire_inv_def by blast
  have other: "t' \<noteq> t" if r': "(t', b') \<in> reqs s" "(t', b') \<noteq> (t, b)" for t' b'
  proof
    assume "t' = t"
    obtain ch' where ch': "ch' < chans s" "t' = tg ch'" "b' = asked s ch'" using wi r'(1) unfolding wire_inv_def by blast
    then have "ch' = ch" using tg_inj [of ch' ch] ch n \<open>t' = t\<close> by fastforce
    then show False using ch ch' r'(2) \<open>t' = t\<close> by simp
  qed
  have "wire_inv serve ?s"
    using wi ch f other unfolding wire_inv_def by auto
  moreover have "calls_inv ?s" using ci by (simp add: calls_inv_def)
  moreover have "answer_ok serve ?s x" for x using an [of x] by (simp add: answer_ok_def)
  ultimately show ?thesis by (simp add: dmx_inv_def)
qed

text \<open>The reader finds the channel of every reply that can arrive.\<close>

lemma reader_frame_expected:
  assumes inv: "dmx_inv serve s" and n: "chans s < 2 ^ 32" and rd: "reading s" and m: "m \<in> reps s"
  obtains ch where "ch < chans s" "Tag m = tg ch" "ch \<in> waiting (clnt s)" "ch \<notin> refused s"
    "returns (reader_frame m (clnt s)) (\<lambda>c'. tags_ok (chans s) c' \<and> waiting c' = waiting (clnt s) - {ch} \<and>
       nextTag c' = nextTag (clnt s) \<and> cm_closed (callmap c') = cm_closed (callmap (clnt s)) \<and>
       answers c' = (answers (clnt s))(ch := answers (clnt s) ch @ [own_reply serve (asked s ch)]))"
proof -
  have wi: "wire_inv serve s" and ok: "tags_ok (chans s) (clnt s)" using inv by (auto simp: dmx_inv_def calls_inv_def)
  obtain ch where ch: "ch < chans s" "Tag m = tg ch" "serve (asked s ch) = (Data m, Ok m)" "ch \<in> waiting (clnt s)"
    using wi m rd unfolding wire_inv_def by blast
  have "ch \<notin> refused s" using inv ch(1,4) unfolding dmx_inv_def answer_ok_def by metis
  moreover have "own_reply serve (asked s ch) = \<lparr>rep = Data m, rep_ok = Ok m, rep_err = False\<rparr>"
    using ch(3) by (simp add: own_reply_def)
  ultimately show ?thesis
    using that [OF ch(1,2,4)] dmx_reply_waiting [OF ok n ch(4), of "Data m" "Ok m" False] ch(2) by (simp add: reader_frame_def)
qed

lemma received_inv:
  assumes inv: "dmx_inv serve s" and n: "chans s < 2 ^ 32" and rd: "reading s" and m: "m \<in> reps s"
    and c: "reader_frame m (clnt s) = Inr c"
  shows "dmx_inv serve (s\<lparr>clnt := c, reps := reps s - {m}\<rparr>)" (is "dmx_inv serve ?s")
proof -
  have ci: "calls_inv s" and wi: "wire_inv serve s" and an: "\<And>ch. answer_ok serve s ch" using inv by (auto simp: dmx_inv_def)
  obtain ch where ch: "ch < chans s" "Tag m = tg ch" "ch \<in> waiting (clnt s)" "ch \<notin> refused s"
    and ret: "returns (reader_frame m (clnt s)) (\<lambda>c'. tags_ok (chans s) c' \<and> waiting c' = waiting (clnt s) - {ch} \<and>
       nextTag c' = nextTag (clnt s) \<and> cm_closed (callmap c') = cm_closed (callmap (clnt s)) \<and>
       answers c' = (answers (clnt s))(ch := answers (clnt s) ch @ [own_reply serve (asked s ch)]))"
    by (rule reader_frame_expected [OF inv n rd m])
  have c': "tags_ok (chans s) c" "waiting c = waiting (clnt s) - {ch}" "nextTag c = nextTag (clnt s)"
    "cm_closed (callmap c) = cm_closed (callmap (clnt s))"
    "answers c = (answers (clnt s))(ch := answers (clnt s) ch @ [own_reply serve (asked s ch)])"
    using returnsD [OF ret c] by auto
  have tg: "ch' \<noteq> ch" if "ch' < chans s" "tg ch' \<noteq> tg ch" for ch' using that by auto
  have nm: "Tag m' \<noteq> Tag m" if m': "m' \<in> reps s" "m' \<noteq> m" for m'
  proof
    assume eq: "Tag m' = Tag m"
    obtain ch' where ch': "ch' < chans s" "Tag m' = tg ch'" "serve (asked s ch') = (Data m', Ok m')"
      using wi m'(1) unfolding wire_inv_def by blast
    obtain ch'' where ch'': "ch'' < chans s" "Tag m = tg ch''" "serve (asked s ch'') = (Data m, Ok m)"
      using wi m unfolding wire_inv_def by blast
    have "ch' = ch''" using tg_inj [of ch' ch''] ch' ch'' n eq by fastforce
    then show False using ch'(3) ch''(3) eq m'(2) by (simp add: msg.equality)
  qed
  have nr: "t \<noteq> Tag m" if "(t, b) \<in> reqs s" for t b using wi that m unfolding wire_inv_def by blast
  have "Tag m \<notin> fst ` reqs s"
  proof
    assume "Tag m \<in> fst ` reqs s"
    then obtain b where "(Tag m, b) \<in> reqs s" by auto
    then show False using nr by blast
  qed
  moreover have "Tag m \<notin> Tag ` (reps s - {m})"
  proof
    assume "Tag m \<in> Tag ` (reps s - {m})"
    then obtain m' where "m' \<in> reps s" "m' \<noteq> m" "Tag m' = Tag m" by force
    then show False using nm by blast
  qed
  ultimately have "wire_inv serve ?s"
    by (intro wire_inv_frame [OF wi]) (use c'(2) ch(2) in auto)
  moreover have "calls_inv ?s" using ci c' rd by (simp add: calls_inv_def)
  moreover have "answer_ok serve ?s x" for x
    using an [of x] an [of ch] ch c'(2,5) by (cases "x = ch") (auto simp: answer_ok_def split: if_split_asm)
  ultimately show ?thesis by (simp add: dmx_inv_def)
qed

lemma broken_inv:
  assumes inv: "dmx_inv serve s" and n: "chans s < 2 ^ 32" and rd: "reading s" and c: "reader_failed (clnt s) = Inr c"
  shows "dmx_inv serve (s\<lparr>clnt := c, reading := False\<rparr>)" (is "dmx_inv serve ?s")
proof -
  have ci: "calls_inv s" and wi: "wire_inv serve s" and an: "\<And>ch. answer_ok serve s ch" using inv by (auto simp: dmx_inv_def)
  have ok: "tags_ok (chans s) (clnt s)" using ci by (simp add: calls_inv_def)
  have c': "tags_ok (chans s) c" "waiting c = {}" "nextTag c = nextTag (clnt s)" "cm_closed (callmap c)"
    "\<And>ch. answers c ch = answers (clnt s) ch @ (if ch \<in> waiting (clnt s) then [failure] else [])"
    using returnsD [OF reader_failed_drains [OF ok n] c] by auto
  have "wire_inv serve ?s" by (rule wire_inv_frame [OF wi]) auto
  moreover have "calls_inv ?s" using ci c' by (simp add: calls_inv_def)
  moreover have "answer_ok serve ?s x" for x
    using an [of x] c'(2) c'(5) [of x] rd by (auto simp: answer_ok_def split: if_split_asm)
  ultimately show ?thesis by (simp add: dmx_inv_def)
qed

lemma dmx_Close_simps [simp]:
  "waiting (dmx_Close c) = waiting c" "tags_ok n (dmx_Close c) = tags_ok n c" "answers (dmx_Close c) = answers c"
  "nextTag (dmx_Close c) = nextTag c" "cm_closed (callmap (dmx_Close c))"
  by (simp_all add: dmx_Close_def cm_close_def tags_ok_def waiting_def)

lemma close_inv:
  assumes "dmx_inv serve s"
  shows "dmx_inv serve (s\<lparr>clnt := dmx_Close (clnt s)\<rparr>)"
proof -
  have "wire_inv serve (s\<lparr>clnt := dmx_Close (clnt s)\<rparr>)"
    by (rule wire_inv_frame [of serve s]) (use assms in \<open>auto simp: dmx_inv_def\<close>)
  then show ?thesis using assms by (simp add: dmx_inv_def calls_inv_def answer_ok_def)
qed

lemma step_chans: "dmx_step serve s s' \<Longrightarrow> chans s \<le> chans s' \<and> chans s' \<le> Suc (chans s)"
  by (induction rule: dmx_step.induct) auto

lemma dmx_step_inv:
  assumes "dmx_step serve s s'" and "dmx_inv serve s" and "chans s' < 2 ^ 32"
  shows "dmx_inv serve s'"
  using assms
proof (cases rule: dmx_step.cases)
  case (send c t b)
  then have n: "chans s < 2 ^ 32 - 1" using assms(3) by simp
  show ?thesis by (rule send_inv [OF assms(2) n send(2)]) (rule disjI2, rule send(1))
next
  case (send_unwritten c t b)
  then have n: "chans s < 2 ^ 32 - 1" using assms(3) by simp
  show ?thesis by (rule send_inv [OF assms(2) n send_unwritten(2)]) (rule disjI1, rule send_unwritten(1))
next
  case (refuse c b)
  then have n: "chans s < 2 ^ 32 - 1" using assms(3) by simp
  show ?thesis unfolding refuse(1) by (rule refuse_inv [OF assms(2) n refuse(2)])
next
  case (served t b r ok)
  then have n: "chans s < 2 ^ 32" using assms(3) by simp
  show ?thesis unfolding served(1) by (rule served_inv [OF assms(2) served(2,3) n])
next
  case (received m c)
  then have n: "chans s < 2 ^ 32" using assms(3) by simp
  show ?thesis unfolding received(1) by (rule received_inv [OF assms(2) n received(2-4)])
next
  case (broken c)
  then have n: "chans s < 2 ^ 32" using assms(3) by simp
  show ?thesis unfolding broken(1) by (rule broken_inv [OF assms(2) n broken(2,3)])
next
  case close
  show ?thesis unfolding close by (rule close_inv [OF assms(2)])
qed

lemma dmx_run_inv: "dmx_run serve s \<Longrightarrow> chans s < 2 ^ 32 \<Longrightarrow> dmx_inv serve s"
  unfolding dmx_run_def
proof (induction rule: rtranclp_induct)
  case base
  show ?case by (rule dmx_inv_init)
next
  case (step s s')
  then have "chans s < 2 ^ 32" using step_chans [OF step.hyps(2)] by linarith
  then show ?case using step dmx_step_inv by blast
qed

section \<open>Properties\<close>

text \<open>
  C36. The demultiplexer matches replies with requests. In every state that calls, the server's
  concurrent answers, a break of the connection and \<open>Close\<close> can lead to, with fewer than
  \<open>2 ^ 32\<close> calls made: the reader finds the channel of every reply it can read and of every
  call it has to fail, so it never ends the program; a channel gets at most one answer, which
  is the server's reply to the request of that very call, or a failure after the connection
  broke; and once the reader has stopped no call is left waiting.
\<close>

theorem demux_matches_replies:
  assumes "dmx_run serve s" and "chans s < 2 ^ 32"
  shows "(reading s \<longrightarrow> (\<forall>m \<in> reps s. returns (reader_frame m (clnt s)) (\<lambda>_. True))) \<and>
     returns (reader_failed (clnt s)) (\<lambda>_. True) \<and>
     (\<forall>ch < chans s. ch \<notin> refused s \<longrightarrow>
        answers (clnt s) ch = [] \<and> reading s \<or> answers (clnt s) ch = [own_reply serve (asked s ch)] \<or>
        answers (clnt s) ch = [failure] \<and> \<not> reading s)"
proof (intro conjI impI ballI allI)
  have inv: "dmx_inv serve s" using assms by (rule dmx_run_inv)
  show "returns (reader_frame m (clnt s)) (\<lambda>_. True)" if "reading s" "m \<in> reps s" for m
    using reader_frame_expected [OF inv assms(2) that] by (metis (no_types, lifting) returns_mono)
  have "tags_ok (chans s) (clnt s)" using inv by (simp add: dmx_inv_def calls_inv_def)
  from reader_failed_drains [OF this assms(2)] show "returns (reader_failed (clnt s)) (\<lambda>_. True)"
    by (rule returns_mono) simp
  fix ch
  assume ch: "ch < chans s" "ch \<notin> refused s"
  have "\<not> reading s \<longrightarrow> waiting (clnt s) = {}" using inv by (simp add: dmx_inv_def calls_inv_def)
  moreover have "answer_ok serve s ch" using inv by (simp add: dmx_inv_def)
  ultimately show "answers (clnt s) ch = [] \<and> reading s \<or> answers (clnt s) ch = [own_reply serve (asked s ch)] \<or>
      answers (clnt s) ch = [failure] \<and> \<not> reading s"
    using ch by (auto simp: answer_ok_def split: if_split_asm)
qed

text \<open>
  What is written to the connection is read back: for every sequence of calls whose encodings
  are shorter than \<open>2 ^ 32\<close> bytes, so that the 32-bit length of the frame is exact, reading
  the bytes that \<open>WriteCall\<close> produced gives the tags, the data and the flags in order, and
  then whatever follows.
\<close>

fun write_all :: "(msg \<Rightarrow> octets \<times> bool) \<Rightarrow> msg list \<Rightarrow> octets res" where
  "write_all enc [] = Inr []"
| "write_all enc (m # ms) =
     bindr (WriteCall enc (Tag m) (Data m) (Ok m)) (\<lambda>f. bindr (write_all enc ms) (\<lambda>fs. Inr (f @ fs)))"

fun read_n :: "(octets \<Rightarrow> msg option) \<Rightarrow> nat \<Rightarrow> octets \<Rightarrow> (msg list \<times> octets) option res" where
  "read_n dec 0 bs = Inr (Some ([], bs))"
| "read_n dec (Suc n) bs =
     bindr (ReadCall dec bs) (\<lambda>r. case r of
        None \<Rightarrow> Inr None
      | Some (m, bs') \<Rightarrow> bindr (read_n dec n bs') (\<lambda>r'. Inr (map_option (\<lambda>(ms, rest). (m # ms, rest)) r')))"

theorem frames_round_trip:
  assumes "\<forall>m. snd (enc m) \<and> dec (fst (enc m)) = Some m" and "\<forall>m \<in> set ms. length (fst (enc m)) < 2 ^ 32"
  shows "returns (write_all enc ms) (\<lambda>bs. read_n dec (length ms) (bs @ rest) = Inr (Some (ms, rest)))"
  using assms(2)
proof (induction ms)
  case (Cons m ms)
  have m: "\<lparr>Tag = Tag m, Data = Data m, Ok = Ok m\<rparr> = m" by simp
  obtain bs where bs: "write_all enc ms = Inr bs" "read_n dec (length ms) (bs @ rest) = Inr (Some (ms, rest))"
    using Cons by (auto simp: returns_def)
  obtain f where "WriteCall enc (Tag m) (Data m) (Ok m) = Inr f" "ReadCall dec (f @ bs @ rest) = Inr (Some (m, bs @ rest))"
    using read_written [OF assms(1), of "Tag m" "Data m" "Ok m" "bs @ rest"] Cons.prems by (auto simp: returns_def m)
  then show ?case using bs by simp
qed simp

section \<open>Examples\<close>

definition msg_enc :: "msg \<Rightarrow> octets \<times> bool" where
  "msg_enc m = (le32 (Tag m) @ (if Ok m then 1 else 0) # Data m, True)"

definition msg_dec :: "octets \<Rightarrow> msg option" where
  "msg_dec bs = (if length bs < 5 then None else Some \<lparr>Tag = un_le32 bs, Data = drop 5 bs, Ok = (bs ! 4 = 1)\<rparr>)"

lemma msg_codec: "\<forall>m. snd (msg_enc m) \<and> msg_dec (fst (msg_enc m)) = Some m"
proof
  fix m :: msg
  have "(le32 (Tag m) @ x # y) ! 4 = x" "drop 5 (le32 (Tag m) @ x # y) = y" for x y by (simp_all add: nth_append)
  then show "snd (msg_enc m) \<and> msg_dec (fst (msg_enc m)) = Some m" by (simp add: msg_enc_def msg_dec_def)
qed

theorem frames_round_trip_witness:
  "\<exists>bs. write_all msg_enc [\<lparr>Tag = 258, Data = [1, 2, 3], Ok = True\<rparr>, \<lparr>Tag = 1, Data = [], Ok = False\<rparr>] = Inr bs \<and>
     read_n msg_dec 2 (bs @ [9]) = Inr (Some ([\<lparr>Tag = 258, Data = [1, 2, 3], Ok = True\<rparr>, \<lparr>Tag = 1, Data = [], Ok = False\<rparr>], [9]))"
proof -
  let ?ms = "[\<lparr>Tag = 258, Data = [1, 2, 3], Ok = True\<rparr>, \<lparr>Tag = 1, Data = [], Ok = False\<rparr>] :: msg list"
  have "\<forall>m \<in> set ?ms. length (fst (msg_enc m)) < 2 ^ 32" by (simp add: msg_enc_def)
  from frames_round_trip [OF msg_codec this, of "[9]"] show ?thesis
    by (auto simp: returns_def numeral_2_eq_2)
qed

text \<open>A call is sent, served and answered; then another one is sent and the connection breaks.\<close>

definition sample_serve :: "octets \<Rightarrow> octets \<times> bool" where
  "sample_serve b = (rev b, True)"

lemma sample_dmx:
  "\<exists>s. dmx_run sample_serve s \<and> chans s = 2 \<and> refused s = {} \<and> asked s 0 = [1, 2] \<and> \<not> reading s \<and> rep (hd (answers (clnt s) 0)) = [2, 1]"
proof -
  define s1 where "s1 = dmx_init\<lparr>clnt := fst (SendReceive 0 NewDemuxClnt), reqs := {(1, [1, 2])}, chans := 1, asked := (asked dmx_init)(0 := [1, 2])\<rparr>"
  define s2 where "s2 = s1\<lparr>reqs := {}, reps := {\<lparr>Tag = 1, Data = [2, 1], Ok = True\<rparr>}\<rparr>"
  define s3 where "s3 = s2\<lparr>clnt := projr (reader_frame \<lparr>Tag = 1, Data = [2, 1], Ok = True\<rparr> (clnt s2)), reps := {}\<rparr>"
  define s4 where "s4 = s3\<lparr>clnt := fst (SendReceive 1 (clnt s3)), chans := 2, asked := (asked s3)(1 := [3])\<rparr>"
  define s5 where "s5 = s4\<lparr>clnt := projr (reader_failed (clnt s4)), reading := False\<rparr>"
  note defs = SendReceive_def dmx_tag_def cm_put_def NewDemuxClnt_def newCallMap_def dmx_init_def reader_frame_def dmx_reply_def
    cm_remove_def reader_failed_def cm_close_def outstanding_def Let_def
  have "dmx_step sample_serve dmx_init s1"
    using dmx_step.send [of dmx_init _ 1 sample_serve "[1, 2]"] by (simp add: s1_def defs)
  moreover have "dmx_step sample_serve s1 s2"
    using dmx_step.served [of 1 "[1, 2]" s1 sample_serve "[2, 1]" True] by (simp add: s2_def s1_def sample_serve_def dmx_init_def)
  moreover have "dmx_step sample_serve s2 s3"
    using dmx_step.received [of s2 "\<lparr>Tag = 1, Data = [2, 1], Ok = True\<rparr>" "clnt s3" sample_serve]
    by (simp add: s3_def s2_def s1_def defs)
  moreover have "dmx_step sample_serve s3 s4"
    using dmx_step.send_unwritten [of s3 "clnt s4" 2 sample_serve "[3]"] by (simp add: s4_def s3_def s2_def s1_def defs numeral_2_eq_2)
  moreover have "dmx_step sample_serve s4 s5"
    using dmx_step.broken [of s4 "clnt s5" sample_serve] by (simp add: s5_def s4_def s3_def s2_def s1_def defs)
  ultimately have "dmx_run sample_serve s5" unfolding dmx_run_def by (meson rtranclp.intros)
  then show ?thesis by (intro exI [of _ s5]) (simp add: s5_def s4_def s3_def s2_def s1_def defs)
qed

theorem demux_matches_replies_witness:
  "\<exists>s. dmx_run sample_serve s \<and> \<not> reading s \<and> answers (clnt s) 0 = [own_reply sample_serve [1, 2]] \<and>
     answers (clnt s) 1 \<noteq> []"
proof -
  obtain s where s: "dmx_run sample_serve s" "chans s = 2" "refused s = {}" "asked s 0 = [1, 2]" "\<not> reading s"
    "rep (hd (answers (clnt s) 0)) = [2, 1]" using sample_dmx by blast
  have "answers (clnt s) ch = [own_reply sample_serve (asked s ch)] \<or> answers (clnt s) ch = [failure]" if "ch < 2" for ch
    using demux_matches_replies [OF s(1)] s(2,3,5) that by auto
  from this [of 0] this [of 1] s show ?thesis by (auto simp: failure_def)
qed

end
