(* ===== verification/Labgob.thy ===== *)
theory Labgob
  imports Prelude
begin

text \<open>
  The checks that labgob adds to encoding/gob (labgob/labgob.go): \<open>checkType\<close> looks for
  field names that are not capitalized in everything a type refers to, each type once, and
  \<open>checkDefault\<close> for values that are not zero in what is decoded into. Both count their
  complaints; the messages are not modelled.

  Types may refer to themselves, so a type is a number and the program's types are a list. The
  theory shows that the search ends and finds every lower-case field of every type that is
  reached exactly once.
\<close>

section \<open>Types\<close>

text \<open>A field has a name and a type. \<open>upper\<close> tells of a name whether \<^verbatim>\<open>unicode.IsUpper\<close> holds of its first rune.\<close>

datatype gtype =
    TStruct "(string \<times> nat) list"
  | TElem nat
  | TMap nat nat
  | TBasic

definition type_of :: "gtype list \<Rightarrow> nat \<Rightarrow> gtype" where
  "type_of env t = (if t < length env then env ! t else TBasic)"

text \<open>
  What \<open>checkType\<close> goes through for a type, in order: each item says whether a complaint is
  counted first, and which type is checked then.
\<close>

definition items :: "(string \<Rightarrow> bool) \<Rightarrow> gtype \<Rightarrow> (bool \<times> nat) list" where
  "items upper ty =
     (case ty of
        TStruct fields \<Rightarrow> map (\<lambda>(name, t). (\<not> upper name, t)) fields
      | TElem t \<Rightarrow> [(False, t)]
      | TMap e k \<Rightarrow> [(False, e), (False, k)]
      | TBasic \<Rightarrow> [])"

text \<open>The state: the types checked so far (\<open>checked\<close>) and the number of complaints (\<open>errorCount\<close>).\<close>

type_synonym lab_state = "nat list \<times> nat"

function (sequential) check_items :: "(string \<Rightarrow> bool) \<Rightarrow> gtype list \<Rightarrow> (bool \<times> nat) list \<Rightarrow> lab_state \<Rightarrow> lab_state" where
  "check_items upper env [] st = st"
| "check_items upper env ((bad, t) # its) (checked, n) =
     (let n' = (if bad then n + 1 else n) in
      if t \<in> set checked then check_items upper env its (checked, n')
      else check_items upper env its (check_items upper env (items upper (type_of env t)) (t # checked, n')))"
  by pat_completeness auto

text \<open>Types are only ever added, which makes the nested call end.\<close>

lemma check_items_grows:
  "check_items_dom (upper, env, its, st) \<Longrightarrow> set (fst st) \<subseteq> set (fst (check_items upper env its st))"
proof (induction upper env its st rule: check_items.pinduct)
  case (2 upper env bad t its checked n)
  let ?n = "if bad then n + 1 else n"
  show ?case
  proof (cases "t \<in> set checked")
    case True
    then show ?thesis using 2 by (simp add: check_items.psimps Let_def)
  next
    case False
    let ?st = "check_items upper env (items upper (type_of env t)) (t # checked, ?n)"
    have "set (t # checked) \<subseteq> set (fst ?st)" using 2(3) [OF refl False] by simp
    moreover have "set (fst ?st) \<subseteq> set (fst (check_items upper env its ?st))" using 2(4) [OF refl False] .
    ultimately show ?thesis using 2(1) False by (auto simp: check_items.psimps Let_def)
  qed
qed (simp add: check_items.psimps)

lemma items_none: "\<not> t < length env \<Longrightarrow> items upper (type_of env t) = []"
  by (simp add: items_def type_of_def)

termination check_items
proof (relation "inv_image (finite_psubset <*lex*> less_than)
    (\<lambda>(upper, env, its, st). ({..<length env} - set (fst st), length its + (if its = [] then 0 else 1)))", goal_cases)
  case 1
  show ?case by auto
next
  case (2 upper env bad t its checked n)
  then show ?case by auto
next
  case (3 upper env bad t its checked n n')
  then show ?case
    by (cases "t < length env") (auto simp: finite_psubset_def items_none)
next
  case (4 upper env bad t its checked n n')
  have "set (t # checked) \<subseteq> set (fst (check_items upper env (items upper (type_of env t)) (t # checked, n')))"
    using check_items_grows [OF 4(3)] by simp
  then have "{..<length env} - set (fst (check_items upper env (items upper (type_of env t)) (t # checked, n')))
      \<subseteq> {..<length env} - set checked" by auto
  then show ?case using 4 by (auto simp: finite_psubset_def psubset_eq)
qed

definition checkType :: "(string \<Rightarrow> bool) \<Rightarrow> gtype list \<Rightarrow> nat \<Rightarrow> lab_state \<Rightarrow> lab_state" where
  "checkType upper env t st = check_items upper env [(False, t)] st"

section \<open>Values\<close>

text \<open>
  What \<open>checkDefault1\<close> sees of a value: a struct, a pointer (\<open>None\<close> for nil), a
  number, boolean or string with whether it is zero, or something it does not look into.
\<close>

datatype gvalue =
    VStruct "gvalue list"
  | VPtr "gvalue option"
  | VScalar bool
  | VOther

fun checkDefault1 :: "gvalue \<Rightarrow> nat \<Rightarrow> nat \<Rightarrow> nat" where
  "checkDefault1 (VStruct vs) depth n = (if depth > 3 then n else fold (\<lambda>v n. checkDefault1 v (depth + 1) n) vs n)"
| "checkDefault1 (VPtr None) depth n = n"
| "checkDefault1 (VPtr (Some v)) depth n = (if depth > 3 then n else checkDefault1 v (depth + 1) n)"
| "checkDefault1 (VScalar zero) depth n = (if depth > 3 then n else if zero then n else n + 1)"
| "checkDefault1 VOther depth n = n"

definition checkDefault :: "gvalue option \<Rightarrow> nat \<Rightarrow> nat" where
  "checkDefault value n = (case value of None \<Rightarrow> n | Some v \<Rightarrow> checkDefault1 v 1 n)"

text \<open>
  \<open>Encode\<close> checks the type first, \<open>Decode\<close> also the value it decodes into. A value comes
  with its type; \<open>gob\<close> does the work.
\<close>

definition Encode :: "(string \<Rightarrow> bool) \<Rightarrow> gtype list \<Rightarrow> (nat \<times> 'v \<Rightarrow> 'b) \<Rightarrow> nat \<times> 'v \<Rightarrow> lab_state \<Rightarrow> lab_state \<times> 'b" where
  "Encode upper env gob e st = (checkType upper env (fst e) st, gob e)"

definition Decode ::
  "(string \<Rightarrow> bool) \<Rightarrow> gtype list \<Rightarrow> (nat \<times> gvalue \<Rightarrow> 'b) \<Rightarrow> nat \<times> gvalue \<Rightarrow> lab_state \<Rightarrow> lab_state \<times> 'b" where
  "Decode upper env gob e st =
     (case checkType upper env (fst e) st of (checked, n) \<Rightarrow> ((checked, checkDefault (Some (snd e)) n), gob e))"

definition gob_Register :: "(string \<Rightarrow> bool) \<Rightarrow> gtype list \<Rightarrow> nat \<Rightarrow> lab_state \<Rightarrow> lab_state" where
  "gob_Register upper env t st = checkType upper env t st"

section \<open>What the search finds\<close>

text \<open>
  What the search is measured against, stated on the types and not on the search: the types a
  type refers to (of its fields, its element, its key), and the number of its fields whose name is
  not capitalized.
\<close>

inductive refers :: "gtype \<Rightarrow> nat \<Rightarrow> bool" where
  field: "(name, t) \<in> set fields \<Longrightarrow> refers (TStruct fields) t"
| elem: "refers (TElem t) t"
| map_elem: "refers (TMap e k) e"
| map_key: "refers (TMap e k) k"

inductive_simps refers_simps [simp]:
  "refers (TStruct fields) t" "refers (TElem e) t" "refers (TMap e k) t" "refers TBasic t"

definition edges :: "gtype list \<Rightarrow> (nat \<times> nat) set" where
  "edges env = {(t, u). refers (type_of env t) u}"

definition lower_fields :: "(string \<Rightarrow> bool) \<Rightarrow> gtype list \<Rightarrow> nat \<Rightarrow> nat" where
  "lower_fields upper env t =
     (case type_of env t of
        TStruct fields \<Rightarrow> card {i. i < length fields \<and> \<not> upper (fst (fields ! i))}
      | _ \<Rightarrow> 0)"

text \<open>What \<open>checkType\<close> goes through is what these say.\<close>

lemma items_refers: "u \<in> snd ` set (items upper ty) \<longleftrightarrow> refers ty u"
  by (cases ty) (auto simp: items_def image_iff case_prod_beta intro: rev_bexI)

lemma items_lower: "length (filter fst (items upper (type_of env t))) = lower_fields upper env t"
  by (cases "type_of env t")
    (simp_all add: items_def lower_fields_def length_filter_conv_card filter_map o_def case_prod_beta)

definition closed :: "gtype list \<Rightarrow> nat set \<Rightarrow> bool" where
  "closed env T \<longleftrightarrow> edges env `` T \<subseteq> T"

definition search_ok :: "(string \<Rightarrow> bool) \<Rightarrow> gtype list \<Rightarrow> (bool \<times> nat) list \<Rightarrow> lab_state \<Rightarrow> lab_state \<Rightarrow> bool" where
  "search_ok upper env its st st' \<longleftrightarrow>
     set (fst st) \<subseteq> set (fst st') \<and> snd ` set its \<subseteq> set (fst st') \<and>
     edges env `` (set (fst st') - set (fst st)) \<subseteq> set (fst st') \<and>
     set (fst st') \<subseteq> set (fst st) \<union> (edges env)\<^sup>* `` (snd ` set its) \<and>
     snd st' = snd st + length (filter fst its) + sum (lower_fields upper env) (set (fst st') - set (fst st))"

lemma edges_items: "edges env `` {t} = snd ` set (items upper (type_of env t))"
  using items_refers [of _ upper] by (auto simp: edges_def)

lemma search_marked:
  assumes "t \<in> set c" and "search_ok upper env its (c, if bad then n + 1 else n) st'"
  shows "search_ok upper env ((bad, t) # its) (c, n) st'"
proof -
  have "(edges env)\<^sup>* `` (snd ` set its) \<subseteq> (edges env)\<^sup>* `` (insert t (snd ` set its))"
    by (rule Image_mono) auto
  then show ?thesis using assms unfolding search_ok_def by (cases bad) (simp_all, blast+)
qed

lemma reach_step:
  "P \<subseteq> X \<Longrightarrow> Z = X \<union> Y \<Longrightarrow> t \<in> X \<Longrightarrow> A \<subseteq> insert t C \<union> P \<Longrightarrow> B \<subseteq> A \<union> Y \<Longrightarrow> B \<subseteq> C \<union> Z"
  by blast

lemma search_new:
  assumes t: "t \<notin> set c" and in1: "search_ok upper env (items upper (type_of env t)) (t # c, if bad then n + 1 else n) st1"
    and in2: "search_ok upper env its st1 st2"
  shows "search_ok upper env ((bad, t) # its) (c, n) st2"
proof -
  obtain c1 n1 where st1: "st1 = (c1, n1)" by (cases st1)
  obtain c2 n2 where st2: "st2 = (c2, n2)" by (cases st2)
  let ?E = "edges env" and ?lf = "lower_fields upper env"
  have A: "insert t (set c) \<subseteq> set c1" "?E `` {t} \<subseteq> set c1" "?E `` (set c1 - insert t (set c)) \<subseteq> set c1"
    "set c1 \<subseteq> insert t (set c) \<union> ?E\<^sup>* `` (?E `` {t})"
    "n1 = (if bad then n + 1 else n) + ?lf t + sum ?lf (set c1 - insert t (set c))"
    using in1 st1 by (simp_all add: search_ok_def edges_items [where upper = upper] items_lower)
  have B: "set c1 \<subseteq> set c2" "snd ` set its \<subseteq> set c2" "?E `` (set c2 - set c1) \<subseteq> set c2"
    "set c2 \<subseteq> set c1 \<union> ?E\<^sup>* `` (snd ` set its)" "n2 = n1 + length (filter fst its) + sum ?lf (set c2 - set c1)"
    using in2 st1 st2 by (simp_all add: search_ok_def)
  have cl: "?E `` (set c2 - set c) \<subseteq> set c2"
  proof -
    have "set c2 - set c \<subseteq> (set c2 - set c1) \<union> (set c1 - insert t (set c)) \<union> {t}" by auto
    then have "?E `` (set c2 - set c) \<subseteq> ?E `` (set c2 - set c1) \<union> ?E `` (set c1 - insert t (set c)) \<union> ?E `` {t}" by auto
    also have "\<dots> \<subseteq> set c2"
      using B(3) order_trans [OF A(3) B(1)] order_trans [OF A(2) B(1)] by (simp only: Un_subset_iff)
    finally show ?thesis .
  qed
  have "?E\<^sup>* `` (?E `` {t}) \<subseteq> ?E\<^sup>* `` {t}" by (auto intro: converse_rtrancl_into_rtrancl)
  moreover have "?E\<^sup>* `` (insert t (snd ` set its)) = ?E\<^sup>* `` {t} \<union> ?E\<^sup>* `` (snd ` set its)"
    by (subst Image_Un [symmetric]) simp
  moreover have "t \<in> ?E\<^sup>* `` {t}" by auto
  ultimately have "set c2 \<subseteq> set c \<union> ?E\<^sup>* `` (insert t (snd ` set its))" using A(4) B(4) by (rule reach_step)
  moreover note cl
  moreover have "sum ?lf (set c2 - set c) = ?lf t + sum ?lf (set c1 - insert t (set c)) + sum ?lf (set c2 - set c1)"
  proof -
    have "set c2 - set c = insert t ((set c1 - insert t (set c)) \<union> (set c2 - set c1))" using A(1) B(1) t by auto
    moreover have "t \<notin> (set c1 - insert t (set c)) \<union> (set c2 - set c1)" using A(1) by auto
    moreover have "(set c1 - insert t (set c)) \<inter> (set c2 - set c1) = {}" by auto
    ultimately show ?thesis by (simp add: sum.union_disjoint)
  qed
  ultimately show ?thesis
    using A(1,5) B(1,2,5) st2 by (auto simp: search_ok_def)
qed

lemma check_items_ok: "search_ok upper env its st (check_items upper env its st)"
proof (induction upper env its st rule: check_items.induct)
  case (1 upper env st)
  show ?case by (simp add: search_ok_def)
next
  case (2 upper env bad t its checked n)
  show ?case
  proof (cases "t \<in> set checked")
    case True
    then show ?thesis using 2(1) [OF refl True] by (simp add: Let_def search_marked)
  next
    case False
    then show ?thesis using 2(2) [OF refl False] 2(3) [OF refl False] search_new [OF False] by (simp add: Let_def)
  qed
qed

section \<open>Properties\<close>

text \<open>
  C37. \<open>checkType\<close> ends, also on types that refer to themselves, and is exact: after it, the
  checked types are those checked before and all that the type reaches through the types of
  fields, elements and keys; the number of complaints has grown by the number of fields with a
  name that is not capitalized in the types reached for the first time, each counted once. A second check of the same type adds
  nothing.
\<close>

theorem check_type_exact:
  assumes "closed env (set checked)"
  shows "(case checkType upper env t (checked, n) of (checked', n') \<Rightarrow>
       set checked' = set checked \<union> (edges env)\<^sup>* `` {t} \<and> closed env (set checked') \<and>
       n' = n + sum (lower_fields upper env) ((edges env)\<^sup>* `` {t} - set checked) \<and>
       checkType upper env t (checked', n') = (checked', n'))"
proof -
  obtain c' n' where c': "checkType upper env t (checked, n) = (c', n')" by fastforce
  let ?E = "edges env"
  have ok: "set checked \<subseteq> set c'" "t \<in> set c'" "?E `` (set c' - set checked) \<subseteq> set c'"
    "set c' \<subseteq> set checked \<union> ?E\<^sup>* `` {t}" "n' = n + sum (lower_fields upper env) (set c' - set checked)"
    using check_items_ok [of upper env "[(False, t)]" "(checked, n)"] c' by (simp_all add: checkType_def search_ok_def)
  have "?E `` set checked \<subseteq> set checked" using assms by (simp add: closed_def)
  moreover have "?E `` set c' \<subseteq> ?E `` (set c' - set checked) \<union> ?E `` set checked" by auto
  ultimately have cl: "?E `` set c' \<subseteq> set c'" using ok(1,3) by (meson Un_least order_trans)
  then have "?E\<^sup>* `` {t} \<subseteq> set c'" using ok(2) Image_closed_trancl [OF cl] by auto
  then have eq: "set c' = set checked \<union> ?E\<^sup>* `` {t}" using ok(1,4) by auto
  then have "set c' - set checked = ?E\<^sup>* `` {t} - set checked" by auto
  moreover have "checkType upper env t (c', n') = (c', n')" using ok(2) by (simp add: checkType_def)
  ultimately show ?thesis using c' eq cl ok(5) by (simp add: closed_def)
qed

text \<open>A list type that refers to itself through a pointer, with one lower-case field.\<close>

definition sample_env :: "gtype list" where
  "sample_env = [TStruct [(''Val'', 2), (''next'', 1)], TElem 0]"

theorem check_type_exact_witness:
  "snd (checkType (\<lambda>s. s \<noteq> ''next'') sample_env 0 ([], 0)) = 1 \<and>
   set (fst (checkType (\<lambda>s. s \<noteq> ''next'') sample_env 0 ([], 0))) = (edges sample_env)\<^sup>* `` {0}"
proof -
  let ?up = "\<lambda>s. s \<noteq> ''next''"
  have "snd (checkType ?up sample_env 0 ([], 0)) = 1"
    by (simp add: checkType_def items_def type_of_def sample_env_def)
  moreover have "closed sample_env (set [])" by (simp add: closed_def)
  from check_type_exact [OF this, where upper = ?up and t = 0 and n = 0]
  have "set (fst (checkType ?up sample_env 0 ([], 0))) = (edges sample_env)\<^sup>* `` {0}" by (auto split: prod.splits)
  ultimately show ?thesis by blast
qed

end
