(* ===== verification/KvTest.thy ===== *)
theory KvTest
  imports KvRaft
begin

text \<open>
  The clients the tests of the key/value services run against a server, and the checks made on
  what they report (kvtest1/kvtest.go). A client is written as the code between two calls of
  its clerk; any number of clients run as a step relation over one server. Values travel as
  JSON: the two conversions are arguments \<open>js\<close> and \<open>unjs\<close>. An access that panics
  and \<^verbatim>\<open>ts.Fatalf\<close> are values of \<open>panic\<close>.

  The theory shows, for every table that satisfies the contract \<open>versioned_store\<close>, that the checks accept every
  run over it with clerks that answer as \<open>KvClerk\<close> and \<open>KvRaft\<close> prove; the single server and the
  replicated one are instances.
\<close>

section \<open>Calls of the clerk\<close>

text \<open>What a get returns (theorem \<open>clerk_get_reads\<close>).\<close>

definition clerk_answer :: "('s \<Rightarrow> string \<Rightarrow> (string \<times> Tversion) option) \<Rightarrow> 's \<Rightarrow> string \<Rightarrow> string \<times> Tversion \<times> Err" where
  "clerk_answer lookup kv k = (case lookup kv k of None \<Rightarrow> ('''', 0, ErrNoKey) | Some (x, v) \<Rightarrow> (x, v, OK))"

text \<open>
  What a put may return: \<open>b\<close> says whether it was performed, \<open>e0\<close> is the server's
  answer to the last request when it was not. Over a reliable network no request is sent twice.
\<close>

definition put_answer :: "bool \<Rightarrow> bool \<Rightarrow> Err \<Rightarrow> Err \<Rightarrow> bool" where
  "put_answer rel b e0 e \<longleftrightarrow>
     (if b then e = OK \<or> e = ErrMaybe
      else if e0 = ErrNoKey then e = ErrNoKey else e = ErrVersion \<or> e = ErrMaybe) \<and>
     (rel \<longrightarrow> e \<noteq> ErrMaybe)"

context versioned_store
begin

lemma Put_loop_reply:
  assumes "Clerk_Put_loop (net_Put put) n r w k x v = Some (e, w')"
    and "put_inv put s0 \<lparr>PutKey = k, PutValue = x, PutVersion = v\<rparr> r w"
  shows "\<exists>h e0. hist w' = h @ [(True, \<lparr>PutKey = k, PutValue = x, PutVersion = v\<rparr>)] \<and>
     e0 = snd (put (run_puts put s0 (map snd h)) \<lparr>PutKey = k, PutValue = x, PutVersion = v\<rparr>) \<and>
     (e = e0 \<or> e0 = ErrVersion \<and> e = ErrMaybe) \<and>
     (\<not> r \<and> (\<forall>x \<in> set (sched w). snd x = Delivered) \<longrightarrow> e \<noteq> ErrMaybe)"
  using assms
proof (induction n arbitrary: r w)
  case (Suc n)
  let ?a = "\<lparr>PutKey = k, PutValue = x, PutVersion = v\<rparr>"
  obtain w1 rep where call: "net_Put put w ?a = (w1, rep)" by fastforce
  show ?case
  proof (cases rep)
    case None
    have "Clerk_Put_loop (net_Put put) n True w1 k x v = Some (e, w')" using Suc.prems(1) call None by simp
    moreover have "sched w = [] \<or> (\<exists>x \<in> set (sched w). snd x \<noteq> Delivered)"
      using call None by (auto simp: net_Put_def Let_def split: list.splits delivery.splits)
    moreover have "sched w = [] \<Longrightarrow> w1 = w \<and> Clerk_Put_loop (net_Put put) m q w k x v = None" for m q
      using call by (induction m arbitrary: q) (auto simp: net_Put_def)
    ultimately show ?thesis using Suc.IH [of True w1] net_Put_step(1) [OF Suc.prems(2) call] by fastforce
  next
    case (Some reply)
    obtain as where h: "hist w1 = (hist w @ others as) @ [(True, ?a)]"
      "PutErr reply = snd (put (run_puts put s0 (map snd (hist w @ others as))) ?a)"
      using net_Put_step(2) [OF Suc.prems(2) call Some] by blast
    have "PutErr reply = OK \<or> PutErr reply = ErrNoKey \<or> PutErr reply = ErrVersion"
      unfolding h(2) using put_err by auto
    then have "w' = w1" "e = PutErr reply \<or> PutErr reply = ErrVersion \<and> e = ErrMaybe" "\<not> r \<Longrightarrow> e \<noteq> ErrMaybe"
      using Suc.prems(1) call Some by (auto split: if_splits)
    then show ?thesis using h by blast
  qed
qed simp

end

text \<open>The clerk gives one of these answers: its last request is answered when it returns.\<close>

lemma clerk_put_answer:
  assumes "Clerk_Put (net_Put srv_put) m (fresh_world kv sc) k x v = Some (e, w')" and "length (hist w') < 2 ^ 64"
  shows "\<exists>h. hist w' = h @ [(True, \<lparr>PutKey = k, PutValue = x, PutVersion = v\<rparr>)] \<and>
     put_answer (\<forall>x \<in> set sc. snd x = Delivered) (own_performed srv_put kv (hist w') = 1)
       (snd (srv_put (run_puts srv_put kv (map snd h)) \<lparr>PutKey = k, PutValue = x, PutVersion = v\<rparr>)) e"
proof -
  let ?a = "\<lparr>PutKey = k, PutValue = x, PutVersion = v\<rparr>"
  have inv: "put_inv srv_put kv ?a False (fresh_world kv sc)" by (simp add: put_inv_def fresh_world_def)
  note run = assms(1) [unfolded Clerk_Put_def]
  obtain h where h: "hist w' = h @ [(True, ?a)]"
    "e = snd (srv_put (run_puts srv_put kv (map snd h)) ?a) \<or>
       snd (srv_put (run_puts srv_put kv (map snd h)) ?a) = ErrVersion \<and> e = ErrMaybe"
    "(\<forall>x \<in> set sc. snd x = Delivered) \<longrightarrow> e \<noteq> ErrMaybe"
    using ks.Put_loop_reply [OF run inv] by (auto simp: fresh_world_def)
  have "put_outcome (own_performed srv_put kv (hist w') = 1) e" using ks.Put_loop_outcome [OF run inv assms(2)] by blast
  then have "put_answer (\<forall>x \<in> set sc. snd x = Delivered) (own_performed srv_put kv (hist w') = 1)
      (snd (srv_put (run_puts srv_put kv (map snd h)) ?a)) e"
    using h(2,3) by (auto simp: put_answer_def put_outcome_def split: if_splits)
  then show ?thesis using h(1) by blast
qed

section \<open>Clients that put to one key\<close>

record ClntRes =
  Nok :: nat
  Nmaybe :: nat

record EntryV =
  ev_Id :: nat
  ev_V :: Tversion

definition GetJson :: "(string \<Rightarrow> 'v option) \<Rightarrow> string \<times> Tversion \<times> Err \<Rightarrow> ('v \<times> Tversion) res" where
  "GetJson unjs ans =
     (case ans of (val, ver, err) \<Rightarrow>
        if err = OK then (case unjs val of None \<Rightarrow> Inl Fatal | Some v \<Rightarrow> Inr (v, ver)) else Inl Fatal)"

text \<open>
  Where a client is: at the top of its loop, about to put, waiting for the put, about to get,
  returned, stopped by an error. The boolean says whether the put was performed and is there for
  the proof only, like \<open>nperf\<close>, the number of puts performed. A missing key of the map \<open>verm\<close> reads as 0.
\<close>

datatype ppc =
    PTop
  | PPut string Tversion
  | PRet string Tversion bool Err
  | PGet string Tversion bool Err
  | PDone
  | PFail panic

record put_client =
  p_at :: ppc
  verm :: "string \<Rightarrow> Tversion"
  p_res :: ClntRes
  nperf :: nat

definition OneClientPut_top :: "bool \<Rightarrow> string list \<Rightarrow> nat \<Rightarrow> put_client \<Rightarrow> put_client" where
  "OneClientPut_top randomkeys ka r c =
     (case idx ka (if randomkeys then r mod length ka else 0) of
        Inl e \<Rightarrow> c\<lparr>p_at := PFail e\<rparr>
      | Inr k \<Rightarrow> c\<lparr>p_at := PPut k (verm c k)\<rparr>)"

definition OnePut_after_Put :: "string \<Rightarrow> Tversion \<Rightarrow> bool \<Rightarrow> Err \<Rightarrow> put_client \<Rightarrow> put_client" where
  "OnePut_after_Put k ver b e c =
     (if \<not> (e = OK \<or> e = ErrVersion \<or> e = ErrMaybe) then c\<lparr>p_at := PFail Fatal\<rparr>
      else c\<lparr>p_at := PGet k ver b e\<rparr>)"

definition OnePut_after_Get ::
  "(string \<Rightarrow> EntryV option) \<Rightarrow> nat \<Rightarrow> string \<Rightarrow> Tversion \<Rightarrow> Err \<Rightarrow> string \<times> Tversion \<times> Err \<Rightarrow> put_client \<Rightarrow> put_client" where
  "OnePut_after_Get unjs i k ver e ans c =
     (case GetJson unjs ans of
        Inl x \<Rightarrow> c\<lparr>p_at := PFail x\<rparr>
      | Inr (en, ver0) \<Rightarrow>
          if e = OK \<and> ver0 = ver + 1 \<and> ev_Id en \<noteq> i \<and> ev_V en \<noteq> ver then c\<lparr>p_at := PFail Fatal\<rparr>
          else if e = OK \<or> e = ErrMaybe then
            c\<lparr>p_at := PTop, verm := (verm c)(k := ver0),
              p_res := (if e = OK then (p_res c)\<lparr>Nok := Nok (p_res c) + 1\<rparr> else (p_res c)\<lparr>Nmaybe := Nmaybe (p_res c) + 1\<rparr>)\<rparr>
          else c\<lparr>p_at := PPut k ver0\<rparr>)"

text \<open>The check, given the answer to its own get.\<close>

definition CheckPutConcurrent ::
  "(string \<Rightarrow> EntryV option) \<Rightarrow> string \<times> Tversion \<times> Err \<Rightarrow> ClntRes list \<Rightarrow> ClntRes \<Rightarrow> bool \<Rightarrow> ClntRes res" where
  "CheckPutConcurrent unjs ans rs res rel =
     bindr (GetJson unjs ans) (\<lambda>(_, ver0).
       let res' = foldl (\<lambda>s r. s\<lparr>Nok := Nok s + Nok r, Nmaybe := Nmaybe s + Nmaybe r\<rparr>) res rs in
       if rel then (if ver0 \<noteq> of_nat (Nok res') then Inl Fatal else Inr res')
       else if ver0 > of_nat (Nok res' + Nmaybe res') then Inl Fatal else Inr res')"

section \<open>The clients of one server\<close>

record 's put_sys =
  p_store :: 's
  p_cl :: "nat \<Rightarrow> put_client"
  p_n :: nat  \<comment> \<open>the puts performed\<close>

definition upd :: "'s put_sys \<Rightarrow> nat \<Rightarrow> put_client \<Rightarrow> 's put_sys" where
  "upd s i c = s\<lparr>p_cl := (p_cl s)(i := c)\<rparr>"

definition put_args :: "(EntryV \<Rightarrow> string) \<Rightarrow> nat \<Rightarrow> string \<Rightarrow> Tversion \<Rightarrow> PutArgs" where
  "put_args js i k ver = \<lparr>PutKey = k, PutValue = js \<lparr>ev_Id = i, ev_V = ver\<rparr>, PutVersion = ver\<rparr>"

inductive put_step ::
  "('s \<Rightarrow> string \<Rightarrow> (string \<times> Tversion) option) \<Rightarrow> ('s \<Rightarrow> PutArgs \<Rightarrow> 's \<times> Err) \<Rightarrow> nat \<Rightarrow> bool \<Rightarrow> bool \<Rightarrow> string list \<Rightarrow>
   (EntryV \<Rightarrow> string) \<Rightarrow> (string \<Rightarrow> EntryV option) \<Rightarrow> 's put_sys \<Rightarrow> 's put_sys \<Rightarrow> bool"
  for lookup put n rel randomkeys ka js unjs where
  stop: "i < n \<Longrightarrow> p_at (p_cl s i) = PTop \<Longrightarrow>
     put_step lookup put n rel randomkeys ka js unjs s (upd s i ((p_cl s i)\<lparr>p_at := PDone\<rparr>))"
| go: "i < n \<Longrightarrow> p_at (p_cl s i) = PTop \<Longrightarrow>
     put_step lookup put n rel randomkeys ka js unjs s (upd s i (OneClientPut_top randomkeys ka r (p_cl s i)))"
| performed: "i < n \<Longrightarrow> p_at (p_cl s i) = PPut k ver \<Longrightarrow> put (p_store s) (put_args js i k ver) = (kv, OK) \<Longrightarrow>
     put_step lookup put n rel randomkeys ka js unjs s
       ((upd s i ((p_cl s i)\<lparr>p_at := PRet k ver True OK, nperf := nperf (p_cl s i) + 1\<rparr>))\<lparr>p_store := kv, p_n := p_n s + 1\<rparr>)"
| refused: "i < n \<Longrightarrow> p_at (p_cl s i) = PPut k ver \<Longrightarrow> put (p_store s) (put_args js i k ver) = (kv, e0) \<Longrightarrow> e0 \<noteq> OK \<Longrightarrow>
     put_step lookup put n rel randomkeys ka js unjs s (upd s i ((p_cl s i)\<lparr>p_at := PRet k ver False e0\<rparr>))"
| return_put: "i < n \<Longrightarrow> p_at (p_cl s i) = PRet k ver b e0 \<Longrightarrow> put_answer rel b e0 e \<Longrightarrow>
     put_step lookup put n rel randomkeys ka js unjs s (upd s i (OnePut_after_Put k ver b e (p_cl s i)))"
| get: "i < n \<Longrightarrow> p_at (p_cl s i) = PGet k ver b e \<Longrightarrow>
     put_step lookup put n rel randomkeys ka js unjs s
       (upd s i (OnePut_after_Get unjs i k ver e (clerk_answer lookup (p_store s) k) (p_cl s i)))"

definition put_init :: "'s \<Rightarrow> 's put_sys" where
  "put_init s0 = \<lparr>p_store = s0,
     p_cl = (\<lambda>_. \<lparr>p_at = PTop, verm = (\<lambda>_. 0), p_res = \<lparr>Nok = 0, Nmaybe = 0\<rparr>, nperf = 0\<rparr>), p_n = 0\<rparr>"

definition put_reach ::
  "('s \<Rightarrow> string \<Rightarrow> (string \<times> Tversion) option) \<Rightarrow> ('s \<Rightarrow> PutArgs \<Rightarrow> 's \<times> Err) \<Rightarrow> 's \<Rightarrow> nat \<Rightarrow> bool \<Rightarrow> bool \<Rightarrow> string list \<Rightarrow>
   (EntryV \<Rightarrow> string) \<Rightarrow> (string \<Rightarrow> EntryV option) \<Rightarrow> 's put_sys \<Rightarrow> bool" where
  "put_reach lookup put s0 n rel randomkeys ka js unjs = (put_step lookup put n rel randomkeys ka js unjs)\<^sup>*\<^sup>* (put_init s0)"

section \<open>Invariant\<close>

fun pending :: "ppc \<Rightarrow> nat" where
  "pending (PRet _ _ True _) = 1"
| "pending (PGet _ _ True _) = 1"
| "pending _ = 0"

text \<open>A put performed at version \<open>ver\<close> by client \<open>i\<close>: its value is there until the next put.\<close>

definition put_done :: "('s \<Rightarrow> string \<Rightarrow> (string \<times> Tversion) option) \<Rightarrow> string \<Rightarrow> (EntryV \<Rightarrow> string) \<Rightarrow> 's \<Rightarrow> nat \<Rightarrow> nat \<Rightarrow> Tversion \<Rightarrow> bool" where
  "put_done lookup k js kv N i ver \<longleftrightarrow>
     (\<exists>m < N. ver = of_nat m \<and> (N = Suc m \<longrightarrow> lookup kv k = Some (js \<lparr>ev_Id = i, ev_V = ver\<rparr>, of_nat N)))"

fun at_ok :: "('s \<Rightarrow> string \<Rightarrow> (string \<times> Tversion) option) \<Rightarrow> bool \<Rightarrow> string \<Rightarrow> (EntryV \<Rightarrow> string) \<Rightarrow> 's \<Rightarrow> nat \<Rightarrow> nat \<Rightarrow> ppc \<Rightarrow> bool" where
  "at_ok lookup rel k js kv N i (PPut k' ver) = (k' = k \<and> (ver = 0 \<or> 0 < N))"
| "at_ok lookup rel k js kv N i (PRet k' ver b e0) =
     (k' = k \<and> (if b then put_done lookup k js kv N i ver else e0 = ErrVersion \<and> 0 < N))"
| "at_ok lookup rel k js kv N i (PGet k' ver b e) =
     (k' = k \<and> 0 < N \<and> (rel \<longrightarrow> e \<noteq> ErrMaybe) \<and>
      (if b then (e = OK \<or> e = ErrMaybe) \<and> put_done lookup k js kv N i ver else e = ErrVersion \<or> e = ErrMaybe))"
| "at_ok lookup rel k js kv N i (PFail e) = False"
| "at_ok lookup rel k js kv N i _ = True"

definition client_inv :: "('s \<Rightarrow> string \<Rightarrow> (string \<times> Tversion) option) \<Rightarrow> bool \<Rightarrow> string \<Rightarrow> (EntryV \<Rightarrow> string) \<Rightarrow> 's \<Rightarrow> nat \<Rightarrow> nat \<Rightarrow> put_client \<Rightarrow> bool" where
  "client_inv lookup rel k js kv N i c \<longleftrightarrow>
     at_ok lookup rel k js kv N i (p_at c) \<and> (verm c k = 0 \<or> 0 < N) \<and>
     (Nok (p_res c) + Nmaybe (p_res c) > 0 \<longrightarrow> 0 < N) \<and> (rel \<longrightarrow> Nmaybe (p_res c) = 0) \<and>
     (\<exists>m \<le> Nmaybe (p_res c). nperf c = Nok (p_res c) + m + pending (p_at c))"

definition store_inv :: "('s \<Rightarrow> string \<Rightarrow> (string \<times> Tversion) option) \<Rightarrow> string \<Rightarrow> (EntryV \<Rightarrow> string) \<Rightarrow> 's \<Rightarrow> nat \<Rightarrow> bool" where
  "store_inv lookup k js kv N \<longleftrightarrow>
     (if N = 0 then lookup kv k = None else \<exists>e. lookup kv k = Some (js e, of_nat N))"

definition pinv :: "('s \<Rightarrow> string \<Rightarrow> (string \<times> Tversion) option) \<Rightarrow> nat \<Rightarrow> bool \<Rightarrow> string \<Rightarrow> (EntryV \<Rightarrow> string) \<Rightarrow> 's put_sys \<Rightarrow> bool" where
  "pinv lookup n rel k js s \<longleftrightarrow>
     store_inv lookup k js (p_store s) (p_n s) \<and> p_n s = (\<Sum>i < n. nperf (p_cl s i)) \<and>
     (\<forall>i. client_inv lookup rel k js (p_store s) (p_n s) i (p_cl s i))"

context versioned_store
begin

lemma pinv_upd:
  assumes "pinv lookup n rel k js s" and "client_inv lookup rel k js (p_store s) (p_n s) i c" and "nperf c = nperf (p_cl s i)"
  shows "pinv lookup n rel k js (upd s i c)"
proof -
  have "(\<Sum>j < n. nperf (((p_cl s)(i := c)) j)) = (\<Sum>j < n. nperf (p_cl s j))"
    using assms(3) by (intro sum.cong) auto
  moreover have "store_inv lookup k js (p_store s) (p_n s)" "p_n s = (\<Sum>i < n. nperf (p_cl s i))"
    "\<And>i. client_inv lookup rel k js (p_store s) (p_n s) i (p_cl s i)"
    using assms(1) by (auto simp only: pinv_def)
  ultimately show ?thesis using assms(2) unfolding pinv_def upd_def by simp
qed

lemma store_answer:
  assumes "store_inv lookup k js kv N"
  shows "0 < N \<Longrightarrow> \<exists>e. clerk_answer lookup kv k = (js e, of_nat N, OK)"
    and "N = 0 \<Longrightarrow> clerk_answer lookup kv k = ('''', 0, ErrNoKey)"
  using assms by (auto simp: store_inv_def clerk_answer_def)

lemma store_version: "store_inv lookup k js kv N \<Longrightarrow> ver_of lookup kv k = of_nat N"
  by (auto simp: store_inv_def ver_of_def split: if_splits)

text \<open>The performed put: the store moves on by one, whatever the other clients wait for stays true.\<close>

lemma performed_store:
  assumes "store_inv lookup k js kv N" and "put kv (put_args js i k ver) = (kv', OK)" and "N < 2 ^ 64 - 1"
  shows "store_inv lookup k js kv' (Suc N)" and "put_done lookup k js kv' (Suc N) i ver"
    and "put_done lookup k js kv N j v \<Longrightarrow> put_done lookup k js kv' (Suc N) j v"
proof -
  have ver: "ver = of_nat N"
    using put_OK_iff [of kv "put_args js i k ver"] assms(2) store_version [OF assms(1)] by (simp add: put_args_def)
  then have lk: "lookup kv' k = Some (js \<lparr>ev_Id = i, ev_V = ver\<rparr>, of_nat (Suc N))"
    using put_lookup [of kv "put_args js i k ver"] assms(2) by (simp add: put_args_def add.commute)
  show "store_inv lookup k js kv' (Suc N)" using lk by (auto simp: store_inv_def)
  show "put_done lookup k js kv' (Suc N) i ver" using lk ver by (auto simp: put_done_def)
  show "put_done lookup k js kv N j v \<Longrightarrow> put_done lookup k js kv' (Suc N) j v" by (auto simp: put_done_def intro: less_SucI)
qed

lemma client_inv_performed:
  assumes "\<And>j v. put_done lookup k js kv N j v \<Longrightarrow> put_done lookup k js kv' (Suc N) j v" and "client_inv lookup rel k js kv N i c"
  shows "client_inv lookup rel k js kv' (Suc N) i c"
proof -
  have "at_ok lookup rel k js kv' (Suc N) i (p_at c)"
    using assms by (cases "p_at c") (auto simp: client_inv_def split: if_splits)
  then show ?thesis using assms(2) by (simp add: client_inv_def)
qed

lemma refused_version:
  assumes "store_inv lookup k js kv N" and "put kv (put_args js i k ver) = (kv', e0)" and "e0 \<noteq> OK" and "ver = 0 \<or> 0 < N"
  shows "e0 = ErrVersion \<and> 0 < N"
proof -
  have e0: "e0 = (if ver = of_nat N then OK else if N = 0 then ErrNoKey else ErrVersion)"
    using put_err [of kv "put_args js i k ver"] assms(1,2) store_version [OF assms(1)]
    by (auto simp: put_args_def store_inv_def split: if_splits)
  then show ?thesis using assms(3,4) by (auto split: if_splits)
qed

lemma inv_get:
  assumes st: "store_inv lookup k js kv N" and c: "client_inv lookup rel k js kv N i c" and at: "p_at c = PGet k' ver b e"
    and js: "\<And>x. unjs (js x) = Some x" and N: "N < 2 ^ 64"
  shows "client_inv lookup rel k js kv N i (OnePut_after_Get unjs i k' ver e (clerk_answer lookup kv k') c)"
proof -
  have ok: "k' = k" "0 < N" "rel \<longrightarrow> e \<noteq> ErrMaybe"
    "if b then (e = OK \<or> e = ErrMaybe) \<and> put_done lookup k js kv N i ver else e = ErrVersion \<or> e = ErrMaybe"
    using c at by (auto simp: client_inv_def)
  obtain en where en: "clerk_answer lookup kv k = (js en, of_nat N, OK)" "lookup kv k = Some (js en, of_nat N)"
    using store_answer(1) [OF st ok(2)] st ok(2) by (auto simp: store_inv_def clerk_answer_def)
  have mine: "ev_Id en = i" if eOK: "e = OK" and ver: "of_nat N = ver + 1"
  proof -
    obtain m where m: "m < N" "ver = of_nat m" "N = Suc m \<longrightarrow> lookup kv k = Some (js \<lparr>ev_Id = i, ev_V = ver\<rparr>, of_nat N)"
      using ok(4) eOK by (auto simp: put_done_def split: if_splits)
    have "(of_nat N :: 64 word) = of_nat (Suc m)" using m(2) ver by (simp add: add.commute)
    then have "N = Suc m" using N m(1) by (subst (asm) word_of_nat_eq_iff) (simp add: take_bit_nat_eq_self)
    then have "js en = js \<lparr>ev_Id = i, ev_V = ver\<rparr>" using m(3) en(2) by simp
    then show ?thesis using js by (metis EntryV.select_convs(1) option.inject)
  qed
  obtain m where m: "m \<le> Nmaybe (p_res c)" "nperf c = Nok (p_res c) + m + (if b then 1 else 0)"
    using c at by (auto simp: client_inv_def split: if_splits)
  let ?c = "OnePut_after_Get unjs i k' ver e (clerk_answer lookup kv k') c"
  have g: "GetJson unjs (clerk_answer lookup kv k') = Inr (en, of_nat N)" using en ok(1) js by (simp add: GetJson_def)
  consider "e = OK" "b" | "e = ErrMaybe" | "e = ErrVersion" "\<not> b" using ok(4) by (auto split: if_splits)
  then show ?thesis
  proof cases
    case 1
    then have "?c = c\<lparr>p_at := PTop, verm := (verm c)(k := of_nat N), p_res := (p_res c)\<lparr>Nok := Nok (p_res c) + 1\<rparr>\<rparr>"
      using g mine ok(1) by (auto simp: OnePut_after_Get_def)
    then show ?thesis using 1 c m ok(2) by (auto simp: client_inv_def)
  next
    case 2
    then have "?c = c\<lparr>p_at := PTop, verm := (verm c)(k := of_nat N), p_res := (p_res c)\<lparr>Nmaybe := Nmaybe (p_res c) + 1\<rparr>\<rparr>"
      using g ok(1) by (auto simp: OnePut_after_Get_def)
    moreover have "m + (if b then 1 else 0) \<le> Nmaybe (p_res c) + 1" using m(1) by simp
    ultimately show ?thesis using 2 c m(2) ok(2,3) by (auto simp: client_inv_def)
  next
    case 3
    then have "?c = c\<lparr>p_at := PPut k (of_nat N)\<rparr>" using g ok(1) by (auto simp: OnePut_after_Get_def)
    then show ?thesis using 3 c m ok(2) by (auto simp: client_inv_def)
  qed
qed

lemma inv_step:
  assumes inv: "pinv lookup n rel k js s" and step: "put_step lookup put n rel randomkeys [k] js unjs s t"
    and js: "\<And>x. unjs (js x) = Some x" and N: "p_n t < 2 ^ 64"
  shows "pinv lookup n rel k js t"
proof -
  have st: "store_inv lookup k js (p_store s) (p_n s)" and sum: "p_n s = (\<Sum>i < n. nperf (p_cl s i))"
    and cl: "\<And>i. client_inv lookup rel k js (p_store s) (p_n s) i (p_cl s i)" using inv by (auto simp only: pinv_def)
  show ?thesis
    using step
  proof cases
    case (stop i)
    then show ?thesis using cl [of i] by (auto intro!: pinv_upd [OF inv] simp: client_inv_def)
  next
    case (go i r)
    have "OneClientPut_top randomkeys [k] r (p_cl s i) = (p_cl s i)\<lparr>p_at := PPut k (verm (p_cl s i) k)\<rparr>"
      by (simp add: OneClientPut_top_def)
    then show ?thesis using go cl [of i] by (auto intro!: pinv_upd [OF inv] simp: client_inv_def)
  next
    case (performed i k' ver kv)
    let ?c = "(p_cl s i)\<lparr>p_at := PRet k' ver True OK, nperf := nperf (p_cl s i) + 1\<rparr>"
    have k': "k' = k" using cl [of i] performed by (simp add: client_inv_def)
    have "p_n s < 2 ^ 64 - 1" using N performed by simp
    note p = performed_store [OF st performed(4) [unfolded k'] this]
    have "client_inv lookup rel k js kv (Suc (p_n s)) i ?c"
      using client_inv_performed [OF p(3) cl [of i]] p(2) performed(3) k' by (auto simp: client_inv_def)
    moreover have "client_inv lookup rel k js kv (Suc (p_n s)) j (p_cl s j)" for j
      using client_inv_performed [OF p(3) cl] .
    ultimately have "\<forall>j. client_inv lookup rel k js kv (Suc (p_n s)) j (((p_cl s)(i := ?c)) j)" by simp
    moreover have "Suc (p_n s) = (\<Sum>j < n. nperf (((p_cl s)(i := ?c)) j))"
    proof -
      have "(\<Sum>j < n. nperf (((p_cl s)(i := ?c)) j)) = (\<Sum>j < n. nperf (p_cl s j) + (if j = i then 1 else 0))"
        by (intro sum.cong) auto
      also have "\<dots> = p_n s + 1" using performed(2) sum by (simp add: sum.distrib)
      finally show ?thesis by simp
    qed
    ultimately show ?thesis using p(1) performed(1) unfolding pinv_def upd_def by simp
  next
    case (refused i k' ver kv e0)
    have at: "k' = k" "ver = 0 \<or> 0 < p_n s" using cl [of i] refused by (simp_all add: client_inv_def)
    have "e0 = ErrVersion \<and> 0 < p_n s"
      using refused_version [OF st refused(4) [unfolded at(1)] refused(5) at(2)] .
    then show ?thesis using refused cl [of i] at(1) by (auto intro!: pinv_upd [OF inv] simp: client_inv_def)
  next
    case (return_put i k' ver b e0 e)
    have at: "k' = k" "if b then put_done lookup k js (p_store s) (p_n s) i ver else e0 = ErrVersion \<and> 0 < p_n s"
      using cl [of i] return_put by (simp_all add: client_inv_def)
    then have "0 < p_n s" by (auto simp: put_done_def split: if_splits)
    moreover have "OnePut_after_Put k' ver b e (p_cl s i) = (p_cl s i)\<lparr>p_at := PGet k' ver b e\<rparr>"
      using return_put(4) at(2) by (auto simp: OnePut_after_Put_def put_answer_def split: if_splits)
    moreover have "pending (PGet k' ver b e) = pending (PRet k' ver b e0)" by (cases b) simp_all
    ultimately show ?thesis using return_put cl [of i] at
      by (auto intro!: pinv_upd [OF inv] simp: client_inv_def put_answer_def split: if_splits)
  next
    case (get i k' ver b e)
    have "p_n s < 2 ^ 64" using N get(1) by (simp add: upd_def)
    then have "client_inv lookup rel k js (p_store s) (p_n s) i (OnePut_after_Get unjs i k' ver e (clerk_answer lookup (p_store s) k') (p_cl s i))"
      using inv_get [OF st cl get(3) js] by blast
    moreover have "nperf (OnePut_after_Get unjs i k' ver e (clerk_answer lookup (p_store s) k') (p_cl s i)) = nperf (p_cl s i)"
      by (auto simp: OnePut_after_Get_def split: sum.splits)
    ultimately show ?thesis using get(1) pinv_upd [OF inv] by simp
  qed
qed

lemma put_step_mono: "put_step lookup put n rel randomkeys ka js unjs s t \<Longrightarrow> p_n s \<le> p_n t"
  by (induction rule: put_step.induct) (simp_all add: upd_def)

lemma pinv_init: "lookup s0 k = None \<Longrightarrow> pinv lookup n rel k js (put_init s0)"
  by (simp add: pinv_def put_init_def store_inv_def client_inv_def)

lemma put_reach_inv:
  assumes "put_reach lookup put s0 n rel randomkeys [k] js unjs s" and js: "\<And>x. unjs (js x) = Some x" and "p_n s < 2 ^ 64"
    and "lookup s0 k = None"
  shows "pinv lookup n rel k js s"
  using assms(1,3) unfolding put_reach_def
proof (induction rule: rtranclp_induct)
  case base
  show ?case by (rule pinv_init) fact
next
  case (step s t)
  have "p_n s < 2 ^ 64" using put_step_mono [OF step(2)] step.prems by simp
  then show ?case using inv_step [OF _ step(2) js step.prems] step.IH by blast
qed

lemma res_sum:
  "foldl (\<lambda>s r. s\<lparr>Nok := Nok s + Nok r, Nmaybe := Nmaybe s + Nmaybe r\<rparr>) z (map f [0..<n]) =
     z\<lparr>Nok := Nok z + (\<Sum>i < n. Nok (f i)), Nmaybe := Nmaybe z + (\<Sum>i < n. Nmaybe (f i))\<rparr>"
  by (induction n) simp_all

lemma puts_accepted:
  assumes "put_reach lookup put s0 n rel randomkeys [k] js unjs s" and js: "\<And>x. unjs (js x) = Some x" and "p_n s < 2 ^ 64"
    and "(\<Sum>i < n. Nok (p_res (p_cl s i))) + (\<Sum>i < n. Nmaybe (p_res (p_cl s i))) < 2 ^ 64"
    and "lookup s0 k = None"
  shows "(\<forall>i e. p_at (p_cl s i) \<noteq> PFail e) \<and>
    ((\<forall>i < n. p_at (p_cl s i) = PDone) \<and> (\<exists>i < n. 0 < Nok (p_res (p_cl s i)) + Nmaybe (p_res (p_cl s i))) \<longrightarrow>
      CheckPutConcurrent unjs (clerk_answer lookup (p_store s) k) (map (\<lambda>i. p_res (p_cl s i)) [0..<n]) \<lparr>Nok = 0, Nmaybe = 0\<rparr> rel =
        Inr \<lparr>Nok = (\<Sum>i < n. Nok (p_res (p_cl s i))), Nmaybe = (\<Sum>i < n. Nmaybe (p_res (p_cl s i)))\<rparr>)"
    (is "?safe \<and> (?done \<longrightarrow> ?check)")
proof
  note inv = put_reach_inv [OF assms(1) js assms(3,5)]
  have st: "store_inv lookup k js (p_store s) (p_n s)" and sum: "p_n s = (\<Sum>i < n. nperf (p_cl s i))"
    and cl: "\<And>i. client_inv lookup rel k js (p_store s) (p_n s) i (p_cl s i)" using inv by (auto simp only: pinv_def)
  show ?safe
  proof (intro allI notI)
    fix i e
    assume "p_at (p_cl s i) = PFail e"
    then show False using cl [of i] by (simp add: client_inv_def)
  qed
  show "?done \<longrightarrow> ?check"
  proof
    assume d: ?done
    let ?ok = "\<lambda>i. Nok (p_res (p_cl s i))" and ?may = "\<lambda>i. Nmaybe (p_res (p_cl s i))"
    have c: "nperf (p_cl s i) \<le> ?ok i + ?may i" "rel \<Longrightarrow> nperf (p_cl s i) = ?ok i" if "i < n" for i
    proof -
      have "p_at (p_cl s i) = PDone" using d \<open>i < n\<close> by blast
      then obtain m where "m \<le> ?may i" "nperf (p_cl s i) = ?ok i + m" "rel \<longrightarrow> ?may i = 0"
        using cl [of i] by (auto simp: client_inv_def)
      then show "nperf (p_cl s i) \<le> ?ok i + ?may i" "rel \<Longrightarrow> nperf (p_cl s i) = ?ok i" by auto
    qed
    have le: "p_n s \<le> (\<Sum>i < n. ?ok i) + (\<Sum>i < n. ?may i)"
      unfolding sum sum.distrib [symmetric] by (rule sum_mono) (use c in auto)
    have eq: "p_n s = (\<Sum>i < n. ?ok i)" if rel unfolding sum by (rule sum.cong) (use c that in auto)
    have "0 < p_n s" using d cl by (auto simp: client_inv_def)
    then obtain en where "clerk_answer lookup (p_store s) k = (js en, of_nat (p_n s), OK)" using store_answer(1) [OF st] by blast
    then have g: "GetJson unjs (clerk_answer lookup (p_store s) k) = Inr (en, of_nat (p_n s))" using js by (simp add: GetJson_def)
    have "\<not> (of_nat (p_n s) :: 64 word) > of_nat ((\<Sum>i < n. ?ok i) + (\<Sum>i < n. ?may i))"
      using le assms(4) by (simp add: word_of_nat_less_iff take_bit_nat_eq_self del: of_nat_add)
    then show ?check using g eq by (simp add: CheckPutConcurrent_def res_sum Let_def)
  qed
qed

end

section \<open>Properties of the put test\<close>

text \<open>
  C38. The concurrent put test accepts every run. Any number of clients repeat \<open>OnePut\<close> on one
  key, under any interleaving and over any network, each put answered as the clerk answers it: no
  client ever stops the test with an unexpected error, a missing key, a value that does not decode
  or a foreign value in place of its own. When all clients have returned and at least one has
  finished a put, \<open>CheckPutConcurrent\<close> accepts the version it reads: the number of puts reported
  as \<open>OK\<close> over a reliable network, at most the number of \<open>OK\<close> and \<open>ErrMaybe\<close> otherwise.
\<close>

theorem concurrent_puts_accepted:
  assumes "put_reach srv_lookup srv_put MakeKVServer n rel randomkeys [k] js unjs s" and js: "\<And>x. unjs (js x) = Some x" and "p_n s < 2 ^ 64"
    and "(\<Sum>i < n. Nok (p_res (p_cl s i))) + (\<Sum>i < n. Nmaybe (p_res (p_cl s i))) < 2 ^ 64"
  shows "(\<forall>i e. p_at (p_cl s i) \<noteq> PFail e) \<and>
    ((\<forall>i < n. p_at (p_cl s i) = PDone) \<and> (\<exists>i < n. 0 < Nok (p_res (p_cl s i)) + Nmaybe (p_res (p_cl s i))) \<longrightarrow>
      CheckPutConcurrent unjs (clerk_answer srv_lookup (p_store s) k) (map (\<lambda>i. p_res (p_cl s i)) [0..<n]) \<lparr>Nok = 0, Nmaybe = 0\<rparr> rel =
        Inr \<lparr>Nok = (\<Sum>i < n. Nok (p_res (p_cl s i))), Nmaybe = (\<Sum>i < n. Nmaybe (p_res (p_cl s i)))\<rparr>)"
  by (rule ks.puts_accepted [OF assms]) (simp add: srv_lookup_def MakeKVServer_def)

text \<open>The same for the replicated service, whose replicas are also a versioned store.\<close>

lemma concurrent_puts_accepted_replicated:
  assumes "put_reach rsrv_lookup rsrv_put \<lparr>r_kv_map = Map.empty\<rparr> n rel randomkeys [k] js unjs s" and js: "\<And>x. unjs (js x) = Some x" and "p_n s < 2 ^ 64"
    and "(\<Sum>i < n. Nok (p_res (p_cl s i))) + (\<Sum>i < n. Nmaybe (p_res (p_cl s i))) < 2 ^ 64"
  shows "(\<forall>i e. p_at (p_cl s i) \<noteq> PFail e) \<and>
    ((\<forall>i < n. p_at (p_cl s i) = PDone) \<and> (\<exists>i < n. 0 < Nok (p_res (p_cl s i)) + Nmaybe (p_res (p_cl s i))) \<longrightarrow>
      CheckPutConcurrent unjs (clerk_answer rsrv_lookup (p_store s) k) (map (\<lambda>i. p_res (p_cl s i)) [0..<n]) \<lparr>Nok = 0, Nmaybe = 0\<rparr> rel =
        Inr \<lparr>Nok = (\<Sum>i < n. Nok (p_res (p_cl s i))), Nmaybe = (\<Sum>i < n. Nmaybe (p_res (p_cl s i)))\<rparr>)"
  by (rule kr.puts_accepted [OF assms]) (simp add: rsrv_lookup_def)

text \<open>A run of one client over a reliable network, with a simple text format for the entries.\<close>

definition sample_js :: "EntryV \<Rightarrow> string" where
  "sample_js e = replicate (ev_Id e) (CHR ''x'') @ CHR '','' # replicate (unat (ev_V e)) (CHR ''x'')"

definition sample_unjs :: "string \<Rightarrow> EntryV option" where
  "sample_unjs s =
     Some \<lparr>ev_Id = length (takeWhile (\<lambda>c. c = CHR ''x'') s), ev_V = of_nat (length (dropWhile (\<lambda>c. c = CHR ''x'') s) - 1)\<rparr>"

lemma sample_json: "sample_unjs (sample_js e) = Some e"
  by (simp add: sample_unjs_def sample_js_def takeWhile_append dropWhile_append)

definition sample_run :: "KVServer put_sys" where
  "sample_run = \<lparr>p_store = fst (srv_put MakeKVServer (put_args sample_js 0 ''k'' 0)),
     p_cl = (p_cl (put_init MakeKVServer))(0 := \<lparr>p_at = PDone, verm = (\<lambda>_. 0)(''k'' := 1), p_res = \<lparr>Nok = 1, Nmaybe = 0\<rparr>, nperf = 1\<rparr>), p_n = 1\<rparr>"

lemma sample_reach: "put_reach srv_lookup srv_put MakeKVServer 1 True False [''k''] sample_js sample_unjs sample_run"
proof -
  let ?step = "put_step srv_lookup srv_put 1 True False [''k''] sample_js sample_unjs"
  let ?c = "p_cl (put_init MakeKVServer) 0"
  let ?kv = "fst (srv_put MakeKVServer (put_args sample_js 0 ''k'' 0))"
  let ?s1 = "upd (put_init MakeKVServer) 0 (?c\<lparr>p_at := PPut ''k'' 0\<rparr>)"
  let ?s2 = "(upd ?s1 0 (?c\<lparr>p_at := PRet ''k'' 0 True OK, nperf := 1\<rparr>))\<lparr>p_store := ?kv, p_n := 1\<rparr>"
  let ?s3 = "upd ?s2 0 (?c\<lparr>p_at := PGet ''k'' 0 True OK, nperf := 1\<rparr>)"
  let ?s4 = "upd ?s3 0 (?c\<lparr>p_at := PTop, verm := (\<lambda>_. 0)(''k'' := 1), p_res := \<lparr>Nok = 1, Nmaybe = 0\<rparr>, nperf := 1\<rparr>)"
  have put: "srv_put MakeKVServer (put_args sample_js 0 ''k'' 0) = (?kv, OK)"
    by (simp add: srv_put_def KVServer_Put_def MakeKVServer_def put_args_def zeroPutReply_def)
  have ans: "clerk_answer srv_lookup ?kv ''k'' = (sample_js \<lparr>ev_Id = 0, ev_V = 0\<rparr>, 1, OK)"
    by (simp add: clerk_answer_def srv_lookup_def srv_put_def KVServer_Put_def MakeKVServer_def put_args_def)
  have "?step (put_init MakeKVServer) ?s1"
    using put_step.go [of 0 1 "put_init MakeKVServer" srv_lookup srv_put True False "[''k'']" sample_js sample_unjs 0]
    by (simp add: put_init_def OneClientPut_top_def)
  moreover have "?step ?s1 ?s2"
    using put_step.performed [of 0 1 ?s1 "''k''" 0 srv_put sample_js ?kv srv_lookup True False "[''k'']" sample_unjs] put
    by (simp add: put_init_def upd_def)
  moreover have "?step ?s2 ?s3"
    using put_step.return_put [of 0 1 ?s2 "''k''" 0 True OK True OK srv_lookup srv_put False "[''k'']" sample_js sample_unjs]
    by (simp add: upd_def put_answer_def OnePut_after_Put_def put_init_def)
  moreover have "?step ?s3 ?s4"
    using put_step.get [of 0 1 ?s3 "''k''" 0 True OK srv_lookup srv_put True False "[''k'']" sample_js sample_unjs] ans
    by (simp add: upd_def OnePut_after_Get_def GetJson_def sample_json put_init_def)
  moreover have "?step ?s4 sample_run"
    using put_step.stop [of 0 1 ?s4 srv_lookup srv_put True False "[''k'']" sample_js sample_unjs]
    by (simp add: upd_def sample_run_def put_init_def)
  ultimately show ?thesis unfolding put_reach_def by (meson rtranclp.rtrancl_into_rtrancl rtranclp.rtrancl_refl)
qed

theorem concurrent_puts_accepted_witness:
  "CheckPutConcurrent sample_unjs (clerk_answer srv_lookup (p_store sample_run) ''k'') [\<lparr>Nok = 1, Nmaybe = 0\<rparr>] \<lparr>Nok = 0, Nmaybe = 0\<rparr> True =
     Inr \<lparr>Nok = 1, Nmaybe = 0\<rparr>"
  using concurrent_puts_accepted [OF sample_reach sample_json] by (simp add: sample_run_def)

section \<open>Puts and gets of one client\<close>

text \<open>
  \<open>PutAtLeastOnce\<close> with fuel, over the clerk's put as a function on a world: it raises its
  version until the put is accepted. \<open>PutAtLeastOnceJson\<close> always puts with version 0 and counts its own version.
\<close>

fun PutAtLeastOnce :: "('w \<Rightarrow> PutArgs \<Rightarrow> 'w \<times> Err) \<Rightarrow> nat \<Rightarrow> 'w \<Rightarrow> string \<Rightarrow> string \<Rightarrow> Tversion \<Rightarrow> ('w \<times> Tversion) res option" where
  "PutAtLeastOnce put 0 w key val ver = None"
| "PutAtLeastOnce put (Suc n) w key val ver =
     (case put w \<lparr>PutKey = key, PutValue = val, PutVersion = ver\<rparr> of (w', e) \<Rightarrow>
        if e = OK then Some (Inr (w', ver + 1))
        else if e = ErrMaybe \<or> e = ErrVersion then PutAtLeastOnce put n w' key val (ver + 1)
        else if ver \<noteq> 0 then Some (Inl Fatal)
        else PutAtLeastOnce put n w' key val ver)"

fun PutAtLeastOnceJson :: "('w \<Rightarrow> PutArgs \<Rightarrow> 'w \<times> Err) \<Rightarrow> nat \<Rightarrow> 'w \<Rightarrow> string \<Rightarrow> string \<Rightarrow> Tversion \<Rightarrow> ('w \<times> Tversion) option" where
  "PutAtLeastOnceJson put 0 w key val ver = None"
| "PutAtLeastOnceJson put (Suc n) w key val ver =
     (case put w \<lparr>PutKey = key, PutValue = val, PutVersion = 0\<rparr> of (w', e) \<Rightarrow>
        if e \<noteq> ErrMaybe then Some (w', ver) else PutAtLeastOnceJson put n w' key val (ver + 1))"

definition CheckGet :: "string \<times> Tversion \<times> Err \<Rightarrow> string \<Rightarrow> Tversion \<Rightarrow> unit res" where
  "CheckGet ans val version =
     (case ans of (val', ver', e) \<Rightarrow>
        if e \<noteq> OK then Inl Fatal else if val' \<noteq> val \<or> ver' \<noteq> version then Inl Fatal else Inr ())"

definition MakeKeys :: "nat \<Rightarrow> string list" where
  "MakeKeys n = map (\<lambda>i. ''k'' @ itoa i) [0..<n]"

text \<open>\<open>SpreadPutsSize\<close>, given the random values: the answers to the puts are not looked at.\<close>

definition SpreadPuts :: "string list \<Rightarrow> KVServer \<Rightarrow> (KVServer \<times> string list) res" where
  "SpreadPuts va kv =
     (let ka = MakeKeys (length va);
          kv' = foldl (\<lambda>kv (k, x). fst (srv_put kv \<lparr>PutKey = k, PutValue = x, PutVersion = 0\<rparr>)) kv (zip ka va)
      in bindr (for_each (\<lambda>(k, x) _. CheckGet (clerk_answer srv_lookup kv' k) x 1) (zip ka va) ()) (\<lambda>_. Inr (kv', ka)))"

text \<open>Over a reliable network \<open>PutAtLeastOnce\<close> ends with the value stored, at the version it returns.\<close>

lemma put_at_least_once_stores:
  assumes "srv_lookup kv k = Some (y, ver + of_nat d)" and "d < 2 ^ 64" and "d < n"
  shows "\<exists>kv'. PutAtLeastOnce srv_put n kv k x ver = Some (Inr (kv', ver + of_nat d + 1)) \<and>
           srv_lookup kv' k = Some (x, ver + of_nat d + 1)"
  using assms
proof (induction n arbitrary: ver d)
  case (Suc n)
  let ?a = "\<lparr>PutKey = k, PutValue = x, PutVersion = ver\<rparr>"
  show ?case
  proof (cases d)
    case 0
    have ok: "snd (srv_put kv ?a) = OK" using Suc.prems(1) 0 by (simp add: ks.put_OK_iff ver_of_def)
    then have "srv_lookup (fst (srv_put kv ?a)) k = Some (x, ver + 1)" using ks.put_lookup [OF ok] by simp
    then show ?thesis using ok 0 by (cases "srv_put kv ?a") auto
  next
    case (Suc d')
    have "(of_nat d :: 64 word) \<noteq> 0" using word_of_nat_neq_0 [of d] Suc Suc.prems(2) by simp
    then have "srv_put kv ?a = (kv, ErrVersion)" using Suc.prems(1) ks.put_stale [of kv ?a y] by simp
    moreover have "srv_lookup kv k = Some (y, (ver + 1) + of_nat d')" using Suc.prems(1) Suc by (simp add: ac_simps)
    ultimately show ?thesis using Suc.IH [of "ver + 1" d'] Suc Suc.prems(2,3) by (simp add: ac_simps)
  qed
qed simp

lemma MakeKeys_distinct: "distinct (MakeKeys n)"
  by (auto simp: MakeKeys_def distinct_map inj_on_def itoa_inj)

lemma spread_lookup:
  "distinct (map fst ps) \<Longrightarrow> \<forall>k \<in> set (map fst ps). srv_lookup kv k = None \<Longrightarrow>
   srv_lookup (foldl (\<lambda>kv (k, x). fst (srv_put kv \<lparr>PutKey = k, PutValue = x, PutVersion = 0\<rparr>)) kv ps) j =
     (case map_of ps j of Some x \<Rightarrow> Some (x, 1) | None \<Rightarrow> srv_lookup kv j)"
proof (induction ps arbitrary: kv)
  case (Cons p ps)
  obtain k x where p: "p = (k, x)" by (cases p)
  let ?a = "\<lparr>PutKey = k, PutValue = x, PutVersion = 0\<rparr>"
  have "snd (srv_put kv ?a) = OK" using Cons.prems(2) p by (simp add: ks.put_OK_iff ver_of_def)
  then have lk: "srv_lookup (fst (srv_put kv ?a)) = (srv_lookup kv)(k \<mapsto> (x, 1))" using ks.put_lookup [of kv ?a] by simp
  have "\<forall>k' \<in> set (map fst ps). srv_lookup (fst (srv_put kv ?a)) k' = None" using Cons.prems p lk by auto
  moreover have "map_of ps k = None" using Cons.prems(1) p by (simp add: map_of_eq_None_iff)
  ultimately show ?case using Cons.IH [of "fst (srv_put kv ?a)"] Cons.prems(1) p lk by (auto split: option.split)
qed simp

text \<open>On a server without these keys \<open>SpreadPuts\<close> finds every value with version 1.\<close>

lemma spread_puts_pass:
  assumes "\<And>i. i < length va \<Longrightarrow> srv_lookup kv (''k'' @ itoa i) = None"
  shows "returns (SpreadPuts va kv) (\<lambda>(kv', ka). \<forall>i < length va. srv_lookup kv' (ka ! i) = Some (va ! i, 1))"
proof -
  let ?ka = "MakeKeys (length va)"
  let ?kv = "foldl (\<lambda>kv (k, x). fst (srv_put kv \<lparr>PutKey = k, PutValue = x, PutVersion = 0\<rparr>)) kv (zip ?ka va)"
  have fst: "map fst (zip ?ka va) = ?ka" by (simp add: MakeKeys_def)
  have none: "\<forall>k \<in> set (map fst (zip ?ka va)). srv_lookup kv k = None" unfolding fst using assms by (auto simp: MakeKeys_def)
  have lk: "srv_lookup ?kv (?ka ! i) = Some (va ! i, 1)" if "i < length va" for i
  proof -
    have "(?ka ! i, va ! i) \<in> set (zip ?ka va)" using that by (auto simp: in_set_zip MakeKeys_def intro: exI [of _ i])
    then have "map_of (zip ?ka va) (?ka ! i) = Some (va ! i)" using MakeKeys_distinct [of "length va"] fst by simp
    then show ?thesis using spread_lookup [OF _ none] MakeKeys_distinct [of "length va"] fst by simp
  qed
  have check: "CheckGet (clerk_answer srv_lookup ?kv k) x 1 = Inr ()" if kx: "(k, x) \<in> set (zip ?ka va)" for k x
  proof -
    obtain i where "i < length va" "k = ?ka ! i" "x = va ! i" using kx by (auto simp: set_zip)
    then show ?thesis using lk by (simp add: CheckGet_def clerk_answer_def)
  qed
  have "returns (for_each (\<lambda>(k, x) _. CheckGet (clerk_answer srv_lookup ?kv k) x 1) (zip ?ka va) ()) (\<lambda>_. True)"
    by (rule for_each_returns) (use check in auto)
  then show ?thesis using lk by (auto simp: SpreadPuts_def Let_def returns_def)
qed

end
