(* ===== verification/KvAppend.thy ===== *)
theory KvAppend
  imports KvTest
begin

text \<open>
  The append clients of kvtest1/kvtest.go: each appends its own numbered entries to a list that
  all clients share, with a get and a conditional put, and \<open>CheckAppends\<close> looks at the final
  list. As in theory \<open>KvTest\<close> a client is the code between two calls of its clerk and the clients
  are a step relation; the theory shows that the check accepts every run.
\<close>

section \<open>The client and the check\<close>

record EntryN =
  en_Id :: nat
  en_N :: nat

datatype apc =
    ATop
  | AGet
  | APut Tversion "EntryN list"
  | ARet bool Err
  | ADone
  | AFail panic

record app_client =
  a_at :: apc
  a_i :: nat
  a_res :: ClntRes

definition OneClientAppend_after_Get ::
  "(string \<Rightarrow> EntryN list option) \<Rightarrow> nat \<Rightarrow> string \<times> Tversion \<times> Err \<Rightarrow> app_client \<Rightarrow> app_client" where
  "OneClientAppend_after_Get unjs i ans c =
     (case GetJson unjs ans of
        Inl x \<Rightarrow> c\<lparr>a_at := AFail x\<rparr>
      | Inr (es, ver) \<Rightarrow> c\<lparr>a_at := APut ver (es @ [\<lparr>en_Id = i, en_N = a_i c\<rparr>])\<rparr>)"

definition OneClientAppend_after_Put :: "Err \<Rightarrow> app_client \<Rightarrow> app_client" where
  "OneClientAppend_after_Put e c =
     (if e = OK then c\<lparr>a_at := ATop, a_i := a_i c + 1, a_res := (a_res c)\<lparr>Nok := Nok (a_res c) + 1\<rparr>\<rparr>
      else if e = ErrMaybe then c\<lparr>a_at := ATop, a_i := a_i c + 1, a_res := (a_res c)\<lparr>Nmaybe := Nmaybe (a_res c) + 1\<rparr>\<rparr>
      else c\<lparr>a_at := AGet\<rparr>)"

text \<open>
  The check: a missing entry of a Go map reads as 0; the keys of the maps are the clients and
  the identifiers found in the list.
\<close>

definition append_entry :: "EntryN \<Rightarrow> (nat \<Rightarrow> nat) \<times> (nat \<Rightarrow> nat) \<Rightarrow> ((nat \<Rightarrow> nat) \<times> (nat \<Rightarrow> nat)) res" where
  "append_entry e st =
     (case st of (expect, skipped) \<Rightarrow>
        if expect (en_Id e) > en_N e then Inl Fatal
        else if expect (en_Id e) = en_N e then Inr (expect(en_Id e := expect (en_Id e) + 1), skipped)
        else let sk = en_N e - expect (en_Id e)
             in Inr (expect(en_Id e := en_N e + 1), skipped(en_Id e := skipped (en_Id e) + sk)))"

definition CheckAppends :: "EntryN list \<Rightarrow> nat \<Rightarrow> ClntRes list \<Rightarrow> Tversion \<Rightarrow> unit res" where
  "CheckAppends es nclnt rs ver =
     bindr (for_each append_entry es (\<lambda>_. 0, \<lambda>_. 0)) (\<lambda>(expect, skipped).
       if int (length es) + 1 \<noteq> sint ver then Inl Fatal
       else for_each (\<lambda>c _. bindr (idx rs c) (\<lambda>r.
              if skipped c > Nmaybe r then Inl Fatal
              else if expect c > Nok r + Nmaybe r then Inl Fatal
              else Inr ())) (remdups ([0..<nclnt] @ map en_Id es)) ())"

section \<open>The clients of one server\<close>

record 's app_sys =
  a_store :: 's
  a_cl :: "nat \<Rightarrow> app_client"
  a_es :: "EntryN list"  \<comment> \<open>the list written by the last put\<close>
  a_n :: nat              \<comment> \<open>the appends performed\<close>

definition app_upd :: "'s app_sys \<Rightarrow> nat \<Rightarrow> app_client \<Rightarrow> 's app_sys" where
  "app_upd s i c = s\<lparr>a_cl := (a_cl s)(i := c)\<rparr>"

definition app_args :: "(EntryN list \<Rightarrow> string) \<Rightarrow> EntryN list \<Rightarrow> Tversion \<Rightarrow> PutArgs" where
  "app_args js es ver = \<lparr>PutKey = ''k'', PutValue = js es, PutVersion = ver\<rparr>"

inductive app_step ::
  "('s \<Rightarrow> string \<Rightarrow> (string \<times> Tversion) option) \<Rightarrow> ('s \<Rightarrow> PutArgs \<Rightarrow> 's \<times> Err) \<Rightarrow> nat \<Rightarrow> bool \<Rightarrow>
   (EntryN list \<Rightarrow> string) \<Rightarrow> (string \<Rightarrow> EntryN list option) \<Rightarrow> 's app_sys \<Rightarrow> 's app_sys \<Rightarrow> bool"
  for lookup put n rel js unjs where
  stop: "i < n \<Longrightarrow> a_at (a_cl s i) = ATop \<Longrightarrow> app_step lookup put n rel js unjs s (app_upd s i ((a_cl s i)\<lparr>a_at := ADone\<rparr>))"
| go: "i < n \<Longrightarrow> a_at (a_cl s i) = ATop \<Longrightarrow> app_step lookup put n rel js unjs s (app_upd s i ((a_cl s i)\<lparr>a_at := AGet\<rparr>))"
| get: "i < n \<Longrightarrow> a_at (a_cl s i) = AGet \<Longrightarrow>
     app_step lookup put n rel js unjs s (app_upd s i (OneClientAppend_after_Get unjs i (clerk_answer lookup (a_store s) ''k'') (a_cl s i)))"
| performed: "i < n \<Longrightarrow> a_at (a_cl s i) = APut ver es \<Longrightarrow> put (a_store s) (app_args js es ver) = (kv, OK) \<Longrightarrow>
     app_step lookup put n rel js unjs s ((app_upd s i ((a_cl s i)\<lparr>a_at := ARet True OK\<rparr>))\<lparr>a_store := kv, a_es := es, a_n := a_n s + 1\<rparr>)"
| refused: "i < n \<Longrightarrow> a_at (a_cl s i) = APut ver es \<Longrightarrow> put (a_store s) (app_args js es ver) = (kv, e0) \<Longrightarrow> e0 \<noteq> OK \<Longrightarrow>
     app_step lookup put n rel js unjs s (app_upd s i ((a_cl s i)\<lparr>a_at := ARet False e0\<rparr>))"
| return_put: "i < n \<Longrightarrow> a_at (a_cl s i) = ARet b e0 \<Longrightarrow> put_answer rel b e0 e \<Longrightarrow>
     app_step lookup put n rel js unjs s (app_upd s i (OneClientAppend_after_Put e (a_cl s i)))"

text \<open>The start: the empty list has been put.\<close>

definition app_init :: "('s \<Rightarrow> PutArgs \<Rightarrow> 's \<times> Err) \<Rightarrow> 's \<Rightarrow> (EntryN list \<Rightarrow> string) \<Rightarrow> 's app_sys" where
  "app_init put s0 js = \<lparr>a_store = fst (put s0 (app_args js [] 0)),
     a_cl = (\<lambda>_. \<lparr>a_at = ATop, a_i = 0, a_res = \<lparr>Nok = 0, Nmaybe = 0\<rparr>\<rparr>), a_es = [], a_n = 0\<rparr>"

definition app_reach ::
  "('s \<Rightarrow> string \<Rightarrow> (string \<times> Tversion) option) \<Rightarrow> ('s \<Rightarrow> PutArgs \<Rightarrow> 's \<times> Err) \<Rightarrow> 's \<Rightarrow> nat \<Rightarrow> bool \<Rightarrow> (EntryN list \<Rightarrow> string) \<Rightarrow> (string \<Rightarrow> EntryN list option) \<Rightarrow> 's app_sys \<Rightarrow> bool" where
  "app_reach lookup put s0 n rel js unjs = (app_step lookup put n rel js unjs)\<^sup>*\<^sup>* (app_init put s0 js)"

section \<open>Invariant\<close>

text \<open>The numbers client \<open>i\<close> has in the list.\<close>

definition mine :: "EntryN list \<Rightarrow> nat \<Rightarrow> nat list" where
  "mine es i = map en_N (filter (\<lambda>e. en_Id e = i) es)"

lemma mine_append [simp]: "mine (es @ [e]) i = mine es i @ (if en_Id e = i then [en_N e] else [])"
  by (simp add: mine_def)

lemma mine_Nil [simp]: "mine [] i = []"
  by (simp add: mine_def)

text \<open>
  Its numbers increase and are below its counter, the current one included if its put has
  been performed but not yet counted; numbers that are missing have been counted as \<open>ErrMaybe\<close>.
\<close>

definition in_flight :: "apc \<Rightarrow> bool" where
  "in_flight p \<longleftrightarrow> (\<exists>e. p = ARet True e)"

definition was_read :: "EntryN list \<Rightarrow> EntryN \<Rightarrow> Tversion \<Rightarrow> EntryN list \<Rightarrow> bool" where
  "was_read es e ver es0 \<longleftrightarrow> (\<exists>m \<le> length es. ver = of_nat (Suc m) \<and> es0 = take m es @ [e])"

definition app_client_inv :: "EntryN list \<Rightarrow> nat \<Rightarrow> app_client \<Rightarrow> bool" where
  "app_client_inv es i c \<longleftrightarrow>
     sorted_wrt (<) (mine es i) \<and>
     (\<forall>x \<in> set (mine es i). x < a_i c + (if in_flight (a_at c) then 1 else 0)) \<and>
     a_i c + (if in_flight (a_at c) then 1 else 0) \<le> length (mine es i) + Nmaybe (a_res c) \<and>
     a_i c = Nok (a_res c) + Nmaybe (a_res c) \<and>
     (case a_at c of
        APut ver es0 \<Rightarrow> was_read es \<lparr>en_Id = i, en_N = a_i c\<rparr> ver es0
      | ARet b e0 \<Rightarrow> b \<or> e0 = ErrVersion
      | AFail e \<Rightarrow> False
      | _ \<Rightarrow> True)"

definition app_inv :: "('s \<Rightarrow> string \<Rightarrow> (string \<times> Tversion) option) \<Rightarrow> nat \<Rightarrow> (EntryN list \<Rightarrow> string) \<Rightarrow> 's app_sys \<Rightarrow> bool" where
  "app_inv lookup n js s \<longleftrightarrow>
     lookup (a_store s) ''k'' = Some (js (a_es s), of_nat (Suc (length (a_es s)))) \<and> length (a_es s) = a_n s \<and>
     (\<forall>e \<in> set (a_es s). en_Id e < n) \<and> (\<forall>i. app_client_inv (a_es s) i (a_cl s i))"

lemma app_inv_upd: "app_inv lookup n js s \<Longrightarrow> app_client_inv (a_es s) i c \<Longrightarrow> app_inv lookup n js (app_upd s i c)"
  by (simp add: app_inv_def app_upd_def)

text \<open>An entry of another client does not disturb: a pending put of an old list will be refused.\<close>

lemma was_read_append: "was_read es x ver es0 \<Longrightarrow> was_read (es @ [e]) x ver es0"
  unfolding was_read_def by (elim exE conjE) (rule_tac x = m in exI, simp)

lemma app_client_other: "app_client_inv es j c \<Longrightarrow> en_Id e \<noteq> j \<Longrightarrow> app_client_inv (es @ [e]) j c"
  unfolding app_client_inv_def by (auto simp: was_read_append split: apc.splits)

context versioned_store
begin

lemma app_performed:
  assumes inv: "app_inv lookup n js s" and i: "i < n" and at: "a_at (a_cl s i) = APut ver es"
    and put: "put (a_store s) (app_args js es ver) = (kv, OK)" and len: "a_n s < 2 ^ 63"
  shows "app_inv lookup n js ((app_upd s i ((a_cl s i)\<lparr>a_at := ARet True OK\<rparr>))\<lparr>a_store := kv, a_es := es, a_n := a_n s + 1\<rparr>)"
proof -
  let ?c = "a_cl s i"
  have c: "app_client_inv (a_es s) i ?c" and n: "length (a_es s) = a_n s" using inv by (simp_all add: app_inv_def)
  obtain m where m: "m \<le> length (a_es s)" "ver = of_nat (Suc m)" "es = take m (a_es s) @ [\<lparr>en_Id = i, en_N = a_i ?c\<rparr>]"
    using c at by (auto simp: app_client_inv_def was_read_def)
  have "ver = of_nat (Suc (length (a_es s)))"
    using put_OK_iff [of "a_store s" "app_args js es ver"] put inv by (simp add: app_inv_def app_args_def ver_of_def)
  then have "take_bit 64 (Suc m) = take_bit 64 (Suc (length (a_es s)))" using m(2) by (simp add: word_of_nat_eq_iff del: of_nat_Suc)
  then have "m = length (a_es s)" using m(1) len n by (simp add: take_bit_nat_eq_self)
  then have es: "es = a_es s @ [\<lparr>en_Id = i, en_N = a_i ?c\<rparr>]" using m(3) by simp
  have "lookup kv ''k'' = Some (js es, ver + 1)"
    using put_lookup [of "a_store s" "app_args js es ver"] put by (simp add: app_args_def)
  then have "lookup kv ''k'' = Some (js es, of_nat (Suc (length es)))"
    using m(2) es \<open>m = length (a_es s)\<close> by (simp add: add.commute)
  moreover have "app_client_inv es i (?c\<lparr>a_at := ARet True OK\<rparr>)"
    using c at es by (auto simp: app_client_inv_def in_flight_def sorted_wrt_append)
  moreover have "app_client_inv es j (a_cl s j)" if "j \<noteq> i" for j
    using app_client_other [of "a_es s" j "a_cl s j"] inv that unfolding es app_inv_def by auto
  moreover have "\<forall>e \<in> set es. en_Id e < n" using inv i es by (auto simp: app_inv_def)
  moreover have "length es = Suc (a_n s)" using es n by simp
  ultimately show ?thesis by (simp add: app_inv_def app_upd_def)
qed

lemma app_step_inv:
  assumes inv: "app_inv lookup n js s" and step: "app_step lookup put n rel js unjs s t"
    and js: "\<And>x. unjs (js x) = Some x" and len: "a_n t < 2 ^ 63"
  shows "app_inv lookup n js t"
proof -
  have c: "app_client_inv (a_es s) i (a_cl s i)" for i using inv by (simp add: app_inv_def)
  have ans: "clerk_answer lookup (a_store s) ''k'' = (js (a_es s), of_nat (Suc (length (a_es s))), OK)"
    using inv by (simp add: app_inv_def clerk_answer_def)
  show ?thesis
    using step
  proof cases
    case (stop i)
    then show ?thesis using c [of i] by (auto intro!: app_inv_upd [OF inv] simp: app_client_inv_def in_flight_def)
  next
    case (go i)
    then show ?thesis using c [of i] by (auto intro!: app_inv_upd [OF inv] simp: app_client_inv_def in_flight_def)
  next
    case (get i)
    have "was_read (a_es s) e (of_nat (Suc (length (a_es s)))) (a_es s @ [e])" for e
      by (auto simp: was_read_def intro!: exI [of _ "length (a_es s)"])
    then show ?thesis using get c [of i] ans js
      by (auto intro!: app_inv_upd [OF inv] simp: app_client_inv_def in_flight_def OneClientAppend_after_Get_def GetJson_def simp del: of_nat_Suc)
  next
    case (performed i ver es kv)
    then show ?thesis using app_performed [OF inv performed(2,3,4)] len by simp
  next
    case (refused i ver es kv e0)
    have "e0 = ErrVersion"
      using put_err [of "a_store s" "app_args js es ver"] refused inv by (auto simp: app_inv_def app_args_def split: if_splits)
    then show ?thesis using refused c [of i] by (auto intro!: app_inv_upd [OF inv] simp: app_client_inv_def in_flight_def)
  next
    case (return_put i b e0 e)
    have "app_client_inv (a_es s) i (OneClientAppend_after_Put e (a_cl s i))"
      using return_put c [of i] by (cases b) (auto simp: app_client_inv_def in_flight_def OneClientAppend_after_Put_def put_answer_def)
    then show ?thesis using return_put app_inv_upd [OF inv] by simp
  qed
qed

lemma app_step_mono: "app_step lookup put n rel js unjs s t \<Longrightarrow> a_n s \<le> a_n t"
  by (induction rule: app_step.induct) (simp_all add: app_upd_def)

lemma app_init_inv:
  assumes "lookup s0 ''k'' = None"
  shows "app_inv lookup n js (app_init put s0 js)"
proof -
  have "snd (put s0 (app_args js [] 0)) = OK" using put_new [of s0 "app_args js [] 0"] assms by (simp add: app_args_def)
  then have "lookup (fst (put s0 (app_args js [] 0))) ''k'' = Some (js [], 1)"
    using put_lookup [of s0 "app_args js [] 0"] by (simp add: app_args_def)
  then show ?thesis by (simp add: app_inv_def app_init_def app_client_inv_def in_flight_def)
qed

lemma app_reach_inv:
  assumes "app_reach lookup put s0 n rel js unjs s" and js: "\<And>x. unjs (js x) = Some x" and "a_n s < 2 ^ 63" and "lookup s0 ''k'' = None"
  shows "app_inv lookup n js s"
  using assms(1,3) unfolding app_reach_def
proof (induction rule: rtranclp_induct)
  case base
  show ?case by (rule app_init_inv) fact
next
  case (step s t)
  have "a_n s < 2 ^ 63" using app_step_mono [OF step(2)] step.prems by simp
  then show ?case using app_step_inv [OF _ step(2) js step.prems] step.IH by blast
qed

end

section \<open>The check\<close>

text \<open>What the loop computes: the number after the client's last entry, and how many are missing below it.\<close>

definition scanned :: "EntryN list \<Rightarrow> (nat \<Rightarrow> nat) \<times> (nat \<Rightarrow> nat) \<Rightarrow> bool" where
  "scanned es st \<longleftrightarrow> (\<forall>i. fst st i = (if mine es i = [] then 0 else Suc (last (mine es i))) \<and>
     fst st i = snd st i + length (mine es i))"

lemma append_entries_scan:
  assumes "\<And>i. sorted_wrt (<) (mine es i)"
  shows "returns (for_each append_entry es (\<lambda>_. 0, \<lambda>_. 0)) (scanned es)"
proof (rule for_each_invariant [where I = scanned])
  show "scanned [] (\<lambda>_. 0, \<lambda>_. 0)" by (simp add: scanned_def)
next
  fix ys e zs st
  assume es: "es = ys @ e # zs" and st: "scanned ys st"
  obtain ex sk where s: "st = (ex, sk)" by (cases st)
  have "mine es (en_Id e) = mine ys (en_Id e) @ en_N e # mine zs (en_Id e)" using es by (simp add: mine_def)
  then have lt: "\<forall>x \<in> set (mine ys (en_Id e)). x < en_N e" using assms [of "en_Id e"] by (auto simp: sorted_wrt_append)
  have ex: "ex i = (if mine ys i = [] then 0 else Suc (last (mine ys i)))" "ex i = sk i + length (mine ys i)" for i
    using st unfolding s scanned_def fst_conv snd_conv by blast+
  have le: "ex (en_Id e) \<le> en_N e" using lt ex(1) by (auto simp: Suc_le_eq)
  let ?ex = "ex(en_Id e := en_N e + 1)" and ?sk = "sk(en_Id e := sk (en_Id e) + (en_N e - ex (en_Id e)))"
  have "append_entry e st = Inr (?ex, ?sk)"
    using le by (auto simp: append_entry_def s Let_def fun_eq_iff)
  moreover have "?ex i = (if mine (ys @ [e]) i = [] then 0 else Suc (last (mine (ys @ [e]) i)))" for i
    using ex(1) [of i] by simp
  moreover have "?ex i = ?sk i + length (mine (ys @ [e]) i)" for i
    using ex(2) [of i] le by (cases "i = en_Id e") auto
  ultimately show "returns (append_entry e st) (scanned (ys @ [e]))"
    unfolding scanned_def by (simp only: returns_simps fst_conv snd_conv simp_thms)
qed

context versioned_store
begin

lemma appends_pass:
  assumes "app_reach lookup put s0 n rel js unjs s" and js: "\<And>x. unjs (js x) = Some x" and "a_n s < 2 ^ 63 - 1" and "lookup s0 ''k'' = None"
  shows "(\<forall>i e. a_at (a_cl s i) \<noteq> AFail e) \<and>
    (\<exists>es ver. GetJson unjs (clerk_answer lookup (a_store s) ''k'') = Inr (es, ver) \<and>
       ((\<forall>i < n. a_at (a_cl s i) = ADone) \<longrightarrow> CheckAppends es n (map (\<lambda>i. a_res (a_cl s i)) [0..<n]) ver = Inr ()))"
proof
  have inv: "app_inv lookup n js s" using app_reach_inv [OF assms(1) js _ assms(4)] assms(3) by simp
  have cl: "app_client_inv (a_es s) i (a_cl s i)" for i using inv by (simp add: app_inv_def)
  show "\<forall>i e. a_at (a_cl s i) \<noteq> AFail e"
  proof (intro allI notI)
    fix i e
    assume "a_at (a_cl s i) = AFail e"
    then show False using cl [of i] by (simp add: app_client_inv_def)
  qed
  let ?es = "a_es s" and ?ver = "of_nat (Suc (length (a_es s))) :: Tversion"
  have g: "GetJson unjs (clerk_answer lookup (a_store s) ''k'') = Inr (?es, ?ver)"
    using inv js by (simp add: app_inv_def clerk_answer_def GetJson_def)
  have check: "CheckAppends ?es n (map (\<lambda>i. a_res (a_cl s i)) [0..<n]) ?ver = Inr ()" if all_done: "\<forall>i < n. a_at (a_cl s i) = ADone"
  proof -
    have "\<And>i. sorted_wrt (<) (mine ?es i)" using cl by (simp add: app_client_inv_def)
    then obtain ex sk where ex: "for_each append_entry ?es (\<lambda>_. 0, \<lambda>_. 0) = Inr (ex, sk)" "scanned ?es (ex, sk)"
      using append_entries_scan [of ?es] by (auto simp: returns_def)
    have len: "sint ?ver = int (length ?es) + 1"
    proof -
      have "Suc (length ?es) < 2 ^ 63" using inv assms(3) by (simp add: app_inv_def)
      then show ?thesis by (simp add: signed_of_nat signed_take_bit_int_eq_self del: of_nat_Suc)
    qed
    have ok: "sk c \<le> Nmaybe (a_res (a_cl s c)) \<and> ex c \<le> Nok (a_res (a_cl s c)) + Nmaybe (a_res (a_cl s c))" if "c < n" for c
    proof -
      have a: "\<forall>x \<in> set (mine ?es c). x < a_i (a_cl s c)" "a_i (a_cl s c) \<le> length (mine ?es c) + Nmaybe (a_res (a_cl s c))"
        "a_i (a_cl s c) = Nok (a_res (a_cl s c)) + Nmaybe (a_res (a_cl s c))"
        using cl [of c] all_done that by (auto simp: app_client_inv_def in_flight_def)
      have "ex c = (if mine ?es c = [] then 0 else Suc (last (mine ?es c)))" "ex c = sk c + length (mine ?es c)"
        using ex(2) unfolding scanned_def fst_conv snd_conv by blast+
      moreover have "ex c \<le> a_i (a_cl s c)" using a(1) calculation(1) by (auto simp: Suc_le_eq)
      ultimately show ?thesis using a(2,3) by linarith
    qed
    have step: "bindr (idx (map (\<lambda>i. a_res (a_cl s i)) [0..<n]) c) (\<lambda>r.
        if sk c > Nmaybe r then Inl Fatal else if ex c > Nok r + Nmaybe r then Inl Fatal else Inr ()) = Inr ()"
      if "c \<in> set (remdups ([0..<n] @ map en_Id ?es))" for c
    proof -
      have "c < n" using that inv by (auto simp: app_inv_def)
      then show ?thesis using ok [of c] by (simp add: not_less)
    qed
    have "returns (for_each (\<lambda>c _. bindr (idx (map (\<lambda>i. a_res (a_cl s i)) [0..<n]) c) (\<lambda>r.
        if sk c > Nmaybe r then Inl Fatal else if ex c > Nok r + Nmaybe r then Inl Fatal else Inr ()))
        (remdups ([0..<n] @ map en_Id ?es)) ()) (\<lambda>_. True)"
      by (rule for_each_returns) (simp_all only: step returns_simps)
    then show ?thesis using ex(1) len by (auto simp: CheckAppends_def returns_def)
  qed
  show "\<exists>es ver. GetJson unjs (clerk_answer lookup (a_store s) ''k'') = Inr (es, ver) \<and>
       ((\<forall>i < n. a_at (a_cl s i) = ADone) \<longrightarrow> CheckAppends es n (map (\<lambda>i. a_res (a_cl s i)) [0..<n]) ver = Inr ())"
    using g check by blast
qed

end

text \<open>
  The append test accepts every run. Any number of clients append to one list under any
  interleaving and over any network, each put answered as the clerk answers it: no
  client stops the test, and when all have returned \<open>CheckAppends\<close> accepts the list and the
  version that a get returns: every client's numbers increase, it misses at most as many as the client
  reported \<open>ErrMaybe\<close>, and the version counts the entries.
\<close>

theorem appends_accepted:
  assumes "app_reach srv_lookup srv_put MakeKVServer n rel js unjs s" and js: "\<And>x. unjs (js x) = Some x" and "a_n s < 2 ^ 63 - 1"
  shows "(\<forall>i e. a_at (a_cl s i) \<noteq> AFail e) \<and>
    (\<exists>es ver. GetJson unjs (clerk_answer srv_lookup (a_store s) ''k'') = Inr (es, ver) \<and>
       ((\<forall>i < n. a_at (a_cl s i) = ADone) \<longrightarrow> CheckAppends es n (map (\<lambda>i. a_res (a_cl s i)) [0..<n]) ver = Inr ()))"
  by (rule ks.appends_pass [OF assms]) (simp add: srv_lookup_def MakeKVServer_def)

text \<open>The same for the replicated service.\<close>

lemma appends_accepted_replicated:
  assumes "app_reach rsrv_lookup rsrv_put \<lparr>r_kv_map = Map.empty\<rparr> n rel js unjs s" and js: "\<And>x. unjs (js x) = Some x" and "a_n s < 2 ^ 63 - 1"
  shows "(\<forall>i e. a_at (a_cl s i) \<noteq> AFail e) \<and>
    (\<exists>es ver. GetJson unjs (clerk_answer rsrv_lookup (a_store s) ''k'') = Inr (es, ver) \<and>
       ((\<forall>i < n. a_at (a_cl s i) = ADone) \<longrightarrow> CheckAppends es n (map (\<lambda>i. a_res (a_cl s i)) [0..<n]) ver = Inr ()))"
  by (rule kr.appends_pass [OF assms]) (simp add: rsrv_lookup_def)

text \<open>A run of one client that appends once, over a network that loses the reply, with a simple text format for the list.\<close>

definition list_js :: "EntryN list \<Rightarrow> string" where
  "list_js es = concat (map (\<lambda>e. replicate (en_Id e) (CHR ''i'') @ CHR '','' # replicate (en_N e) (CHR ''n'') @ [CHR '';'']) es)"

fun list_unjs_aux :: "nat \<Rightarrow> nat \<Rightarrow> string \<Rightarrow> EntryN list" where
  "list_unjs_aux i m [] = []"
| "list_unjs_aux i m (c # s) =
     (if c = CHR ''i'' then list_unjs_aux (Suc i) m s
      else if c = CHR ''n'' then list_unjs_aux i (Suc m) s
      else if c = CHR '';'' then \<lparr>en_Id = i, en_N = m\<rparr> # list_unjs_aux 0 0 s
      else list_unjs_aux i m s)"

lemma list_unjs_steps:
  "list_unjs_aux i m (replicate k (CHR ''i'') @ s) = list_unjs_aux (i + k) m s"
  "list_unjs_aux i m (replicate k (CHR ''n'') @ s) = list_unjs_aux i (m + k) s"
  by (induction k arbitrary: i m) simp_all

lemma list_json: "Some (list_unjs_aux 0 0 (list_js es)) = Some es"
  by (induction es) (simp_all add: list_js_def list_unjs_steps)

definition append_run :: "KVServer app_sys" where
  "append_run = \<lparr>a_store = fst (srv_put (a_store (app_init srv_put MakeKVServer list_js)) (app_args list_js [\<lparr>en_Id = 0, en_N = 0\<rparr>] 1)),
     a_cl = (a_cl (app_init srv_put MakeKVServer list_js))(0 := \<lparr>a_at = ADone, a_i = 1, a_res = \<lparr>Nok = 0, Nmaybe = 1\<rparr>\<rparr>),
     a_es = [\<lparr>en_Id = 0, en_N = 0\<rparr>], a_n = 1\<rparr>"

lemma append_run_reach: "app_reach srv_lookup srv_put MakeKVServer 1 False list_js (\<lambda>s. Some (list_unjs_aux 0 0 s)) append_run"
proof -
  let ?unjs = "\<lambda>s. Some (list_unjs_aux 0 0 s)"
  let ?step = "app_step srv_lookup srv_put 1 False list_js ?unjs"
  let ?i = "app_init srv_put MakeKVServer list_js"
  let ?c = "a_cl ?i 0" and ?e = "[\<lparr>en_Id = 0, en_N = 0\<rparr>]"
  let ?kv = "fst (srv_put (a_store ?i) (app_args list_js ?e 1))"
  let ?s1 = "app_upd ?i 0 (?c\<lparr>a_at := AGet\<rparr>)"
  let ?s2 = "app_upd ?s1 0 (?c\<lparr>a_at := APut 1 ?e\<rparr>)"
  let ?s3 = "(app_upd ?s2 0 (?c\<lparr>a_at := ARet True OK\<rparr>))\<lparr>a_store := ?kv, a_es := ?e, a_n := 1\<rparr>"
  let ?s4 = "app_upd ?s3 0 (?c\<lparr>a_at := ATop, a_i := 1, a_res := \<lparr>Nok = 0, Nmaybe = 1\<rparr>\<rparr>)"
  have put: "srv_put (a_store ?i) (app_args list_js ?e 1) = (?kv, OK)"
    by (simp add: srv_put_def KVServer_Put_def MakeKVServer_def app_init_def app_args_def zeroPutReply_def)
  have ans: "clerk_answer srv_lookup (a_store ?i) ''k'' = (list_js [], 1, OK)"
    by (simp add: clerk_answer_def srv_lookup_def srv_put_def KVServer_Put_def MakeKVServer_def app_init_def app_args_def)
  have "?step ?i ?s1"
    using app_step.go [of 0 1 ?i srv_lookup srv_put False list_js ?unjs] by (simp add: app_init_def)
  moreover have "?step ?s1 ?s2"
    using app_step.get [of 0 1 ?s1 srv_lookup srv_put False list_js ?unjs] ans
    by (simp add: app_upd_def OneClientAppend_after_Get_def GetJson_def list_js_def app_init_def)
  moreover have "?step ?s2 ?s3"
    using app_step.performed [of 0 1 ?s2 1 ?e srv_put list_js ?kv srv_lookup False ?unjs] put by (simp add: app_upd_def app_init_def)
  moreover have "?step ?s3 ?s4"
    using app_step.return_put [of 0 1 ?s3 True OK False ErrMaybe srv_lookup srv_put list_js ?unjs]
    by (simp add: app_upd_def put_answer_def OneClientAppend_after_Put_def app_init_def)
  moreover have "?step ?s4 append_run"
    using app_step.stop [of 0 1 ?s4 srv_lookup srv_put False list_js ?unjs] by (simp add: app_upd_def append_run_def app_init_def)
  ultimately show ?thesis unfolding app_reach_def by (meson rtranclp.rtrancl_into_rtrancl rtranclp.rtrancl_refl)
qed

theorem appends_accepted_witness:
  "\<exists>es ver. GetJson (\<lambda>s. Some (list_unjs_aux 0 0 s)) (clerk_answer srv_lookup (a_store append_run) ''k'') = Inr (es, ver) \<and>
     CheckAppends es 1 [\<lparr>Nok = 0, Nmaybe = 1\<rparr>] ver = Inr ()"
  using appends_accepted [OF append_run_reach list_json] by (simp add: append_run_def)

end
