(* ===== verification/Annotation.thy ===== *)
theory Annotation
  imports Prelude
begin

text \<open>
  The annotations that the tester collects for the visualization of a test (tester1/annotation.go):
  points, intervals and, per tag, at most one continuous annotation that goes on until it is
  replaced or ended; and the framework's record of which servers are connected or down, which
  it shows as a continuous annotation. Every operation takes the time it reads from the clock.
  Writing the page is porcupine's; \<open>cleanup\<close> returns what would be written.

  The theory states what the fault annotation should show after each report as a specification over
  sets of servers, shows that the code's annotation follows it and that its bars with a text do not
  overlap, and records two slips of the code.
\<close>

section \<open>State\<close>

record PAnnotation =
  an_Tag :: string
  an_Start :: nat
  an_End :: nat
  an_Desc :: string
  an_Details :: string
  an_Color :: string

record Continuous =
  co_start :: nat
  co_desp :: string
  co_details :: string
  co_color :: string

record Annotation =
  annotations :: "PAnnotation list"
  continuous :: "string \<rightharpoonup> Continuous"
  finalized :: bool

record CheckerBegin =
  ck_ts :: nat
  ck_details :: string

record FrameworkInfo =
  nservers :: nat
  fi_connected :: "bool list"
  fi_crashed :: "bool list"
  ckbegin :: CheckerBegin

text \<open>The two global variables; \<open>finfo\<close> is nil before the first test.\<close>

record vis =
  annotation :: Annotation
  finfo :: "FrameworkInfo option"

definition COLOR_INFO :: string where "COLOR_INFO = ''#FAFAFA''"
definition COLOR_NEUTRAL :: string where "COLOR_NEUTRAL = ''#FFECB3''"
definition COLOR_SUCCESS :: string where "COLOR_SUCCESS = ''#C8E6C9''"
definition COLOR_FAILURE :: string where "COLOR_FAILURE = ''#FFCDD2''"
definition COLOR_FAULT :: string where "COLOR_FAULT = ''#B3E5FC''"
definition COLOR_USER :: string where "COLOR_USER = ''#FFF176''"
definition TAG_CHECKER :: string where "TAG_CHECKER = ''$ Checker''"
definition TAG_PARTITION :: string where "TAG_PARTITION = ''$ Failure''"
definition TAG_INFO :: string where "TAG_INFO = ''$ Test Info''"

lemma tags_distinct [simp]: "TAG_CHECKER \<noteq> TAG_PARTITION" "TAG_INFO \<noteq> TAG_PARTITION"
  by (simp_all add: TAG_CHECKER_def TAG_PARTITION_def TAG_INFO_def)

definition mkAnnotation :: Annotation where
  "mkAnnotation = \<lparr>annotations = [], continuous = Map.empty, finalized = False\<rparr>"

definition mkFrameworkInfo :: "nat \<Rightarrow> FrameworkInfo" where
  "mkFrameworkInfo n = \<lparr>nservers = n, fi_connected = replicate n True, fi_crashed = replicate n False,
     ckbegin = \<lparr>ck_ts = 0, ck_details = ''''\<rparr>\<rparr>"

section \<open>Annotations\<close>

definition clear :: "Annotation \<Rightarrow> Annotation" where
  "clear an = an\<lparr>annotations := [], continuous := Map.empty, finalized := False\<rparr>"

definition annotatePointColor :: "nat \<Rightarrow> string \<Rightarrow> string \<Rightarrow> string \<Rightarrow> string \<Rightarrow> Annotation \<Rightarrow> Annotation" where
  "annotatePointColor t tag desp details bgcolor an =
     an\<lparr>annotations := annotations an @
       [\<lparr>an_Tag = tag, an_Start = t, an_End = 0, an_Desc = desp, an_Details = details, an_Color = bgcolor\<rparr>]\<rparr>"

definition annotateIntervalColor :: "nat \<Rightarrow> string \<Rightarrow> nat \<Rightarrow> string \<Rightarrow> string \<Rightarrow> string \<Rightarrow> Annotation \<Rightarrow> Annotation" where
  "annotateIntervalColor t tag start desp details bgcolor an =
     an\<lparr>annotations := annotations an @
       [\<lparr>an_Tag = tag, an_Start = start, an_End = t, an_Desc = desp, an_Details = details, an_Color = bgcolor\<rparr>]\<rparr>"

text \<open>A continuous annotation made concrete when it ends at \<open>t\<close>; a missing one reads as the zero value.\<close>

definition concretize :: "nat \<Rightarrow> string \<Rightarrow> Continuous option \<Rightarrow> PAnnotation" where
  "concretize t tag co =
     (let cont = (case co of Some c \<Rightarrow> c | None \<Rightarrow> \<lparr>co_start = 0, co_desp = '''', co_details = '''', co_color = ''''\<rparr>)
      in \<lparr>an_Tag = tag, an_Start = co_start cont, an_End = t, an_Desc = co_desp cont, an_Details = co_details cont, an_Color = co_color cont\<rparr>)"

definition annotateContinuousColor :: "nat \<Rightarrow> string \<Rightarrow> string \<Rightarrow> string \<Rightarrow> string \<Rightarrow> Annotation \<Rightarrow> Annotation" where
  "annotateContinuousColor t tag desp details bgcolor an =
     (let new = \<lparr>co_start = t, co_desp = desp, co_details = details, co_color = bgcolor\<rparr> in
      case continuous an tag of
        None \<Rightarrow> an\<lparr>continuous := (continuous an)(tag \<mapsto> new)\<rparr>
      | Some cont \<Rightarrow>
          an\<lparr>annotations := annotations an @ [concretize t tag (Some cont)], continuous := (continuous an)(tag \<mapsto> new)\<rparr>)"

text \<open>Nothing is done about the case that there is no annotation to end.\<close>

definition annotateContinuousEnd :: "nat \<Rightarrow> string \<Rightarrow> Annotation \<Rightarrow> Annotation" where
  "annotateContinuousEnd t tag an =
     an\<lparr>annotations := annotations an @ [concretize t tag (continuous an tag)], continuous := (continuous an)(tag := None)\<rparr>"

text \<open>\<open>tags\<close> lists the keys of the map in the order in which the range loop visits them.\<close>

definition finalize :: "nat \<Rightarrow> string list \<Rightarrow> Annotation \<Rightarrow> Annotation \<times> PAnnotation list" where
  "finalize t tags an =
     (an\<lparr>finalized := True\<rparr>, annotations an @ map (\<lambda>tag. concretize t tag (continuous an tag)) tags)"

definition end_mark :: "nat \<Rightarrow> string \<Rightarrow> PAnnotation" where
  "end_mark t e = \<lparr>an_Tag = TAG_INFO, an_Start = t, an_End = 0, an_Desc = e, an_Details = e, an_Color = COLOR_INFO\<rparr>"

definition FinalizeAnnotations :: "nat \<Rightarrow> nat \<Rightarrow> string list \<Rightarrow> string \<Rightarrow> Annotation \<Rightarrow> Annotation \<times> PAnnotation list" where
  "FinalizeAnnotations t t' tags e an = (case finalize t tags an of (an', x) \<Rightarrow> (an', x @ [end_mark t' e]))"

text \<open>\<open>enabled\<close> is the environment variable VIS_ENABLE, \<open>file_ok\<close> whether the file could be opened.\<close>

definition cleanup ::
  "string \<Rightarrow> bool \<Rightarrow> nat \<Rightarrow> nat \<Rightarrow> string list \<Rightarrow> bool \<Rightarrow> string \<Rightarrow> Annotation \<Rightarrow> Annotation \<times> PAnnotation list option" where
  "cleanup enabled file_ok t t' tags failed e an =
     (if enabled = ''never'' \<or> (\<not> failed \<and> enabled \<noteq> ''always'') \<or> finalized an then (clear an, None)
      else case finalize t tags an of (an', x) \<Rightarrow>
        if x = [] then (an', None)
        else (an', if file_ok then Some (x @ [end_mark t' e]) else None))"

definition SetAnnotationFinalized :: "Annotation \<Rightarrow> Annotation" where
  "SetAnnotationFinalized an = an\<lparr>finalized := True\<rparr>"

section \<open>The framework's annotations\<close>

definition on_annotation :: "(Annotation \<Rightarrow> Annotation) \<Rightarrow> vis \<Rightarrow> vis" where
  "on_annotation f v = v\<lparr>annotation := f (annotation v)\<rparr>"

definition with_finfo :: "(FrameworkInfo \<Rightarrow> vis \<Rightarrow> vis res) \<Rightarrow> vis \<Rightarrow> vis res" where
  "with_finfo f v = (case finfo v of None \<Rightarrow> Inl NilMap | Some fi \<Rightarrow> f fi v)"

definition AnnotateInfo :: "nat \<Rightarrow> string \<Rightarrow> string \<Rightarrow> vis \<Rightarrow> vis" where
  "AnnotateInfo t desp details = on_annotation (annotatePointColor t TAG_INFO desp details COLOR_INFO)"

definition AnnotateInfoInterval :: "nat \<Rightarrow> nat \<Rightarrow> string \<Rightarrow> string \<Rightarrow> vis \<Rightarrow> vis" where
  "AnnotateInfoInterval t start desp details = on_annotation (annotateIntervalColor t TAG_INFO start desp details COLOR_INFO)"

definition AnnotateTest :: "nat \<Rightarrow> string \<Rightarrow> nat \<Rightarrow> vis \<Rightarrow> vis" where
  "AnnotateTest t desp n v =
     (let details = desp @ '' ('' @ itoa n @ '' servers)''
      in AnnotateInfo t details details (v\<lparr>finfo := Some (mkFrameworkInfo n), annotation := clear (annotation v)\<rparr>))"

definition AnnotateCheckerBegin :: "nat \<Rightarrow> string \<Rightarrow> vis \<Rightarrow> vis res" where
  "AnnotateCheckerBegin t details =
     with_finfo (\<lambda>fi v. Inr (v\<lparr>finfo := Some (fi\<lparr>ckbegin := \<lparr>ck_ts = t, ck_details = details\<rparr>\<rparr>)\<rparr>))"

text \<open>The begin is copied into a local variable, and the time is reset there.\<close>

definition AnnotateCheckerEnd :: "nat \<Rightarrow> string \<Rightarrow> string \<Rightarrow> string \<Rightarrow> vis \<Rightarrow> vis res" where
  "AnnotateCheckerEnd t desp details color =
     with_finfo (\<lambda>fi v. let ck = ckbegin fi in
       if ck_ts ck = 0 then Inr (on_annotation (annotatePointColor t TAG_CHECKER desp details color) v)
       else Inr (on_annotation (annotateIntervalColor t TAG_CHECKER (ck_ts ck) desp (ck_details ck @ '': '' @ details) color) v))"

definition AnnotateCheckerSuccess :: "nat \<Rightarrow> string \<Rightarrow> string \<Rightarrow> vis \<Rightarrow> vis res" where
  "AnnotateCheckerSuccess t desp details = AnnotateCheckerEnd t desp details COLOR_SUCCESS"

definition AnnotateCheckerFailure :: "nat \<Rightarrow> string \<Rightarrow> string \<Rightarrow> vis \<Rightarrow> vis res" where
  "AnnotateCheckerFailure t desp details = AnnotateCheckerEnd t desp details COLOR_FAILURE"

definition AnnotateCheckerNeutral :: "nat \<Rightarrow> string \<Rightarrow> string \<Rightarrow> vis \<Rightarrow> vis res" where
  "AnnotateCheckerNeutral t desp details = AnnotateCheckerEnd t desp details COLOR_NEUTRAL"

definition AnnotateCheckerFailureBeforeExit ::
  "string \<Rightarrow> bool \<Rightarrow> nat \<Rightarrow> nat \<Rightarrow> nat \<Rightarrow> string list \<Rightarrow> string \<Rightarrow> string \<Rightarrow> vis \<Rightarrow> (vis \<times> PAnnotation list option) res" where
  "AnnotateCheckerFailureBeforeExit enabled file_ok t t' t'' tags desp details v =
     bindr (AnnotateCheckerFailure t desp details v) (\<lambda>v1.
       case cleanup enabled file_ok t' t'' tags True ''test failed'' (annotation v1) of
         (an, out) \<Rightarrow> Inr (v1\<lparr>annotation := an\<rparr>, out))"

text \<open>The text that shows the faults: a slice of numbers is printed in brackets.\<close>

fun unwords :: "string list \<Rightarrow> string" where
  "unwords [] = ''''"
| "unwords [x] = x"
| "unwords (x # y # xs) = x @ '' '' @ unwords (y # xs)"

definition fmt_ints :: "nat list \<Rightarrow> string" where
  "fmt_ints xs = ''['' @ unwords (map itoa xs) @ '']''"

definition fault_step :: "bool list \<Rightarrow> nat \<times> bool \<Rightarrow> nat list \<times> nat list \<times> string \<Rightarrow> (nat list \<times> nat list \<times> string) res" where
  "fault_step crashed x st =
     (case x of (i, connected) \<Rightarrow> case st of (conn, crashes, txt) \<Rightarrow>
        bindr (idx crashed i) (\<lambda>cr.
          if cr then Inr (conn, crashes @ [i], txt)
          else if connected then Inr (conn @ [i], crashes, txt)
          else Inr (conn, crashes, txt @ ''['' @ itoa i @ ''] '')))"

definition fault_text :: "FrameworkInfo \<Rightarrow> string res" where
  "fault_text fi =
     bindr (for_each (fault_step (fi_crashed fi)) (enumerate 0 (fi_connected fi)) ([], [], ''partition = '')) (\<lambda>(conn, crashes, txt).
       Inr (txt @ (if conn \<noteq> [] then fmt_ints conn else '''') @ (if crashes \<noteq> [] then '' / crash = '' @ fmt_ints crashes else '''')))"

definition healthy :: "FrameworkInfo \<Rightarrow> bool" where
  "healthy fi \<longleftrightarrow> replicate (nservers fi) True = fi_connected fi \<and> replicate (nservers fi) False = fi_crashed fi"

definition annotateFault :: "nat \<Rightarrow> vis \<Rightarrow> vis res" where
  "annotateFault t =
     with_finfo (\<lambda>fi v.
       if healthy fi then Inr (on_annotation (annotateContinuousEnd t TAG_PARTITION) v)
       else bindr (fault_text fi) (\<lambda>txt. Inr (on_annotation (annotateContinuousColor t TAG_PARTITION txt txt COLOR_FAULT) v)))"

text \<open>\<^verbatim>\<open>copy\<close> writes as many elements as both slices have.\<close>

definition AnnotateConnection :: "nat \<Rightarrow> bool list \<Rightarrow> vis \<Rightarrow> vis res" where
  "AnnotateConnection t connection =
     with_finfo (\<lambda>fi v.
       if fi_connected fi = connection then Inr v
       else let m = min (length (fi_connected fi)) (length connection);
                fi' = fi\<lparr>fi_connected := take m connection @ drop m (fi_connected fi)\<rparr>
            in annotateFault t (v\<lparr>finfo := Some fi'\<rparr>))"

definition AnnotateTwoPartitions :: "nat \<Rightarrow> nat list \<Rightarrow> nat list \<Rightarrow> vis \<Rightarrow> vis" where
  "AnnotateTwoPartitions t p1 p2 =
     (let txt = ''partition = '' @ fmt_ints p1 @ '' '' @ fmt_ints p2
      in on_annotation (annotateContinuousColor t TAG_PARTITION txt txt COLOR_FAULT))"

definition AnnotateClearFailure :: "nat \<Rightarrow> vis \<Rightarrow> vis res" where
  "AnnotateClearFailure t =
     with_finfo (\<lambda>fi v.
       let fi' = fi\<lparr>fi_crashed := map (\<lambda>_. False) (fi_crashed fi), fi_connected := map (\<lambda>_. True) (fi_connected fi)\<rparr>
       in Inr (on_annotation (annotateContinuousEnd t TAG_PARTITION) (v\<lparr>finfo := Some fi'\<rparr>)))"

text \<open>The loop of \<open>AnnotateShutdown\<close> and \<open>AnnotateRestart\<close>: set the flags, note a change.\<close>

definition set_crashed :: "bool \<Rightarrow> nat list \<Rightarrow> bool list \<Rightarrow> (bool list \<times> bool) res" where
  "set_crashed b servers crashed =
     for_each (\<lambda>i (cr, changed). bindr (idx cr i) (\<lambda>old. Inr (cr[i := b], changed \<or> old \<noteq> b))) servers (crashed, False)"

definition annotate_crashed :: "bool \<Rightarrow> nat \<Rightarrow> nat list \<Rightarrow> vis \<Rightarrow> vis res" where
  "annotate_crashed b t servers =
     with_finfo (\<lambda>fi v. bindr (set_crashed b servers (fi_crashed fi)) (\<lambda>(cr, changed).
       let v' = v\<lparr>finfo := Some (fi\<lparr>fi_crashed := cr\<rparr>)\<rparr>
       in if \<not> changed then Inr v' else annotateFault t v'))"

definition AnnotateShutdown :: "nat \<Rightarrow> nat list \<Rightarrow> vis \<Rightarrow> vis res" where
  "AnnotateShutdown = annotate_crashed True"

definition AnnotateRestart :: "nat \<Rightarrow> nat list \<Rightarrow> vis \<Rightarrow> vis res" where
  "AnnotateRestart = annotate_crashed False"

definition AnnotateShutdownAll :: "nat \<Rightarrow> vis \<Rightarrow> vis res" where
  "AnnotateShutdownAll t = with_finfo (\<lambda>fi v. AnnotateShutdown t [0..<nservers fi] v)"

definition AnnotateRestartAll :: "nat \<Rightarrow> vis \<Rightarrow> vis res" where
  "AnnotateRestartAll t = with_finfo (\<lambda>fi v. AnnotateRestart t [0..<nservers fi] v)"

section \<open>What the fault annotation should show\<close>

text \<open>
  The specification. It keeps the sets of disconnected and of crashed servers that the reports
  made during a test give, the text to show, and how often a clear was reported while nothing was
  shown. The text is written from the two sets, not by the loop of \<open>annotateFault\<close>.
\<close>

record faults =
  fl_disconnected :: "nat set"
  fl_down :: "nat set"
  fl_text :: "string option"
  fl_idle_clears :: nat

definition no_faults :: faults where
  "no_faults = \<lparr>fl_disconnected = {}, fl_down = {}, fl_text = None, fl_idle_clears = 0\<rparr>"

definition bracketed :: "nat list \<Rightarrow> string" where
  "bracketed xs = (if xs = [] then '''' else fmt_ints xs)"

definition servers_text :: "nat \<Rightarrow> nat set \<Rightarrow> nat set \<Rightarrow> string" where
  "servers_text n disconnected down =
     (let crashes = filter (\<lambda>i. i \<in> down) [0..<n] in
      ''partition = ''
        @ concat (map (\<lambda>i. ''['' @ itoa i @ ''] '') (filter (\<lambda>i. i \<notin> down \<and> i \<in> disconnected) [0..<n]))
        @ bracketed (filter (\<lambda>i. i \<notin> down \<and> i \<notin> disconnected) [0..<n])
        @ (if crashes = [] then '''' else '' / crash = '' @ fmt_ints crashes))"

text \<open>What the framework reports during a test.\<close>

datatype fault_op =
    OConnection "bool list"
  | OTwoPartitions "nat list" "nat list"
  | OShutdown "nat list"
  | ORestart "nat list"
  | OShutdownAll
  | ORestartAll
  | OClear

text \<open>A report that changes one of the sets changes the text; one that changes nothing leaves it.\<close>

definition now_faulty :: "nat \<Rightarrow> nat set \<Rightarrow> nat set \<Rightarrow> faults \<Rightarrow> faults" where
  "now_faulty n disconnected down fl =
     (if disconnected = fl_disconnected fl \<and> down = fl_down fl then fl
      else fl\<lparr>fl_disconnected := disconnected, fl_down := down,
              fl_text := (if disconnected = {} \<and> down = {} then None else Some (servers_text n disconnected down))\<rparr>)"

fun expected :: "nat \<Rightarrow> fault_op \<Rightarrow> faults \<Rightarrow> faults" where
  "expected n (OConnection c) fl = now_faulty n {i. i < n \<and> \<not> c ! i} (fl_down fl) fl"
| "expected n (OTwoPartitions p1 p2) fl = fl\<lparr>fl_text := Some (''partition = '' @ fmt_ints p1 @ '' '' @ fmt_ints p2)\<rparr>"
| "expected n (OShutdown ss) fl = now_faulty n (fl_disconnected fl) (fl_down fl \<union> set ss) fl"
| "expected n (ORestart ss) fl = now_faulty n (fl_disconnected fl) (fl_down fl - set ss) fl"
| "expected n OShutdownAll fl = now_faulty n (fl_disconnected fl) {..<n} fl"
| "expected n ORestartAll fl = now_faulty n (fl_disconnected fl) {} fl"
| "expected n OClear fl =
     fl\<lparr>fl_disconnected := {}, fl_down := {}, fl_text := None,
        fl_idle_clears := fl_idle_clears fl + (if fl_text fl = None then 1 else 0)\<rparr>"

text \<open>The reports, each with the time it is made at.\<close>

fun do_op :: "nat \<times> fault_op \<Rightarrow> vis \<Rightarrow> vis res" where
  "do_op (t, OConnection c) v = AnnotateConnection t c v"
| "do_op (t, OTwoPartitions p1 p2) v = Inr (AnnotateTwoPartitions t p1 p2 v)"
| "do_op (t, OShutdown ss) v = AnnotateShutdown t ss v"
| "do_op (t, ORestart ss) v = AnnotateRestart t ss v"
| "do_op (t, OShutdownAll) v = AnnotateShutdownAll t v"
| "do_op (t, ORestartAll) v = AnnotateRestartAll t v"
| "do_op (t, OClear) v = AnnotateClearFailure t v"

fun op_ok :: "nat \<Rightarrow> fault_op \<Rightarrow> bool" where
  "op_ok n (OConnection c) = (length c = n)"
| "op_ok n (OShutdown ss) = (\<forall>i \<in> set ss. i < n)"
| "op_ok n (ORestart ss) = (\<forall>i \<in> set ss. i < n)"
| "op_ok n _ = True"

text \<open>
  The bars of the fault annotation, finished ones. Those with a text are in order and do not overlap, and the
  annotation that goes on began after the last of them ended; a bar without a text goes from time 0 to the end
  of nothing.
\<close>

definition fault_bars :: "Annotation \<Rightarrow> PAnnotation list" where
  "fault_bars an = filter (\<lambda>a. an_Tag a = TAG_PARTITION) (annotations an)"

definition text_bars :: "Annotation \<Rightarrow> PAnnotation list" where
  "text_bars an = filter (\<lambda>a. an_Desc a \<noteq> '''') (fault_bars an)"

definition empty_bars :: "Annotation \<Rightarrow> PAnnotation list" where
  "empty_bars an = filter (\<lambda>a. an_Desc a = '''') (fault_bars an)"

definition timeline :: "nat \<Rightarrow> Annotation \<Rightarrow> bool" where
  "timeline now an \<longleftrightarrow>
     sorted_wrt (\<lambda>a b. an_End a \<le> an_Start b) (text_bars an) \<and>
     (let upto = (case continuous an TAG_PARTITION of None \<Rightarrow> now | Some c \<Rightarrow> co_start c)
      in upto \<le> now \<and> (\<forall>a \<in> set (text_bars an). an_Start a \<le> an_End a \<and> an_End a \<le> upto))"

text \<open>The framework's state and the annotation that goes on agree with the specification.\<close>

definition records_faults :: "nat \<Rightarrow> faults \<Rightarrow> FrameworkInfo \<Rightarrow> bool" where
  "records_faults n fl fi \<longleftrightarrow>
     nservers fi = n \<and> length (fi_connected fi) = n \<and> length (fi_crashed fi) = n \<and>
     fl_disconnected fl = {i. i < n \<and> \<not> fi_connected fi ! i} \<and> fl_down fl = {i. i < n \<and> fi_crashed fi ! i}"

definition shows_faults :: "nat \<Rightarrow> faults \<Rightarrow> vis \<Rightarrow> bool" where
  "shows_faults n fl v \<longleftrightarrow>
     (\<exists>fi. finfo v = Some fi \<and> records_faults n fl fi) \<and>
     map_option co_desp (continuous (annotation v) TAG_PARTITION) = fl_text fl \<and>
     length (empty_bars (annotation v)) = fl_idle_clears fl \<and>
     (\<forall>a \<in> set (empty_bars (annotation v)). an_Start a = 0)"

section \<open>The fault annotation\<close>

text \<open>The loop of \<open>annotateFault\<close> writes the specified text, and its test for no faults is that both sets are empty.\<close>

lemma fault_text_spec:
  assumes "records_faults n fl fi"
  shows "fault_text fi = Inr (servers_text n (fl_disconnected fl) (fl_down fl))"
proof -
  let ?D = "fl_disconnected fl" and ?W = "fl_down fl"
  let ?at = "\<lambda>k. (filter (\<lambda>i. i \<notin> ?W \<and> i \<notin> ?D) [0..<k], filter (\<lambda>i. i \<in> ?W) [0..<k],
     ''partition = '' @ concat (map (\<lambda>i. ''['' @ itoa i @ ''] '') (filter (\<lambda>i. i \<notin> ?W \<and> i \<in> ?D) [0..<k])))"
  have fi: "length (fi_connected fi) = n" "length (fi_crashed fi) = n" "?D = {i. i < n \<and> \<not> fi_connected fi ! i}"
    "?W = {i. i < n \<and> fi_crashed fi ! i}" using assms by (simp_all add: records_faults_def)
  have "returns (for_each (fault_step (fi_crashed fi)) (enumerate 0 (fi_connected fi)) ([], [], ''partition = ''))
      (\<lambda>st. st = ?at (length (enumerate 0 (fi_connected fi))))"
  proof (rule for_each_invariant [where I = "\<lambda>ys st. st = ?at (length ys)"])
    fix ys x zs st
    assume xs: "enumerate 0 (fi_connected fi) = ys @ x # zs" and st: "st = ?at (length ys)"
    have k: "length ys < n" using arg_cong [OF xs, of length] fi(1) by simp
    have "x = enumerate 0 (fi_connected fi) ! length ys" unfolding xs by simp
    then have x: "x = (length ys, fi_connected fi ! length ys)" using k fi(1) by (simp add: nth_enumerate_eq)
    have "length ys \<in> ?W \<longleftrightarrow> fi_crashed fi ! length ys" "length ys \<in> ?D \<longleftrightarrow> \<not> fi_connected fi ! length ys"
      using k fi(3,4) by auto
    then show "returns (fault_step (fi_crashed fi) x st) (\<lambda>st. st = ?at (length (ys @ [x])))"
      using k fi(2) st by (simp add: x fault_step_def)
  qed simp
  then have "for_each (fault_step (fi_crashed fi)) (enumerate 0 (fi_connected fi)) ([], [], ''partition = '') = Inr (?at n)"
    using fi(1) by (auto simp: returns_def)
  then show ?thesis by (simp add: fault_text_def servers_text_def bracketed_def Let_def)
qed

lemma healthy_spec:
  assumes "records_faults n fl fi"
  shows "healthy fi \<longleftrightarrow> fl_disconnected fl = {} \<and> fl_down fl = {}"
  using assms by (auto simp: records_faults_def healthy_def list_eq_iff_nth_eq)

lemmas bars_defs = text_bars_def empty_bars_def fault_bars_def

lemma timeline_later: "timeline now an \<Longrightarrow> now \<le> t \<Longrightarrow> timeline t an"
  by (fastforce simp: timeline_def Let_def split: option.splits)

lemma timeline_end:
  assumes "timeline now an" and "now \<le> t"
  shows "timeline t (annotateContinuousEnd t TAG_PARTITION an)"
  using assms
  by (cases "continuous an TAG_PARTITION")
    (fastforce simp: timeline_def bars_defs annotateContinuousEnd_def concretize_def sorted_wrt_append Let_def)+

lemma timeline_color:
  assumes "timeline now an" and "now \<le> t"
  shows "timeline t (annotateContinuousColor t TAG_PARTITION d e c an)"
  using assms
  by (cases "continuous an TAG_PARTITION")
    (fastforce simp: timeline_def bars_defs annotateContinuousColor_def concretize_def sorted_wrt_append Let_def)+

text \<open>What ending the annotation and replacing its text do to the bars, when what goes on has a text.\<close>

lemma empty_bars_end:
  assumes "map_option co_desp (continuous an TAG_PARTITION) \<noteq> Some ''''"
  shows "length (empty_bars (annotateContinuousEnd t TAG_PARTITION an)) =
      length (empty_bars an) + (if continuous an TAG_PARTITION = None then 1 else 0)"
    and "\<forall>a \<in> set (empty_bars an). an_Start a = 0 \<Longrightarrow>
      \<forall>a \<in> set (empty_bars (annotateContinuousEnd t TAG_PARTITION an)). an_Start a = 0"
  using assms
  by (cases "continuous an TAG_PARTITION"; auto simp: bars_defs annotateContinuousEnd_def concretize_def Let_def)+

lemma empty_bars_color:
  assumes "map_option co_desp (continuous an TAG_PARTITION) \<noteq> Some ''''"
  shows "empty_bars (annotateContinuousColor t TAG_PARTITION d e c an) = empty_bars an"
  using assms
  by (cases "continuous an TAG_PARTITION") (auto simp: bars_defs annotateContinuousColor_def concretize_def Let_def)

lemma continuous_end [simp]: "continuous (annotateContinuousEnd t tag an) tag = None"
  by (simp add: annotateContinuousEnd_def)

lemma continuous_color [simp]: "map_option co_desp (continuous (annotateContinuousColor t tag d e c an) tag) = Some d"
  by (simp add: annotateContinuousColor_def Let_def split: option.splits)

text \<open>
  The invariant of a test: the state shows the faults, the bars are in order, the text that goes on is not
  empty, and a faulty state has a text.
\<close>

definition fault_inv :: "nat \<Rightarrow> faults \<Rightarrow> nat \<Rightarrow> vis \<Rightarrow> bool" where
  "fault_inv n fl now v \<longleftrightarrow>
     shows_faults n fl v \<and> timeline now (annotation v) \<and> fl_text fl \<noteq> Some '''' \<and>
     (fl_disconnected fl \<noteq> {} \<or> fl_down fl \<noteq> {} \<longrightarrow> fl_text fl \<noteq> None)"

lemma servers_text_neq [simp]: "servers_text n D W \<noteq> ''''"
  by (simp add: servers_text_def Let_def)

lemma fault_inv_later: "fault_inv n fl now v \<Longrightarrow> now \<le> t \<Longrightarrow> fault_inv n fl t v"
  by (auto simp: fault_inv_def intro: timeline_later)

lemma fault_inv_finfo:
  assumes "fault_inv n fl now v"
  obtains fi where "finfo v = Some fi" and "records_faults n fl fi"
  using assms by (auto simp: fault_inv_def shows_faults_def)

lemma fault_inv_desc:
  assumes "fault_inv n fl now v"
  shows "map_option co_desp (continuous (annotation v) TAG_PARTITION) = fl_text fl"
    and "map_option co_desp (continuous (annotation v) TAG_PARTITION) \<noteq> Some ''''"
  using assms by (auto simp: fault_inv_def shows_faults_def)

text \<open>After a change of the state, \<open>annotateFault\<close> shows the new one.\<close>

lemma annotateFault_ok:
  assumes inv: "fault_inv n fl now v" and t: "now \<le> t"
    and fi: "finfo v' = Some fi" "annotation v' = annotation v"
    and rec: "records_faults n (fl\<lparr>fl_disconnected := D, fl_down := W\<rparr>) fi"
    and new: "D \<noteq> fl_disconnected fl \<or> W \<noteq> fl_down fl"
  shows "returns (annotateFault t v') (fault_inv n (now_faulty n D W fl) t)"
proof -
  note d = fault_inv_desc [OF inv]
  have tl: "timeline now (annotation v)" and eb: "length (empty_bars (annotation v)) = fl_idle_clears fl"
    "\<forall>a \<in> set (empty_bars (annotation v)). an_Start a = 0"
    and ft: "fl_disconnected fl \<noteq> {} \<or> fl_down fl \<noteq> {} \<Longrightarrow> fl_text fl \<noteq> None"
    using inv by (auto simp: fault_inv_def shows_faults_def)
  have h: "healthy fi \<longleftrightarrow> D = {} \<and> W = {}" using healthy_spec [OF rec] by simp
  have r: "records_faults n (now_faulty n D W fl) fi" using rec new by (auto simp: now_faulty_def records_faults_def)
  show ?thesis
  proof (cases "D = {} \<and> W = {}")
    case True
    then have "fl_text fl \<noteq> None" using new ft by auto
    then have "continuous (annotation v) TAG_PARTITION \<noteq> None" using d(1) by auto
    then show ?thesis
      using True h r new fi eb timeline_end [OF tl t] empty_bars_end [OF d(2), of t]
      by (simp add: annotateFault_def with_finfo_def on_annotation_def fault_inv_def shows_faults_def) (auto simp: now_faulty_def)
  next
    case False
    moreover have "fault_text fi = Inr (servers_text n D W)" using fault_text_spec [OF rec] by simp
    ultimately show ?thesis
      using h r new fi eb timeline_color [OF tl t] empty_bars_color [OF d(2), of t]
      by (simp add: annotateFault_def with_finfo_def on_annotation_def fault_inv_def shows_faults_def) (auto simp: now_faulty_def)
  qed
qed

definition marked :: "bool \<Rightarrow> nat list \<Rightarrow> bool list \<Rightarrow> bool list" where
  "marked b ss cr = map (\<lambda>i. if i \<in> set ss then b else cr ! i) [0..<length cr]"

text \<open>The loop sets the flags of exactly the servers named and notes a change exactly if there is one.\<close>

lemma set_crashed_ok:
  assumes "\<forall>i \<in> set ss. i < length cr"
  shows "returns (set_crashed b ss cr) (\<lambda>(cr', changed). cr' = marked b ss cr \<and> (changed \<longleftrightarrow> cr' \<noteq> cr))"
proof -
  let ?I = "\<lambda>ys (cr', changed). cr' = marked b ys cr \<and> (changed \<longleftrightarrow> cr' \<noteq> cr)"
  have "returns (for_each (\<lambda>i (cr, changed). bindr (idx cr i) (\<lambda>old. Inr (cr[i := b], changed \<or> old \<noteq> b))) ss (cr, False)) (?I ss)"
  proof (rule for_each_invariant [where I = ?I])
    show "?I [] (cr, False)" by (simp add: marked_def map_nth)
    fix ys i zs st
    assume ss: "ss = ys @ i # zs" and st: "?I ys st"
    obtain cr' ch where s: "st = (cr', ch)" by (cases st)
    have cr': "cr' = marked b ys cr" "ch \<longleftrightarrow> cr' \<noteq> cr" using st s by auto
    have i: "i < length cr" using ss assms by simp
    have new: "cr'[i := b] = marked b (ys @ [i]) cr"
      unfolding cr'(1) using i by (intro nth_equalityI) (auto simp: marked_def nth_list_update)
    have ch: "ch \<or> cr' ! i \<noteq> b \<longleftrightarrow> marked b (ys @ [i]) cr \<noteq> cr"
    proof (cases ch)
      case False
      then have "cr' = cr" using cr'(2) by simp
      moreover have "cr[i := b] \<noteq> cr \<longleftrightarrow> cr ! i \<noteq> b"
        using i by (auto simp: list_update_same_conv)
      ultimately show ?thesis using False unfolding new [symmetric] by simp
    next
      case True
      then have "cr' \<noteq> cr" "length cr' = length cr" using cr' by (simp_all add: marked_def)
      then obtain j where j: "j < length cr" "cr' ! j \<noteq> cr ! j" by (auto simp: list_eq_iff_nth_eq)
      then have "j \<in> set ys" "cr ! j \<noteq> b" using cr'(1) by (auto simp: marked_def split: if_splits)
      then have "marked b (ys @ [i]) cr ! j \<noteq> cr ! j" using j(1) by (simp add: marked_def)
      then show ?thesis using True by auto
    qed
    show "returns ((case st of (cr, changed) \<Rightarrow> bindr (idx cr i) (\<lambda>old. Inr (cr[i := b], changed \<or> old \<noteq> b)))) (?I (ys @ [i]))"
      using s i cr'(1) new ch by (simp add: marked_def)
  qed
  then show ?thesis by (simp add: set_crashed_def)
qed

lemma marked_length [simp]: "length (marked b ss cr) = length cr"
  by (simp add: marked_def)

lemma records_crashed:
  "records_faults n fl fi \<Longrightarrow> length cr = n \<Longrightarrow>
   records_faults n (fl\<lparr>fl_disconnected := fl_disconnected fl, fl_down := {i. i < n \<and> cr ! i}\<rparr>) (fi\<lparr>fi_crashed := cr\<rparr>)"
  by (simp add: records_faults_def)

lemma records_connected:
  "records_faults n fl fi \<Longrightarrow> length c = n \<Longrightarrow>
   records_faults n (fl\<lparr>fl_disconnected := {i. i < n \<and> \<not> c ! i}, fl_down := fl_down fl\<rparr>) (fi\<lparr>fi_connected := c\<rparr>)"
  by (simp add: records_faults_def)

text \<open>Each report does to the state what the specification says.\<close>

lemma annotate_crashed_ok:
  assumes inv: "fault_inv n fl now v" and t: "now \<le> t" and ss: "\<forall>i \<in> set ss. i < n"
    and W: "W = (if b then fl_down fl \<union> set ss else fl_down fl - set ss)"
  shows "returns (annotate_crashed b t ss v) (fault_inv n (now_faulty n (fl_disconnected fl) W fl) t)"
proof -
  obtain fi where fi: "finfo v = Some fi" and rec: "records_faults n fl fi" using fault_inv_finfo [OF inv] .
  have len: "length (fi_crashed fi) = n" and down: "fl_down fl = {i. i < n \<and> fi_crashed fi ! i}"
    using rec by (simp_all add: records_faults_def)
  obtain cr ch where cr: "set_crashed b ss (fi_crashed fi) = Inr (cr, ch)" "cr = marked b ss (fi_crashed fi)" "ch \<longleftrightarrow> cr \<noteq> fi_crashed fi"
    using set_crashed_ok [of ss "fi_crashed fi" b] ss len by (auto simp: returns_def)
  have cr_W: "W = {i. i < n \<and> cr ! i}" "length cr = n" using ss len by (auto simp: W down cr(2) marked_def)
  let ?v = "v\<lparr>finfo := Some (fi\<lparr>fi_crashed := cr\<rparr>)\<rparr>"
  show ?thesis
  proof (cases ch)
    case False
    then have "?v = v" "W = fl_down fl" using cr(3) fi cr_W(1) down by simp_all
    moreover have "annotate_crashed b t ss v = Inr ?v" using False fi cr(1) by (simp add: annotate_crashed_def with_finfo_def)
    ultimately show ?thesis using fault_inv_later [OF inv t] by (simp add: now_faulty_def)
  next
    case True
    then obtain j where "j < n" "cr ! j \<noteq> fi_crashed fi ! j" using cr(3) cr_W(2) len by (auto simp: list_eq_iff_nth_eq)
    then have "W \<noteq> fl_down fl" unfolding cr_W(1) down by blast
    then have "returns (annotateFault t ?v) (fault_inv n (now_faulty n (fl_disconnected fl) W fl) t)"
      using annotateFault_ok [OF inv t, where v' = ?v and fi = "fi\<lparr>fi_crashed := cr\<rparr>" and D = "fl_disconnected fl" and W = W]
        records_crashed [OF rec cr_W(2)] cr_W(1) by simp
    moreover have "annotate_crashed b t ss v = annotateFault t ?v"
      using True fi cr(1) by (simp add: annotate_crashed_def with_finfo_def)
    ultimately show ?thesis by simp
  qed
qed

lemma connection_ok:
  assumes inv: "fault_inv n fl now v" and t: "now \<le> t" and c: "length c = n"
  shows "returns (AnnotateConnection t c v) (fault_inv n (now_faulty n {i. i < n \<and> \<not> c ! i} (fl_down fl) fl) t)"
proof -
  obtain fi where fi: "finfo v = Some fi" and rec: "records_faults n fl fi" using fault_inv_finfo [OF inv] .
  have len: "length (fi_connected fi) = n" and disc: "fl_disconnected fl = {i. i < n \<and> \<not> fi_connected fi ! i}"
    using rec by (simp_all add: records_faults_def)
  show ?thesis
  proof (cases "fi_connected fi = c")
    case True
    then have "now_faulty n {i. i < n \<and> \<not> c ! i} (fl_down fl) fl = fl" using disc by (simp add: now_faulty_def)
    then show ?thesis
      using True fi fault_inv_later [OF inv t] by (simp add: AnnotateConnection_def with_finfo_def)
  next
    case False
    let ?v = "v\<lparr>finfo := Some (fi\<lparr>fi_connected := c\<rparr>)\<rparr>"
    have "AnnotateConnection t c v = annotateFault t ?v"
      using False fi len c by (simp add: AnnotateConnection_def with_finfo_def Let_def)
    moreover obtain j where "j < n" "c ! j \<noteq> fi_connected fi ! j" using False len c by (auto simp: list_eq_iff_nth_eq)
    then have "{i. i < n \<and> \<not> c ! i} \<noteq> fl_disconnected fl" unfolding disc by blast
    then have "returns (annotateFault t ?v) (fault_inv n (now_faulty n {i. i < n \<and> \<not> c ! i} (fl_down fl) fl) t)"
      using annotateFault_ok [OF inv t, where v' = ?v and fi = "fi\<lparr>fi_connected := c\<rparr>"
          and D = "{i. i < n \<and> \<not> c ! i}" and W = "fl_down fl"]
        records_connected [OF rec c] by simp
    ultimately show ?thesis by simp
  qed
qed

lemma two_partitions_ok:
  assumes inv: "fault_inv n fl now v" and t: "now \<le> t"
  shows "fault_inv n (expected n (OTwoPartitions p1 p2) fl) t (AnnotateTwoPartitions t p1 p2 v)"
proof -
  note d = fault_inv_desc [OF inv]
  have "timeline now (annotation v)" using inv by (simp add: fault_inv_def)
  then show ?thesis
    using inv timeline_color [OF _ t] empty_bars_color [OF d(2), of t]
    by (auto simp: AnnotateTwoPartitions_def on_annotation_def fault_inv_def shows_faults_def records_faults_def Let_def)
qed

lemma clear_ok:
  assumes inv: "fault_inv n fl now v" and t: "now \<le> t"
  shows "returns (AnnotateClearFailure t v) (fault_inv n (expected n OClear fl) t)"
proof -
  obtain fi where fi: "finfo v = Some fi" and rec: "records_faults n fl fi" using fault_inv_finfo [OF inv] .
  note d = fault_inv_desc [OF inv]
  let ?fi = "fi\<lparr>fi_crashed := map (\<lambda>_. False) (fi_crashed fi), fi_connected := map (\<lambda>_. True) (fi_connected fi)\<rparr>"
  have "timeline now (annotation v)" and eb: "length (empty_bars (annotation v)) = fl_idle_clears fl"
    "\<forall>a \<in> set (empty_bars (annotation v)). an_Start a = 0"
    using inv by (auto simp: fault_inv_def shows_faults_def)
  moreover have "records_faults n (expected n OClear fl) ?fi" using rec by (auto simp: records_faults_def)
  moreover have "continuous (annotation v) TAG_PARTITION = None \<longleftrightarrow> fl_text fl = None" using d(1) by auto
  ultimately show ?thesis
    using fi timeline_end [OF _ t] empty_bars_end [OF d(2), of t]
    by (simp add: AnnotateClearFailure_def with_finfo_def on_annotation_def fault_inv_def shows_faults_def)
qed

lemma do_op_ok:
  assumes inv: "fault_inv n fl now v" and t: "now \<le> t" and ok: "op_ok n a"
  shows "returns (do_op (t, a) v) (fault_inv n (expected n a fl) t)"
proof -
  obtain fi where fi: "finfo v = Some fi" and rec: "records_faults n fl fi" using fault_inv_finfo [OF inv] .
  have n: "nservers fi = n" using rec by (simp add: records_faults_def)
  have "fl_down fl \<subseteq> {..<n}" using rec by (simp add: records_faults_def Collect_conj_eq lessThan_def)
  then have sub: "fl_down fl \<union> {0..<n} = {..<n}" "fl_down fl - {0..<n} = {}" by auto
  note crash = annotate_crashed_ok [OF inv t, OF _ refl]
  show ?thesis
  proof (cases a)
    case OShutdownAll
    then show ?thesis using crash [of "[0..<n]" True] fi n sub by (simp add: AnnotateShutdownAll_def AnnotateShutdown_def with_finfo_def)
  next
    case ORestartAll
    then show ?thesis using crash [of "[0..<n]" False] fi n sub by (simp add: AnnotateRestartAll_def AnnotateRestart_def with_finfo_def)
  next
    case (OShutdown ss)
    then show ?thesis using crash [of ss True] ok by (simp add: AnnotateShutdown_def)
  next
    case (ORestart ss)
    then show ?thesis using crash [of ss False] ok by (simp add: AnnotateRestart_def)
  qed (use ok connection_ok [OF inv t] two_partitions_ok [OF inv t] clear_ok [OF inv t] in simp_all)
qed

lemma AnnotateTest_inv: "fault_inv n no_faults t0 (AnnotateTest t0 desp n v)"
  by (auto simp: AnnotateTest_def AnnotateInfo_def on_annotation_def annotatePointColor_def clear_def mkFrameworkInfo_def no_faults_def
      fault_inv_def shows_faults_def records_faults_def timeline_def bars_defs Let_def)

section \<open>Properties\<close>

text \<open>
  C39. The fault annotation follows the reports. After any sequence of reports that a test of
  \<open>n\<close> servers makes (connections, two partitions, shutdowns, restarts, clears), with times
  that do not decrease, none of them fails; the sets of disconnected and of crashed servers that the
  framework keeps are the reported ones; a report that changes them shows the text for the new
  sets, or nothing if both are empty, two partitions show their own text, a clear shows nothing,
  and anything else leaves what is shown. The finished bars with a text are in order, do not
  overlap and end before the one that is going on began. There is one bar without a text,
  from time 0, for each clear reported while nothing was shown: \<open>annotateContinuousEnd\<close>
  ends an annotation that is not there.
\<close>

theorem fault_annotation_current:
  assumes "\<forall>x \<in> set ops. op_ok n (snd x)" and "sorted (t0 # map fst ops)"
  shows "returns (for_each do_op ops (AnnotateTest t0 desp n v))
    (\<lambda>v'. shows_faults n (fold (expected n) (map snd ops) no_faults) v' \<and> timeline (last (t0 # map fst ops)) (annotation v'))"
proof -
  let ?I = "\<lambda>ys v'. fault_inv n (fold (expected n) (map snd ys) no_faults) (last (t0 # map fst ys)) v'"
  have "returns (for_each do_op ops (AnnotateTest t0 desp n v)) (?I ops)"
  proof (rule for_each_invariant [where I = ?I])
    show "?I [] (AnnotateTest t0 desp n v)" by (simp add: AnnotateTest_inv)
  next
    fix ys x zs u
    assume ops: "ops = ys @ x # zs" and u: "?I ys u"
    obtain t a where x: "x = (t, a)" by (cases x)
    have "last (t0 # map fst ys) \<le> t"
      using assms(2) last_in_set [of "t0 # map fst ys"] unfolding ops x by (auto simp: sorted_append)
    then show "returns (do_op x u) (?I (ys @ [x]))"
      using do_op_ok [OF u, of t a] assms(1) unfolding ops x by auto
  qed
  then show ?thesis by (rule returns_mono) (simp add: fault_inv_def)
qed

theorem fault_annotation_current_witness:
  "\<exists>v'. for_each do_op [(2, OShutdown [1]), (5, OConnection [True, True, False]), (9, ORestart [1]), (10, OClear), (12, OClear)]
        (AnnotateTest 1 ''t'' 3 \<lparr>annotation = mkAnnotation, finfo = None\<rparr>) = Inr v' \<and>
     shows_faults 3 \<lparr>fl_disconnected = {}, fl_down = {}, fl_text = None, fl_idle_clears = 1\<rparr> v' \<and>
     map an_Desc (text_bars (annotation v')) =
       [''partition = [0 2] / crash = [1]'', ''partition = [2] [0] / crash = [1]'', ''partition = [2] [0 1]'']"
proof -
  let ?ops = "[(2, OShutdown [1]), (5, OConnection [True, True, False]), (9, ORestart [1]), (10, OClear), (12, OClear)]"
  let ?v0 = "AnnotateTest 1 ''t'' 3 \<lparr>annotation = mkAnnotation, finfo = None\<rparr>"
  have n: "{i. i < 3 \<and> \<not> [True, True, False] ! i} = {2 :: nat}" by (auto simp: less_Suc_eq numeral_3_eq_3)
  have "fold (expected 3) (map snd ?ops) no_faults = \<lparr>fl_disconnected = {}, fl_down = {}, fl_text = None, fl_idle_clears = 1\<rparr>"
    by (simp add: n no_faults_def now_faulty_def)
  then have "returns (for_each do_op ?ops ?v0)
      (\<lambda>v'. shows_faults 3 \<lparr>fl_disconnected = {}, fl_down = {}, fl_text = None, fl_idle_clears = 1\<rparr> v' \<and>
         timeline (last (1 # map fst ?ops)) (annotation v'))"
    using fault_annotation_current [of ?ops 3 1 "''t''" "\<lparr>annotation = mkAnnotation, finfo = None\<rparr>"]
    by (simp del: for_each.simps do_op.simps)
  moreover have "(case for_each do_op ?ops ?v0 of
      Inr v' \<Rightarrow> map an_Desc (text_bars (annotation v')) =
        [''partition = [0 2] / crash = [1]'', ''partition = [2] [0] / crash = [1]'', ''partition = [2] [0 1]''] | Inl _ \<Rightarrow> False)"
    by code_simp
  ultimately show ?thesis by (auto simp: returns_def)
qed

text \<open>
  Two slips. The reset of the checker's begin is lost, so that a second result without a begin is shown as
  an interval from the first begin; and ending an annotation that is not there shows an empty one from time 0.
\<close>

lemma checker_begin_kept:
  assumes "AnnotateCheckerEnd t desp details color v = Inr v'"
  shows "finfo v' = finfo v"
  using assms by (auto simp: AnnotateCheckerEnd_def with_finfo_def on_annotation_def Let_def split: option.splits if_splits)

lemma end_of_nothing:
  "continuous an tag = None \<Longrightarrow>
   annotations (annotateContinuousEnd t tag an) = annotations an @
     [\<lparr>an_Tag = tag, an_Start = 0, an_End = t, an_Desc = '''', an_Details = '''', an_Color = ''''\<rparr>]"
  by (simp add: annotateContinuousEnd_def concretize_def)

end
