(* ===== verification/Spec2Isabelle.thy ===== *)
theory Spec2Isabelle
  imports Lock LinearRaft RaftSafety MrTest KvRaft Shardcfg KvNetwork RsmTest Partitioner RaftTest Demux Labgob KvAppend Annotation Sockrpc
begin

text \<open>
  A verification of the laboratories of MIT 6.5840 (Go, under src/src): MapReduce, a key/value
  server with a lock, the Raft consensus protocol, a replicated key/value service on top of it,
  shard configurations, and the simulated network and the test framework they run in.

  \<^bold>\<open>The parts and their theories.\<close> A struct is a record, an operation one definition named after it,
  a goroutine or a loop around a blocking call a step relation whose steps are the critical sections.

  \<^item> \<open>Prelude\<close>: panics and fatal exits as the error of a result type (\<open>res\<close>), indexing and
    slicing with Go's bounds, wrapping 64-bit subtraction, the loop combinator \<open>for_each\<close>
    with its invariant rule, decimal numbers. \<open>Hash\<close>: FNV-1a.
  \<^item> \<open>Rpc\<close> (kvsrv1/rpc): messages and error strings. \<open>VersionedStore\<close>: the contract of a table
    with conditional puts, the locale \<open>versioned_store\<close>. \<open>KvSrv\<close> (kvsrv1/server.go) and \<open>KvRaft\<close>
    (kvraft1/server.go, client.go) interpret it. \<open>KvClerk\<close> (kvsrv1/client.go): the retry loops.
    \<open>Lock\<close> (kvsrv1/lock): clients of the lock under all interleavings. \<open>KvModel\<close> (models1): the sequential
    specification the tests use. \<open>Linear\<close> (kvtest1/porcupine.go): recorded histories
    and their linearizability, over the locale \<open>recorded_store\<close>; \<open>LinearRaft\<close>: the same for the clerks of
    kvraft1 over a group that executes one sequence of operations.
  \<^item> \<open>Labrpc\<close> (labrpc/labrpc.go): the simulated network, end points, servers and services, one
    request from the call to the reply. \<open>KvNetwork\<close>: a clerk's call over this network, to a server wired as the
    tester does it, is what \<open>KvClerk\<close> assumes of a call. \<open>Labgob\<close> (labgob): the checks around encoding/gob.
  \<^item> \<open>Persister\<close> (tester1/persister.go): stable storage, the locale \<open>stable_storage\<close>. \<open>RaftNode\<close>
    (raft1/raft.go): every critical section of a peer. \<open>RaftLocal\<close>: correctness of one peer.
    \<open>RaftSpec\<close>: the protocol in the abstract, over the locale \<open>quorum_system\<close>. \<open>RaftCluster\<close>: the
    peers with a network that loses, delays, repeats and reorders, and crashes. \<open>RaftSafety\<close>: the simulation between the two.
  \<^item> \<open>Rsm\<close> (kvraft1/rsm): the replicated state machine, over the locale \<open>state_machine\<close> that
    the counter service and the key/value service interpret. \<open>RsmTest\<close> (rsm/test.go, proxy.go): how the tests submit and check.
  \<^item> \<open>MapReduce\<close> (mr/worker.go, main/mrsequential.go, mrapps) and \<open>Coordinator\<close> (mr/coordinator.go):
    the computations, and the system of coordinator, workers and files. \<open>MrWorker\<close> (mr/worker.go): the worker
    processes with their files and calls step by step, simulated by that system. \<open>MrTest\<close> (mr/util.go): how the
    tests merge and compare outputs.
  \<^item> \<open>Shardcfg\<close> (shardkv1/shardcfg): configurations and rebalancing.
  \<^item> \<open>Tester\<close> (tester1/group.go, srv.go, clnts.go, daemonsrv.go, daemonclnt.go, config.go): groups of servers,
    partitions, restarts, clients. \<open>Demux\<close> (tester1/demux): many calls over one connection. \<open>Sockrpc\<close> (tester1/sockrpc,
    testsrv.go, and forward in daemonsrv.go and daemonclnt.go): calls between the server processes; \<open>Codec\<close>: encodings for the examples. \<open>Annotation\<close>
    (tester1/annotation.go): what the visualization of a test shows. \<open>RaftTest\<close> (raft1/server.go,
    test.go, proxy.go): the service and the checks of the Raft tests. \<open>KvTest\<close>, \<open>KvAppend\<close>
    (kvtest1/kvtest.go): the clients and checks of the key/value tests; \<open>Partitioner\<close>: their repartitioning of the servers.

  \<^bold>\<open>What is shown.\<close> For one Raft peer: no handler panics while indices and terms stay below \<open>2 ^ 64\<close>, a restart
  finds what it needs, an AppendEntries is the merge of two logs, the leader commits what a majority has acknowledged. For the group, in
  the scope described below: one leader per term, log matching, leader completeness, and that no two peers ever deliver different
  commands for an index, by refinement of the abstract protocol. The properties of this theory carry this up, in the same
  scope: the replicas of the key/value service hold the table that a single server has after the delivered operations, and
  the checks of the Raft tests pass. For the services: a put is performed at most once per version, a clerk's
  answer says whether its put was performed, recorded histories are linearizable (of the single server; and of kvraft1's
  clerks over a group that executes one sequence of operations, which \<open>LinearRaft\<close> does not derive from Raft), the lock
  excludes if its clients draw different values, \<open>Submit\<close> returns the result of its own operation, and the
  tests' clients and checks accept every run. MapReduce prints what the sequential program prints, with crashes and repeated tasks, and its tests accept every run;
  rebalancing ends and balances. The network executes a handler at most once per call, possibly after the call has failed; partitions isolate;
  replies go to the request they belong to, also across the processes of the servers.

  \<^bold>\<open>Choices.\<close> Draws of random numbers, clock readings, fates of messages and schedules are arguments. Theorems hold for
  all of them unless a hypothesis restricts them: mutual exclusion of the lock needs pairwise different draws, and
  \<open>Submit\<close>'s theorem identifiers that do not collide. The retry loops of the clerks and \<open>PutAtLeastOnce\<close> have fuel, one
  unit per iteration. \<open>Put\<close> of kvsrv1's clerk is shown to return as soon as a call is delivered (\<open>clerk_put_returns\<close>); of the
  other loops it is shown what they report if they return, and \<open>Put\<close> of kvraft1's clerk never returns when the
  answer is \<open>ErrNoKey\<close> (\<open>rclerk_put_never_returns\<close>). The loop of \<open>Rebalance\<close> is a partial
  function that is shown to end. Counters that the code keeps in Go's int are natural numbers or
  integers; versions and tags are machine words. Raft's indices and terms, \<^verbatim>\<open>uint64\<close> in the code, are natural numbers:
  subtraction wraps as in Go, sums are not reduced, so that the model is the code while they stay below
  \<open>2 ^ 64\<close> (\<open>raft_fits\<close>). Encodings (gob, JSON) are
  parameters with a round trip as hypothesis, or the list of the encoded values for stable storage; strings are
  lists of characters up to U+00FF.

  The theorems on the Raft group have two parameters. \<open>atomic\<close> excludes that an election starts at a
  peer that became leader after its ticker checked the role: without it two leaders of a term
  are possible (\<open>two_leaders_possible\<close>). \<open>snaps\<close> lets the services take snapshots: one peer is treated with them, the group's
  theorems beyond election safety without, because a follower acknowledges entries below its
  snapshot that it does not store (\<open>stale_append_acknowledged\<close>) and a restarted peer can panic
  (\<open>restarted_applier_panics\<close>), so that the code does not promise more.

  \<^bold>\<open>Not modelled.\<close> Dialling and listening on sockets, starting and stopping processes, command line programs (main),
  the drivers that only set up tests, drawing of the visualization and porcupine's
  search, memory statistics and timing; the clients, controller and groups of shardkv1, whose bodies are not written.
\<close>

section \<open>The replicated key/value service\<close>

text \<open>A run of the Raft group as the list of its states, and what a peer hands to its service in it.\<close>

definition raft_trace :: "nat \<Rightarrow> 'c cluster list \<Rightarrow> bool" where
  "raft_trace n ss \<longleftrightarrow> ss \<noteq> [] \<and> hd ss = boot n \<and>
     (\<forall>p. Suc p < length ss \<longrightarrow> raft_step n True False (ss ! p) (ss ! Suc p))"

definition delivered :: "'c cluster list \<Rightarrow> nat \<Rightarrow> 'c ApplyMsg \<Rightarrow> bool" where
  "delivered ss i m \<longleftrightarrow>
     (\<exists>p rf ms. p < length ss \<and> applier_second (node (ss ! p) i) = Inr (rf, ms) \<and> m \<in> set ms)"

lemma deliveredI:
  "p < length ss \<Longrightarrow> \<not> isl (applier_second (node (ss ! p) i)) \<Longrightarrow>
     m \<in> set (snd (projr (applier_second (node (ss ! p) i)))) \<Longrightarrow> delivered ss i m"
  unfolding delivered_def by (cases "applier_second (node (ss ! p) i)") auto

lemma trace_run: "raft_trace n ss \<Longrightarrow> q < length ss \<Longrightarrow> p \<le> q \<Longrightarrow> raft_run n True False (ss ! p) (ss ! q)"
proof (induction q)
  case (Suc q)
  show ?case
  proof (cases "p = Suc q")
    case False
    then have "raft_run n True False (ss ! p) (ss ! q)" using Suc by simp
    moreover have "raft_step n True False (ss ! q) (ss ! Suc q)" using Suc.prems by (simp add: raft_trace_def)
    ultimately show ?thesis unfolding raft_run_def by simp
  qed (simp add: raft_run_def)
qed (simp add: raft_run_def)

lemma trace_boot: "raft_trace n ss \<Longrightarrow> p < length ss \<Longrightarrow> raft_run n True False (boot n) (ss ! p)"
  using trace_run [of n ss p 0] by (auto simp: raft_trace_def hd_conv_nth)

lemma delivered_agree:
  assumes "raft_trace n ss" and "i < n" and "j < n" and "delivered ss i m" and "delivered ss j m'"
    and "CommandIndex m = CommandIndex m'"
  shows "MsgCommand m = MsgCommand m'"
proof -
  obtain p rf ms where p: "p < length ss" "applier_second (node (ss ! p) i) = Inr (rf, ms)" "m \<in> set ms"
    using assms(4) by (auto simp: delivered_def)
  obtain q rf' ms' where q: "q < length ss" "applier_second (node (ss ! q) j) = Inr (rf', ms')" "m' \<in> set ms'"
    using assms(5) by (auto simp: delivered_def)
  show ?thesis
  proof (cases "p \<le> q")
    case True
    then show ?thesis
      using applied_agree [OF trace_boot [OF assms(1) p(1)] trace_run [OF assms(1) q(1)] assms(2,3) p(2) q(2) p(3) q(3) assms(6)]
      by simp
  next
    case False
    then show ?thesis
      using applied_agree [OF trace_boot [OF assms(1) q(1)] trace_run [OF assms(1) p(1)] assms(3,2) q(2) p(2) q(3) p(3)] assms(6)
      by simp
  qed
qed

lemma applied_commands:
  "kv.apply_all sz rsm ms = Inr rsm' \<Longrightarrow> \<forall>m \<in> set ms. CommandValid m \<Longrightarrow> m \<in> set ms \<Longrightarrow> MsgCommand m \<noteq> None"
  by (induction ms arbitrary: rsm)
    (auto simp: bindr_eq_Inr applyReader_msg_def split: option.splits)

text \<open>
  C5. The replicated key/value service behaves as one server. In any run of the Raft group with
  atomic elections and without snapshots (messages lost, delayed, repeated and reordered, peers
  crashing and restarting), take two replicas that execute what their peers deliver, in index
  order from the start, up to the same index, at any moments: at each index both were given the same command,
  and both hold exactly the table of the single server of kvsrv1 after executing the operations of those commands
  in that order.
\<close>

theorem replicas_hold_the_same_table:
  assumes "raft_trace n ss" and "i < n" and "j < n"
    and "kv.apply_all sz rsm ms = Inr rsm'" and "rsm_sm rsm = new_RKVServer" and "in_order 0 ms = Some k"
    and "\<forall>m \<in> set ms. CommandValid m \<and> delivered ss i m"
    and "kv.apply_all sz' rsm2 ms2 = Inr rsm2'" and "rsm_sm rsm2 = new_RKVServer" and "in_order 0 ms2 = Some k"
    and "\<forall>m \<in> set ms2. CommandValid m \<and> delivered ss j m"
  shows "\<exists>ops. length ops = k \<and>
     (\<forall>p < k. \<exists>x. MsgCommand (ms ! p) = Some x \<and> MsgCommand (ms2 ! p) = Some x \<and> ops ! p = op_Command x) \<and>
     as_single (rsm_sm rsm') = foldl single_do MakeKVServer ops \<and>
     as_single (rsm_sm rsm2') = foldl single_do MakeKVServer ops"
proof -
  let ?log = "map (the \<circ> MsgCommand) ms"
  have A: "length ms = k" "\<And>p. p < k \<Longrightarrow> CommandIndex (ms ! p) = Suc p"
    using in_order_commands [OF assms(6)] assms(7) by auto
  have B: "length ms2 = k" "\<And>p. p < k \<Longrightarrow> CommandIndex (ms2 ! p) = Suc p"
    using in_order_commands [OF assms(10)] assms(11) by auto
  have some: "MsgCommand (ms ! p) = Some (?log ! p)" if "p < k" for p
    using applied_commands [OF assms(4), of "ms ! p"] assms(7) that A(1) by auto
  have faithA: "\<forall>m \<in> set ms. kv.faithful new_RKVServer ?log m"
  proof
    fix m
    assume "m \<in> set ms"
    then obtain p where "p < k" "m = ms ! p" using A(1) by (auto simp: in_set_conv_nth)
    with some [of p] A have "MsgCommand m = Some (?log ! p)" "CommandIndex m = Suc p" "p < length ?log" by simp_all
    then show "kv.faithful new_RKVServer ?log m"
      using assms(7) \<open>m \<in> set ms\<close> unfolding kv.faithful_def by simp
  qed
  have some2: "MsgCommand (ms2 ! p) = Some (?log ! p)" if p: "p < k" for p
  proof -
    have "MsgCommand (ms ! p) = MsgCommand (ms2 ! p)"
    proof (rule delivered_agree [OF assms(1-3)])
      show "delivered ss i (ms ! p)" using assms(7) p A(1) by simp
      show "delivered ss j (ms2 ! p)" using assms(11) p B(1) by simp
      show "CommandIndex (ms ! p) = CommandIndex (ms2 ! p)" using p A(2) B(2) by simp
    qed
    with some [OF p] show ?thesis by simp
  qed
  have faithB: "\<forall>m \<in> set ms2. kv.faithful new_RKVServer ?log m"
  proof
    fix m
    assume m: "m \<in> set ms2"
    then obtain p where p: "p < k" "m = ms2 ! p" using B(1) by (auto simp: in_set_conv_nth)
    with some2 [of p] A(1) B(2) have "MsgCommand m = Some (?log ! p)" "CommandIndex m = Suc p" "p < length ?log" by simp_all
    then show "kv.faithful new_RKVServer ?log m"
      using assms(11) m unfolding kv.faithful_def by simp
  qed
  have "as_single (rsm_sm rsm') = foldl single_do MakeKVServer (map op_Command (take k ?log))"
    using replica_single [OF assms(4,6) _ faithA] assms(5) by simp
  moreover have "as_single (rsm_sm rsm2') = foldl single_do MakeKVServer (map op_Command (take k ?log))"
    using replica_single [OF assms(8,10) _ faithB] assms(9) by simp
  moreover have "\<forall>p < k. \<exists>x. MsgCommand (ms ! p) = Some x \<and> MsgCommand (ms2 ! p) = Some x \<and> map op_Command (take k ?log) ! p = op_Command x"
  proof (intro allI impI)
    fix p
    assume "p < k"
    then show "\<exists>x. MsgCommand (ms ! p) = Some x \<and> MsgCommand (ms2 ! p) = Some x \<and> map op_Command (take k ?log) ! p = op_Command x"
      using A(1) by (intro exI [of _ "?log ! p"] conjI some some2) simp_all
  qed
  ultimately show ?thesis using A(1) by (intro exI [of _ "map op_Command (take k ?log)"]) simp
qed

text \<open>A run of three peers that agree on the put of \<^verbatim>\<open>demo_log\<close>.\<close>

fun exec_trace :: "nat \<Rightarrow> 'c event list \<Rightarrow> 'c cluster \<Rightarrow> 'c cluster list" where
  "exec_trace n [] s = [s]"
| "exec_trace n (ev # evs) s =
     (case exec n True ev s of None \<Rightarrow> [s] | Some s' \<Rightarrow> s # exec_trace n evs s')"

lemma exec_trace_steps:
  "hd (exec_trace n evs s) = s \<and> exec_trace n evs s \<noteq> [] \<and>
     (\<forall>p. Suc p < length (exec_trace n evs s) \<longrightarrow>
        raft_step n True False (exec_trace n evs s ! p) (exec_trace n evs s ! Suc p))"
proof (induction evs arbitrary: s)
  case (Cons ev evs)
  show ?case
  proof (cases "exec n True ev s")
    case (Some s')
    have "raft_step n True False s s'" using Some by (rule exec_step)
    moreover have "exec_trace n evs s' ! 0 = s'" using Cons.IH [of s'] hd_conv_nth [of "exec_trace n evs s'"] by metis
    ultimately show ?thesis using Some Cons.IH [of s'] by (auto simp: nth_Cons split: nat.splits)
  qed simp
qed simp

definition put_entries :: "kv_req Op AppendEntriesArgs" where
  "put_entries = \<lparr>ae_Term = 1, ae_LeaderID = 0, ae_PreviousLogIndex = 0, ae_PreviousLogTerm = 0,
     ae_Entries = [\<lparr>Command = Some (demo_log ! 0), Term = 1\<rparr>], ae_LeaderCommit = 0\<rparr>"

definition put_heartbeat :: "kv_req Op AppendEntriesArgs" where
  "put_heartbeat = \<lparr>ae_Term = 1, ae_LeaderID = 0, ae_PreviousLogIndex = 1, ae_PreviousLogTerm = 1,
     ae_Entries = [], ae_LeaderCommit = 1\<rparr>"

definition put_trace :: "kv_req Op cluster list" where
  "put_trace = exec_trace 3
     [Timeout 0 500, Tick 0, Campaign 0, Request 1 demo_args, Vote 0 1 1 (yes 1), Propose 0 (demo_log ! 0),
      Send 0, Append 0 1 put_entries, Reply 0 1 put_entries (zeroAE\<lparr>aer_Success := True\<rparr>), Commit 0, Send 0,
      Append 0 1 put_heartbeat] (boot 3)"

lemma put_trace_trace: "raft_trace 3 put_trace"
  unfolding raft_trace_def put_trace_def using exec_trace_steps by blast

lemma put_trace_delivered: "delivered put_trace 0 demo_put_msg" "delivered put_trace 1 demo_put_msg"
proof -
  have len: "length put_trace = 13" by code_simp
  have "\<not> isl (applier_second (node (put_trace ! 12) 0))" "\<not> isl (applier_second (node (put_trace ! 12) 1))"
    "snd (projr (applier_second (node (put_trace ! 12) 0))) = [demo_put_msg]"
    "snd (projr (applier_second (node (put_trace ! 12) 1))) = [demo_put_msg]" by code_simp+
  then show "delivered put_trace 0 demo_put_msg" "delivered put_trace 1 demo_put_msg"
    using len by (auto intro!: deliveredI [of 12])
qed

theorem replicas_hold_the_same_table_witness:
  "\<exists>rsm'. kv.apply_all (\<lambda>_. 0) demo_kv [demo_put_msg] = Inr rsm' \<and>
     as_single (rsm_sm rsm') = single_do MakeKVServer (op_Command (demo_log ! 0))"
proof -
  let ?rsm' = "demo_kv\<lparr>rsm_sm := fst (DoOp_Put new_RKVServer \<lparr>PutKey = ''k'', PutValue = ''x'', PutVersion = 0\<rparr>)\<rparr>"
  have run: "kv.apply_all (\<lambda>_. 0) demo_kv [demo_put_msg] = Inr ?rsm'"
    by (simp add: applyReader_msg_def demo_put_msg_def demo_log_def demo_kv_def map_prod_def split: prod.split)
  note d = put_trace_delivered
  have "raft_trace 3 put_trace" by (rule put_trace_trace)
  from replicas_hold_the_same_table [OF this _ _ run _ _ _ run, of 0 1 1] d
  obtain ops where ops: "length ops = 1" "\<forall>p < 1. \<exists>x. MsgCommand ([demo_put_msg] ! p) = Some x \<and> ops ! p = op_Command x"
    "as_single (rsm_sm ?rsm') = foldl single_do MakeKVServer ops"
    by (auto simp: demo_put_msg_def demo_kv_def)
  have "MsgCommand demo_put_msg = Some (demo_log ! 0)" by (simp add: demo_put_msg_def)
  then have "ops = [op_Command (demo_log ! 0)]" using ops(1,2) by (cases ops) auto
  then have "as_single (rsm_sm ?rsm') = single_do MakeKVServer (op_Command (demo_log ! 0))" using ops(3) by simp
  with run show ?thesis by blast
qed

section \<open>The Raft tests\<close>

lemma delivered_valid: "delivered ss i m \<Longrightarrow> CommandValid m"
  by (auto simp: delivered_def applier_second_def command_msgs_def bindr_eq_Inr split: if_splits)

text \<open>
  C35. The Raft tests' log checks accept every run. Let the peers of a group run with atomic
  elections and without snapshots, under any loss, reordering and crashes, and let their services
  report to the tester what their peers deliver, in any interleaving of the servers, where every report
  arrives and each life of a server reports the indices from 1 on in order, as the applier
  delivers them (\<open>applier_in_order\<close>). Then no check fails: no server is recorded with an apply
  error, \<open>nCommitted\<close> never stops the test, and it returns the number of servers that reported the
  index, with their common command.
\<close>

theorem log_checks_pass:
  assumes "raft_trace n ss" and "\<forall>(i, m) \<in> set evs. i < n \<and> delivered ss i m"
    and "\<forall>i < n. lives_in_order i evs"
  shows "returns (for_each (\<lambda>(i, m). applier_msg Delivered Delivered i m) evs (makeTest n)) (\<lambda>ts.
     (\<forall>i < n. applyErr (ts_srvs ts ! i) = NoErr) \<and>
     (\<forall>k. returns (nCommitted ts k) (\<lambda>(c, cmd). c = card {i. i < n \<and> reported evs i k} \<and>
        (\<forall>(i, m) \<in> set evs. CommandIndex m = k \<longrightarrow> MsgCommand m = cmd))))"
proof -
  define V where "V k = MsgCommand (snd (hd (filter (\<lambda>x. CommandIndex (snd x) = k) evs)))" for k
  have V: "MsgCommand m = V (CommandIndex m)" if "(i, m) \<in> set evs" for i m
  proof -
    let ?f = "filter (\<lambda>x. CommandIndex (snd x) = CommandIndex m) evs"
    have "?f \<noteq> []" using that by (auto simp: filter_empty_conv intro!: bexI [of _ "(i, m)"])
    then obtain j m' where h: "hd ?f = (j, m')" "(j, m') \<in> set ?f" by (metis hd_in_set prod.exhaust)
    then have "(j, m') \<in> set evs" "CommandIndex m' = CommandIndex m" by auto
    then have "MsgCommand m = MsgCommand m'"
      using assms(2) that by (intro delivered_agree [OF assms(1), of i j]) auto
    then show ?thesis using h(1) by (simp add: V_def)
  qed
  have "\<forall>(i, m) \<in> set evs. i < n \<and> CommandValid m \<and> MsgCommand m = V (CommandIndex m)"
    using assms(2) V delivered_valid by blast
  moreover have "reports_in_order evs"
    using assms(2,3) delivered_valid by (intro lives_reports_in_order) blast
  ultimately have "returns (for_each (\<lambda>(i, m). applier_msg Delivered Delivered i m) evs (makeTest n)) (books_ok n V evs)"
    by (rule applier_run_ok)
  then show ?thesis
  proof (rule returns_mono)
    fix ts
    assume b: "books_ok n V evs ts"
    have "returns (nCommitted ts k) (\<lambda>(c, cmd). c = card {i. i < n \<and> reported evs i k} \<and>
        (\<forall>(i, m) \<in> set evs. CommandIndex m = k \<longrightarrow> MsgCommand m = cmd))" for k
    proof -
      obtain cmd where c: "nCommitted ts k = Inr (card {i. i < n \<and> reported evs i k}, cmd)"
        "0 < card {i. i < n \<and> reported evs i k} \<longrightarrow> cmd = V k"
        using nCommitted_ok [OF b, of k] by (auto simp: returns_def)
      have "MsgCommand m = cmd" if m: "(i, m) \<in> set evs" "CommandIndex m = k" for i m
      proof -
        have "i \<in> {i. i < n \<and> reported evs i k}" using m assms(2) by (auto simp: reported_def)
        moreover have "finite {i. i < n \<and> reported evs i k}" by simp
        ultimately have "0 < card {i. i < n \<and> reported evs i k}" using card_gt_0_iff by blast
        then show ?thesis using c(2) V [OF m(1)] m(2) by simp
      qed
      then show ?thesis using c(1) by auto
    qed
    then show "(\<forall>i < n. applyErr (ts_srvs ts ! i) = NoErr) \<and>
     (\<forall>k. returns (nCommitted ts k) (\<lambda>(c, cmd). c = card {i. i < n \<and> reported evs i k} \<and>
        (\<forall>(i, m) \<in> set evs. CommandIndex m = k \<longrightarrow> MsgCommand m = cmd)))"
      using b by (auto simp: books_ok_def)
  qed
qed

theorem log_checks_pass_witness:
  "\<exists>ts. for_each (\<lambda>(i, m). applier_msg Delivered Delivered i m) [(0, demo_put_msg), (1, demo_put_msg)] (makeTest 3) = Inr ts \<and>
     applyErr (ts_srvs ts ! 1) = NoErr \<and> (\<exists>cmd. nCommitted ts 1 = Inr (2, cmd))"
proof -
  let ?evs = "[(0, demo_put_msg), (1, demo_put_msg)] :: (nat \<times> kv_req Op ApplyMsg) list"
  have ev: "\<forall>(i, m) \<in> set ?evs. i < 3 \<and> delivered put_trace i m" using put_trace_delivered by simp
  have ord: "\<forall>i < 3. lives_in_order i ?evs"
  proof (intro allI impI)
    fix i :: nat
    have "map snd (filter (\<lambda>x. fst x = i) ?evs) = concat (if i < 2 then [[demo_put_msg]] else [])" by auto
    moreover have "\<forall>ms \<in> set (if i < 2 then [[demo_put_msg]] else []). in_order 0 ms \<noteq> None" by (simp add: demo_put_msg_def)
    ultimately show "lives_in_order i ?evs" unfolding lives_in_order_def by blast
  qed
  have "CommandIndex demo_put_msg = 1" by (simp add: demo_put_msg_def)
  then have "{i. i < 3 \<and> reported ?evs i 1} = {0, 1}" by (auto simp: reported_def)
  then have c: "card {i. i < 3 \<and> reported ?evs i 1} = 2" by simp
  obtain ts where ts: "for_each (\<lambda>(i, m). applier_msg Delivered Delivered i m) ?evs (makeTest 3) = Inr ts"
    "\<forall>i < 3. applyErr (ts_srvs ts ! i) = NoErr"
    "\<forall>k. returns (nCommitted ts k) (\<lambda>(c, cmd). c = card {i. i < 3 \<and> reported ?evs i k} \<and>
        (\<forall>(i, m) \<in> set ?evs. CommandIndex m = k \<longrightarrow> MsgCommand m = cmd))"
    using log_checks_pass [OF put_trace_trace ev ord] unfolding returns_def by blast
  have "\<exists>cmd. nCommitted ts 1 = Inr (2, cmd)" using ts(3) [rule_format, of 1] c by (auto simp: returns_def)
  with ts(1,2) show ?thesis by auto
qed

text \<open>
  The Raft tests' check for a single leader accepts every run. If the states that a round of
  \<open>checkOneLeader\<close> collects were taken at any moments of a run with atomic elections, one
  for each connected server, the round does not fail the test for two leaders of a term; it
  finds no leader only when no server asked was one, and otherwise returns the leader of the
  latest term among those that were.
\<close>

theorem leader_check_passes:
  assumes "raft_trace n ss" and "length obs = n"
    and "\<forall>i < n. obs ! i = None \<or> (\<exists>p < length ss. obs ! i = Some (GetState (node (ss ! p) i)))"
  shows "returns (leader_round obs) (\<lambda>r. case r of
      None \<Rightarrow> (\<forall>i < n. \<forall>t. obs ! i \<noteq> Some (t, True))
    | Some l \<Rightarrow> l < n \<and> (\<exists>t. obs ! l = Some (t, True) \<and> (\<forall>i < n. \<forall>t'. obs ! i = Some (t', True) \<longrightarrow> t' \<le> t)))"
  unfolding assms(2) [symmetric]
proof (rule leader_round_ok)
  fix t i j
  assume "(t, i) \<in> set (claims obs)" and "(t, j) \<in> set (claims obs)"
  then have ij: "i < n" "obs ! i = Some (t, True)" "j < n" "obs ! j = Some (t, True)" using assms(2) by (auto simp: claims_iff)
  obtain p where p: "p < length ss" "role (node (ss ! p) i) = Leader" "current_term (node (ss ! p) i) = t"
    using assms(3) ij(1,2) by (fastforce simp: GetState_def)
  obtain q where q: "q < length ss" "role (node (ss ! q) j) = Leader" "current_term (node (ss ! q) j) = t"
    using assms(3) ij(3,4) by (fastforce simp: GetState_def)
  show "i = j"
  proof (cases "p \<le> q")
    case True
    show ?thesis
      by (rule leader_unique_run [OF trace_boot [OF assms(1) p(1)] trace_run [OF assms(1) q(1) True] ij(1,3) p(2) q(2)])
        (simp add: p q)
  next
    case False
    then have "q \<le> p" by simp
    have "j = i"
      by (rule leader_unique_run [OF trace_boot [OF assms(1) q(1)] trace_run [OF assms(1) p(1) \<open>q \<le> p\<close>] ij(3,1) q(2) p(2)])
        (simp add: p q)
    then show ?thesis by simp
  qed
qed

theorem leader_check_passes_witness:
  "leader_round [Some (GetState (node (put_trace ! 12) 0)), None, Some (GetState (node (put_trace ! 0) 2))] = Inr (Some 0)"
proof -
  let ?obs = "[Some (GetState (node (put_trace ! 12) 0)), None, Some (GetState (node (put_trace ! 0) 2))]"
  have len: "length put_trace = 13" by code_simp
  have g: "GetState (node (put_trace ! 12) 0) = (1, True)" "GetState (node (put_trace ! 0) 2) = (0, False)" by code_simp+
  have "?obs ! i = None \<or> (\<exists>p < length put_trace. ?obs ! i = Some (GetState (node (put_trace ! p) i)))" if "i < 3" for i
  proof -
    consider "i = 0" | "i = 1" | "i = 2" using \<open>i < 3\<close> by linarith
    then show ?thesis using len by cases (auto intro: exI [of _ 12] exI [of _ 0])
  qed
  then have "\<forall>i < 3. ?obs ! i = None \<or> (\<exists>p < length put_trace. ?obs ! i = Some (GetState (node (put_trace ! p) i)))" by blast
  from leader_check_passes [OF put_trace_trace _ this] obtain r where r: "leader_round ?obs = Inr r"
    "case r of None \<Rightarrow> (\<forall>i < 3. \<forall>t. ?obs ! i \<noteq> Some (t, True))
     | Some l \<Rightarrow> l < 3 \<and> (\<exists>t. ?obs ! l = Some (t, True) \<and> (\<forall>i < 3. \<forall>t'. ?obs ! i = Some (t', True) \<longrightarrow> t' \<le> t))"
    by (auto simp: returns_def)
  have o: "?obs ! 0 = Some (1, True)" "(0 :: nat) < 3" using g by simp_all
  obtain l where "r = Some l"
  proof (cases r)
    case None
    then have "\<forall>i < 3. \<forall>t. ?obs ! i \<noteq> Some (t, True)" using r(2) by (simp only: option.case)
    then show ?thesis using o by blast
  qed
  then obtain t where l: "r = Some l" "l < 3" "?obs ! l = Some (t, True)" using r(2) by (simp only: option.case) blast
  then consider "l = 0" | "l = 1" | "l = 2" by linarith
  then have "l = 0" using l(3) g by cases simp_all
  then show ?thesis using r(1) l(1) by simp
qed

end
